(* ===== verification/Prelude.thy ===== *)
theory Prelude
  imports Main "HOL-Library.Word"
begin

text \<open>
  What the component theories share: the harness's integer types (\<open>inc/ints.h\<close>), the result
  type of operations that can end in \<open>fail()\<close> (\<open>inc/abort.h\<close>), a contract for encoder and decoder
  pairs, and the generic word lemmas the components are proved with.
\<close>

unbundle bit_operations_syntax

section \<open>Integer types\<close>

type_synonym u8 = "8 word"
type_synonym u16 = "16 word"
type_synonym u32 = "32 word"
type_synonym u64 = "64 word"

text \<open>
  Byte memory: what a \<open>char*\<close> points into. Addresses wrap at 64 bits, as pointer arithmetic on
  the target does.
\<close>

type_synonym mem8 = "u64 \<Rightarrow> u8"

section \<open>Operations that can fail\<close>

text \<open>
  \<open>fail()\<close> prints a message, switches to EL1 and stops the machine: nothing after it runs. An
  operation that can fail returns a sum, \<open>Inl\<close> the reason or \<open>Inr\<close> the result; \<open>rbind\<close> is the
  sequencing of the C statements.
\<close>

fun rbind :: "'e + 'a \<Rightarrow> ('a \<Rightarrow> 'e + 'b) \<Rightarrow> 'e + 'b" where
  "rbind (Inl e) f = Inl e"
| "rbind (Inr x) f = f x"

lemma rbind_Inr_iff [simp]: "rbind m f = Inr y \<longleftrightarrow> (\<exists>x. m = Inr x \<and> f x = Inr y)"
  by (cases m) auto

lemma rbind_Inl_iff:
  "rbind m f = Inl e \<longleftrightarrow> m = Inl e \<or> (\<exists>x. m = Inr x \<and> f x = Inl e)"
  by (cases m) auto

lemma rbind_cong [fundef_cong]:
  "m = m' \<Longrightarrow> (\<And>x. m' = Inr x \<Longrightarrow> f x = f' x) \<Longrightarrow> rbind m f = rbind m' f'"
  by (cases m') auto

lemma rbind_assoc: "rbind (rbind m f) g = rbind m (\<lambda>x. rbind (f x) g)"
  by (cases m) auto

lemma rbind_return [simp]: "rbind m Inr = m"
  by (cases m) auto

definition guard :: "bool \<Rightarrow> 'e \<Rightarrow> 'e + unit" where
  "guard b e = (if b then Inr () else Inl e)"

lemma guard_Inr_iff [simp]: "guard b e = Inr u \<longleftrightarrow> b"
  by (auto simp: guard_def)

lemma rbind_guard [simp]: "rbind (guard b e) f = (if b then f () else Inl e)"
  by (simp add: guard_def)

text \<open>A loop over a list whose body may fail.\<close>

fun rfold :: "('x \<Rightarrow> 's \<Rightarrow> 'e + 's) \<Rightarrow> 'x list \<Rightarrow> 's \<Rightarrow> 'e + 's" where
  "rfold f [] s = Inr s"
| "rfold f (x # xs) s = rbind (f x s) (rfold f xs)"

lemma rfold_append: "rfold f (xs @ ys) s = rbind (rfold f xs s) (rfold f ys)"
proof (induction xs arbitrary: s)
  case (Cons x xs)
  then show ?case by (cases "f x s") auto
qed simp

lemma rfold_snoc: "rfold f (xs @ [x]) s = rbind (rfold f xs s) (f x)"
proof -
  have "rfold f [x] = f x" by (rule ext) (simp add: rbind_assoc flip: fun_eq_iff, metis rbind_return rfold.simps(1) ext)
  then show ?thesis by (simp only: rfold_append)
qed

lemma rfold_invariant:
  assumes "rfold f xs s = Inr t" and "P s"
    and "\<And>x s s'. x \<in> set xs \<Longrightarrow> P s \<Longrightarrow> f x s = Inr s' \<Longrightarrow> P s'"
  shows "P t"
  using assms by (induction xs arbitrary: s) auto

lemma rfold_total:
  assumes "P s" and "\<And>x s. x \<in> set xs \<Longrightarrow> P s \<Longrightarrow> \<exists>s'. f x s = Inr s' \<and> P s'"
  shows "\<exists>t. rfold f xs s = Inr t \<and> P t"
  using assms
proof (induction xs arbitrary: s)
  case (Cons x xs)
  then obtain s' where "f x s = Inr s'" "P s'" by (meson list.set_intros(1))
  moreover from Cons.IH [OF \<open>P s'\<close>] Cons.prems(2)
  obtain t where "rfold f xs s' = Inr t" "P t" by auto
  ultimately show ?case by auto
qed simp

text \<open>
  A \<open>while\<close> loop whose body may fail, with fuel: running out of it is the failure \<open>oof\<close>. The rule
  asks for a measure below the fuel, so what it proves includes that the loop ends.
\<close>

fun rwhile :: "nat \<Rightarrow> 'e \<Rightarrow> ('s \<Rightarrow> bool) \<Rightarrow> ('s \<Rightarrow> 'e + 's) \<Rightarrow> 's \<Rightarrow> 'e + 's" where
  "rwhile 0 oof b f s = (if b s then Inl oof else Inr s)"
| "rwhile (Suc n) oof b f s = (if b s then rbind (f s) (rwhile n oof b f) else Inr s)"

lemma rwhile_total:
  assumes "I s" and "\<And>s. I s \<Longrightarrow> b s \<Longrightarrow> \<exists>s'. f s = Inr s' \<and> I s' \<and> \<mu> s' < (\<mu> s :: nat)" and "\<mu> s \<le> n"
  shows "\<exists>t. rwhile n oof b f s = Inr t \<and> I t \<and> \<not> b t"
  using assms(1,3)
proof (induction n arbitrary: s)
  case 0
  then show ?case using assms(2) [of s] by (cases "b s") auto
next
  case (Suc n)
  show ?case
  proof (cases "b s")
    case True
    with assms(2) Suc.prems obtain s' where "f s = Inr s'" "I s'" "\<mu> s' < \<mu> s" by blast
    with Suc.IH [of s'] Suc.prems True show ?thesis by auto
  qed (use Suc.prems in auto)
qed

lemma rwhile_invariant:
  assumes "rwhile n oof b f s = Inr t" "I s" "\<And>s s'. I s \<Longrightarrow> b s \<Longrightarrow> f s = Inr s' \<Longrightarrow> I s'"
  shows "I t"
  using assms(1,2) by (induction n arbitrary: s) (auto split: if_splits intro: assms(3))

section \<open>Encoders and decoders\<close>

text \<open>
  Several components hold a writer and a reader of the same format. The contract: what the writer
  produces from a well-formed value, the reader gives back. Injectivity of the writer and the
  transfer of equality follow once and for all.
\<close>

locale codec =
  fixes enc :: "'a \<Rightarrow> 'c"
    and dec :: "'c \<Rightarrow> 'a"
    and wf :: "'a \<Rightarrow> bool"
  assumes dec_enc: "wf x \<Longrightarrow> dec (enc x) = x"
begin

lemma enc_inj: "wf x \<Longrightarrow> wf y \<Longrightarrow> enc x = enc y \<Longrightarrow> x = y"
  by (metis dec_enc)

lemma enc_eq_iff: "wf x \<Longrightarrow> wf y \<Longrightarrow> enc x = enc y \<longleftrightarrow> x = y"
  by (metis dec_enc)

lemma dec_on_image: "c \<in> enc ` Collect wf \<Longrightarrow> enc (dec c) = c"
  by (auto simp: dec_enc)

end

section \<open>Words\<close>

lemma div_bounds: "0 < n \<Longrightarrow> m div n * n \<le> m \<and> m < m div n * n + (n :: nat)"
  using div_mult_mod_eq [of m n] mod_less_divisor [of n m] by linarith

lemma div_add_le: "0 < n \<Longrightarrow> (a + b) div n \<le> a div n + b div n + (1 :: nat)"
proof -
  assume n: "0 < n"
  have "a = a div n * n + a mod n" "b = b div n * n + b mod n" "a mod n < n" "b mod n < n"
    using n by simp_all
  then have "a + b < a div n * n + b div n * n + 2 * n" by linarith
  then have "a + b < (a div n + b div n + 2) * n" by (simp add: algebra_simps)
  then have "(a + b) div n < a div n + b div n + 2" using n by (simp only: div_less_iff_less_mult)
  then show ?thesis by simp
qed

lemma unat_push_bit_one: "n < LENGTH('a::len) \<Longrightarrow> unat (push_bit n (1 :: 'a word)) = 2 ^ n"
  by (simp add: unsigned_push_bit_eq del: push_bit_of_1)

lemma unat_take_bit: "unat (take_bit n (w :: 'a::len word)) = unat w mod 2 ^ n"
  by (simp add: unsigned_take_bit_eq flip: take_bit_eq_mod)

lemma unat_drop_bit: "unat (drop_bit n (w :: 'a::len word)) = unat w div 2 ^ n"
proof -
  have "take_bit LENGTH('a) (unat w) = unat w"
    by (simp add: take_bit_nat_eq_self)
  then show ?thesis
    unfolding unsigned_drop_bit_eq by (simp only: drop_bit_eq_div)
qed

lemma push_bit_one_minus_one: "push_bit n 1 - 1 = (mask n :: 'a::len word)"
  by (simp add: mask_eq_exp_minus_1 push_bit_of_1)

lemma unat_mask:
  assumes "n < LENGTH('a::len)"
  shows "unat (mask n :: 'a word) = 2 ^ n - 1"
proof -
  have "(1 :: 'a word) \<le> push_bit n 1"
    using unat_push_bit_one [OF assms] by (simp only: word_le_nat_alt) simp
  then have "unat (push_bit n 1 - 1 :: 'a word) = unat (push_bit n 1 :: 'a word) - unat (1 :: 'a word)"
    by (simp only: unat_sub word_le_nat_alt)
  then show ?thesis
    by (simp only: push_bit_one_minus_one unat_push_bit_one [OF assms] unat_1)
qed

lemma unat_shift_right_1: "unat (drop_bit (Suc 0) (w :: 'a::len word)) = unat w div 2"
  using unat_drop_bit [of 1 w] by simp

lemma unat_add_no_wrap:
  "unat (a :: 'a::len word) + unat b < 2 ^ LENGTH('a) \<Longrightarrow> unat (a + b) = unat a + unat b"
  by (simp add: unat_add_lem)

lemma unat_sub_no_wrap: "b \<le> a \<Longrightarrow> unat (a - b :: 'a::len word) = unat a - unat b"
  by (simp add: unat_sub word_le_nat_alt)

lemma u64_unat_lt [simp, intro]: "unat (x :: u64) < 18446744073709551616"
  using unsigned_less [of x, where 'a = nat] by simp

lemma u32_unat_lt [simp, intro]: "unat (x :: u32) < 4294967296"
  using unsigned_less [of x, where 'a = nat] by simp

lemma u8_unat_lt [simp, intro]: "unat (x :: u8) < 256"
  using unsigned_less [of x, where 'a = nat] by simp

end
