(* ===== verification/Bits.thy ===== *)
theory Bits
  imports Prelude
begin

text \<open>
  Bit and alignment macros (\<open>inc/bitwise.h\<close>) and the integer helpers of \<open>lib/bits.c\<close>: the binary
  logarithm and the big-endian readers and writers that the device-tree parser, the hash library and
  the test hasher use. Widths and wrap-around are those of the 64-bit target.
\<close>

section \<open>The macros of bitwise.h\<close>

definition BITMASK :: "nat \<Rightarrow> u64" where
  "BITMASK n = push_bit n 1 - 1"

definition BIT :: "u64 \<Rightarrow> nat \<Rightarrow> u64" where
  "BIT x i = drop_bit i x AND 1"

definition BIT_SLICE :: "u64 \<Rightarrow> nat \<Rightarrow> nat \<Rightarrow> u64" where
  "BIT_SLICE x hi lo = drop_bit lo x AND (push_bit (1 + hi - lo) 1 - 1)"

definition IS_ALIGNED :: "u64 \<Rightarrow> nat \<Rightarrow> bool" where
  "IS_ALIGNED v bits \<longleftrightarrow> (v AND (push_bit bits 1 - 1)) = 0"

definition IS_ALIGNED_TO :: "u64 \<Rightarrow> u64 \<Rightarrow> bool" where
  "IS_ALIGNED_TO v to \<longleftrightarrow> v mod to = 0"

definition ALIGN_POW2 :: "u64 \<Rightarrow> u64 \<Rightarrow> u64" where
  "ALIGN_POW2 v to = v AND NOT (to - 1)"

definition ALIGN_TO :: "u64 \<Rightarrow> nat \<Rightarrow> u64" where
  "ALIGN_TO v bits = v AND NOT (push_bit bits 1 - 1)"

definition ALIGN_UP :: "u64 \<Rightarrow> nat \<Rightarrow> u64" where
  "ALIGN_UP v bits = (v + (push_bit bits 1 - 1)) AND NOT (push_bit bits 1 - 1)"

definition ALIGN_UP_TO :: "u64 \<Rightarrow> u64 \<Rightarrow> u64" where
  "ALIGN_UP_TO v to = (if v mod to = 0 then v else v + (- v) mod to + to)"

definition MINu :: "u64 \<Rightarrow> u64 \<Rightarrow> u64" where
  "MINu a b = (if a < b then a else b)"

section \<open>lib/bits.c\<close>

text \<open>
  The loop shifts \<open>n\<close> until it is 1. It is only entered with \<open>n \<noteq> 0\<close>, and from there never
  reaches 0 without passing 1, so stopping at \<open>n \<le> 1\<close> is stopping at 1.
\<close>

function log2_loop :: "u64 \<Rightarrow> nat \<Rightarrow> nat" where
  "log2_loop n k = (if n \<le> 1 then k else log2_loop (drop_bit 1 n) (Suc k))"
  by pat_completeness auto
termination
  by (relation "measure (\<lambda>(n, k). unat n)") (auto simp: unat_drop_bit word_le_nat_alt)

declare log2_loop.simps [simp del]

definition log2 :: "u64 \<Rightarrow> nat" where
  "log2 n = (if n = 0 then 0 else log2_loop n 0)"

definition read_be :: "mem8 \<Rightarrow> u64 \<Rightarrow> u32" where
  "read_be m p =
     push_bit 24 (ucast (m p)) + push_bit 16 (ucast (m (p + 1))) +
     push_bit 8 (ucast (m (p + 2))) + ucast (m (p + 3))"

definition write_be :: "mem8 \<Rightarrow> u64 \<Rightarrow> u32 \<Rightarrow> mem8" where
  "write_be m p v =
     fold (\<lambda>i m. m(p + of_nat i := ucast (drop_bit (24 - 8 * i) v AND 0xff))) [0..<4] m"

definition read_be64 :: "mem8 \<Rightarrow> u64 \<Rightarrow> u64" where
  "read_be64 m p =
     (let bs = [m (p + 7), m (p + 6), m (p + 5), m (p + 4), m (p + 3), m (p + 2), m (p + 1), m p]
      in fold (\<lambda>i x. push_bit 8 x + ucast (bs ! i)) (rev [0..<8]) 0)"

definition write_be64 :: "mem8 \<Rightarrow> u64 \<Rightarrow> u64 \<Rightarrow> mem8" where
  "write_be64 m p v =
     fold (\<lambda>i m. m(p + of_nat i := ucast (drop_bit (56 - 8 * i) v AND 0xff))) [0..<8] m"

section \<open>What the macros compute\<close>

named_theorems bit_macros \<open>the macros of bitwise.h in terms of the library's bit operations\<close>

lemma BITMASK_mask [bit_macros]: "BITMASK n = mask n"
  by (simp add: BITMASK_def mask_eq_exp_minus_1 push_bit_of_1)

lemma BIT_take_bit [bit_macros]: "BIT x i = take_bit 1 (drop_bit i x)"
  by (simp add: BIT_def take_bit_eq_mask)

lemma BIT_of_bool: "BIT x i = of_bool (bit x i)"
  by (rule bit_eqI) (auto simp: BIT_def bit_simps)

lemma BIT_SLICE_take_bit [bit_macros]: "BIT_SLICE x hi lo = take_bit (1 + hi - lo) (drop_bit lo x)"
  by (simp add: BIT_SLICE_def take_bit_eq_mask mask_eq_exp_minus_1 push_bit_of_1)

lemma IS_ALIGNED_take_bit [bit_macros]: "IS_ALIGNED v n \<longleftrightarrow> take_bit n v = 0"
  by (simp add: IS_ALIGNED_def take_bit_eq_mask mask_eq_exp_minus_1 push_bit_of_1)

lemma IS_ALIGNED_dvd: "IS_ALIGNED v n \<longleftrightarrow> 2 ^ n dvd unat v"
  by (metis IS_ALIGNED_take_bit dvd_eq_mod_eq_0 unat_eq_zero unat_take_bit)

lemma ALIGN_TO_push_drop [bit_macros]: "ALIGN_TO v n = push_bit n (drop_bit n v)"
  unfolding ALIGN_TO_def push_bit_one_minus_one
  by (rule bit_eqI) (auto simp: bit_simps)

lemma ALIGN_UP_ALIGN_TO: "ALIGN_UP v n = ALIGN_TO (v + mask n) n"
  by (simp add: ALIGN_UP_def ALIGN_TO_def mask_eq_exp_minus_1 push_bit_of_1)

lemma unat_ALIGN_TO: "unat (ALIGN_TO v n) = unat v div 2 ^ n * 2 ^ n"
proof -
  have "ALIGN_TO v n + take_bit n v = v"
    by (simp add: ALIGN_TO_push_drop bits_ident)
  moreover have "unat (push_bit n (drop_bit n v)) + unat (take_bit n v) = unat v"
  proof -
    have "push_bit n (drop_bit n v) \<le> v"
    proof -
      have "push_bit n (drop_bit n v) = v AND NOT (mask n)"
        by (rule bit_eqI) (auto simp: bit_simps)
      then show ?thesis by (simp add: word_and_le2)
    qed
    then have "unat (v - push_bit n (drop_bit n v)) = unat v - unat (push_bit n (drop_bit n v))"
      by (rule unat_sub_no_wrap)
    moreover have "v - push_bit n (drop_bit n v) = take_bit n v"
      using bits_ident [of n v] by (metis add_diff_cancel_left')
    ultimately show ?thesis
      using \<open>push_bit n (drop_bit n v) \<le> v\<close> by (simp add: word_le_nat_alt)
  qed
  ultimately show ?thesis
    by (simp add: ALIGN_TO_push_drop unat_take_bit)
      (metis add_diff_cancel_right' minus_mod_eq_div_mult)
qed

lemma ALIGN_TO_aligned: "IS_ALIGNED (ALIGN_TO v n) n"
  by (simp add: IS_ALIGNED_dvd unat_ALIGN_TO)

lemma ALIGN_TO_id: "IS_ALIGNED v n \<Longrightarrow> ALIGN_TO v n = v"
  by (metis IS_ALIGNED_dvd dvd_div_mult_self unat_ALIGN_TO word_unat_eq_iff)

lemma unat_ALIGN_UP:
  assumes "unat v + 2 ^ n \<le> 2 ^ 64" and "n < 64"
  shows "unat (ALIGN_UP v n) = (unat v + (2 ^ n - 1)) div 2 ^ n * 2 ^ n"
proof -
  have m: "unat (mask n :: u64) = 2 ^ n - 1"
    using assms(2) by (simp add: unat_mask)
  have "(0::nat) < 2 ^ n" by simp
  then have "unat v + unat (mask n :: u64) < 2 ^ LENGTH(64)"
    unfolding m len_num1 len_bit0 using assms(1) by simp
  then show ?thesis
    by (simp add: ALIGN_UP_ALIGN_TO unat_ALIGN_TO unat_add_no_wrap m)
qed

lemma ALIGN_UP_least:
  assumes "unat v + 2 ^ n \<le> 2 ^ 64" and "n < 64"
  shows "IS_ALIGNED (ALIGN_UP v n) n" and "v \<le> ALIGN_UP v n"
    and "unat (ALIGN_UP v n) < unat v + 2 ^ n"
proof -
  show "IS_ALIGNED (ALIGN_UP v n) n"
    by (simp add: ALIGN_UP_ALIGN_TO ALIGN_TO_aligned)
  have pos: "(0::nat) < 2 ^ n" by simp
  have d: "(unat v + (2 ^ n - 1)) div 2 ^ n * 2 ^ n + (unat v + (2 ^ n - 1)) mod 2 ^ n
      = unat v + (2 ^ n - 1)"
    by (rule div_mult_mod_eq)
  have "(unat v + (2 ^ n - 1)) mod 2 ^ n \<le> 2 ^ n - 1"
    using mod_less_divisor [OF pos, of "unat v + (2 ^ n - 1)"] by linarith
  then have "unat v \<le> unat (ALIGN_UP v n)"
    unfolding unat_ALIGN_UP [OF assms] using d pos by linarith
  then show "v \<le> ALIGN_UP v n" by (simp only: word_le_nat_alt)
  show "unat (ALIGN_UP v n) < unat v + 2 ^ n"
    using d unat_ALIGN_UP [OF assms] pos by linarith
qed

text \<open>
  \<open>ALIGN_UP_TO\<close> adds one multiple too many to a value that is not aligned: the result is aligned
  (for a power of two) but not the least one.
\<close>

lemma ALIGN_UP_TO_overshoots: "ALIGN_UP_TO 5 4 = 12" "ALIGN_UP 5 2 = 8"
  by (simp_all add: ALIGN_UP_TO_def ALIGN_UP_def)

section \<open>The binary logarithm\<close>

lemma log2_loop_bounds:
  "n \<noteq> 0 \<Longrightarrow> k \<le> log2_loop n k \<and> 2 ^ (log2_loop n k - k) \<le> unat n
     \<and> unat n < 2 ^ (Suc (log2_loop n k) - k)"
proof (induction n k rule: log2_loop.induct)
  case (1 n k)
  show ?case
  proof (cases "n \<le> 1")
    case True
    then have "unat n = 1"
      using 1(2) unat_eq_zero [of n] by (simp add: word_le_nat_alt)
    then show ?thesis using True by (simp add: log2_loop.simps [of n k])
  next
    case False
    then have u: "unat (drop_bit (Suc 0) n) = unat n div 2" and "2 \<le> unat n"
      by (simp_all add: unat_shift_right_1 word_le_nat_alt)
    then have nz: "drop_bit (Suc 0) n \<noteq> 0" by (metis unat_0 div_greater_zero_iff less_numeral_extra(3) zero_less_numeral \<open>2 \<le> unat n\<close>)
    define l where "l = log2_loop (drop_bit 1 n) (Suc k)"
    have l: "log2_loop n k = l" using False by (simp add: log2_loop.simps [of n k] l_def)
    from 1 False nz have "Suc k \<le> l" "2 ^ (l - Suc k) \<le> unat n div 2" "unat n div 2 < 2 ^ (Suc l - Suc k)"
      by (simp_all add: l_def flip: u)
    moreover from this have "l - k = Suc (l - Suc k)" "Suc l - k = Suc (Suc l - Suc k)" by arith+
    ultimately show ?thesis unfolding l by (simp del: drop_bit_Suc) linarith
  qed
qed

lemma log2_bounds:
  assumes "n \<noteq> 0"
  shows "2 ^ log2 n \<le> unat n \<and> unat n < 2 ^ Suc (log2 n)"
  using log2_loop_bounds [OF assms, of 0] assms by (simp add: log2_def)

lemma one_less_numeral_2: "(1::nat) < 2"
  by simp

lemma log2_exact: "k < 64 \<Longrightarrow> log2 (push_bit k 1) = k"
proof -
  assume k: "k < 64"
  let ?w = "push_bit k 1 :: u64"
  have u: "unat ?w = 2 ^ k" using k by (simp only: unat_push_bit_one len_num1 len_bit0)
  then have "?w \<noteq> 0" by (metis unat_0 power_not_zero zero_neq_numeral)
  from log2_bounds [OF this] have "(2::nat) ^ log2 ?w \<le> 2 ^ k" "(2::nat) ^ k < 2 ^ Suc (log2 ?w)"
    unfolding u by blast+
  then have "log2 ?w \<le> k" and "k < Suc (log2 ?w)"
    by (blast intro: power_le_imp_le_exp [OF one_less_numeral_2] power_less_imp_less_exp [OF one_less_numeral_2])+
  then show "log2 ?w = k" by simp
qed

section \<open>Big-endian bytes\<close>

lemma ucast_byte: "ucast (ucast (w AND 0xff) :: u8) = (take_bit 8 w :: 'a::len word)"
  if "8 \<le> LENGTH('a)"
proof -
  have "0xff = (mask 8 :: 'a word)" by (simp add: mask_eq_exp_minus_1)
  show ?thesis
    unfolding \<open>0xff = mask 8\<close> using that by (auto intro!: bit_eqI simp: bit_simps)
qed

lemma push_take_drop:
  "push_bit n (take_bit k (drop_bit n v)) + take_bit n v = (take_bit (n + k) v :: 'a::len word)"
  using bits_ident [of n "take_bit (n + k) v"] by (simp add: drop_bit_take_bit)

lemma horner_byte:
  "push_bit 8 (drop_bit (n + 8) v) + take_bit 8 (drop_bit n v) = (drop_bit n v :: 'a::len word)"
  using bits_ident [of 8 "drop_bit n v"] by (simp add: add.commute)

lemmas byte_defs = write_be_def write_be64_def read_be_def read_be64_def upt_conv_Cons

lemma write_be_other: "(\<And>i. i < 4 \<Longrightarrow> q \<noteq> p + of_nat i) \<Longrightarrow> write_be m p v q = m q"
  unfolding write_be_def by (rule fold_invariant [where Q = "\<lambda>i. i < 4" and P = "\<lambda>m'. m' q = m q"]) auto

lemma write_be64_other: "(\<And>i. i < 8 \<Longrightarrow> q \<noteq> p + of_nat i) \<Longrightarrow> write_be64 m p v q = m q"
  unfolding write_be64_def by (rule fold_invariant [where Q = "\<lambda>i. i < 8" and P = "\<lambda>m'. m' q = m q"]) auto

lemma read_write_be: "read_be (write_be m p v) p = v"
proof -
  have "read_be (write_be m p v) p =
    push_bit 24 (take_bit 8 (drop_bit 24 v)) + push_bit 16 (take_bit 8 (drop_bit 16 v)) +
    push_bit 8 (take_bit 8 (drop_bit 8 v)) + take_bit 8 v"
    by (simp add: byte_defs ucast_byte)
  also have "\<dots> = take_bit 32 v"
    using push_take_drop [of 24 8 v] push_take_drop [of 16 8 v] push_take_drop [of 8 8 v]
    by (simp add: add.assoc)
  finally show ?thesis by (simp add: take_bit_word_eq_self)
qed

lemma read_write_be64: "read_be64 (write_be64 m p v) p = v"
proof -
  have top: "take_bit 8 (drop_bit 56 v) = drop_bit 56 v"
    by (rule bit_eqI) (auto simp: bit_simps dest: bit_imp_le_length)
  show ?thesis
    using horner_byte [of 48 v] horner_byte [of 40 v] horner_byte [of 32 v] horner_byte [of 24 v]
      horner_byte [of 16 v] horner_byte [of 8 v] horner_byte [of 0 v]
    by (simp add: byte_defs ucast_byte top)
qed

interpretation be32: codec "write_be m p" "\<lambda>m. read_be m p" "\<lambda>_. True"
  by unfold_locales (rule read_write_be)

interpretation be64: codec "write_be64 m p" "\<lambda>m. read_be64 m p" "\<lambda>_. True"
  by unfold_locales (rule read_write_be64)

end
