(* ===== verification/VmmEntries.thy ===== *)
theory VmmEntries
  imports Bits
begin

text \<open>
  Translation-table descriptors: \<open>lib/arch/vmm/vmm_entries.c\<close>, \<open>inc/vmm/vmm_types.h\<close>,
  \<open>inc/vmm/vmm_tables.h\<close> and \<open>inc/vmm/vmm_prot.h\<close>. A descriptor is read from and written to
  one 64-bit entry; the round trips say exactly which descriptors survive. Bit 16 (\<open>nT\<close>) is also a
  bit of the output address of a page and of the address of a table, so the two must agree there.
\<close>

section \<open>Table geometry\<close>

definition OFFSBOT :: "nat \<Rightarrow> nat" where
  "OFFSBOT level = (if level = 0 then 39 else if level = 1 then 30 else if level = 2 then 21 else 12)"

definition OFFSTOP :: "nat \<Rightarrow> nat" where
  "OFFSTOP level = (if level = 0 then 48 else if level = 1 then 38 else if level = 2 then 29 else 20)"

definition OFFS :: "u64 \<Rightarrow> nat \<Rightarrow> u64" where
  "OFFS va lvl = BIT_SLICE va (OFFSTOP lvl) (OFFSBOT lvl)"

section \<open>Attributes and descriptors\<close>

record attrs_t =
  XN :: "1 word"
  PXN :: "1 word"
  nT :: "1 word"
  OA :: "4 word"
  nG :: "1 word"
  AF :: "1 word"
  SH :: "2 word"
  AP :: "2 word"
  NS :: "1 word"
  attr :: "3 word"

text \<open>
  The C \<open>desc_t\<close> is a tagged union: \<open>oa\<close> and \<open>table_addr\<close> share storage, \<open>type\<close> says which is meant
  and an \<open>Invalid\<close> descriptor leaves both and the attributes unset. The constructors carry exactly
  the fields that are set.
\<close>

datatype desc = Invalid (dlevel: nat)
  | is_Table: Table (dlevel: nat) u64 attrs_t
  | Block (dlevel: nat) u64 attrs_t

definition attrs0 :: attrs_t where
  "attrs0 = \<lparr>XN = 0, PXN = 0, nT = 0, OA = 0, nG = 0, AF = 0, SH = 0, AP = 0, NS = 0, attr = 0\<rparr>"

definition read_attrs :: "u64 \<Rightarrow> attrs_t" where
  "read_attrs desc =
     \<lparr>XN = ucast (BIT desc 54), PXN = ucast (BIT desc 53), nT = ucast (BIT desc 16), OA = 0,
      nG = ucast (BIT desc 11), AF = ucast (BIT desc 10), SH = ucast (BIT_SLICE desc 9 8),
      AP = ucast (BIT_SLICE desc 7 6), NS = ucast (BIT desc 5), attr = ucast (BIT_SLICE desc 4 2)\<rparr>"

definition read_desc :: "u64 \<Rightarrow> nat \<Rightarrow> desc" where
  "read_desc entry level =
     (if BIT entry 0 = 0 then Invalid level
      else if level = 0 then
        Table level (push_bit 12 (BIT_SLICE entry 47 12)) (read_attrs entry)
      else if level = 1 \<or> level = 2 then
        (if BIT entry 1 = 0
         then Block level (push_bit (OFFSBOT level) (BIT_SLICE entry 47 (OFFSBOT level))) (read_attrs entry)
         else Table level (push_bit 12 (BIT_SLICE entry 47 12)) (read_attrs entry))
      else Block level (push_bit 12 (BIT_SLICE entry 47 12)) (read_attrs entry))"

definition write_attrs :: "attrs_t \<Rightarrow> u64" where
  "write_attrs a =
     push_bit 54 (ucast (XN a)) OR push_bit 53 (ucast (PXN a)) OR push_bit 16 (ucast (nT a)) OR
     push_bit 11 (ucast (nG a)) OR push_bit 10 (ucast (AF a)) OR push_bit 8 (ucast (SH a)) OR
     push_bit 6 (ucast (AP a)) OR push_bit 5 (ucast (NS a)) OR push_bit 2 (ucast (attr a))"

fun write_desc :: "desc \<Rightarrow> u64" where
  "write_desc (Invalid l) = 0"
| "write_desc (Table l a at) = a OR 2 OR write_attrs at OR 1"
| "write_desc (Block l a at) = (if l = 3 then a OR 2 else a) OR write_attrs at OR 1"

section \<open>Protections\<close>

definition PROT_AP_RW_RWX :: "2 word" where "PROT_AP_RW_RWX = 1"
definition PROT_AP_RX_RX :: "2 word" where "PROT_AP_RX_RX = 3"
definition PROT_AP_RWX_X :: "2 word" where "PROT_AP_RWX_X = 0"
definition PROT_ATTR_DEVICE_nGnRnE :: "3 word" where "PROT_ATTR_DEVICE_nGnRnE = 0"
definition PROT_ATTR_NORMAL_RA_WA :: "3 word" where "PROT_ATTR_NORMAL_RA_WA = 3"

definition PROT_RX_RX :: u64 where "PROT_RX_RX = write_attrs (attrs0\<lparr>AP := PROT_AP_RX_RX\<rparr>)"
definition PROT_RW_RWX :: u64 where "PROT_RW_RWX = write_attrs (attrs0\<lparr>AP := PROT_AP_RW_RWX\<rparr>)"
definition PROT_RW_RW :: u64 where
  "PROT_RW_RW = write_attrs (attrs0\<lparr>XN := 1, AP := PROT_AP_RW_RWX\<rparr>)"
definition PROT_RW_U :: u64 where
  "PROT_RW_U = write_attrs (attrs0\<lparr>XN := 1, PXN := 1, AP := PROT_AP_RWX_X\<rparr>)"
definition PROT_MEMTYPE_DEVICE :: u64 where
  "PROT_MEMTYPE_DEVICE = write_attrs (attrs0\<lparr>attr := PROT_ATTR_DEVICE_nGnRnE\<rparr>)"
definition PROT_MEMTYPE_NORMAL :: u64 where
  "PROT_MEMTYPE_NORMAL = write_attrs (attrs0\<lparr>attr := PROT_ATTR_NORMAL_RA_WA\<rparr>)"

section \<open>Geometry lemmas\<close>

lemma OFFSBOT_simps [simp]:
  "OFFSBOT 0 = 39" "OFFSBOT (Suc 0) = 30" "OFFSBOT 2 = 21" "OFFSBOT 3 = 12"
  by (simp_all add: OFFSBOT_def)

lemma level_cases:
  assumes "l \<le> (3::nat)" obtains "l = 0" | "l = 1" | "l = 2" | "l = 3"
  using assms by linarith

lemma OFFSBOT_le [simp]: "OFFSBOT l \<le> 39" "12 \<le> OFFSBOT l" "OFFSBOT l < 64"
  by (simp_all add: OFFSBOT_def)

lemma OFFSBOT_Suc: "l < 3 \<Longrightarrow> OFFSBOT l = OFFSBOT (Suc l) + 9"
  by (simp add: OFFSBOT_def)

lemma OFFSBOT_antimono: "l \<le> k \<Longrightarrow> OFFSBOT k \<le> OFFSBOT l"
  by (simp add: OFFSBOT_def)

lemma OFFS_take_drop:
  assumes "l \<noteq> 0 \<or> take_bit 48 va = va"
  shows "OFFS va l = take_bit 9 (drop_bit (OFFSBOT l) va)"
proof -
  have 0: "take_bit 10 (drop_bit 39 va) = take_bit 9 (drop_bit 39 va)" if "take_bit 48 va = va"
    using drop_bit_take_bit [of 39 48 va] take_bit_take_bit [of 10 9 "drop_bit 39 va"] that by simp
  show ?thesis
  proof (cases "l = 0")
    case True
    then show ?thesis using assms 0 by (simp add: OFFS_def OFFSTOP_def BIT_SLICE_take_bit)
  next
    case False
    then show ?thesis by (simp add: OFFS_def OFFSTOP_def OFFSBOT_def BIT_SLICE_take_bit)
  qed
qed

section \<open>Attribute round trip\<close>

lemma bit_field:
  fixes x :: "'n::len word"
  assumes "k + LENGTH('n) \<le> 64"
  shows "bit (push_bit k (ucast x) :: u64) n \<longleftrightarrow> k \<le> n \<and> n < k + LENGTH('n) \<and> bit x (n - k)"
proof -
  have "bit x (n - k) \<Longrightarrow> n - k < LENGTH('n)" by (rule bit_imp_le_length)
  then show ?thesis using assms by (auto simp: bit_simps)
qed

lemma bit_flag:
  fixes x :: "1 word"
  assumes "k < 64"
  shows "bit (push_bit k (ucast x) :: u64) n \<longleftrightarrow> n = k \<and> bit x 0"
  using assms by (subst bit_field) (auto simp: le_antisym dest: Suc_leI)

lemma bit_write_attrs:
  "bit (write_attrs a) n \<longleftrightarrow>
     n = 54 \<and> bit (XN a) 0 \<or> n = 53 \<and> bit (PXN a) 0 \<or> n = 16 \<and> bit (nT a) 0 \<or>
     n = 11 \<and> bit (nG a) 0 \<or> n = 10 \<and> bit (AF a) 0 \<or> (8 \<le> n \<and> n < 10 \<and> bit (SH a) (n - 8)) \<or>
     (6 \<le> n \<and> n < 8 \<and> bit (AP a) (n - 6)) \<or> n = 5 \<and> bit (NS a) 0 \<or>
     (2 \<le> n \<and> n < 5 \<and> bit (attr a) (n - 2))"
  unfolding write_attrs_def bit_or_iff by (simp add: bit_flag bit_field disj_assoc)

definition attr_bits :: "nat set" where
  "attr_bits = {54, 53, 16, 11, 10, 9, 8, 7, 6, 5, 4, 3, 2}"

lemma one_word_eqI: "(bit x 0 \<longleftrightarrow> bit y 0) \<Longrightarrow> x = (y :: 1 word)"
  by (rule bit_word_eqI) simp

lemma two_word_eqI: "(bit x 0 \<longleftrightarrow> bit y 0) \<Longrightarrow> (bit x 1 \<longleftrightarrow> bit y 1) \<Longrightarrow> x = (y :: 2 word)"
  by (rule bit_word_eqI) (auto simp: less_2_cases_iff)

lemma less_3_cases: "n < 3 \<Longrightarrow> n = 0 \<or> n = 1 \<or> n = (2::nat)"
  by arith

lemma three_word_eqI:
  "(bit x 0 \<longleftrightarrow> bit y 0) \<Longrightarrow> (bit x 1 \<longleftrightarrow> bit y 1) \<Longrightarrow> (bit x 2 \<longleftrightarrow> bit y 2) \<Longrightarrow> x = (y :: 3 word)"
  by (rule bit_word_eqI) (auto dest!: less_3_cases)

lemma attrs_eqI:
  assumes "\<And>n. n \<in> attr_bits \<Longrightarrow> bit (write_attrs a) n \<longleftrightarrow> bit (write_attrs b) n" and "OA a = OA b"
  shows "a = b"
proof -
  have
    "bit (XN a) 0 = bit (XN b) 0" "bit (PXN a) 0 = bit (PXN b) 0" "bit (nT a) 0 = bit (nT b) 0"
    "bit (nG a) 0 = bit (nG b) 0" "bit (AF a) 0 = bit (AF b) 0" "bit (NS a) 0 = bit (NS b) 0"
    "bit (SH a) 0 = bit (SH b) 0" "bit (SH a) 1 = bit (SH b) 1"
    "bit (AP a) 0 = bit (AP b) 0" "bit (AP a) 1 = bit (AP b) 1"
    "bit (attr a) 0 = bit (attr b) 0" "bit (attr a) 1 = bit (attr b) 1" "bit (attr a) 2 = bit (attr b) 2"
    using assms(1) [of 54] assms(1) [of 53] assms(1) [of 16] assms(1) [of 11] assms(1) [of 10]
      assms(1) [of 9] assms(1) [of 8] assms(1) [of 7] assms(1) [of 6] assms(1) [of 5]
      assms(1) [of 4] assms(1) [of 3] assms(1) [of 2]
    by (simp_all add: attr_bits_def bit_write_attrs)
  then show ?thesis
    using assms(2)
    by (intro attrs_t.equality one_word_eqI two_word_eqI three_word_eqI) simp_all
qed

lemma bit_ucast_BIT: "bit (ucast (BIT d k) :: 1 word) n \<longleftrightarrow> n = 0 \<and> bit d k"
  by (auto simp: BIT_of_bool bit_of_bool_iff bit_simps)

lemma bit_ucast_SLICE:
  "LENGTH('n::len) = 1 + hi - lo \<Longrightarrow> hi < 64 \<Longrightarrow>
   bit (ucast (BIT_SLICE d hi lo) :: 'n word) n \<longleftrightarrow> n < 1 + hi - lo \<and> bit d (lo + n)"
  by (auto simp: BIT_SLICE_take_bit bit_simps add.commute dest: bit_imp_le_length)

lemma attr_index_cases: "n < 2 \<or> n \<in> {11, 10, 9, 8, 7, 6, 5, 4, 3, 2} \<or> (12::nat) \<le> n"
  by simp arith

lemma bit_write_read_attrs: "bit (write_attrs (read_attrs d)) n \<longleftrightarrow> n \<in> attr_bits \<and> bit d n"
proof -
  show ?thesis
    using attr_index_cases [of n]
    by (elim disjE insertE emptyE)
      (auto simp: bit_write_attrs read_attrs_def bit_ucast_BIT bit_ucast_SLICE attr_bits_def)
qed

lemma OA_read_attrs [simp]: "OA (read_attrs d) = 0"
  by (simp add: read_attrs_def)

lemma write_attrs_bits: "bit (write_attrs a) n \<Longrightarrow> n \<in> attr_bits"
proof -
  assume b: "bit (write_attrs a) n"
  show "n \<in> attr_bits"
    using attr_index_cases [of n] b by (elim disjE insertE emptyE) (auto simp: bit_write_attrs attr_bits_def)
qed

lemma read_attrs_eqI:
  assumes "\<And>n. n \<in> attr_bits \<Longrightarrow> bit e n \<longleftrightarrow> bit (write_attrs a) n" and "OA a = 0"
  shows "read_attrs e = a"
  by (rule attrs_eqI) (auto simp: bit_write_read_attrs assms)

lemma read_write_attrs: "OA a = 0 \<Longrightarrow> read_attrs (write_attrs a) = a"
  by (rule read_attrs_eqI) auto

interpretation attrs_codec: codec write_attrs read_attrs "\<lambda>a. OA a = 0"
  by unfold_locales (rule read_write_attrs)

section \<open>Descriptor round trip\<close>

definition addr_ok :: "nat \<Rightarrow> u64 \<Rightarrow> bool" where
  "addr_ok b a \<longleftrightarrow> IS_ALIGNED a b \<and> take_bit 48 a = a"

lemma addr_ok_bit: "addr_ok b a \<longleftrightarrow> (\<forall>n. bit a n \<longrightarrow> b \<le> n \<and> n < 48)"
proof -
  have "bit a n \<Longrightarrow> n < 64" for n using bit_imp_le_length [of a n] by simp
  then show ?thesis
    by (fastforce simp: addr_ok_def IS_ALIGNED_take_bit bit_eq_iff bit_simps not_less)
qed

lemma bit_addr_field:
  "b \<le> 47 \<Longrightarrow> bit (push_bit b (BIT_SLICE e 47 b)) n \<longleftrightarrow> b \<le> n \<and> n < 48 \<and> bit e n"
  by (auto simp: BIT_SLICE_take_bit bit_simps)

lemma addr_field_ok: "b \<le> 47 \<Longrightarrow> addr_ok b (push_bit b (BIT_SLICE e 47 b))"
  by (auto simp: addr_ok_bit bit_addr_field)

lemma BIT_eq_0: "BIT x n = 0 \<longleftrightarrow> \<not> bit x n"
  by (simp add: BIT_of_bool)

text \<open>The descriptors the reader can produce at a level, with the two readings of bit 16 agreeing.\<close>

fun wf_desc :: "nat \<Rightarrow> desc \<Rightarrow> bool" where
  "wf_desc l (Invalid k) \<longleftrightarrow> k = l"
| "wf_desc l (Table k a at) \<longleftrightarrow> k = l \<and> l < 3 \<and> addr_ok 12 a \<and> OA at = 0 \<and> nT at = ucast (BIT a 16)"
| "wf_desc l (Block k a at) \<longleftrightarrow> k = l \<and> 1 \<le> l \<and> addr_ok (OFFSBOT l) a \<and> OA at = 0 \<and>
     (l = 3 \<longrightarrow> nT at = ucast (BIT a 16))"

lemma bit_write_desc_table:
  "addr_ok 12 a \<Longrightarrow> bit (write_desc (Table l a at)) n \<longleftrightarrow>
     n = 0 \<or> n = 1 \<or> bit a n \<or> bit (write_attrs at) n"
  by (auto simp: bit_or_iff bit_numeral_rec bit_1_iff split: nat.splits)

lemma bit_write_desc_block:
  "bit (write_desc (Block l a at)) n \<longleftrightarrow>
     n = 0 \<or> (n = 1 \<and> l = 3) \<or> bit a n \<or> bit (write_attrs at) n"
  by (auto simp: bit_or_iff bit_numeral_rec bit_1_iff split: nat.splits)

lemmas attr_bits_iff = attr_bits_def insert_iff empty_iff

lemma nT_bit: "nT at = ucast (BIT a 16) \<longleftrightarrow> (bit (nT at) 0 \<longleftrightarrow> bit a 16)"
  by (auto simp: bit_ucast_BIT intro!: one_word_eqI simp del: bit_0)

lemma write_attrs_high: "bit (write_attrs a) n \<Longrightarrow> 12 \<le> n \<Longrightarrow> n < 48 \<Longrightarrow> n = 16 \<and> bit (nT a) 0"
  by (auto simp: bit_write_attrs)

lemma nT_write: "bit (write_attrs a) 16 \<longleftrightarrow> bit (nT a) 0"
  by (simp add: bit_write_attrs)

lemma bit_write_attrs_nT:
  "bit (write_attrs (at\<lparr>nT := x\<rparr>)) n \<longleftrightarrow> (if n = 16 then bit x 0 else bit (write_attrs at) n)"
  by (cases "n = 16") (simp_all add: bit_write_attrs)

lemma read_write_table:
  assumes "l < 3" "addr_ok 12 a" "OA at = 0" "bit (nT at) 0 \<Longrightarrow> bit a 16"
  shows "read_desc (write_desc (Table l a at)) l = Table l a (at\<lparr>nT := ucast (BIT a 16)\<rparr>)"
proof -
  note b = bit_write_desc_table [OF assms(2), of l at] and a = assms(2) [unfolded addr_ok_bit, rule_format]
  have 1: "push_bit 12 (BIT_SLICE (write_desc (Table l a at)) 47 12) = a"
    by (rule bit_eqI) (use a assms(4) write_attrs_high [of at] in \<open>auto simp: bit_addr_field b simp del: write_desc.simps\<close>)
  have 2: "read_attrs (write_desc (Table l a at)) = at\<lparr>nT := ucast (BIT a 16)\<rparr>"
  proof (rule read_attrs_eqI)
    fix n assume n: "n \<in> attr_bits"
    then have "n = 16 \<or> \<not> bit a n" "n \<noteq> 0" "n \<noteq> 1"
      using a [of n] by (auto simp: attr_bits_def)
    then show "bit (write_desc (Table l a at)) n = bit (write_attrs (at\<lparr>nT := ucast (BIT a 16)\<rparr>)) n"
      unfolding b bit_write_attrs_nT bit_ucast_BIT using assms(4) nT_write [of at] by metis
  qed (simp add: assms(3))
  have "\<not> BIT (write_desc (Table l a at)) 0 = 0" "\<not> BIT (write_desc (Table l a at)) 1 = 0"
    unfolding BIT_eq_0 b by simp_all
  moreover have "l = 0 \<or> l = 1 \<or> l = 2" using assms(1) by arith
  ultimately show ?thesis
    unfolding read_desc_def 1 2 by auto
qed

lemma read_write_block:
  assumes "1 \<le> l" "l \<le> 3" "addr_ok (OFFSBOT l) a" "OA at = 0"
    and nT: "l = 3 \<Longrightarrow> bit (nT at) 0 \<Longrightarrow> bit a 16"
  shows "read_desc (write_desc (Block l a at)) l =
    Block l a (if l = 3 then at\<lparr>nT := ucast (BIT a 16)\<rparr> else at)" (is "read_desc ?e l = Block l a ?at")
proof -
  note b = bit_write_desc_block [of l a at] and a = assms(3) [unfolded addr_ok_bit, rule_format]
  have lv: "OFFSBOT l \<le> 47" "1 < OFFSBOT l" "l \<noteq> 3 \<Longrightarrow> 21 \<le> OFFSBOT l"
    using assms(1,2) by (simp_all add: OFFSBOT_def)
  have h: "bit a n \<or> \<not> bit (write_attrs at) n" if "OFFSBOT l \<le> n" "n < 48" for n
    using that OFFSBOT_le(2) [of l] lv(3) write_attrs_high [of at n] nT by (cases "l = 3") auto
  have 1: "push_bit (OFFSBOT l) (BIT_SLICE ?e 47 (OFFSBOT l)) = a"
  proof (rule bit_eqI)
    fix n
    show "bit (push_bit (OFFSBOT l) (BIT_SLICE ?e 47 (OFFSBOT l))) n = bit a n"
      unfolding bit_addr_field [OF lv(1)] b using a [of n] h [of n] lv(2) by (auto simp: not_le)
  qed
  have 2: "read_attrs ?e = ?at"
  proof (rule read_attrs_eqI)
    fix n assume n: "n \<in> attr_bits"
    then have "n \<le> 11 \<or> n = 16 \<or> 53 \<le> n" "n \<noteq> 0" "n \<noteq> 1"
      by (auto simp: attr_bits_def)
    then have "(n = 16 \<and> l = 3) \<or> \<not> bit a n" "n \<noteq> 0" "n \<noteq> 1"
      using a [of n] lv(3) OFFSBOT_le(2) [of l] by linarith+
    then show "bit ?e n = bit (write_attrs ?at) n"
      unfolding b using nT nT_write [of at] by (auto simp: bit_write_attrs_nT bit_ucast_BIT simp del: bit_0)
  qed (simp add: assms(4))
  have b0: "\<not> BIT ?e 0 = 0" unfolding BIT_eq_0 b by auto
  have b1: "l \<noteq> 3 \<Longrightarrow> BIT ?e 1 = 0"
    unfolding BIT_eq_0 b using a [of 1] lv by (auto simp: bit_write_attrs)
  show ?thesis
    using assms(1,2) 1 b0 b1 unfolding read_desc_def 2
    by (cases "l = 3") (auto simp del: write_desc.simps)
qed

lemma read_desc_level [simp]: "dlevel (read_desc e l) = l"
  by (simp add: read_desc_def)

lemma read_attrs_nT: "addr = push_bit 12 (BIT_SLICE e 47 12) \<Longrightarrow> nT (read_attrs e) = ucast (BIT addr 16)"
  by (auto simp: read_attrs_def nT_bit bit_ucast_BIT bit_addr_field intro!: one_word_eqI simp del: bit_0)

lemma wf_read_desc: "l \<le> 3 \<Longrightarrow> wf_desc l (read_desc e l)"
  by (elim level_cases) (auto simp: read_desc_def addr_field_ok intro: read_attrs_nT)

lemma read_write_desc:
  assumes "wf_desc l d" "l \<le> 3"
  shows "read_desc (write_desc d) l = d"
proof (cases d)
  case (Invalid k)
  then show ?thesis using assms by (simp add: read_desc_def BIT_def)
next
  case (Table k a at)
  with assms have "read_desc (write_desc d) l = Table l a (at\<lparr>nT := ucast (BIT a 16)\<rparr>)" "nT at = ucast (BIT a 16)"
    using read_write_table [of l a at] by (auto simp: bit_ucast_BIT simp del: bit_0 write_desc.simps)
  then show ?thesis using Table assms(1) by simp
next
  case (Block k a at)
  with assms have "read_desc (write_desc d) l = Block l a (if l = 3 then at\<lparr>nT := ucast (BIT a 16)\<rparr> else at)"
     "l = 3 \<Longrightarrow> nT at = ucast (BIT a 16)"
    using read_write_block [of l a at] by (auto simp: bit_ucast_BIT simp del: bit_0 write_desc.simps)
  then show ?thesis using Block assms(1) by auto
qed

interpretation desc_codec: codec write_desc "\<lambda>e. read_desc e l" "\<lambda>d. wf_desc l d \<and> l \<le> 3" for l
  by unfold_locales (auto intro: read_write_desc)

end
