(* ===== verification/Vmm.thy ===== *)
theory Vmm
  imports VmmEntries
begin

text \<open>
  The stage-1 translation tables: \<open>lib/arch/vmm/vmm.c\<close>, \<open>lib/arch/vmm/vmm_tlbs.c\<close> and the page
  allocator \<open>lib/valloc/valloc_pgtable.c\<close>. The state holds the table memory (an entry per 8-byte
  address), the bump pointer of the allocator and the trace of the architectural events the code
  emits. The executable operations come first, then what an entry-level view of the tree says of
  them: tables are pages of a tree without sharing, and every operation is an update of one entry
  or the linking of one fresh page.
\<close>

section \<open>State\<close>

datatype sync_type = SYNC_NONE | SYNC_ALL | SYNC_VA | SYNC_ASID

datatype event = PteWrite u64 u64 | PageZero u64 | Dsb | Isb | TlbiAll | TlbiAsid u64 | TlbiVa u64

datatype vmm_err = NoMorePagetables | UnalignedStart | UnalignedEnd | Misaligned
  | RegionsOverlap | RegionsOutOfOrder | BadUnmapSize | OutOfFuel

type_synonym pt_mem = "u64 \<Rightarrow> u64"

record vm_env =
  top_of_ptables :: u64
  repeat_tlbi :: bool
  isb_after_pte_st :: bool

record vm_st =
  mem :: pt_mem
  pt_bot :: u64
  trace :: "event list"

definition emit :: "event \<Rightarrow> vm_st \<Rightarrow> vm_st" where
  "emit e s = s\<lparr>trace := trace s @ [e]\<rparr>"

section \<open>vmm_tlbs.c\<close>

definition tlbi_va :: "vm_env \<Rightarrow> u64 \<Rightarrow> vm_st \<Rightarrow> vm_st" where
  "tlbi_va env va s =
     (let page = drop_bit 12 va; s = emit (TlbiVa page) s
      in if repeat_tlbi env then emit (TlbiVa page) (emit Dsb s) else s)"

definition tlbi_asid :: "vm_env \<Rightarrow> u64 \<Rightarrow> vm_st \<Rightarrow> vm_st" where
  "tlbi_asid env asid s =
     (let reg = push_bit 48 (asid AND 0xff); s = emit (TlbiAsid reg) s
      in if repeat_tlbi env then emit (TlbiAsid reg) (emit Dsb s) else s)"

definition tlbi_all :: "vm_env \<Rightarrow> vm_st \<Rightarrow> vm_st" where
  "tlbi_all env s =
     (let s = emit TlbiAll s in if repeat_tlbi env then emit TlbiAll (emit Dsb s) else s)"

definition pre_tlbi :: "vm_env \<Rightarrow> vm_st \<Rightarrow> vm_st" where
  "pre_tlbi env s = (let s = emit Dsb s in if isb_after_pte_st env then emit Isb s else s)"

definition vmm_flush_tlb_vaddr :: "vm_env \<Rightarrow> u64 \<Rightarrow> vm_st \<Rightarrow> vm_st" where
  "vmm_flush_tlb_vaddr env va s = emit Isb (emit Dsb (tlbi_va env va (pre_tlbi env s)))"

definition vmm_flush_tlb_asid :: "vm_env \<Rightarrow> u64 \<Rightarrow> vm_st \<Rightarrow> vm_st" where
  "vmm_flush_tlb_asid env asid s = emit Isb (emit Dsb (tlbi_asid env asid (pre_tlbi env s)))"

definition vmm_flush_tlb :: "vm_env \<Rightarrow> vm_st \<Rightarrow> vm_st" where
  "vmm_flush_tlb env s = emit Isb (emit Dsb (tlbi_all env (pre_tlbi env s)))"

section \<open>valloc_pgtable.c\<close>

text \<open>The checkpoint is the bump pointer itself; restoring it frees every later page at once.\<close>

definition init_valloc_ptable :: "u64 \<Rightarrow> vm_st \<Rightarrow> vm_st" where
  "init_valloc_ptable bot_of_ptables s = s\<lparr>pt_bot := bot_of_ptables\<rparr>"

definition valloc_ptable_checkpoint :: "vm_st \<Rightarrow> u64" where
  "valloc_ptable_checkpoint s = pt_bot s"

definition valloc_ptable_restore :: "u64 \<Rightarrow> vm_st \<Rightarrow> vm_st" where
  "valloc_ptable_restore checkpoint s = s\<lparr>pt_bot := checkpoint\<rparr>"

definition zalloc_ptable :: "vm_env \<Rightarrow> vm_st \<Rightarrow> vmm_err + u64 \<times> vm_st" where
  "zalloc_ptable env s =
     (let cur = pt_bot s; s = s\<lparr>pt_bot := cur + 4096\<rparr>
      in if cur \<ge> top_of_ptables env then Inl NoMorePagetables
         else Inr (cur, emit (PageZero cur) (s\<lparr>mem := \<lambda>a. if a - cur < 4096 then 0 else mem s a\<rparr>)))"

section \<open>vmm.c: updates\<close>

definition write_release :: "u64 \<Rightarrow> u64 \<Rightarrow> vm_st \<Rightarrow> vm_st" where
  "write_release pte v s = emit (PteWrite pte v) (s\<lparr>mem := (mem s)(pte := v)\<rparr>)"

definition vmm_update_pte ::
  "vm_env \<Rightarrow> u64 \<Rightarrow> u64 \<Rightarrow> sync_type \<Rightarrow> u64 \<Rightarrow> bool \<Rightarrow> vm_st \<Rightarrow> vm_st" where
  "vmm_update_pte env pte new_val sync_kind asid_or_va force s =
     (let (needs, s) = (if mem s pte > 0 then (True, write_release pte 0 s) else (force, s));
          s = (if needs then
                 (case sync_kind of SYNC_ALL \<Rightarrow> vmm_flush_tlb env s
                  | SYNC_ASID \<Rightarrow> vmm_flush_tlb_asid env asid_or_va s
                  | SYNC_VA \<Rightarrow> vmm_flush_tlb_vaddr env asid_or_va s
                  | SYNC_NONE \<Rightarrow> emit Dsb s)
               else s);
          s = write_release pte new_val s
      in if isb_after_pte_st env then emit Isb (emit Dsb s) else s)"

definition entry_addr :: "u64 \<Rightarrow> u64 \<Rightarrow> nat \<Rightarrow> u64" where
  "entry_addr t va l = t + 8 * OFFS va l"

text \<open>
  One iteration of \<open>vmm_ensure_level\<close>. When the entry is not a table a fresh page is allocated, all
  its 512 entries are written, and the page is linked. The code writes the descriptor it read
  (\<open>desc\<close>) into each of them, not the split one (\<open>new_desc\<close>) it computes for a block, so the split
  computation has no effect and is not modelled.
\<close>

definition ensure_step ::
  "vm_env \<Rightarrow> u64 \<Rightarrow> nat \<Rightarrow> u64 \<times> vm_st \<Rightarrow> vmm_err + u64 \<times> vm_st" where
  "ensure_step env va level = (\<lambda>(current, s).
     let p = entry_addr current va level; d = read_desc (mem s p) level
     in case d of
          Table _ table_addr _ \<Rightarrow> Inr (table_addr, s)
        | _ \<Rightarrow> rbind (zalloc_ptable env s) (\<lambda>(pg, s).
            let s = fold (\<lambda>i. vmm_update_pte env (pg + 8 * of_nat i) (write_desc d) SYNC_ALL 0 False)
                      [0..<512] s;
                s = vmm_update_pte env p (write_desc (Table level pg attrs0)) SYNC_ALL 0 False s
            in Inr (pg, s)))"

definition vmm_ensure_level :: "vm_env \<Rightarrow> u64 \<Rightarrow> nat \<Rightarrow> u64 \<Rightarrow> vm_st \<Rightarrow> vmm_err + vm_st" where
  "vmm_ensure_level env root desired_level va s =
     rbind (rfold (ensure_step env va) [0..<desired_level] (root, s)) (\<lambda>(_, s). Inr s)"

section \<open>vmm.c: walks\<close>

text \<open>
  The walk gives the descriptor it stops at, the address of its entry (\<open>desc.src.ptr\<close>) and the
  entries above it (\<open>desc.parents\<close>, \<open>None\<close> the null pointer of the root's). The number is what is
  left of the loop.
\<close>

fun walk_loop ::
  "pt_mem \<Rightarrow> u64 \<Rightarrow> u64 \<Rightarrow> u64 option \<Rightarrow> u64 option list \<Rightarrow> nat \<Rightarrow> nat \<Rightarrow> desc \<times> u64 \<times> u64 option list" where
  "walk_loop m va root parent parents level n =
     (let p = entry_addr root va level; d = read_desc (m p) level; parents = parents @ [parent]
      in case d of
           Table _ table_addr _ \<Rightarrow>
             (case n of 0 \<Rightarrow> (d, p, parents)
              | Suc n' \<Rightarrow> walk_loop m va table_addr (Some p) parents (Suc level) n')
         | _ \<Rightarrow> (d, p, parents))"

declare walk_loop.simps [simp del]

definition vmm_translation_walk_to_level ::
  "pt_mem \<Rightarrow> u64 \<Rightarrow> u64 \<Rightarrow> nat \<Rightarrow> desc \<times> u64 \<times> u64 option list" where
  "vmm_translation_walk_to_level m root va max_level = walk_loop m va root None [] 0 max_level"

definition vmm_translation_walk :: "pt_mem \<Rightarrow> u64 \<Rightarrow> u64 \<Rightarrow> desc \<times> u64 \<times> u64 option list" where
  "vmm_translation_walk m root va = vmm_translation_walk_to_level m root va 3"

definition vmm_block :: "pt_mem \<Rightarrow> u64 \<Rightarrow> u64 \<Rightarrow> u64" where
  "vmm_block m root va = fst (snd (vmm_translation_walk m root va))"

definition vmm_level :: "pt_mem \<Rightarrow> u64 \<Rightarrow> u64 \<Rightarrow> nat" where
  "vmm_level m root va = dlevel (fst (vmm_translation_walk m root va))"

definition vmm_desc_at_level ::
  "vm_env \<Rightarrow> u64 \<Rightarrow> u64 \<Rightarrow> nat \<Rightarrow> nat \<Rightarrow> vm_st \<Rightarrow> vmm_err + u64 \<times> vm_st" where
  "vmm_desc_at_level env root va ensure_level desc_level s =
     rbind (vmm_ensure_level env root ensure_level va s) (\<lambda>s.
       Inr (fst (snd (vmm_translation_walk_to_level (mem s) root va desc_level)), s))"

definition vmm_pte_at_level :: "vm_env \<Rightarrow> u64 \<Rightarrow> u64 \<Rightarrow> nat \<Rightarrow> vm_st \<Rightarrow> vmm_err + u64 \<times> vm_st" where
  "vmm_pte_at_level env root va level s = vmm_desc_at_level env root va 3 level s"

definition vmm_pte :: "vm_env \<Rightarrow> u64 \<Rightarrow> u64 \<Rightarrow> vm_st \<Rightarrow> vmm_err + u64 \<times> vm_st" where
  "vmm_pte env root va s = vmm_pte_at_level env root va 3 s"

definition vmm_read_attrs :: "vm_env \<Rightarrow> u64 \<Rightarrow> u64 \<Rightarrow> vm_st \<Rightarrow> vmm_err + attrs_t \<times> vm_st" where
  "vmm_read_attrs env root va s =
     rbind (vmm_pte env root va s) (\<lambda>(pte, s). Inr (read_attrs (mem s pte), s))"

text \<open>\<open>NULL\<close> is 0. The low part of the result keeps bits \<open>OFFSBOT\<close> down to 0 of the address.\<close>

definition vmm_pa :: "pt_mem \<Rightarrow> u64 \<Rightarrow> u64 \<Rightarrow> u64" where
  "vmm_pa m root va =
     (case vmm_translation_walk m root va of
        (Block l a at, _, _) \<Rightarrow> a OR BIT_SLICE va (OFFSBOT l) 0
      | _ \<Rightarrow> 0)"

definition vmm_pte_valid :: "vm_env \<Rightarrow> u64 \<Rightarrow> u64 \<Rightarrow> vm_st \<Rightarrow> vmm_err + bool \<times> vm_st" where
  "vmm_pte_valid env root addr s =
     (if root = 0 then Inr (True, s)
      else rbind (vmm_pte env root addr s) (\<lambda>(pte, s). Inr (mem s pte AND 1 \<noteq> 0, s)))"

section \<open>Virtual addresses and the entries they select\<close>

definition va_ok :: "u64 \<Rightarrow> bool" where
  "va_ok va \<longleftrightarrow> take_bit 48 va = va"

definition pfx :: "nat \<Rightarrow> u64 \<Rightarrow> u64" where
  "pfx l va = drop_bit (OFFSBOT l + 9) va"

definition blk :: "nat \<Rightarrow> u64 \<Rightarrow> u64" where
  "blk l va = drop_bit (OFFSBOT l) va"

lemma va_ok_bit: "va_ok va \<longleftrightarrow> (\<forall>n. bit va n \<longrightarrow> n < 48)"
proof -
  have "bit va n \<Longrightarrow> n < 64" for n using bit_imp_le_length [of va n] by simp
  then show ?thesis by (fastforce simp: va_ok_def bit_eq_iff bit_simps)
qed

lemma va_ok_unat: "va_ok va \<longleftrightarrow> unat va < 2 ^ 48"
proof -
  have "va_ok va \<longleftrightarrow> unat va mod 2 ^ 48 = unat va"
    unfolding va_ok_def by (metis unat_take_bit word_unat_eq_iff)
  then show ?thesis by (metis mod_less mod_less_divisor zero_less_numeral zero_less_power)
qed

lemma pfx_0 [simp]: "va_ok va \<Longrightarrow> pfx 0 va = 0"
  by (rule bit_eqI) (auto simp: pfx_def bit_simps va_ok_bit)

lemma pfx_Suc: "l < 3 \<Longrightarrow> pfx (Suc l) va = blk l va"
  by (simp add: pfx_def blk_def OFFSBOT_Suc)

lemma pfx_blk: "pfx l va = drop_bit 9 (blk l va)"
  by (simp add: pfx_def blk_def add.commute)

lemma OFFS_blk: "va_ok va \<Longrightarrow> OFFS va l = take_bit 9 (blk l va)"
  by (simp add: OFFS_take_drop va_ok_def blk_def)

lemma blk_eq_iff:
  "va_ok va \<Longrightarrow> va_ok va' \<Longrightarrow>
   blk l va = blk l va' \<longleftrightarrow> pfx l va = pfx l va' \<and> OFFS va l = OFFS va' l"
  by (metis OFFS_blk pfx_blk bits_ident)

lemma blk_mono: "blk l va = blk l va' \<Longrightarrow> k \<le> l \<Longrightarrow> blk k va = blk k va'"
proof -
  assume "blk l va = blk l va'" "k \<le> l"
  then have "drop_bit (OFFSBOT k - OFFSBOT l) (blk l va) = drop_bit (OFFSBOT k - OFFSBOT l) (blk l va')"
    by simp
  then show ?thesis using OFFSBOT_antimono [OF \<open>k \<le> l\<close>] by (simp add: blk_def)
qed

lemma pfx_mono: "pfx l va = pfx l va' \<Longrightarrow> k < l \<Longrightarrow> l \<le> 3 \<Longrightarrow> blk k va = blk k va'"
  by (metis Suc_le_D Suc_le_lessD blk_mono less_Suc_eq_le not_less_eq pfx_Suc)

lemma unat_OFFS: "va_ok va \<Longrightarrow> unat (OFFS va l) < 512"
  by (simp add: OFFS_blk unat_take_bit)

lemma unat_entry_addr:
  assumes "IS_ALIGNED t 12" "va_ok va"
  shows "unat (entry_addr t va l) = unat t + 8 * unat (OFFS va l)"
proof -
  define n where "n = unat (OFFS va l)"
  have n: "n < 512" using unat_OFFS [OF assms(2)] by (simp add: n_def)
  have "unat (8 :: u64) * unat (OFFS va l) < 2 ^ LENGTH(64)"
    using n by (simp add: n_def)
  then have "unat (8 * OFFS va l) = unat (8 :: u64) * unat (OFFS va l)"
    using unat_mult_lem by blast
  then have e: "unat (8 * OFFS va l) = 8 * n"
    by (simp add: n_def)
  obtain k where k: "unat t = 4096 * k"
    using assms(1) by (auto simp: IS_ALIGNED_dvd elim: dvdE)
  then have "k < 4503599627370496" using u64_unat_lt [of t] by linarith
  then have "unat t + unat (8 * OFFS va l) < 2 ^ LENGTH(64)"
    using n k e by simp
  then show ?thesis
    by (simp add: entry_addr_def unat_add_no_wrap e n_def)
qed

lemma page_split:
  "4096 * k + 8 * a = 4096 * k' + 8 * a' \<Longrightarrow> a < 512 \<Longrightarrow> a' < 512 \<Longrightarrow> k = k' \<and> a = (a' :: nat)"
proof -
  assume *: "4096 * k + 8 * a = 4096 * k' + 8 * a'" "a < 512" "a' < 512"
  then have "512 * k + a = 512 * k' + a'" by linarith
  then have "(512 * k + a) div 512 = (512 * k' + a') div 512" by simp
  then have "k = k'" using * by simp
  with *(1) show "k = k' \<and> a = a'" by linarith
qed

lemma entry_addr_eq:
  assumes "IS_ALIGNED t 12" "IS_ALIGNED t' 12" "va_ok va" "va_ok va'"
    and "entry_addr t va l = entry_addr t' va' l'"
  shows "t = t'" and "OFFS va l = OFFS va' l'"
proof -
  obtain k k' where k: "unat t = 4096 * k" "unat t' = 4096 * k'"
    using assms(1,2) by (auto simp: IS_ALIGNED_dvd elim!: dvdE)
  have "unat t + 8 * unat (OFFS va l) = unat t' + 8 * unat (OFFS va' l')"
    by (metis assms unat_entry_addr)
  moreover have "unat (OFFS va l) < 512" "unat (OFFS va' l') < 512"
    by (simp_all add: assms unat_OFFS)
  ultimately have "k = k' \<and> unat (OFFS va l) = unat (OFFS va' l')"
    unfolding k by (rule page_split)
  then show "t = t'" "OFFS va l = OFFS va' l'"
    using k by (simp_all add: word_unat_eq_iff)
qed

section \<open>The tree of tables\<close>

text \<open>
  \<open>tbl m r va l\<close> is the level-\<open>l\<close> table that the walk for \<open>va\<close> goes through, if it gets there, and
  \<open>ent\<close> the entry it finds in it.
\<close>

fun tbl :: "pt_mem \<Rightarrow> u64 \<Rightarrow> u64 \<Rightarrow> nat \<Rightarrow> u64 option" where
  "tbl m r va 0 = Some r"
| "tbl m r va (Suc l) =
     (case tbl m r va l of None \<Rightarrow> None
      | Some t \<Rightarrow> (case read_desc (m (entry_addr t va l)) l of Table _ a _ \<Rightarrow> Some a | _ \<Rightarrow> None))"

declare tbl.simps [simp del]

lemma tbl_0 [simp]: "tbl m r va 0 = Some r"
  by (rule tbl.simps)

lemma tbl_Suc [simp]:
  "tbl m r va (Suc l) =
     (case tbl m r va l of None \<Rightarrow> None
      | Some t \<Rightarrow> (case read_desc (m (entry_addr t va l)) l of Table _ a _ \<Rightarrow> Some a | _ \<Rightarrow> None))"
  by (rule tbl.simps)

definition ent :: "pt_mem \<Rightarrow> u64 \<Rightarrow> u64 \<Rightarrow> nat \<Rightarrow> u64 option" where
  "ent m r va l = map_option (\<lambda>t. m (entry_addr t va l)) (tbl m r va l)"

definition tree_ok :: "pt_mem \<Rightarrow> u64 \<Rightarrow> u64 \<Rightarrow> bool" where
  "tree_ok m r lim \<longleftrightarrow>
     (\<forall>va l t. va_ok va \<longrightarrow> l \<le> 3 \<longrightarrow> tbl m r va l = Some t \<longrightarrow>
        IS_ALIGNED t 12 \<and> unat t + 4096 \<le> unat lim) \<and>
     (\<forall>va va' l l' t. va_ok va \<longrightarrow> va_ok va' \<longrightarrow> l \<le> 3 \<longrightarrow> l' \<le> 3 \<longrightarrow>
        tbl m r va l = Some t \<longrightarrow> tbl m r va' l' = Some t \<longrightarrow> l = l' \<and> pfx l va = pfx l va')"

lemma tree_okD:
  assumes "tree_ok m r lim" "va_ok va" "l \<le> 3" "tbl m r va l = Some t"
  shows "IS_ALIGNED t 12" "unat t + 4096 \<le> unat lim"
  using assms unfolding tree_ok_def by blast+

lemma tree_ok_inj:
  assumes "tree_ok m r lim" "va_ok va" "va_ok va'" "l \<le> 3" "l' \<le> 3"
    and "tbl m r va l = Some t" "tbl m r va' l' = Some t"
  shows "l = l'" "pfx l va = pfx l va'"
  using assms unfolding tree_ok_def by blast+

lemma tbl_pfx:
  "va_ok va \<Longrightarrow> va_ok va' \<Longrightarrow> pfx l va = pfx l va' \<Longrightarrow> l \<le> 3 \<Longrightarrow> tbl m r va l = tbl m r va' l"
proof (induction l)
  case (Suc l)
  then have "pfx l va = pfx l va'" "OFFS va l = OFFS va' l"
    using blk_eq_iff by (auto simp: pfx_Suc)
  with Suc show ?case by (simp add: entry_addr_def split: option.split)
qed simp

lemma ent_blk:
  "va_ok va \<Longrightarrow> va_ok va' \<Longrightarrow> blk l va = blk l va' \<Longrightarrow> l \<le> 3 \<Longrightarrow> ent m r va l = ent m r va' l"
  using tbl_pfx [of va va' l] blk_eq_iff [of va va' l] by (simp add: ent_def entry_addr_def)

lemma tbl_Suc_ent:
  "tbl m r va (Suc l) =
     (case ent m r va l of None \<Rightarrow> None
      | Some w \<Rightarrow> (case read_desc w l of Table _ a _ \<Rightarrow> Some a | _ \<Rightarrow> None))"
  by (simp add: ent_def split: option.split)

lemma tbl_None_mono: "tbl m r va l = None \<Longrightarrow> l \<le> k \<Longrightarrow> tbl m r va k = None"
  by (induction k) (auto simp: le_Suc_eq)

lemma entry_addr_same:
  assumes "tree_ok m r lim" "va_ok va" "va_ok va'" "l \<le> 3" "k \<le> 3"
    and "tbl m r va l = Some t" "tbl m r va' k = Some t'"
  shows "entry_addr t' va' k = entry_addr t va l \<longleftrightarrow> k = l \<and> blk l va' = blk l va"
proof
  assume e: "entry_addr t' va' k = entry_addr t va l"
  note al = tree_okD(1) [OF assms(1,2,4,6)] tree_okD(1) [OF assms(1,3,5,7)]
  have "t' = t" "OFFS va' k = OFFS va l"
    using entry_addr_eq [OF al(2,1) assms(3,2) e] by auto
  moreover from this have "l = k" "pfx l va = pfx l va'"
    using tree_ok_inj assms by metis+
  ultimately show "k = l \<and> blk l va' = blk l va"
    using blk_eq_iff [OF assms(2,3), of k] by simp
next
  assume "k = l \<and> blk l va' = blk l va"
  moreover from this have "pfx l va = pfx l va'" "OFFS va l = OFFS va' l"
    using blk_eq_iff [OF assms(2,3)] by metis+
  ultimately show "entry_addr t' va' k = entry_addr t va l"
    using tbl_pfx [OF assms(2,3) _ assms(4), of m r] assms(6,7) by (simp add: entry_addr_def)
qed

text \<open>Memory that no table occupies does not matter.\<close>

lemma tbl_frame:
  assumes "\<And>k t. k \<le> 3 \<Longrightarrow> tbl m r va k = Some t \<Longrightarrow> m' (entry_addr t va k) = m (entry_addr t va k)"
    and "k \<le> 3"
  shows "tbl m' r va k = tbl m r va k" "ent m' r va k = ent m r va k"
proof -
  show *: "tbl m' r va k = tbl m r va k" using assms(2)
  proof (induction k)
    case (Suc k)
    then show ?case using assms(1) [of k] by (cases "tbl m r va k") auto
  qed simp
  show "ent m' r va k = ent m r va k"
    using assms(1) [OF assms(2)] by (cases "tbl m r va k") (simp_all add: ent_def *)
qed

text \<open>Replacing an entry that is not a table by one that is not a table.\<close>

lemma tbl_update:
  assumes T: "tree_ok m r lim" "va_ok va" "l \<le> 3" "tbl m r va l = Some t"
    and old: "\<not> is_Table (read_desc (m (entry_addr t va l)) l)"
    and new: "\<not> is_Table (read_desc w l)"
    and "va_ok va'" "k \<le> 3"
  shows "tbl (m(entry_addr t va l := w)) r va' k = tbl m r va' k"
proof -
  obtain m' where m': "m' = m(entry_addr t va l := w)" by simp
  have "tbl m' r va' k = tbl m r va' k" using \<open>k \<le> 3\<close>
  proof (induction k)
    case (Suc k)
    show ?case
    proof (cases "tbl m r va' k")
      case (Some t')
      have "entry_addr t' va' k = entry_addr t va l \<longleftrightarrow> k = l \<and> blk l va' = blk l va"
        using Suc.prems Some T \<open>va_ok va'\<close> by (intro entry_addr_same) auto
      moreover have "m' (entry_addr t' va' k) =
          (if entry_addr t' va' k = entry_addr t va l then w else m (entry_addr t' va' k))"
        by (simp add: m')
      ultimately show ?thesis
        using Suc Some old new by (auto split: desc.split)
    qed (use Suc in simp)
  qed simp
  then show ?thesis by (simp only: m')
qed

lemma ent_update:
  assumes "tree_ok m r lim" "va_ok va" "l \<le> 3" "tbl m r va l = Some t"
    and "\<not> is_Table (read_desc (m (entry_addr t va l)) l)" "\<not> is_Table (read_desc w l)"
    and "va_ok va'" "k \<le> 3"
  shows "ent (m(entry_addr t va l := w)) r va' k =
    (if k = l \<and> blk l va' = blk l va then Some w else ent m r va' k)"
proof (cases "tbl m r va' k")
  case None
  moreover have "\<not> (k = l \<and> blk l va' = blk l va)"
    using None assms(4) tbl_pfx blk_eq_iff assms by (metis option.distinct(1))
  ultimately show ?thesis by (simp add: ent_def tbl_update [OF assms])
next
  case (Some t')
  have "entry_addr t' va' k = entry_addr t va l \<longleftrightarrow> k = l \<and> blk l va' = blk l va"
    using Some assms by (intro entry_addr_same) auto
  then show ?thesis using Some by (simp add: ent_def tbl_update [OF assms])
qed

lemma tree_ok_update:
  assumes "tree_ok m r lim" "va_ok va" "l \<le> 3" "tbl m r va l = Some t"
    and "\<not> is_Table (read_desc (m (entry_addr t va l)) l)" "\<not> is_Table (read_desc w l)"
  shows "tree_ok (m(entry_addr t va l := w)) r lim"
  using assms(1) unfolding tree_ok_def by (simp add: tbl_update [OF assms] cong: imp_cong)

text \<open>Linking a fresh page, all of whose entries are \<open>e\<close>, below an entry that was not a table.\<close>

lemma entry_addr_bounds:
  assumes "IS_ALIGNED t 12" "va_ok va"
  shows "unat t \<le> unat (entry_addr t va l)" "unat (entry_addr t va l) < unat t + 4096"
  using unat_entry_addr [OF assms, of l] unat_OFFS [OF assms(2), of l] by auto

lemma tbl_link:
  assumes T: "tree_ok m r lim" "va_ok va" "l < 3" "tbl m r va l = Some t"
    and old: "\<not> is_Table (read_desc (m (entry_addr t va l)) l)"
    and pg: "IS_ALIGNED pg 12" "unat lim \<le> unat pg"
    and page: "\<And>va'. va_ok va' \<Longrightarrow> m (entry_addr pg va' (Suc l)) = e"
    and e: "\<not> is_Table (read_desc e (Suc l))"
    and new: "read_desc w l = Table l pg at"
    and "va_ok va'" "k \<le> 3"
  shows "tbl (m(entry_addr t va l := w)) r va' k =
      (if k = Suc l \<and> blk l va' = blk l va then Some pg else tbl m r va' k)" (is ?tbl)
    and "ent (m(entry_addr t va l := w)) r va' k =
      (if blk l va' = blk l va \<and> k = l then Some w
       else if blk l va' = blk l va \<and> k = Suc l then Some e else ent m r va' k)" (is ?ent)
proof -
  obtain m' where m': "m' = m(entry_addr t va l := w)" by simp
  have t: "IS_ALIGNED t 12" "unat t + 4096 \<le> unat lim"
    using tree_okD [OF T(1,2) _ T(4)] T(3) by auto
  have pg_ne: "entry_addr pg va' (Suc l) \<noteq> entry_addr t va l"
    using entry_addr_bounds [OF t(1) T(2), of l] entry_addr_bounds [OF pg(1) \<open>va_ok va'\<close>, of "Suc l"] t(2) pg(2)
    by (metis le_less_trans leD order_less_le_trans)
  have below: "tbl m r va' (Suc l) = None" if "blk l va' = blk l va"
    using that T old tbl_pfx [of va' va l m r] blk_eq_iff [OF \<open>va_ok va'\<close> T(2), of l] \<open>va_ok va'\<close>
    by (auto simp: entry_addr_def split: desc.split)
  have m'_at: "m' (entry_addr t' va' k) = (if k = l \<and> blk l va' = blk l va then w else m (entry_addr t' va' k))"
    if "tbl m r va' k = Some t'" "k \<le> 3" for k t'
    using entry_addr_same [OF T(1,2) \<open>va_ok va'\<close> _ that(2) T(4) that(1)] T(3) by (simp add: m')
  have 1: "tbl m' r va' k = (if k = Suc l \<and> blk l va' = blk l va then Some pg else tbl m r va' k)"
    if "k \<le> 3" for k
    using that
  proof (induction k)
    case (Suc k)
    show ?case
    proof (cases "k = Suc l \<and> blk l va' = blk l va")
      case True
      then have "m' (entry_addr pg va' k) = e" using pg_ne page \<open>va_ok va'\<close> by (simp add: m')
      then show ?thesis using Suc True e below by (auto split: desc.split)
    next
      case False
      show ?thesis
      proof (cases "tbl m r va' k")
        case (Some t')
        then show ?thesis using Suc False m'_at [OF Some] old new T below by (auto split: desc.split)
      next
        case None
        have "tbl m r va' l \<noteq> None" if "blk l va' = blk l va"
          using that T tbl_pfx [of va' va l m r] blk_eq_iff [OF \<open>va_ok va'\<close> T(2), of l] \<open>va_ok va'\<close> by simp
        then show ?thesis using Suc False None by (auto split: desc.split)
      qed
    qed
  qed simp
  then show ?tbl using \<open>k \<le> 3\<close> by (simp only: m')
  have "ent m' r va' k = (if blk l va' = blk l va \<and> k = l then Some w
       else if blk l va' = blk l va \<and> k = Suc l then Some e else ent m r va' k)"
  proof (cases "k = Suc l \<and> blk l va' = blk l va")
    case True
    then have "m' (entry_addr pg va' k) = e" using pg_ne page \<open>va_ok va'\<close> by (simp add: m')
    then show ?thesis using True 1 [OF \<open>k \<le> 3\<close>] by (simp add: ent_def)
  next
    case False
    then have "tbl m' r va' k = tbl m r va' k" by (simp only: 1 [OF \<open>k \<le> 3\<close>] if_False)
    moreover have "tbl m r va' l \<noteq> None" if "blk l va' = blk l va"
      using that T tbl_pfx [of va' va l m r] blk_eq_iff [OF \<open>va_ok va'\<close> T(2), of l] \<open>va_ok va'\<close> by simp
    ultimately show ?thesis
      using False m'_at [OF _ \<open>k \<le> 3\<close>] by (cases "tbl m r va' k") (auto simp: ent_def)
  qed
  then show ?ent by (simp only: m')
qed

lemma tree_ok_link:
  assumes T: "tree_ok m r lim" "va_ok va" "l < 3" "tbl m r va l = Some t"
    and old: "\<not> is_Table (read_desc (m (entry_addr t va l)) l)"
    and pg: "IS_ALIGNED pg 12" "unat lim \<le> unat pg" "unat pg + 4096 \<le> unat lim'"
    and page: "\<And>va'. va_ok va' \<Longrightarrow> m (entry_addr pg va' (Suc l)) = e"
    and e: "\<not> is_Table (read_desc e (Suc l))"
    and new: "read_desc w l = Table l pg at"
  shows "tree_ok (m(entry_addr t va l := w)) r lim'"
proof -
  have L: "tbl (m(entry_addr t va l := w)) r x k =
      (if k = Suc l \<and> blk l x = blk l va then Some pg else tbl m r x k)" if "va_ok x" "k \<le> 3" for x k
    by (rule tbl_link(1) [OF T old pg(1,2) _ e new that]) (rule page)
  have ne: "u \<noteq> pg" if "va_ok x" "k \<le> 3" "tbl m r x k = Some u" for x k u
    using tree_okD(2) [OF T(1) that] pg(2) by auto
  show ?thesis
    unfolding tree_ok_def
  proof (intro conjI allI impI)
    fix x k u assume x: "va_ok x" "k \<le> 3" "tbl (m(entry_addr t va l := w)) r x k = Some u"
    then show "IS_ALIGNED u 12" "unat u + 4096 \<le> unat lim'"
      using L [OF x(1,2)] pg tree_okD [OF T(1) x(1,2), of u] by (auto split: if_splits)
  next
    fix x x' k k' u
    assume x: "va_ok x" "va_ok x'" "k \<le> 3" "k' \<le> 3"
      "tbl (m(entry_addr t va l := w)) r x k = Some u" "tbl (m(entry_addr t va l := w)) r x' k' = Some u"
    from x L [OF x(1,3)] L [OF x(2,4)] ne [OF x(1,3)] ne [OF x(2,4)]
    have "k = Suc l \<and> blk l x = blk l va \<and> k' = Suc l \<and> blk l x' = blk l va
        \<or> tbl m r x k = Some u \<and> tbl m r x' k' = Some u"
      by (auto split: if_splits)
    then show "k = k'" "pfx k x = pfx k x'"
      using tree_ok_inj [OF T(1) x(1-4)] T(3) by (auto simp: pfx_Suc)
  qed
qed

section \<open>Leaves\<close>

text \<open>
  The abstraction of a tree: every address has exactly one leaf, the level and the entry at which
  its walk stops. The walk of \<open>vmm_translation_walk\<close> finds it.
\<close>

definition is_leaf :: "pt_mem \<Rightarrow> u64 \<Rightarrow> u64 \<Rightarrow> nat \<Rightarrow> u64 \<Rightarrow> bool" where
  "is_leaf m r va k w \<longleftrightarrow> k \<le> 3 \<and> ent m r va k = Some w \<and> \<not> is_Table (read_desc w k)"

definition leaf :: "pt_mem \<Rightarrow> u64 \<Rightarrow> u64 \<Rightarrow> nat \<times> u64" where
  "leaf m r va = (let (d, p, _) = vmm_translation_walk m r va in (dlevel d, m p))"

declare tbl_Suc [simp del]

lemma read_desc_3: "\<not> is_Table (read_desc w 3)"
  by (simp add: read_desc_def)

lemma ent_leaf_above:
  "is_leaf m r va k w \<Longrightarrow> j < k \<Longrightarrow> \<exists>w'. ent m r va j = Some w' \<and> is_Table (read_desc w' j)"
proof -
  assume k: "is_leaf m r va k w" "j < k"
  then have "tbl m r va k \<noteq> None" by (auto simp: is_leaf_def ent_def)
  then have "tbl m r va (Suc j) \<noteq> None"
    using tbl_None_mono [of m r va "Suc j" k] k(2) by linarith
  then show ?thesis
    unfolding tbl_Suc_ent by (auto split: option.splits desc.splits)
qed

lemma leaf_unique: "is_leaf m r va k w \<Longrightarrow> is_leaf m r va k' w' \<Longrightarrow> k = k' \<and> w = w'"
proof -
  assume l: "is_leaf m r va k w" "is_leaf m r va k' w'"
  have "\<not> k < k'" "\<not> k' < k"
    using l ent_leaf_above [OF l(1), of k'] ent_leaf_above [OF l(2), of k] by (auto simp: is_leaf_def)
  then show ?thesis using l by (auto simp: is_leaf_def)
qed

lemma walk_loop_stop:
  assumes "tbl m r va l = Some t" "l \<le> 3" "\<not> is_Table (read_desc (m (entry_addr t va l)) l)"
  shows "walk_loop m va t par pars l n = (read_desc (m (entry_addr t va l)) l, entry_addr t va l, pars @ [par])
    \<and> is_leaf m r va l (m (entry_addr t va l))"
  using assms
  by (auto simp: walk_loop.simps [of m va t] Let_def is_leaf_def ent_def split: desc.split)

lemma walk_loop_leaf:
  "tbl m r va l = Some t \<Longrightarrow> l + n = 3 \<Longrightarrow>
   \<exists>k p ps t'. walk_loop m va t par pars l n = (read_desc (m p) k, p, ps) \<and>
     tbl m r va k = Some t' \<and> p = entry_addr t' va k \<and> is_leaf m r va k (m p)"
proof (induction n arbitrary: l t par pars)
  case 0
  then show ?case
    using walk_loop_stop [of m r va 3 t par pars 0] read_desc_3 by fastforce
next
  case (Suc n)
  show ?case
  proof (cases "read_desc (m (entry_addr t va l)) l")
    case (Table l' a at)
    then have "tbl m r va (Suc l) = Some a" using Suc.prems by (simp add: tbl_Suc)
    from Suc.IH [OF this] Suc.prems(2) Table show ?thesis
      by (simp add: walk_loop.simps [of m va t])
  qed (use Suc.prems walk_loop_stop [of m r va l t par pars "Suc n"] in fastforce)+
qed

lemma walk_leaf:
  obtains k t ps where "vmm_translation_walk m r va = (read_desc (m (entry_addr t va k)) k, entry_addr t va k, ps)"
    and "tbl m r va k = Some t" and "is_leaf m r va k (m (entry_addr t va k))"
    and "leaf m r va = (k, m (entry_addr t va k))"
  using walk_loop_leaf [of m r va 0 r 3 None "[]"]
  by (auto simp: vmm_translation_walk_def vmm_translation_walk_to_level_def leaf_def)

lemma is_leaf_leaf: "is_leaf m r va k w \<longleftrightarrow> leaf m r va = (k, w)"
  by (rule walk_leaf [of m r va]) (metis leaf_unique prod.inject)

lemma leaf_level: "fst (leaf m r va) \<le> 3"
  by (metis is_leaf_leaf is_leaf_def prod.collapse)

lemma leaf_tbl: "tbl m r va k \<noteq> None \<longleftrightarrow> k \<le> fst (leaf m r va)" if "k \<le> 3"
proof -
  obtain k0 w where l: "leaf m r va = (k0, w)" by fastforce
  then have lf: "is_leaf m r va k0 w" by (simp add: is_leaf_leaf)
  have "tbl m r va (Suc k0) = None"
    using lf unfolding tbl_Suc_ent is_leaf_def by (auto split: desc.split)
  then have "k0 < k \<Longrightarrow> tbl m r va k = None" using tbl_None_mono [of m r va "Suc k0" k] by simp
  moreover have "tbl m r va k0 \<noteq> None" using lf by (auto simp: is_leaf_def ent_def)
  then have "k \<le> k0 \<Longrightarrow> tbl m r va k \<noteq> None" using tbl_None_mono [of m r va k k0] by linarith
  ultimately show ?thesis unfolding l fst_conv by (cases "k \<le> k0") simp_all
qed

lemma leaf_blk:
  assumes "va_ok va" "va_ok va'" "blk k va' = blk k va" "leaf m r va = (k, w)"
  shows "leaf m r va' = (k, w)"
proof -
  have "is_leaf m r va k w" using assms(4) by (simp add: is_leaf_leaf)
  then have "is_leaf m r va' k w"
    using ent_blk [of va' va k m r] assms by (simp add: is_leaf_def)
  then show ?thesis by (simp add: is_leaf_leaf)
qed

lemma leaf_eqI:
  assumes "leaf m r va = (k, w)" "\<And>j. j \<le> k \<Longrightarrow> ent m' r va j = ent m r va j"
  shows "leaf m' r va = (k, w)"
  using assms unfolding is_leaf_leaf [symmetric] by (simp add: is_leaf_def)

text \<open>Writing a leaf, and replacing a leaf by a table of leaves.\<close>

lemma leaf_update:
  assumes "tree_ok m r lim" "va_ok va" "leaf m r va = (l, w0)" "tbl m r va l = Some t"
    and "\<not> is_Table (read_desc w l)" and "va_ok va'"
  shows "leaf (m(entry_addr t va l := w)) r va' = (if blk l va' = blk l va then (l, w) else leaf m r va')"
proof -
  have lf: "l \<le> 3" "m (entry_addr t va l) = w0" "\<not> is_Table (read_desc w0 l)"
    using assms(3,4) unfolding is_leaf_leaf [symmetric] by (auto simp: is_leaf_def ent_def)
  note E = ent_update [OF assms(1,2) lf(1) assms(4) lf(3) [folded lf(2)] assms(5)]
  show ?thesis
  proof (cases "blk l va' = blk l va")
    case True
    then have "is_leaf (m(entry_addr t va l := w)) r va' l w"
      using E [OF assms(6) lf(1)] assms(5) lf(1) by (simp add: is_leaf_def)
    then show ?thesis using True by (simp add: is_leaf_leaf)
  next
    case False
    obtain k x where k: "leaf m r va' = (k, x)" by fastforce
    moreover have "k \<le> 3" using leaf_level [of m r va'] k by simp
    ultimately have "leaf (m(entry_addr t va l := w)) r va' = (k, x)"
      using E [OF assms(6)] False by (intro leaf_eqI [OF k]) auto
    then show ?thesis using False k by simp
  qed
qed

lemma leaf_link:
  assumes "tree_ok m r lim" "va_ok va" "l < 3" "leaf m r va = (l, w0)" "tbl m r va l = Some t"
    and pg: "IS_ALIGNED pg 12" "unat lim \<le> unat pg"
    and page: "\<And>va'. va_ok va' \<Longrightarrow> m (entry_addr pg va' (Suc l)) = e"
    and e: "\<not> is_Table (read_desc e (Suc l))"
    and new: "read_desc w l = Table l pg at" and "va_ok va'"
  shows "leaf (m(entry_addr t va l := w)) r va' = (if blk l va' = blk l va then (Suc l, e) else leaf m r va')"
proof -
  have lf: "m (entry_addr t va l) = w0" "\<not> is_Table (read_desc w0 l)"
    using assms(4,5) unfolding is_leaf_leaf [symmetric] by (auto simp: is_leaf_def ent_def)
  have E: "ent (m(entry_addr t va l := w)) r va' k =
      (if blk l va' = blk l va \<and> k = l then Some w
       else if blk l va' = blk l va \<and> k = Suc l then Some e else ent m r va' k)" if "k \<le> 3" for k
    by (rule tbl_link(2) [OF assms(1-3,5) lf(2) [folded lf(1)] pg _ e new \<open>va_ok va'\<close> that]) (rule page)
  show ?thesis
  proof (cases "blk l va' = blk l va")
    case True
    then have "is_leaf (m(entry_addr t va l := w)) r va' (Suc l) e"
      using E [of "Suc l"] e assms(3) by (simp add: is_leaf_def)
    then show ?thesis using True by (simp add: is_leaf_leaf)
  next
    case False
    obtain k x where k: "leaf m r va' = (k, x)" by fastforce
    moreover have "k \<le> 3" using leaf_level [of m r va'] k by simp
    ultimately have "leaf (m(entry_addr t va l := w)) r va' = (k, x)"
      using E False by (intro leaf_eqI [OF k]) auto
    then show ?thesis using False k by simp
  qed
qed

end
