(* ===== verification/VmmEnsure.thy ===== *)
theory VmmEnsure
  imports Vmm
begin

text \<open>
  What \<open>vmm_update_pte\<close>, \<open>zalloc_ptable\<close> and \<open>vmm_ensure_level\<close> do to the leaves of a tree, and the
  break-before-make discipline of the events they emit.
\<close>

section \<open>Effects on memory\<close>

named_theorems vm_st_simps \<open>what the primitive operations do to the memory and to the allocator\<close>

lemma emit_fields [vm_st_simps]: "mem (emit e s) = mem s" "pt_bot (emit e s) = pt_bot s"
  by (simp_all add: emit_def)

lemma tlb_fields [vm_st_simps]:
  "mem (vmm_flush_tlb env s) = mem s" "pt_bot (vmm_flush_tlb env s) = pt_bot s"
  "mem (vmm_flush_tlb_asid env a s) = mem s" "pt_bot (vmm_flush_tlb_asid env a s) = pt_bot s"
  "mem (vmm_flush_tlb_vaddr env a s) = mem s" "pt_bot (vmm_flush_tlb_vaddr env a s) = pt_bot s"
  by (simp_all add: vmm_flush_tlb_def vmm_flush_tlb_asid_def vmm_flush_tlb_vaddr_def pre_tlbi_def
      tlbi_all_def tlbi_asid_def tlbi_va_def Let_def vm_st_simps)

lemma write_release_fields [vm_st_simps]:
  "mem (write_release p v s) = (mem s)(p := v)" "pt_bot (write_release p v s) = pt_bot s"
  by (simp_all add: write_release_def vm_st_simps)

lemma update_pte_mem [vm_st_simps]: "mem (vmm_update_pte env p v k a f s) = (mem s)(p := v)"
  by (simp add: vmm_update_pte_def Let_def vm_st_simps split: sync_type.split)

lemma update_pte_bot [vm_st_simps]: "pt_bot (vmm_update_pte env p v k a f s) = pt_bot s"
  by (simp add: vmm_update_pte_def Let_def vm_st_simps split: sync_type.split)

definition fill_page :: "vm_env \<Rightarrow> u64 \<Rightarrow> u64 \<Rightarrow> vm_st \<Rightarrow> vm_st" where
  "fill_page env pg w = fold (\<lambda>i. vmm_update_pte env (pg + 8 * of_nat i) w SYNC_ALL 0 False) [0..<512]"

lemma fill_bot [vm_st_simps]: "pt_bot (fill_page env pg w s) = pt_bot s"
  unfolding fill_page_def
  by (rule fold_invariant [where Q = "\<lambda>_. True" and P = "\<lambda>x. pt_bot x = pt_bot s"]) (auto simp: vm_st_simps)

lemma fold_fill_mem:
  "mem (fold (\<lambda>i. vmm_update_pte env (pg + 8 * of_nat i) w SYNC_ALL 0 False) is s) a =
     (if a \<in> (\<lambda>i. pg + 8 * of_nat i) ` set is then w else mem s a)"
  by (induction "is" arbitrary: s) (auto simp: vm_st_simps)

lemma fill_mem: "mem (fill_page env pg w s) a = (if \<exists>i < 512. a = pg + 8 * of_nat i then w else mem s a)"
  by (auto simp: fill_page_def fold_fill_mem)

lemma fill_entry: "va_ok va \<Longrightarrow> mem (fill_page env pg w s) (entry_addr pg va l) = w"
proof -
  assume "va_ok va"
  then have "entry_addr pg va l = pg + 8 * of_nat (unat (OFFS va l))" "unat (OFFS va l) < 512"
    by (simp_all add: entry_addr_def unat_OFFS)
  then show ?thesis unfolding fill_mem by metis
qed

lemma fill_other:
  assumes "unat pg + 4096 \<le> 2 ^ 64" "\<not> (unat pg \<le> unat a \<and> unat a < unat pg + 4096)"
  shows "mem (fill_page env pg w s) a = mem s a"
proof -
  have "a \<noteq> pg + 8 * of_nat i" if "i < 512" for i
  proof
    assume a: "a = pg + 8 * of_nat i"
    have i: "unat (8 * of_nat i :: u64) = 8 * i"
      using that by (simp add: unat_word_ariths unat_of_nat)
    then have "unat pg + unat (8 * of_nat i :: u64) < 2 ^ LENGTH(64)"
      using assms(1) that by simp
    then have "unat a = unat pg + 8 * i" unfolding a by (simp add: unat_add_no_wrap i)
    then show False using assms(2) that by simp
  qed
  then show ?thesis unfolding fill_mem by metis
qed

lemma zalloc_cases:
  "zalloc_ptable env s =
     (if pt_bot s \<ge> top_of_ptables env then Inl NoMorePagetables
      else Inr (pt_bot s, emit (PageZero (pt_bot s))
        (s\<lparr>pt_bot := pt_bot s + 4096, mem := \<lambda>a. if a - pt_bot s < 4096 then 0 else mem s a\<rparr>)))"
  by (simp add: zalloc_ptable_def Let_def cong: if_cong)

text \<open>The bump allocator: a page of zeros at the old pointer, and nothing else changed.\<close>

lemma zalloc_ptable_spec:
  assumes "zalloc_ptable env s = Inr (pg, s')" "unat (top_of_ptables env) \<le> 2 ^ 48" "IS_ALIGNED (pt_bot s) 12"
  shows "pg = pt_bot s" "unat (pt_bot s') = unat pg + 4096" "unat (pt_bot s') \<le> 2 ^ 48"
    "IS_ALIGNED pg 12" "IS_ALIGNED (pt_bot s') 12"
    "unat a < unat pg \<Longrightarrow> mem s' a = mem s a"
    "unat pg \<le> unat a \<Longrightarrow> unat a < unat pg + 4096 \<Longrightarrow> mem s' a = 0"
    "unat pg + 4096 \<le> unat a \<Longrightarrow> mem s' a = mem s a"
proof -
  have s': "pg = pt_bot s" "pt_bot s' = pt_bot s + 4096"
    "mem s' = (\<lambda>a. if a - pt_bot s < 4096 then 0 else mem s a)" "pt_bot s < top_of_ptables env"
    using assms(1) by (auto simp: zalloc_cases vm_st_simps split: if_splits)
  obtain k where k: "unat (pt_bot s) = 4096 * k"
    using assms(3) by (auto simp: IS_ALIGNED_dvd elim: dvdE)
  have "4096 * k < 2 ^ 48" using s'(4) assms(2) k by (simp add: word_less_nat_alt)
  then have b: "4096 * k + 4096 \<le> 2 ^ 48" by simp
  then have "unat (pt_bot s) + unat (4096 :: u64) < 2 ^ LENGTH(64)" using k by simp
  then have u: "unat (pt_bot s') = 4096 * k + 4096"
    unfolding s'(2) by (simp add: unat_add_no_wrap k)
  show "pg = pt_bot s" "unat (pt_bot s') = unat pg + 4096" "unat (pt_bot s') \<le> 2 ^ 48" "IS_ALIGNED pg 12"
    using s'(1) u b k assms(3) by simp_all
  show "IS_ALIGNED (pt_bot s') 12" by (simp add: IS_ALIGNED_dvd u)
  have d: "unat (a - pt_bot s) = unat a - 4096 * k" if "4096 * k \<le> unat a"
    using that k by (simp add: unat_sub_no_wrap word_le_nat_alt)
  have d': "unat (a - pt_bot s) = unat a + 2 ^ 64 - 4096 * k" if "unat a < 4096 * k"
    using that k by (simp add: unat_sub_if')
  show "unat a < unat pg \<Longrightarrow> mem s' a = mem s a"
  proof -
    assume a: "unat a < unat pg"
    then have "unat (a - pt_bot s) = unat a + 2 ^ 64 - 4096 * k" using d' k s'(1) by simp
    then have "\<not> a - pt_bot s < 4096" using b by (simp add: word_less_nat_alt)
    then show "mem s' a = mem s a" by (simp add: s')
  qed
  show "unat pg \<le> unat a \<Longrightarrow> unat a < unat pg + 4096 \<Longrightarrow> mem s' a = 0"
  proof -
    assume "unat pg \<le> unat a" "unat a < unat pg + 4096"
    then have "unat (a - pt_bot s) < 4096" using d k s'(1) by simp
    then show "mem s' a = 0" by (simp add: s' word_less_nat_alt)
  qed
  show "unat pg + 4096 \<le> unat a \<Longrightarrow> mem s' a = mem s a"
  proof -
    assume "unat pg + 4096 \<le> unat a"
    then have "\<not> unat (a - pt_bot s) < 4096" using d k s'(1) by simp
    then show "mem s' a = mem s a" by (simp add: s' word_less_nat_alt)
  qed
qed

section \<open>One iteration of vmm_ensure_level\<close>

definition vm_inv :: "vm_env \<Rightarrow> u64 \<Rightarrow> vm_st \<Rightarrow> bool" where
  "vm_inv env r s \<longleftrightarrow>
     tree_ok (mem s) r (pt_bot s) \<and> IS_ALIGNED (pt_bot s) 12 \<and> unat (pt_bot s) \<le> 2 ^ 48 \<and>
     unat (top_of_ptables env) \<le> 2 ^ 48"

lemma tree_frame:
  assumes "tree_ok m r lim" "\<And>a. unat a < unat lim \<Longrightarrow> m' a = m a"
  shows "tree_ok m' r lim" and "va_ok va \<Longrightarrow> k \<le> 3 \<Longrightarrow> tbl m' r va k = tbl m r va k"
    and "va_ok va \<Longrightarrow> leaf m' r va = leaf m r va"
proof -
  have f: "m' (entry_addr t va k) = m (entry_addr t va k)" if "va_ok va" "k \<le> 3" "tbl m r va k = Some t" for va k t
    using assms(2) tree_okD [OF assms(1) that] entry_addr_bounds [of t va k] that(1) by simp
  have t: "tbl m' r va k = tbl m r va k" "ent m' r va k = ent m r va k" if "va_ok va" "k \<le> 3" for va k
    using tbl_frame [of m r va m' k] f [OF that(1)] that(2) by blast+
  show "tree_ok m' r lim" using assms(1) unfolding tree_ok_def by (simp add: t cong: imp_cong)
  show "va_ok va \<Longrightarrow> k \<le> 3 \<Longrightarrow> tbl m' r va k = tbl m r va k" by (rule t)
  assume "va_ok va"
  obtain k w where l: "leaf m r va = (k, w)" by fastforce
  have "k \<le> 3" using leaf_level [of m r va] l by simp
  then show "leaf m' r va = leaf m r va"
    unfolding l using t \<open>va_ok va\<close> by (intro leaf_eqI [OF l]) auto
qed

lemma write_leaf_not_table:
  assumes "l \<le> 3" "\<not> is_Table (read_desc w l)"
  shows "\<not> is_Table (read_desc (write_desc (read_desc w l)) (Suc l))"
proof (cases "read_desc w l")
  case (Block k a at)
  then have k: "k = l" "l \<noteq> 0" using read_desc_level [of w l] by (auto simp: read_desc_def split: if_splits)
  have a: "addr_ok (OFFSBOT l) a" using wf_read_desc [OF assms(1), of w] Block by simp
  show ?thesis
  proof (cases "l = 3")
    case False
    then have "\<not> bit a 1" using a by (auto simp: addr_ok_bit OFFSBOT_def split: if_splits)
    then have "BIT (write_desc (read_desc w l)) 1 = 0"
      unfolding BIT_eq_0 Block bit_write_desc_block k using False by (auto simp: bit_write_attrs)
    then show ?thesis using assms(1) k False unfolding read_desc_def [of _ "Suc l"] by auto
  qed (simp add: read_desc_def)
qed (use assms in \<open>simp_all add: read_desc_def [of 0] BIT_def\<close>)

lemma ensure_step_table:
  assumes "tbl (mem s) r va l = Some t" "l < fst (leaf (mem s) r va)"
  obtains a where "ensure_step env va l (t, s) = Inr (a, s)" "tbl (mem s) r va (Suc l) = Some a"
proof -
  have "Suc l \<le> 3" using leaf_level [of "mem s" r va] assms(2) by simp
  then have "tbl (mem s) r va (Suc l) \<noteq> None" using leaf_tbl assms(2) by (metis Suc_leI)
  then obtain k a at where "read_desc (mem s (entry_addr t va l)) l = Table k a at"
    unfolding tbl_Suc using assms(1) by (auto split: desc.splits)
  then show thesis using assms(1) by (intro that [of a]) (simp_all add: ensure_step_def tbl_Suc)
qed

lemma ensure_step_alloc:
  assumes "\<not> is_Table (read_desc (mem s (entry_addr t va l)) l)"
  shows "ensure_step env va l (t, s) =
    rbind (zalloc_ptable env s) (\<lambda>(pg, s').
      Inr (pg, vmm_update_pte env (entry_addr t va l) (write_desc (Table l pg attrs0)) SYNC_ALL 0 False
        (fill_page env pg (write_desc (read_desc (mem s (entry_addr t va l)) l)) s')))"
  using assms
  by (cases "read_desc (mem s (entry_addr t va l)) l")
    (simp_all add: ensure_step_def fill_page_def Let_def del: write_desc.simps)

lemma ensure_step_new:
  assumes inv: "vm_inv env r s" and va: "va_ok va" and l: "l < 3" "leaf (mem s) r va = (l, w0)"
    and t: "tbl (mem s) r va l = Some t"
    and step: "ensure_step env va l (t, s) = Inr (pg, s')"
  shows "vm_inv env r s'" and "tbl (mem s') r va (Suc l) = Some pg"
    and "unat (pt_bot s') = unat (pt_bot s) + 4096"
    and "va_ok va' \<Longrightarrow> leaf (mem s') r va' =
      (if blk l va' = blk l va then (Suc l, write_desc (read_desc w0 l)) else leaf (mem s) r va')"
proof -
  have w0: "mem s (entry_addr t va l) = w0" "\<not> is_Table (read_desc w0 l)"
    using l(2) t unfolding is_leaf_leaf [symmetric] by (auto simp: is_leaf_def ent_def)
  let ?e = "write_desc (read_desc w0 l)" and ?w = "write_desc (Table l pg attrs0)"
  obtain s1 where z: "zalloc_ptable env s = Inr (pg, s1)"
    and s': "s' = vmm_update_pte env (entry_addr t va l) ?w SYNC_ALL 0 False (fill_page env pg ?e s1)"
    using step w0 by (auto simp: ensure_step_alloc)
  from inv have I: "tree_ok (mem s) r (pt_bot s)" "IS_ALIGNED (pt_bot s) 12" "unat (pt_bot s) \<le> 2 ^ 48"
    "unat (top_of_ptables env) \<le> 2 ^ 48"
    by (simp_all add: vm_inv_def)
  note Z = zalloc_ptable_spec [OF z I(4,2)]
  have bot: "pt_bot s' = pt_bot s1" by (simp add: s' vm_st_simps)
  define m where "m = mem (fill_page env pg ?e s1)"
  have m': "mem s' = m(entry_addr t va l := ?w)" by (simp add: s' vm_st_simps m_def)
  have below: "m a = mem s a" if "unat a < unat (pt_bot s)" for a
    unfolding m_def using that Z(1,2,3,6) by (subst fill_other) auto
  have F: "tree_ok m r (pt_bot s)" "tbl m r x k = tbl (mem s) r x k" "leaf m r x = leaf (mem s) r x"
    if "va_ok x" "k \<le> 3" for x k
    using tree_frame [OF I(1), of m] below that by blast+
  have F1: "tree_ok m r (pt_bot s)" by (rule F(1) [OF va, of 0]) simp
  have page: "m (entry_addr pg x k) = ?e" if "va_ok x" for x k
    using that by (simp add: m_def fill_entry)
  have e: "\<not> is_Table (read_desc ?e (Suc l))"
    using l(1) w0(2) by (intro write_leaf_not_table) auto
  have "addr_ok 12 pg"
    using Z(2-4) va_ok_unat [of pg] unfolding addr_ok_def va_ok_def by simp
  then have w: "read_desc ?w l = Table l pg (attrs0\<lparr>nT := ucast (BIT pg 16)\<rparr>)"
    using l(1) by (intro read_write_table) (simp_all add: attrs0_def)
  have tm: "tbl m r va l = Some t" "leaf m r va = (l, w0)" using F [OF va, of l] l t by simp_all
  have lf: "m (entry_addr t va l) = w0"
    using tm unfolding is_leaf_leaf [symmetric] by (auto simp: is_leaf_def ent_def)
  have pl: "unat (pt_bot s) \<le> unat pg" "unat pg + 4096 \<le> unat (pt_bot s')" using Z bot by auto
  show "leaf (mem s') r va' =
      (if blk l va' = blk l va then (Suc l, ?e) else leaf (mem s) r va')" if "va_ok va'"
    unfolding m' F(3) [OF that, of 0, simplified, symmetric]
    by (rule leaf_link [OF F1 va l(1) tm(2,1) Z(4) pl(1) _ e w that]) (rule page)
  have "tree_ok (mem s') r (pt_bot s')"
    unfolding m' by (rule tree_ok_link [OF F1 va l(1) tm(1) _ Z(4) pl _ e w]) (simp_all add: lf w0 page)
  then show "vm_inv env r s'" using Z bot I(4) by (simp add: vm_inv_def)
  show "unat (pt_bot s') = unat (pt_bot s) + 4096" using Z bot by simp
  show "tbl (mem s') r va (Suc l) = Some pg"
    unfolding m' using tbl_link(1) [OF F1 va l(1) tm(1) _ Z(4) pl(1) page e w va] lf w0 l(1) by simp
qed

section \<open>vmm_ensure_level on an unmapped address\<close>

text \<open>How many levels of table, of the first \<open>n\<close>, the walks of two addresses share.\<close>

definition shared :: "nat \<Rightarrow> u64 \<Rightarrow> u64 \<Rightarrow> nat" where
  "shared n va va' = length (takeWhile (\<lambda>k. blk k va' = blk k va) [0..<n])"

lemma shared_le: "shared n va va' \<le> n"
  unfolding shared_def using length_takeWhile_le [of _ "[0..<n]"] by simp

lemma shared_blk:
  assumes "k < shared n va va'"
  shows "blk k va' = blk k va"
proof -
  let ?P = "\<lambda>k. blk k va' = blk k va"
  have "takeWhile ?P [0..<n] ! k \<in> set (takeWhile ?P [0..<n])"
    using assms by (simp add: shared_def)
  then have "?P (takeWhile ?P [0..<n] ! k)" using set_takeWhileD by fastforce
  moreover have "takeWhile ?P [0..<n] ! k = k"
    using assms shared_le [of n va va'] by (simp add: shared_def takeWhile_nth)
  ultimately show ?thesis by simp
qed

lemma shared_all: "(\<And>k. k < n \<Longrightarrow> blk k va' = blk k va) \<Longrightarrow> shared n va va' = n"
  unfolding shared_def by (subst takeWhile_eq_all_conv [THEN iffD2]) auto

lemma shared_Suc: "shared (Suc n) va va' = (if blk n va' = blk n va then Suc n else shared n va va')"
proof (cases "blk n va' = blk n va")
  case True
  then show ?thesis using blk_mono [OF True] by (subst shared_all) (auto simp: less_Suc_eq_le)
next
  case False
  have "takeWhile P (xs @ [n]) = takeWhile P xs" if "\<not> P n" for P and xs :: "nat list"
    using that by (induction xs) auto
  then show ?thesis using False by (simp add: shared_def)
qed

lemma unset_read_desc: "\<not> bit w 0 \<Longrightarrow> read_desc w l = Invalid l"
  unfolding read_desc_def by (simp add: BIT_of_bool)

lemma write_unset: "\<not> bit w 0 \<Longrightarrow> write_desc (read_desc w l) = 0"
  by (simp add: unset_read_desc del: bit_0)

lemma ensure_prefix:
  assumes inv: "vm_inv env r s" and va: "va_ok va" and lf: "leaf (mem s) r va = (k0, w0)" "\<not> bit w0 0"
    and "j \<le> 3" "unat (pt_bot s) + 4096 * (j - k0) \<le> unat (top_of_ptables env)"
  shows "\<exists>t s'. rfold (ensure_step env va) [0..<j] (r, s) = Inr (t, s') \<and> vm_inv env r s' \<and>
    tbl (mem s') r va j = Some t \<and> unat (pt_bot s') = unat (pt_bot s) + 4096 * (j - k0) \<and>
    (\<forall>va'. va_ok va' \<longrightarrow> leaf (mem s') r va' =
       (if k0 < j \<and> blk k0 va' = blk k0 va then (shared j va va', 0) else leaf (mem s) r va'))"
  using assms(5,6)
proof (induction j)
  case 0
  then show ?case using inv by simp
next
  case (Suc j)
  then obtain t s1 where IH: "rfold (ensure_step env va) [0..<j] (r, s) = Inr (t, s1)" "vm_inv env r s1"
    "tbl (mem s1) r va j = Some t" "unat (pt_bot s1) = unat (pt_bot s) + 4096 * (j - k0)"
    and L: "\<And>va'. va_ok va' \<Longrightarrow> leaf (mem s1) r va' =
       (if k0 < j \<and> blk k0 va' = blk k0 va then (shared j va va', 0) else leaf (mem s) r va')"
    by force
  have fold: "rfold (ensure_step env va) [0..<Suc j] (r, s) = ensure_step env va j (t, s1)"
    using IH(1) by (simp add: rfold_snoc)
  have sj: "shared j va va = j" by (rule shared_all) simp
  show ?case
  proof (cases "j < k0")
    case True
    then have "j < fst (leaf (mem s1) r va)" using L [OF va] lf by simp
    with ensure_step_table [OF IH(3)] obtain a
      where "ensure_step env va j (t, s1) = Inr (a, s1)" "tbl (mem s1) r va (Suc j) = Some a" by blast
    then show ?thesis using IH L True unfolding fold by auto
  next
    case False
    then have lf1: "leaf (mem s1) r va = (j, if j = k0 then w0 else 0)"
      using L [OF va] lf sj by auto
    let ?w = "if j = k0 then w0 else 0"
    have w: "\<not> bit ?w 0" using lf(2) by simp
    have nt: "\<not> is_Table (read_desc (mem s1 (entry_addr t va j)) j)"
      using lf1 IH(3) unfolding is_leaf_leaf [symmetric] by (auto simp: is_leaf_def ent_def)
    have "pt_bot s1 < top_of_ptables env"
      using Suc.prems(2) IH(4) False by (simp add: word_less_nat_alt Suc_diff_le)
    then obtain pg s3 where "zalloc_ptable env s1 = Inr (pg, s3)"
      by (simp add: zalloc_cases not_le [symmetric])
    then obtain s2 where step: "ensure_step env va j (t, s1) = Inr (pg, s2)"
      by (simp add: ensure_step_alloc [OF nt])
    note N = ensure_step_new [OF IH(2) va _ lf1 IH(3) step]
    have "j < 3" using Suc.prems by simp
    moreover have "leaf (mem s2) r va' =
       (if k0 < Suc j \<and> blk k0 va' = blk k0 va then (shared (Suc j) va va', 0) else leaf (mem s) r va')"
      if va': "va_ok va'" for va'
      using N(4) [OF \<open>j < 3\<close> va'] L [OF va'] False write_unset [OF w] blk_mono [of j va' va k0]
      by (auto simp: shared_Suc)
    ultimately show ?thesis
      using N(1-3) IH(4) False step unfolding fold by (auto simp: Suc_diff_le)
  qed
qed

text \<open>
  The effect of \<open>vmm_ensure_level\<close> on an unmapped address: it succeeds if the allocator has a page for
  each missing level, links the tables that were missing and changes no other leaf.
\<close>

lemma ensure_level_unmapped:
  assumes "vm_inv env r s" "va_ok va" "leaf (mem s) r va = (k0, w0)" "\<not> bit w0 0"
    and "D \<le> 3" "unat (pt_bot s) + 4096 * (D - k0) \<le> unat (top_of_ptables env)"
  shows "\<exists>s'. vmm_ensure_level env r D va s = Inr s' \<and> vm_inv env r s' \<and>
    unat (pt_bot s') = unat (pt_bot s) + 4096 * (D - k0) \<and>
    (\<forall>va'. va_ok va' \<longrightarrow> leaf (mem s') r va' =
       (if k0 < D \<and> blk k0 va' = blk k0 va then (shared D va va', 0) else leaf (mem s) r va'))"
  using ensure_prefix [OF assms] by (force simp: vmm_ensure_level_def)

section \<open>Break-before-make\<close>

text \<open>
  The discipline the architecture asks of a change of a live entry, as a monitor of the event trace.
  An entry that was made invalid is at stage 1; a \<open>DSB\<close> takes it to 2, an invalidation of all the
  TLBs to 3, and the next \<open>DSB\<close> to 0. A valid entry may be written only over an invalid one at
  stage 0. A page given out by the allocator belongs to no live table and starts at stage 0.
\<close>

fun bbm_step :: "event \<Rightarrow> pt_mem \<times> (u64 \<Rightarrow> nat) \<Rightarrow> (pt_mem \<times> (u64 \<Rightarrow> nat)) option" where
  "bbm_step (PteWrite a v) (m, st) =
     (if v = 0 then Some (m(a := 0), if m a = 0 then st else st(a := 1))
      else if m a = 0 \<and> st a = 0 then Some (m(a := v), st) else None)"
| "bbm_step (PageZero p) (m, st) =
     Some (\<lambda>a. if a - p < 4096 then 0 else m a, \<lambda>a. if a - p < 4096 then 0 else st a)"
| "bbm_step Dsb (m, st) = Some (m, \<lambda>a. if st a = 1 then 2 else if st a = 3 then 0 else st a)"
| "bbm_step TlbiAll (m, st) = Some (m, \<lambda>a. if st a = 2 then 3 else st a)"
| "bbm_step Isb (m, st) = Some (m, st)"
| "bbm_step (TlbiAsid _) (m, st) = Some (m, st)"
| "bbm_step (TlbiVa _) (m, st) = Some (m, st)"

fun bbm_run :: "event list \<Rightarrow> pt_mem \<times> (u64 \<Rightarrow> nat) \<Rightarrow> (pt_mem \<times> (u64 \<Rightarrow> nat)) option" where
  "bbm_run [] x = Some x"
| "bbm_run (e # es) x = (case bbm_step e x of None \<Rightarrow> None | Some y \<Rightarrow> bbm_run es y)"

text \<open>
  From \<open>s\<close> to \<open>s'\<close> the monitor accepts the events, arrives at the memory of \<open>s'\<close>, and no entry is
  left waiting for maintenance.
\<close>

definition bbm_safe :: "vm_st \<Rightarrow> vm_st \<Rightarrow> bool" where
  "bbm_safe s s' \<longleftrightarrow>
     take (length (trace s)) (trace s') = trace s \<and> length (trace s) \<le> length (trace s') \<and>
     bbm_run (drop (length (trace s)) (trace s')) (mem s, \<lambda>_. 0) = Some (mem s', \<lambda>_. 0)"

lemma bbm_safe_append:
  "bbm_safe s s' \<longleftrightarrow> (\<exists>es. trace s' = trace s @ es \<and> bbm_run es (mem s, \<lambda>_. 0) = Some (mem s', \<lambda>_. 0))"
proof
  assume s: "bbm_safe s s'"
  then have "trace s' = trace s @ drop (length (trace s)) (trace s')"
    unfolding bbm_safe_def using append_take_drop_id [of "length (trace s)" "trace s'"] by simp
  then show "\<exists>es. trace s' = trace s @ es \<and> bbm_run es (mem s, \<lambda>_. 0) = Some (mem s', \<lambda>_. 0)"
    using s unfolding bbm_safe_def by blast
qed (auto simp: bbm_safe_def)

lemma bbm_run_append:
  "bbm_run (es @ fs) x = (case bbm_run es x of None \<Rightarrow> None | Some y \<Rightarrow> bbm_run fs y)"
  by (induction es arbitrary: x) (auto split: option.split)

lemma bbm_refl [simp]: "bbm_safe s s"
  by (simp add: bbm_safe_append)

lemma bbm_trans: "bbm_safe s s' \<Longrightarrow> bbm_safe s' s'' \<Longrightarrow> bbm_safe s s''"
  unfolding bbm_safe_append by (auto simp: bbm_run_append)

lemma bbm_fold: "(\<And>x s. x \<in> set xs \<Longrightarrow> bbm_safe s (f x s)) \<Longrightarrow> bbm_safe s (fold f xs s)"
  by (induction xs arbitrary: s) (auto intro: bbm_trans)

text \<open>The stages of one broken entry.\<close>

lemma stage_steps:
  "bbm_step Dsb (m, \<lambda>_. 0) = Some (m, \<lambda>_. 0)"
  "bbm_step TlbiAll (m, \<lambda>_. 0) = Some (m, \<lambda>_. 0)"
  "bbm_step Dsb (m, (\<lambda>_. 0)(p := 1)) = Some (m, (\<lambda>_. 0)(p := 2))"
  "bbm_step TlbiAll (m, (\<lambda>_. 0)(p := 2)) = Some (m, (\<lambda>_. 0)(p := 3))"
  "bbm_step Dsb (m, (\<lambda>_. 0)(p := 3)) = Some (m, \<lambda>_. 0)"
  by (auto simp: fun_eq_iff)

lemma bbm_update_pte: "bbm_safe s (vmm_update_pte env p v SYNC_ALL a f s)"
proof -
  note defs = vmm_update_pte_def vmm_flush_tlb_def pre_tlbi_def tlbi_all_def emit_def write_release_def Let_def
  have wr: "bbm_step (PteWrite p v) (m, \<lambda>_. 0) = Some (m(p := v), \<lambda>_. 0)" if "m p = 0" for m
    using that by auto
  have brk: "bbm_step (PteWrite p 0) (m, \<lambda>_. 0) = Some (m(p := 0), (\<lambda>_. 0)(p := 1))" if "m p \<noteq> 0" for m
    using that by auto
  show ?thesis
    unfolding bbm_safe_append
    by (cases "mem s p = 0"; cases f; cases "repeat_tlbi env"; cases "isb_after_pte_st env")
      (simp_all add: defs wr brk stage_steps word_gt_0 del: bbm_step.simps(1,3,4) One_nat_def)
qed

lemma bbm_zalloc: "zalloc_ptable env s = Inr (pg, s') \<Longrightarrow> bbm_safe s s'"
  unfolding bbm_safe_append by (auto simp: zalloc_cases emit_def split: if_splits)

lemma bbm_ensure_step: "ensure_step env va l (t, s) = Inr (t', s') \<Longrightarrow> bbm_safe s s'"
proof (cases "is_Table (read_desc (mem s (entry_addr t va l)) l)")
  case True
  then show "ensure_step env va l (t, s) = Inr (t', s') \<Longrightarrow> bbm_safe s s'"
    by (cases "read_desc (mem s (entry_addr t va l)) l") (auto simp: ensure_step_def)
next
  case False
  assume "ensure_step env va l (t, s) = Inr (t', s')"
  then show "bbm_safe s s'"
    unfolding ensure_step_alloc [OF False] fill_page_def
    by (auto simp del: write_desc.simps dest!: bbm_zalloc
        intro!: bbm_trans [OF _ bbm_update_pte] intro: bbm_trans [OF _ bbm_fold] bbm_update_pte)
qed

lemma bbm_ensure_level: "vmm_ensure_level env r D va s = Inr s' \<Longrightarrow> bbm_safe s s'"
proof -
  assume "vmm_ensure_level env r D va s = Inr s'"
  then obtain t where "rfold (ensure_step env va) [0..<D] (r, s) = Inr (t, s')"
    by (auto simp: vmm_ensure_level_def)
  then have "bbm_safe s (snd (t, s'))"
    by (rule rfold_invariant [where P = "\<lambda>x. bbm_safe s (snd x)"])
      (auto intro: bbm_trans [OF _ bbm_ensure_step])
  then show ?thesis by simp
qed

end
