(* ===== verification/VmmMap.thy ===== *)
theory VmmMap
  imports VmmEnsure
begin

text \<open>
  Building mappings: \<open>vmm_make_desc\<close>, \<open>set_block_or_page\<close>, \<open>__ptable_set_range\<close>, \<open>vmm_ptable_map\<close>,
  \<open>vmm_ptable_unmap\<close> and the region tables of \<open>lib/arch/vmm/vmm_pgtable.c\<close>, and the proof that
  mapping a fresh range gives exactly the translation it was asked for.
\<close>

section \<open>The operations\<close>

definition vmm_make_desc :: "u64 \<Rightarrow> u64 \<Rightarrow> nat \<Rightarrow> u64" where
  "vmm_make_desc pa prot level =
     write_desc (Block level pa ((read_attrs prot)\<lparr>nG := 1, AF := 1, SH := 3, NS := 0\<rparr>))"

definition set_block_or_page ::
  "vm_env \<Rightarrow> u64 \<Rightarrow> u64 \<Rightarrow> u64 \<Rightarrow> bool \<Rightarrow> u64 \<Rightarrow> nat \<Rightarrow> vm_st \<Rightarrow> vmm_err + vm_st" where
  "set_block_or_page env root va pa unmap prot desired_level s =
     rbind (vmm_ensure_level env root desired_level va s) (\<lambda>s.
       let (desc, ptr, _) = vmm_translation_walk (mem s) root va
       in if \<not> unmap
          then Inr (vmm_update_pte env ptr (vmm_make_desc pa prot (dlevel desc)) SYNC_ALL 0 False s)
          else Inr (vmm_update_pte env ptr 0 SYNC_ALL 0 False s))"

text \<open>
  The five loops of \<open>__ptable_set_range\<close>. Every iteration advances by at least a page, so one more
  than the number of pages of the range is enough fuel for each of them.
\<close>

definition range_fuel :: "u64 \<Rightarrow> u64 \<Rightarrow> nat" where
  "range_fuel va_start va_end = unat (va_end - va_start) div 4096 + 1"

definition both_aligned :: "u64 \<Rightarrow> u64 \<Rightarrow> nat \<Rightarrow> bool" where
  "both_aligned va pa level \<longleftrightarrow> IS_ALIGNED va level \<and> IS_ALIGNED pa level"

definition end_of_region :: "u64 \<Rightarrow> u64 \<Rightarrow> nat \<Rightarrow> bool" where
  "end_of_region va_end va level \<longleftrightarrow> va + push_bit level 1 > va_end"

definition set_step ::
  "vm_env \<Rightarrow> u64 \<Rightarrow> bool \<Rightarrow> u64 \<Rightarrow> nat \<Rightarrow> u64 \<times> u64 \<times> vm_st \<Rightarrow> vmm_err + u64 \<times> u64 \<times> vm_st" where
  "set_step env root unmap prot level = (\<lambda>(va, pa, s).
     rbind (set_block_or_page env root va pa unmap prot level s) (\<lambda>s.
       Inr (va + push_bit (OFFSBOT level) 1, pa + push_bit (OFFSBOT level) 1, s)))"

definition ptable_set_range ::
  "vm_env \<Rightarrow> u64 \<Rightarrow> u64 \<Rightarrow> u64 \<Rightarrow> u64 \<Rightarrow> bool \<Rightarrow> u64 \<Rightarrow> vm_st \<Rightarrow> vmm_err + vm_st" where
  "ptable_set_range env root pa_start va_start va_end unmap prot s =
     (let level1 = 30; level2 = 21; level3 = 12; n = range_fuel va_start va_end;
          loop = (\<lambda>b level. rwhile n OutOfFuel b (set_step env root unmap prot level))
      in rbind (guard (IS_ALIGNED va_start level3) UnalignedStart) (\<lambda>_.
         rbind (guard (IS_ALIGNED va_end level3) UnalignedEnd) (\<lambda>_.
         rbind (loop (\<lambda>(va, pa, _). \<not> both_aligned va pa level2 \<and> \<not> end_of_region va_end va level3) 3
                  (va_start, pa_start, s)) (\<lambda>(va, pa, s).
         rbind (guard (\<not> (IS_ALIGNED va level2 \<and> \<not> IS_ALIGNED pa level2 \<and> \<not> end_of_region va_end va level3))
                  Misaligned) (\<lambda>_.
         rbind (loop (\<lambda>(va, pa, _). \<not> both_aligned va pa level1 \<and> \<not> end_of_region va_end va level2) 2
                  (va, pa, s)) (\<lambda>st.
         rbind (loop (\<lambda>(va, pa, _). va < ALIGN_TO va_end level1 \<and> \<not> end_of_region va_end va level1) 1 st) (\<lambda>st.
         rbind (loop (\<lambda>(va, pa, _). va < ALIGN_TO va_end level2 \<and> \<not> end_of_region va_end va level2) 2 st) (\<lambda>st.
         rbind (loop (\<lambda>(va, pa, _). va < va_end) 3 st) (\<lambda>(_, _, s).
         Inr s)))))))))"

record VMRegion =
  valid :: bool
  va_start :: u64
  va_end :: u64
  memattr :: u64
  prot :: u64
  pa_start :: u64

definition ptable_map_range :: "vm_env \<Rightarrow> u64 \<Rightarrow> u64 \<Rightarrow> u64 \<Rightarrow> u64 \<Rightarrow> u64 \<Rightarrow> vm_st \<Rightarrow> vmm_err + vm_st" where
  "ptable_map_range env root pa_st va_st va_en prt s = ptable_set_range env root pa_st va_st va_en False prt s"

definition vmm_ptable_map :: "vm_env \<Rightarrow> u64 \<Rightarrow> VMRegion \<Rightarrow> vm_st \<Rightarrow> vmm_err + vm_st" where
  "vmm_ptable_map env pgtable reg s =
     (let pa = (if pa_start reg \<noteq> 0 then pa_start reg else va_start reg)
      in ptable_map_range env pgtable pa (va_start reg) (va_end reg) (memattr reg OR prot reg) s)"

definition vmm_ptable_unmap :: "vm_env \<Rightarrow> u64 \<Rightarrow> VMRegion \<Rightarrow> vm_st \<Rightarrow> vmm_err + vm_st" where
  "vmm_ptable_unmap env pgtable reg s =
     (let size = va_end reg - va_start reg
      in rbind (if size = 4096 then Inr 3
                else if size = 4096 * 512 then Inr 2
                else if size = 4096 * 512 * 512 then Inr 1
                else Inl BadUnmapSize) (\<lambda>level.
         set_block_or_page env pgtable (va_start reg) 0 True 0 level s))"

text \<open>
  The checked walk over a region table, in the order of the tags. \<open>r_prev\<close> is never assigned in the
  loop, so every region is compared with the all-zero region it starts from.
\<close>

definition region0 :: VMRegion where
  "region0 = \<lparr>valid = False, va_start = 0, va_end = 0, memattr = 0, prot = 0, pa_start = 0\<rparr>"

definition update_table_from_vmregion_map ::
  "vm_env \<Rightarrow> u64 \<Rightarrow> VMRegion list \<Rightarrow> vm_st \<Rightarrow> vmm_err + vm_st" where
  "update_table_from_vmregion_map env table regs s =
     (let r_prev = region0
      in rfold (\<lambda>r s.
           if \<not> valid r then Inr s
           else if va_start r < va_end r_prev then Inl RegionsOverlap
           else if va_start r < va_start r_prev then Inl RegionsOutOfOrder
           else vmm_ptable_map env table r s) regs s)"

section \<open>What a leaf translates to\<close>

text \<open>
  The translation of an address: output address and attributes. Bit 16 of a page descriptor is an
  address bit, so \<open>nT\<close> is left out of the attributes.
\<close>

definition leaf_out :: "u64 \<Rightarrow> nat \<times> u64 \<Rightarrow> (u64 \<times> attrs_t) option" where
  "leaf_out va = (\<lambda>(k, w). case read_desc w k of
     Block _ a at \<Rightarrow> Some (a OR take_bit (OFFSBOT k) va, at\<lparr>nT := 0\<rparr>) | _ \<Rightarrow> None)"

definition translate :: "pt_mem \<Rightarrow> u64 \<Rightarrow> u64 \<Rightarrow> (u64 \<times> attrs_t) option" where
  "translate m r va = leaf_out va (leaf m r va)"

definition final_attrs :: "u64 \<Rightarrow> attrs_t" where
  "final_attrs prt = (read_attrs prt)\<lparr>nG := 1, AF := 1, SH := 3, NS := 0, nT := 0\<rparr>"

lemma make_desc_read:
  assumes "1 \<le> D" "D \<le> 3" "addr_ok (OFFSBOT D) pa" "\<not> bit prt 16"
  shows "\<exists>at. read_desc (vmm_make_desc pa prt D) D = Block D pa at \<and> at\<lparr>nT := 0\<rparr> = final_attrs prt"
proof -
  let ?at = "(read_attrs prt)\<lparr>nG := 1, AF := 1, SH := 3, NS := 0\<rparr>"
  have "\<not> bit (nT ?at) 0" using assms(4) by (simp add: read_attrs_def bit_ucast_BIT del: bit_0)
  then have "read_desc (write_desc (Block D pa ?at)) D =
      Block D pa (if D = 3 then ?at\<lparr>nT := ucast (BIT pa 16)\<rparr> else ?at)"
    using assms(1-3) by (intro read_write_block) simp_all
  then show ?thesis unfolding vmm_make_desc_def final_attrs_def by auto
qed

lemma leaf_out_unset: "\<not> bit w 0 \<Longrightarrow> leaf_out va (k, w) = None"
  by (simp add: leaf_out_def unset_read_desc del: bit_0)

lemma leaf_out_None: "leaf_out va (k, w) = None \<Longrightarrow> k \<le> 3 \<Longrightarrow> \<not> is_Table (read_desc w k) \<Longrightarrow> \<not> bit w 0"
  by (auto simp: leaf_out_def read_desc_def BIT_of_bool split: if_splits)

section \<open>One block or page\<close>

lemma set_block_or_page_unmapped:
  assumes inv: "vm_inv env r s" and va: "va_ok va" and lf: "leaf (mem s) r va = (k0, w0)" "\<not> bit w0 0"
    and D: "k0 \<le> D" "1 \<le> D" "D \<le> 3"
    and pages: "unat (pt_bot s) + 4096 * (D - k0) \<le> unat (top_of_ptables env)"
    and pa: "addr_ok (OFFSBOT D) pa" "\<not> bit prt 16"
  shows "\<exists>s'. set_block_or_page env r va pa False prt D s = Inr s' \<and> vm_inv env r s' \<and>
    unat (pt_bot s') = unat (pt_bot s) + 4096 * (D - k0) \<and>
    (\<forall>va'. va_ok va' \<longrightarrow> leaf (mem s') r va' =
       (if blk D va' = blk D va then (D, vmm_make_desc pa prt D)
        else if k0 < D \<and> blk k0 va' = blk k0 va then (shared D va va', 0) else leaf (mem s) r va'))"
proof -
  obtain s1 where E: "vmm_ensure_level env r D va s = Inr s1" "vm_inv env r s1"
    "unat (pt_bot s1) = unat (pt_bot s) + 4096 * (D - k0)"
    and L: "\<And>va'. va_ok va' \<Longrightarrow> leaf (mem s1) r va' =
       (if k0 < D \<and> blk k0 va' = blk k0 va then (shared D va va', 0) else leaf (mem s) r va')"
    using ensure_level_unmapped [OF inv va lf D(3) pages] by blast
  have lfD: "fst (leaf (mem s1) r va) = D"
    using L [OF va] D(1) lf shared_all [of D va va] by (cases "k0 = D") auto
  obtain t ps w where W: "vmm_translation_walk (mem s1) r va = (read_desc w D, entry_addr t va D, ps)"
    "tbl (mem s1) r va D = Some t" "leaf (mem s1) r va = (D, w)"
    using walk_leaf [of "mem s1" r va] lfD by (metis fst_conv)
  let ?s' = "vmm_update_pte env (entry_addr t va D) (vmm_make_desc pa prt D) SYNC_ALL 0 False s1"
  have step: "set_block_or_page env r va pa False prt D s = Inr ?s'"
    by (simp add: set_block_or_page_def E(1) W(1))
  have nt: "\<not> is_Table (read_desc (vmm_make_desc pa prt D) D)"
    using make_desc_read [OF D(2,3) pa] by auto
  have T: "tree_ok (mem s1) r (pt_bot s1)" using E(2) by (simp add: vm_inv_def)
  note U = leaf_update [OF T va W(3,2) nt]
  have old: "\<not> is_Table (read_desc (mem s1 (entry_addr t va D)) D)"
    using W(2,3) unfolding is_leaf_leaf [symmetric] by (auto simp: is_leaf_def ent_def)
  have "leaf (mem ?s') r va' =
       (if blk D va' = blk D va then (D, vmm_make_desc pa prt D)
        else if k0 < D \<and> blk k0 va' = blk k0 va then (shared D va va', 0) else leaf (mem s) r va')"
    if "va_ok va'" for va'
    unfolding vm_st_simps U [OF that] L [OF that] ..
  moreover have "vm_inv env r ?s'"
    using E(2) tree_ok_update [OF T va D(3) W(2) old nt] by (simp add: vm_inv_def vm_st_simps)
  ultimately show ?thesis using step E(3) by (auto simp: vm_st_simps)
qed

lemma set_block_or_page_cases:
  assumes "set_block_or_page env r va pa u prt D s = Inr s'"
  obtains s1 p w where "vmm_ensure_level env r D va s = Inr s1"
    and "s' = vmm_update_pte env p w SYNC_ALL 0 False s1"
proof -
  from assms obtain s1 where e: "vmm_ensure_level env r D va s = Inr s1"
    by (auto simp: set_block_or_page_def)
  obtain d p ps where "vmm_translation_walk (mem s1) r va = (d, p, ps)" by (metis prod_cases3)
  then have "\<exists>w. s' = vmm_update_pte env p w SYNC_ALL 0 False s1"
    using assms e by (auto simp: set_block_or_page_def split: if_splits)
  then show thesis using e that by blast
qed

lemma bbm_set_block: "set_block_or_page env r va pa u prt D s = Inr s' \<Longrightarrow> bbm_safe s s'"
  by (erule set_block_or_page_cases) (auto intro: bbm_trans [OF bbm_ensure_level] bbm_update_pte)

lemma bbm_set_range: "ptable_set_range env r pa va ve u prt s = Inr s' \<Longrightarrow> bbm_safe s s'"
proof -
  have loop: "bbm_safe x y"
    if "rwhile n OutOfFuel b (set_step env r u prt l) (v, p, x) = Inr (v', p', y)" for n b l v p x v' p' y
  proof -
    let ?I = "\<lambda>(_ :: u64, _ :: u64, z). bbm_safe x z"
    have "?I (v', p', y)"
      by (rule rwhile_invariant [OF that, of ?I])
        (auto simp: set_step_def intro: bbm_trans [OF _ bbm_set_block])
    then show ?thesis by simp
  qed
  assume "ptable_set_range env r pa va ve u prt s = Inr s'"
  then show "bbm_safe s s'"
    unfolding ptable_set_range_def Let_def
    by (auto split: if_splits dest!: loop) (meson bbm_trans)+
qed

section \<open>Blocks as intervals\<close>

lemma blk_unat: "unat (blk D x) = unat x div 2 ^ OFFSBOT D"
  by (simp add: blk_def unat_drop_bit)

lemma blk_eq_div: "blk D x = blk D v \<longleftrightarrow> unat x div 2 ^ OFFSBOT D = unat v div 2 ^ OFFSBOT D"
  by (metis blk_unat word_unat_eq_iff)

lemma div_interval: "0 < n \<Longrightarrow> n dvd v \<Longrightarrow> x div n = v div n \<longleftrightarrow> v \<le> x \<and> x < v + (n :: nat)"
proof -
  assume n: "0 < n" "n dvd v"
  then obtain c where c: "v = n * c" by blast
  have "x div n = c \<longleftrightarrow> c * n \<le> x \<and> x < (Suc c) * n"
    using n(1) by (metis div_less_iff_less_mult less_eq_div_iff_mult_less_eq less_Suc_eq_le order_antisym_conv le_refl)
  then show ?thesis using n(1) c by (simp add: mult.commute add.commute)
qed

lemma blk_interval:
  assumes "IS_ALIGNED v (OFFSBOT D)"
  shows "blk D x = blk D v \<longleftrightarrow> unat v \<le> unat x \<and> unat x < unat v + 2 ^ OFFSBOT D"
  using assms unfolding blk_eq_div by (intro div_interval) (simp_all add: IS_ALIGNED_dvd)

text \<open>A mapped block translates linearly.\<close>

lemma block_out:
  assumes "IS_ALIGNED v (OFFSBOT D)" "addr_ok (OFFSBOT D) pa" "blk D x = blk D v"
  shows "pa OR take_bit (OFFSBOT D) x = of_nat (unat pa + (unat x - unat v))"
proof -
  let ?b = "OFFSBOT D"
  obtain c where c: "unat v = 2 ^ ?b * c" using assms(1) by (auto simp: IS_ALIGNED_dvd elim: dvdE)
  have iv: "unat v \<le> unat x" "unat x < unat v + 2 ^ ?b" using assms blk_interval by blast+
  have "unat x mod 2 ^ ?b = unat x - unat v"
  proof -
    have "unat x = (unat x - unat v) + 2 ^ ?b * c" using iv c by simp
    then have "unat x mod 2 ^ ?b = (unat x - unat v) mod 2 ^ ?b" by (metis mod_mult_self2)
    then show ?thesis using iv by simp
  qed
  then have t: "unat (take_bit ?b x) = unat x - unat v" by (simp add: unat_take_bit)
  have "pa AND take_bit ?b x = 0"
    using assms(2) by (intro bit_eqI) (auto simp: bit_simps addr_ok_bit)
  then have "pa OR take_bit ?b x = pa + take_bit ?b x"
    by (simp add: disjunctive_add_eq_or)
  also have "\<dots> = of_nat (unat pa + unat (take_bit ?b x))" by simp
  finally show ?thesis unfolding t .
qed

lemma shared_ge: "j < n \<Longrightarrow> blk j va' = blk j va \<Longrightarrow> j < shared n va va'"
proof (induction n)
  case (Suc n)
  show ?case
  proof (cases "blk n va' = blk n va")
    case False
    then have "j < n" using Suc.prems by (metis less_SucE)
    then show ?thesis using Suc False by (simp add: shared_Suc)
  qed (use Suc.prems in \<open>simp add: shared_Suc\<close>)
qed simp

section \<open>Fresh ranges and missing tables\<close>

text \<open>
  Addresses are natural numbers here. A range is fresh if nothing in it is mapped and if no table
  finer than a block that fits in the range is in the way.
\<close>

definition fresh :: "pt_mem \<Rightarrow> u64 \<Rightarrow> nat \<Rightarrow> nat \<Rightarrow> bool" where
  "fresh m r lo hi \<longleftrightarrow> (\<forall>x. va_ok x \<and> lo \<le> unat x \<and> unat x < hi \<longrightarrow>
     \<not> bit (snd (leaf m r x)) 0 \<and>
     (\<forall>D. 1 \<le> D \<and> D \<le> 3 \<and> lo \<le> unat x div 2 ^ OFFSBOT D * 2 ^ OFFSBOT D \<and>
        unat x div 2 ^ OFFSBOT D * 2 ^ OFFSBOT D + 2 ^ OFFSBOT D \<le> hi \<longrightarrow> fst (leaf m r x) \<le> D))"

text \<open>The tables, by level and prefix, that the walks of the range do not find.\<close>

definition missing :: "pt_mem \<Rightarrow> u64 \<Rightarrow> nat \<Rightarrow> nat \<Rightarrow> (nat \<times> u64) set" where
  "missing m r lo hi =
     {(k, pfx k x) | k x. va_ok x \<and> lo \<le> unat x \<and> unat x < hi \<and> fst (leaf m r x) < k \<and> k \<le> 3}"

definition pages_for :: "nat \<Rightarrow> nat" where
  "pages_for len = (len div 2 ^ 39 + 2) + (len div 2 ^ 30 + 2) + (len div 2 ^ 21 + 2)"

lemma finite_missing: "finite (missing m r lo hi)"
  by (rule finite_subset [of _ "{..3} \<times> UNIV"]) (auto simp: missing_def)

lemma missing_bound:
  assumes "lo \<le> hi"
  shows "card (missing m r lo hi) \<le> pages_for (hi - lo)"
proof -
  define X where "X k = {pfx k x | x. va_ok x \<and> lo \<le> unat x \<and> unat x < hi}" for k
  have X: "card (X k) \<le> (hi - lo) div 2 ^ (OFFSBOT k + 9) + 2" for k
  proof -
    let ?P = "2 ^ (OFFSBOT k + 9) :: nat"
    have "unat ` X k \<subseteq> {lo div ?P .. hi div ?P}"
      by (auto simp: X_def pfx_def unat_drop_bit intro!: div_le_mono)
    then have "card (unat ` X k) \<le> hi div ?P + 1 - lo div ?P"
      using card_mono [OF finite_atLeastAtMost, of "unat ` X k" "lo div ?P" "hi div ?P"] by simp
    moreover have "card (unat ` X k) = card (X k)"
      by (rule card_image) (simp add: inj_on_def word_unat_eq_iff)
    moreover have "hi div ?P \<le> lo div ?P + (hi - lo) div ?P + 1"
      using div_add_le [of ?P lo "hi - lo"] assms by simp
    ultimately show ?thesis by simp
  qed
  have "missing m r lo hi \<subseteq> Pair 1 ` X 1 \<union> Pair 2 ` X 2 \<union> Pair 3 ` X 3"
  proof
    fix y assume "y \<in> missing m r lo hi"
    then obtain k x where y: "y = (k, pfx k x)" "va_ok x" "lo \<le> unat x" "unat x < hi" "0 < k" "k \<le> 3"
      by (auto simp: missing_def)
    then have "k = 1 \<or> k = 2 \<or> k = 3" "pfx k x \<in> X k" by (auto simp: X_def)
    then show "y \<in> Pair 1 ` X 1 \<union> Pair 2 ` X 2 \<union> Pair 3 ` X 3" using y(1) by auto
  qed
  then have "card (missing m r lo hi) \<le> card (Pair 1 ` X 1 \<union> Pair 2 ` X 2 \<union> Pair (3::nat) ` X 3)"
    by (intro card_mono) simp_all
  also have "\<dots> \<le> card (Pair (1::nat) ` X 1) + card (Pair (2::nat) ` X 2) + card (Pair (3::nat) ` X 3)"
    by (meson card_Un_le add_le_mono1 le_trans)
  also have "\<dots> \<le> card (X 1) + card (X 2) + card (X 3)"
    by (intro add_mono card_image_le) simp_all
  also have "\<dots> \<le> pages_for (hi - lo)"
    using X [of 1] X [of 2] X [of 3] by (simp add: pages_for_def)
  finally show ?thesis .
qed

lemma fresh_step:
  assumes F: "fresh m r lo hi" and v: "va_ok v" "IS_ALIGNED v (OFFSBOT D)"
    and c: "lo \<le> c" "d \<le> hi" "unat v + 2 ^ OFFSBOT D \<le> c \<or> d \<le> unat v"
    and L: "\<And>x. va_ok x \<Longrightarrow> leaf m' r x =
       (if blk D x = blk D v then (D, e)
        else if k0 < D \<and> blk k0 x = blk k0 v then (shared D v x, 0) else leaf m r x)"
  shows "fresh m' r c d"
  unfolding fresh_def
proof (intro allI impI, elim conjE)
  fix x assume x: "va_ok x" "c \<le> unat x" "unat x < d"
  have "blk D x \<noteq> blk D v" using blk_interval [OF v(2), of x] c(3) x(2,3) by auto
  then have L': "leaf m' r x = (if k0 < D \<and> blk k0 x = blk k0 v then (shared D v x, 0) else leaf m r x)"
    using L [OF x(1)] by simp
  have Fx: "\<not> bit (snd (leaf m r x)) 0" "\<And>E. 1 \<le> E \<Longrightarrow> E \<le> 3 \<Longrightarrow>
      lo \<le> unat x div 2 ^ OFFSBOT E * 2 ^ OFFSBOT E \<Longrightarrow>
      unat x div 2 ^ OFFSBOT E * 2 ^ OFFSBOT E + 2 ^ OFFSBOT E \<le> hi \<Longrightarrow> fst (leaf m r x) \<le> E"
    using F x c(1,2) unfolding fresh_def by auto
  have "fst (leaf m' r x) \<le> E"
    if E: "1 \<le> E" "E \<le> 3" "c \<le> unat x div 2 ^ OFFSBOT E * 2 ^ OFFSBOT E"
      "unat x div 2 ^ OFFSBOT E * 2 ^ OFFSBOT E + 2 ^ OFFSBOT E \<le> d" for E
  proof (cases "k0 < D \<and> blk k0 x = blk k0 v")
    case True
    have "\<not> E < shared D v x"
    proof
      assume "E < shared D v x"
      then have eq: "unat x div 2 ^ OFFSBOT E = unat v div 2 ^ OFFSBOT E"
        using shared_blk blk_eq_div by blast
      have pos: "(0::nat) < 2 ^ OFFSBOT E" by simp
      have "c \<le> unat v" "unat v < d"
        using E(3,4) [unfolded eq] div_bounds [OF pos, of "unat v"] by linarith+
      moreover have "(0::nat) < 2 ^ OFFSBOT D" by simp
      ultimately show False using c(3) by linarith
    qed
    then show ?thesis using True L' by simp
  next
    case False
    have "fst (leaf m r x) \<le> E" using Fx(2) [OF E(1,2)] E(3,4) c(1,2) by simp
    then show ?thesis by (simp only: L' False if_False)
  qed
  then show "\<not> bit (snd (leaf m' r x)) 0 \<and> (\<forall>E. 1 \<le> E \<and> E \<le> 3 \<and>
      c \<le> unat x div 2 ^ OFFSBOT E * 2 ^ OFFSBOT E \<and>
      unat x div 2 ^ OFFSBOT E * 2 ^ OFFSBOT E + 2 ^ OFFSBOT E \<le> d \<longrightarrow> fst (leaf m' r x) \<le> E)"
    using L' Fx(1) by (auto simp del: bit_0)
qed

lemma missing_step:
  assumes v: "va_ok v" "lo \<le> unat v" "unat v < hi" "leaf m r v = (k0, w0)" "k0 \<le> D" "D \<le> 3"
    and L: "\<And>x. va_ok x \<Longrightarrow> leaf m' r x =
       (if blk D x = blk D v then (D, d)
        else if k0 < D \<and> blk k0 x = blk k0 v then (shared D v x, 0) else leaf m r x)"
  shows "card (missing m' r lo hi) + (D - k0) \<le> card (missing m r lo hi)"
proof -
  let ?N = "(\<lambda>k. (k, pfx k v)) ` {k0<..D}"
  have grow: "fst (leaf m r x) \<le> fst (leaf m' r x)" if x: "va_ok x" for x
  proof -
    have same: "leaf m r x = (k0, w0)" if "blk k0 x = blk k0 v"
      using leaf_blk [OF v(1) x that v(4)] .
    show ?thesis
      using L [OF x] same blk_mono [of D x v k0] v(5) shared_ge [of k0 D x v] by auto
  qed
  have sub: "missing m' r lo hi \<subseteq> missing m r lo hi" using grow by (force simp: missing_def)
  have disj: "missing m' r lo hi \<inter> ?N = {}"
  proof -
    have False if x: "va_ok x" "fst (leaf m' r x) < k" "pfx k v = pfx k x" "k0 < k" "k \<le> D" for k x
    proof -
      have b: "blk (k - 1) x = blk (k - 1) v"
        using pfx_mono [OF x(3), of "k - 1"] x(4,5) v(6) by auto
      then have "blk k0 x = blk k0 v" using blk_mono [OF b, of k0] x(4) by simp
      moreover have "k - 1 < shared D v x" using shared_ge [OF _ b] x(4,5) by simp
      ultimately show False using L [OF x(1)] x(2,4,5) by (auto split: if_splits)
    qed
    then show ?thesis by (auto simp: missing_def)
  qed
  have N: "?N \<subseteq> missing m r lo hi" using v by (auto simp: missing_def intro!: exI [of _ v])
  have "card (missing m' r lo hi \<union> ?N) \<le> card (missing m r lo hi)"
    using sub N by (intro card_mono finite_missing) auto
  moreover have "card (missing m' r lo hi \<union> ?N) = card (missing m' r lo hi) + card ?N"
    using disj by (intro card_Un_disjoint finite_missing) auto
  moreover have "card ?N = D - k0" by (subst card_image) (auto simp: inj_on_def)
  ultimately show ?thesis by simp
qed

section \<open>Mapping a range\<close>

text \<open>The state between two iterations: everything below \<open>v\<close> is mapped, the rest is as it was.\<close>

definition range_inv ::
  "vm_env \<Rightarrow> u64 \<Rightarrow> nat \<Rightarrow> nat \<Rightarrow> nat \<Rightarrow> attrs_t \<Rightarrow> vm_st \<Rightarrow> u64 \<times> u64 \<times> vm_st \<Rightarrow> bool" where
  "range_inv env r lo hi pa0 A s0 = (\<lambda>(v, p, s).
     lo \<le> unat v \<and> unat v \<le> hi \<and> IS_ALIGNED v 12 \<and> IS_ALIGNED p 12 \<and> unat p = pa0 + (unat v - lo) \<and>
     vm_inv env r s \<and> fresh (mem s) r (unat v) hi \<and>
     unat (pt_bot s) + 4096 * card (missing (mem s) r lo hi)
       \<le> unat (pt_bot s0) + 4096 * card (missing (mem s0) r lo hi) \<and>
     unat (pt_bot s0) + 4096 * card (missing (mem s0) r lo hi) \<le> unat (top_of_ptables env) \<and>
     (\<forall>c d. (d \<le> lo \<or> hi \<le> c) \<longrightarrow> fresh (mem s0) r c d \<longrightarrow> fresh (mem s) r c d) \<and>
     (\<forall>x. va_ok x \<longrightarrow> translate (mem s) r x =
        (if lo \<le> unat x \<and> unat x < unat v then Some (of_nat (pa0 + (unat x - lo)), A)
         else translate (mem s0) r x)))"

lemma unat_advance:
  assumes "unat v + 2 ^ OFFSBOT D \<le> 2 ^ 48"
  shows "unat (v + push_bit (OFFSBOT D) 1 :: u64) = unat v + 2 ^ OFFSBOT D"
proof -
  have b: "unat (push_bit (OFFSBOT D) 1 :: u64) = 2 ^ OFFSBOT D"
    by (rule unat_push_bit_one) simp
  have "unat v + unat (push_bit (OFFSBOT D) 1 :: u64) < 2 ^ LENGTH(64)"
    unfolding b using assms by simp
  then show ?thesis by (simp only: unat_add_no_wrap b)
qed

lemma IS_ALIGNED_mono: "IS_ALIGNED v b \<Longrightarrow> c \<le> b \<Longrightarrow> IS_ALIGNED v c"
  unfolding IS_ALIGNED_dvd by (meson dvd_trans le_imp_power_dvd)

lemma range_step:
  assumes I: "range_inv env r lo hi pa0 (final_attrs prt) s0 (v, p, s)"
    and D: "1 \<le> D" "D \<le> 3" and al: "IS_ALIGNED v (OFFSBOT D)" "IS_ALIGNED p (OFFSBOT D)"
    and hi: "unat v + 2 ^ OFFSBOT D \<le> hi" "hi \<le> 2 ^ 48" "pa0 + (hi - lo) \<le> 2 ^ 48"
    and prt: "\<not> bit prt 16"
  shows "\<exists>v' p' s'. set_step env r False prt D (v, p, s) = Inr (v', p', s') \<and>
    range_inv env r lo hi pa0 (final_attrs prt) s0 (v', p', s') \<and> unat v' = unat v + 2 ^ OFFSBOT D \<and>
    IS_ALIGNED v' (OFFSBOT D) \<and> IS_ALIGNED p' (OFFSBOT D)"
proof -
  let ?b = "OFFSBOT D" and ?A = "final_attrs prt"
  from I have I': "lo \<le> unat v" "unat p = pa0 + (unat v - lo)" "vm_inv env r s" "fresh (mem s) r (unat v) hi"
    "unat (pt_bot s) + 4096 * card (missing (mem s) r lo hi) \<le> unat (top_of_ptables env)"
    and B: "unat (pt_bot s) + 4096 * card (missing (mem s) r lo hi)
       \<le> unat (pt_bot s0) + 4096 * card (missing (mem s0) r lo hi)"
      "unat (pt_bot s0) + 4096 * card (missing (mem s0) r lo hi) \<le> unat (top_of_ptables env)"
    and fo: "\<And>c d. d \<le> lo \<or> hi \<le> c \<Longrightarrow> fresh (mem s0) r c d \<Longrightarrow> fresh (mem s) r c d"
    and tr: "\<And>x. va_ok x \<Longrightarrow> translate (mem s) r x =
        (if lo \<le> unat x \<and> unat x < unat v then Some (of_nat (pa0 + (unat x - lo)), ?A)
         else translate (mem s0) r x)"
    by (auto simp: range_inv_def)
  have pos: "(0::nat) < 2 ^ ?b" by simp
  have v: "va_ok v" "unat v < hi" unfolding va_ok_unat using hi(1,2) pos by linarith+
  have p48: "unat p + 2 ^ ?b \<le> 2 ^ 48" using I'(1,2) hi by simp
  then have pok: "addr_ok ?b p"
    using al(2) pos va_ok_unat [of p] unfolding addr_ok_def va_ok_def by linarith
  obtain k0 w0 where lf: "leaf (mem s) r v = (k0, w0)" by fastforce
  have blk0: "unat v div 2 ^ ?b * 2 ^ ?b = unat v" using al(1) by (simp add: IS_ALIGNED_dvd)
  have F: "\<not> bit w0 0" "k0 \<le> D"
    using I'(4) v D hi(1) blk0 lf unfolding fresh_def by (auto simp del: bit_0)
  have M: "card (missing m' r lo hi) + (D - k0) \<le> card (missing (mem s) r lo hi)"
    if "\<And>x. va_ok x \<Longrightarrow> leaf m' r x = (if blk D x = blk D v then (D, vmm_make_desc p prt D)
        else if k0 < D \<and> blk k0 x = blk k0 v then (shared D v x, 0) else leaf (mem s) r x)" for m'
    using missing_step [OF v(1) I'(1) v(2) lf F(2) D(2) that] .
  have "{k0<..D} = (fst ` ((\<lambda>k. (k, pfx k v)) ` {k0<..D}))" by force
  have sub: "(\<lambda>k. (k, pfx k v)) ` {k0<..D} \<subseteq> missing (mem s) r lo hi"
    using v I'(1) lf D(2) by (auto simp: missing_def intro!: exI [of _ v])
  have "D - k0 = card ((\<lambda>k. (k, pfx k v)) ` {k0<..D})" by (subst card_image) (auto simp: inj_on_def)
  also have "\<dots> \<le> card (missing (mem s) r lo hi)" by (intro card_mono finite_missing sub)
  finally have "unat (pt_bot s) + 4096 * (D - k0) \<le> unat (top_of_ptables env)" using I'(5) by linarith
  from set_block_or_page_unmapped [OF I'(3) v(1) lf F(1,2) D this pok prt]
  obtain s' where s': "set_block_or_page env r v p False prt D s = Inr s'" "vm_inv env r s'"
    "unat (pt_bot s') = unat (pt_bot s) + 4096 * (D - k0)"
    and L: "\<And>x. va_ok x \<Longrightarrow> leaf (mem s') r x = (if blk D x = blk D v then (D, vmm_make_desc p prt D)
        else if k0 < D \<and> blk k0 x = blk k0 v then (shared D v x, 0) else leaf (mem s) r x)"
    by blast
  let ?v = "v + push_bit ?b 1" and ?p = "p + push_bit ?b 1"
  have u: "unat ?v = unat v + 2 ^ ?b" "unat ?p = unat p + 2 ^ ?b"
    using unat_advance [of v D] unat_advance [of p D] hi p48 by simp_all
  have al': "IS_ALIGNED ?v ?b" "IS_ALIGNED ?p ?b"
    using al unfolding IS_ALIGNED_dvd u by simp_all
  have none: "translate (mem s') r x = translate (mem s) r x"
    if x: "va_ok x" "blk D x \<noteq> blk D v" for x
  proof (cases "k0 < D \<and> blk k0 x = blk k0 v")
    case True
    then have "leaf (mem s) r x = (k0, w0)" using leaf_blk [OF v(1) x(1) _ lf] by simp
    then show ?thesis using L [OF x(1)] x(2) True F(1) by (simp add: translate_def leaf_out_unset del: bit_0)
  next
    case False
    then show ?thesis using x(2) by (simp only: translate_def L [OF x(1)] if_False)
  qed
  obtain at where at: "read_desc (vmm_make_desc p prt D) D = Block D p at" "at\<lparr>nT := 0\<rparr> = ?A"
    using make_desc_read [OF D pok prt] by blast
  have some: "translate (mem s') r x = Some (of_nat (pa0 + (unat x - lo)), ?A)"
    if x: "va_ok x" "blk D x = blk D v" for x
  proof -
    have "unat v \<le> unat x" using x blk_interval [OF al(1)] by blast
    then have "unat p + (unat x - unat v) = pa0 + (unat x - lo)" using I'(1,2) by simp
    moreover have "p OR take_bit ?b x = of_nat (unat p + (unat x - unat v))"
      by (rule block_out [OF al(1) pok x(2)])
    ultimately show ?thesis
      using x L [OF x(1)] at by (simp add: translate_def leaf_out_def)
  qed
  have "translate (mem s') r x =
      (if lo \<le> unat x \<and> unat x < unat ?v then Some (of_nat (pa0 + (unat x - lo)), ?A)
       else translate (mem s0) r x)" if x: "va_ok x" for x
  proof (cases "blk D x = blk D v")
    case True
    then have "lo \<le> unat x \<and> unat x < unat ?v"
      unfolding u using blk_interval [OF al(1), of x] I'(1) by simp
    then show ?thesis unfolding some [OF x True] by (simp only: if_True simp_thms)
  next
    case False
    then have "unat x < unat v \<longleftrightarrow> unat x < unat ?v" using blk_interval [OF al(1), of x] u by auto
    then show ?thesis unfolding none [OF x False] tr [OF x] by (simp only:)
  qed
  moreover have "fresh (mem s') r (unat ?v) hi"
    unfolding u by (rule fresh_step [OF I'(4) v(1) al(1) _ _ _ L]) simp_all
  moreover have "fresh (mem s') r c d" if "d \<le> lo \<or> hi \<le> c" "fresh (mem s0) r c d" for c d
    by (rule fresh_step [OF fo [OF that] v(1) al(1) _ _ _ L]) (use that(1) I'(1) hi(1) in auto)
  moreover have "unat (pt_bot s') + 4096 * card (missing (mem s') r lo hi)
       \<le> unat (pt_bot s0) + 4096 * card (missing (mem s0) r lo hi)"
    using M [OF L] s'(3) B(1) by linarith
  ultimately have "range_inv env r lo hi pa0 ?A s0 (?v, ?p, s')"
    using s'(2) I'(1,2) B(2) hi(1) u al' IS_ALIGNED_mono [OF _ OFFSBOT_le(2)] by (auto simp: range_inv_def)
  then show ?thesis using s'(1) u al' by (auto simp: set_step_def)
qed

lemma end_of_region_iff:
  assumes "l \<in> {1, 2, 3}" "unat v \<le> unat ve" "unat ve \<le> 2 ^ 48"
  shows "end_of_region ve v (OFFSBOT l) \<longleftrightarrow> \<not> unat v + 2 ^ OFFSBOT l \<le> unat ve"
proof -
  have b: "unat (push_bit (OFFSBOT l) 1 :: u64) = 2 ^ OFFSBOT l"
    by (rule unat_push_bit_one) simp
  have "unat v + unat (push_bit (OFFSBOT l) 1 :: u64) < 2 ^ LENGTH(64)"
    unfolding b using assms by (auto simp: OFFSBOT_def)
  then have "unat (v + push_bit (OFFSBOT l) 1) = unat v + 2 ^ OFFSBOT l"
    by (simp only: unat_add_no_wrap b)
  then show ?thesis by (simp add: end_of_region_def word_less_nat_alt not_le)
qed

text \<open>
  A loop of the function: under an invariant on the two addresses that gives the alignment its blocks
  need, it ends with the range invariant and the negation of its condition.
\<close>

lemma range_loop:
  assumes I: "range_inv env r lo hi pa0 (final_attrs prt) s0 (v, p, s)" and J: "J v p"
    and D: "1 \<le> D" "D \<le> 3" and hi: "hi \<le> 2 ^ 48" "pa0 + (hi - lo) \<le> 2 ^ 48" and prt: "\<not> bit prt 16"
    and cond: "\<And>v p s. range_inv env r lo hi pa0 (final_attrs prt) s0 (v, p, s) \<Longrightarrow> J v p \<Longrightarrow> b (v, p, s) \<Longrightarrow>
      IS_ALIGNED v (OFFSBOT D) \<and> IS_ALIGNED p (OFFSBOT D) \<and> unat v + 2 ^ OFFSBOT D \<le> hi"
    and keep: "\<And>v p. IS_ALIGNED v (OFFSBOT D) \<Longrightarrow> IS_ALIGNED p (OFFSBOT D) \<Longrightarrow> J v p"
    and n: "(hi - lo) div 4096 \<le> n"
  shows "\<exists>v' p' s'. rwhile n OutOfFuel b (set_step env r False prt D) (v, p, s) = Inr (v', p', s') \<and>
    range_inv env r lo hi pa0 (final_attrs prt) s0 (v', p', s') \<and> J v' p' \<and> \<not> b (v', p', s')"
proof -
  let ?I = "\<lambda>(v, p, s). range_inv env r lo hi pa0 (final_attrs prt) s0 (v, p, s) \<and> J v p"
  let ?\<mu> = "\<lambda>(v :: u64, p :: u64, s :: vm_st). (hi - unat v) div 4096"
  have step: "\<exists>y. set_step env r False prt D x = Inr y \<and> ?I y \<and> ?\<mu> y < ?\<mu> x" if x: "?I x" "b x" for x
  proof -
    obtain v p s where x': "x = (v, p, s)" by (cases x)
    with x have X: "range_inv env r lo hi pa0 (final_attrs prt) s0 (v, p, s)" "J v p" "b (v, p, s)" by auto
    note c = cond [OF X]
    with range_step [OF X(1) D _ _ _ hi prt]
    obtain v' p' s' where y: "set_step env r False prt D (v, p, s) = Inr (v', p', s')"
      "range_inv env r lo hi pa0 (final_attrs prt) s0 (v', p', s')" "unat v' = unat v + 2 ^ OFFSBOT D"
      "IS_ALIGNED v' (OFFSBOT D)" "IS_ALIGNED p' (OFFSBOT D)"
      by blast
    have "(4096 :: nat) \<le> 2 ^ OFFSBOT D"
      using power_increasing [OF OFFSBOT_le(2), of "2 :: nat" D] by simp
    then have "hi - unat v' + 4096 \<le> hi - unat v" using y(3) c by linarith
    then have "(hi - unat v' + 4096) div 4096 \<le> (hi - unat v) div 4096" by (rule div_le_mono)
    then have "(hi - unat v') div 4096 < (hi - unat v) div 4096" by simp
    then show ?thesis using y keep x' by auto
  qed
  have "lo \<le> unat v" using I by (simp add: range_inv_def)
  then have "(hi - unat v) div 4096 \<le> n" using n by (meson diff_le_mono2 div_le_mono le_trans)
  then have "\<exists>t. rwhile n OutOfFuel b (set_step env r False prt D) (v, p, s) = Inr t \<and> ?I t \<and> \<not> b t"
    using I J step by (intro rwhile_total [where \<mu> = ?\<mu>]) auto
  then show ?thesis by auto
qed

lemma ptable_set_range_maps:
  assumes inv: "vm_inv env r s"
    and al: "IS_ALIGNED vs 12" "IS_ALIGNED ve 12" "IS_ALIGNED pa 12"
    and rng: "vs \<le> ve" "unat ve \<le> 2 ^ 48" "unat pa + (unat ve - unat vs) \<le> 2 ^ 48"
    and fr: "fresh (mem s) r (unat vs) (unat ve)"
    and pages: "unat (pt_bot s) + 4096 * pages_for (unat ve - unat vs) \<le> unat (top_of_ptables env)"
    and prt: "\<not> bit prt 16"
  shows "\<exists>s'. ptable_set_range env r pa vs ve False prt s = Inr s' \<and> vm_inv env r s' \<and> bbm_safe s s' \<and>
    unat (pt_bot s') \<le> unat (pt_bot s) + 4096 * pages_for (unat ve - unat vs) \<and>
    (\<forall>c d. (d \<le> unat vs \<or> unat ve \<le> c) \<longrightarrow> fresh (mem s) r c d \<longrightarrow> fresh (mem s') r c d) \<and>
    (\<forall>x. va_ok x \<longrightarrow> translate (mem s') r x =
       (if vs \<le> x \<and> x < ve then Some (pa + (x - vs), final_attrs prt) else translate (mem s) r x))"
proof -
  let ?hi = "unat ve" and ?lo = "unat vs" and ?n = "range_fuel vs ve"
  let ?I = "range_inv env r ?lo ?hi (unat pa) (final_attrs prt) s"
  have le: "?lo \<le> ?hi" using rng(1) by (simp add: word_le_nat_alt)
  have n: "(?hi - ?lo) div 4096 \<le> ?n" using rng(1) by (simp add: range_fuel_def unat_sub_no_wrap)
  have I0: "?I (vs, pa, s)"
    using inv al fr pages le missing_bound [OF le, of "mem s" r] by (auto simp: range_inv_def)
  note loop = range_loop [OF _ _ _ _ rng(2,3) prt _ _ n]
  have v: "v = ve \<or> unat v + 4096 \<le> ?hi" if "?I (v, p, t)" for v p t
  proof -
    have "4096 dvd unat v" "4096 dvd ?hi"
      using that al(2) by (simp_all add: range_inv_def IS_ALIGNED_dvd)
    then obtain a b where "unat v = 4096 * a" "?hi = 4096 * b" by (elim dvdE) blast
    moreover have "unat v \<le> ?hi" using that by (simp add: range_inv_def)
    ultimately show ?thesis by (cases "a = b") (auto simp: word_unat_eq_iff)
  qed
  have v': "unat v + 4096 \<le> ?hi" if "?I (v, p, t)" "v < ve" for v p t
    using v [OF that(1)] that(2) by auto
  have eor: "end_of_region ve v 12 \<longleftrightarrow> \<not> unat v + 2 ^ 12 \<le> ?hi"
    "end_of_region ve v 21 \<longleftrightarrow> \<not> unat v + 2 ^ 21 \<le> ?hi"
    "end_of_region ve v 30 \<longleftrightarrow> \<not> unat v + 2 ^ 30 \<le> ?hi" if "?I (v, p, t)" for v p t
    using end_of_region_iff [of 3 v ve] end_of_region_iff [of 2 v ve] end_of_region_iff [of 1 v ve] that rng(2)
    by (simp_all add: range_inv_def)
  have al12: "IS_ALIGNED v 12 \<and> IS_ALIGNED p 12" if "?I (v, p, t)" for v p t
    using that by (simp add: range_inv_def)
  let ?c1 = "\<lambda>(va, pa, _). \<not> both_aligned va pa 21 \<and> \<not> end_of_region ve va 12"
  obtain v1 p1 s1 where 1: "rwhile ?n OutOfFuel ?c1 (set_step env r False prt 3) (vs, pa, s) = Inr (v1, p1, s1)"
    "?I (v1, p1, s1)" "\<not> ?c1 (v1, p1, s1)"
    using loop [of env r s vs pa s "\<lambda>_ _. True" 3 ?c1] I0 eor al12 by auto
  have j1: "unat v1 + 2 ^ 21 > ?hi \<or> IS_ALIGNED v1 21 \<and> IS_ALIGNED p1 21"
    using 1(3) eor [OF 1(2)] by (auto simp: both_aligned_def)
  let ?J2 = "\<lambda>v p. unat v + 2 ^ 21 > ?hi \<or> IS_ALIGNED v 21 \<and> IS_ALIGNED p 21"
  let ?c2 = "\<lambda>(va, pa, _). \<not> both_aligned va pa 30 \<and> \<not> end_of_region ve va 21"
  obtain v2 p2 s2 where 2: "rwhile ?n OutOfFuel ?c2 (set_step env r False prt 2) (v1, p1, s1) = Inr (v2, p2, s2)"
    "?I (v2, p2, s2)" "\<not> ?c2 (v2, p2, s2)"
    using loop [of env r s v1 p1 s1 ?J2 2 ?c2] 1(2) j1 eor by auto
  let ?J3 = "\<lambda>v p. unat v + 2 ^ 21 > ?hi \<or> IS_ALIGNED v 30 \<and> IS_ALIGNED p 30"
  have j2: "?J3 v2 p2" using 2(3) eor [OF 2(2)] by (auto simp: both_aligned_def)
  let ?c3 = "\<lambda>(va, pa, _). va < ALIGN_TO ve 30 \<and> \<not> end_of_region ve va 30"
  obtain v3 p3 s3 where 3: "rwhile ?n OutOfFuel ?c3 (set_step env r False prt 1) (v2, p2, s2) = Inr (v3, p3, s3)"
    "?I (v3, p3, s3)" "?J3 v3 p3"
    using loop [of env r s v2 p2 s2 ?J3 1 ?c3] 2(2) j2 eor by auto
  have j3: "?J2 v3 p3" using 3(3) IS_ALIGNED_mono [of _ 30 21] by auto
  let ?c4 = "\<lambda>(va, pa, _). va < ALIGN_TO ve 21 \<and> \<not> end_of_region ve va 21"
  obtain v4 p4 s4 where 4: "rwhile ?n OutOfFuel ?c4 (set_step env r False prt 2) (v3, p3, s3) = Inr (v4, p4, s4)"
    "?I (v4, p4, s4)"
    using loop [of env r s v3 p3 s3 ?J2 2 ?c4] 3(2) j3 eor by auto
  let ?c5 = "\<lambda>(va, pa :: u64, s :: vm_st). va < ve"
  obtain v5 p5 s5 where 5: "rwhile ?n OutOfFuel ?c5 (set_step env r False prt 3) (v4, p4, s4) = Inr (v5, p5, s5)"
    "?I (v5, p5, s5)" "\<not> ?c5 (v5, p5, s5)"
    using loop [of env r s v4 p4 s4 "\<lambda>_ _. True" 3 ?c5] 4(2) v' al12 by auto
  have g: "\<not> (IS_ALIGNED v1 21 \<and> \<not> IS_ALIGNED p1 21 \<and> \<not> end_of_region ve v1 12)"
    using 1(3) by (auto simp: both_aligned_def)
  have res: "ptable_set_range env r pa vs ve False prt s = Inr s5"
    unfolding ptable_set_range_def Let_def using 1(1) 2(1) 3(1) 4(1) 5(1) al g by simp
  have v5: "v5 = ve" using v [OF 5(2)] 5(3) by (auto simp: word_less_nat_alt)
  have "translate (mem s5) r x =
       (if vs \<le> x \<and> x < ve then Some (pa + (x - vs), final_attrs prt) else translate (mem s) r x)"
    if "va_ok x" for x
  proof -
    have "of_nat (unat pa + (unat x - unat vs)) = pa + (x - vs)" if "vs \<le> x"
      using that by (simp add: unat_sub_no_wrap [symmetric])
    then show ?thesis
      using 5(2) that unfolding range_inv_def v5 by (auto simp: word_le_nat_alt word_less_nat_alt)
  qed
  moreover have "unat (pt_bot s5) \<le> unat (pt_bot s) + 4096 * pages_for (unat ve - unat vs)"
    using 5(2) missing_bound [OF le, of "mem s" r] by (auto simp: range_inv_def)
  ultimately show ?thesis
    using res bbm_set_range [OF res] 5(2) by (auto simp: range_inv_def)
qed

end
