(* ===== verification/VmmProps.thy ===== *)
theory VmmProps
  imports VmmMap
begin

text \<open>
  The properties of the translation tables, each with an instance that meets its hypotheses, and the
  lemmas they need beyond \<open>VmmEnsure\<close> and \<open>VmmMap\<close>.
\<close>

section \<open>An empty tree\<close>

text \<open>The tree whose root page is all zeros, which the instances start from.\<close>

definition vm_env1 :: vm_env where
  "vm_env1 = \<lparr>top_of_ptables = 0x1000000, repeat_tlbi = True, isb_after_pte_st = True\<rparr>"

definition vm_st1 :: vm_st where
  "vm_st1 = \<lparr>mem = \<lambda>_. 0, pt_bot = 0x11000, trace = []\<rparr>"

lemma tbl_zero: "tbl (\<lambda>_. 0) r va l = (if l = 0 then Some r else None)"
  by (cases l) (simp_all add: tbl_Suc unset_read_desc split: option.split)

lemma leaf_zero: "leaf (\<lambda>_. 0) r va = (0, 0)"
  unfolding is_leaf_leaf [symmetric] by (simp add: is_leaf_def ent_def tbl_zero unset_read_desc)

lemma fresh_zero: "fresh (\<lambda>_. 0) r lo hi"
  by (simp add: fresh_def leaf_zero)

lemma vm_inv_st1: "vm_inv vm_env1 0x10000 vm_st1"
  by (auto simp: vm_inv_def vm_env1_def vm_st1_def tree_ok_def tbl_zero IS_ALIGNED_dvd va_ok_unat split: if_splits)

lemma translate_zero: "translate (\<lambda>_. 0) r va = None"
  by (simp add: translate_def leaf_zero leaf_out_unset)

section \<open>Regions\<close>

definition region_pa :: "VMRegion \<Rightarrow> u64" where
  "region_pa reg = (if pa_start reg \<noteq> 0 then pa_start reg else va_start reg)"

definition region_ok :: "VMRegion \<Rightarrow> bool" where
  "region_ok reg \<longleftrightarrow>
     IS_ALIGNED (va_start reg) 12 \<and> IS_ALIGNED (va_end reg) 12 \<and> IS_ALIGNED (region_pa reg) 12 \<and>
     va_start reg \<le> va_end reg \<and> unat (va_end reg) \<le> 2 ^ 48 \<and>
     unat (region_pa reg) + (unat (va_end reg) - unat (va_start reg)) \<le> 2 ^ 48 \<and>
     \<not> bit (memattr reg OR prot reg) 16"

definition region_fresh :: "pt_mem \<Rightarrow> u64 \<Rightarrow> VMRegion \<Rightarrow> bool" where
  "region_fresh m r reg \<longleftrightarrow> fresh m r (unat (va_start reg)) (unat (va_end reg))"

definition region_pages :: "VMRegion \<Rightarrow> nat" where
  "region_pages reg = pages_for (unat (va_end reg) - unat (va_start reg))"

definition in_region :: "u64 \<Rightarrow> VMRegion \<Rightarrow> bool" where
  "in_region x reg \<longleftrightarrow> valid reg \<and> va_start reg \<le> x \<and> x < va_end reg"

definition region_out :: "u64 \<Rightarrow> VMRegion \<Rightarrow> u64 \<times> attrs_t" where
  "region_out x reg = (region_pa reg + (x - va_start reg), final_attrs (memattr reg OR prot reg))"

lemma ptable_map_region:
  assumes "vm_inv env r s" "region_ok reg" "region_fresh (mem s) r reg"
    and "unat (pt_bot s) + 4096 * region_pages reg \<le> unat (top_of_ptables env)"
  shows "\<exists>s'. vmm_ptable_map env r reg s = Inr s' \<and> vm_inv env r s' \<and> bbm_safe s s' \<and>
    unat (pt_bot s') \<le> unat (pt_bot s) + 4096 * region_pages reg \<and>
    (\<forall>c d. (d \<le> unat (va_start reg) \<or> unat (va_end reg) \<le> c) \<longrightarrow> fresh (mem s) r c d \<longrightarrow> fresh (mem s') r c d) \<and>
    (\<forall>x. va_ok x \<longrightarrow> translate (mem s') r x =
       (if va_start reg \<le> x \<and> x < va_end reg then Some (region_out x reg) else translate (mem s) r x))"
  using ptable_set_range_maps [of env r s "va_start reg" "va_end reg" "region_pa reg" "memattr reg OR prot reg"] assms
  unfolding vmm_ptable_map_def ptable_map_range_def region_ok_def region_fresh_def region_pages_def region_out_def
  by (simp add: region_pa_def Let_def)

text \<open>
  C6: \<open>vmm_ptable_map\<close> of a fresh page-aligned region succeeds when the allocator has the pages, keeps
  the tree well formed and the updates break-before-make, and afterwards every address of the region
  translates to its offset from \<open>pa_start\<close> with the attributes asked for, and every other address as
  before: the five loops tile the range with blocks and pages that neither overlap nor leave a gap.
\<close>

theorem vmm_ptable_map_correct:
  assumes "vm_inv env r s" "region_ok reg" "region_fresh (mem s) r reg"
    and "unat (pt_bot s) + 4096 * region_pages reg \<le> unat (top_of_ptables env)"
  shows "\<exists>s'. vmm_ptable_map env r reg s = Inr s' \<and> vm_inv env r s' \<and> bbm_safe s s' \<and>
    (\<forall>x. va_ok x \<longrightarrow> translate (mem s') r x =
       (if va_start reg \<le> x \<and> x < va_end reg
        then Some (region_pa reg + (x - va_start reg), final_attrs (memattr reg OR prot reg))
        else translate (mem s) r x))"
  using ptable_map_region [OF assms] unfolding region_out_def by blast

definition region1 :: VMRegion where
  "region1 = \<lparr>valid = True, va_start = 0x3ff000, va_end = 0x80003000, memattr = PROT_MEMTYPE_NORMAL,
     prot = PROT_RW_RWX, pa_start = 0x1003ff000\<rparr>"

lemma prot_bit16: "bit (write_attrs at OR write_attrs at') 16 \<longleftrightarrow> nT at \<noteq> 0 \<or> nT at' \<noteq> 0"
proof -
  have "bit (nT a) 0 \<longleftrightarrow> nT a \<noteq> 0" for a :: attrs_t
    by (metis bit_0_eq one_word_eqI zero_neq_one bot_apply bot_bool_def)
  then show ?thesis by (simp add: bit_or_iff nT_write del: bit_0)
qed

lemma region1_ok: "region_ok region1"
  by (simp add: region_ok_def region1_def region_pa_def IS_ALIGNED_dvd PROT_MEMTYPE_NORMAL_def
      PROT_RW_RWX_def prot_bit16 attrs0_def)

lemma region1_fits:
  "unat (pt_bot vm_st1) + 4096 * region_pages region1 \<le> unat (top_of_ptables vm_env1)"
  by (simp add: region_pages_def pages_for_def region1_def vm_st1_def vm_env1_def)

theorem vmm_ptable_map_correct_witness:
  "\<exists>s'. vmm_ptable_map vm_env1 0x10000 region1 vm_st1 = Inr s' \<and>
     translate (mem s') 0x10000 0x40001234 = Some (0x140001234, final_attrs (PROT_MEMTYPE_NORMAL OR PROT_RW_RWX)) \<and>
     translate (mem s') 0x10000 0x80003000 = None"
proof -
  have f: "region_fresh (mem vm_st1) 0x10000 region1"
    by (simp add: region_fresh_def vm_st1_def fresh_zero)
  obtain s' where s': "vmm_ptable_map vm_env1 0x10000 region1 vm_st1 = Inr s'"
    "\<And>x. va_ok x \<Longrightarrow> translate (mem s') 0x10000 x =
       (if va_start region1 \<le> x \<and> x < va_end region1
        then Some (region_pa region1 + (x - va_start region1), final_attrs (memattr region1 OR prot region1))
        else translate (mem vm_st1) 0x10000 x)"
    using vmm_ptable_map_correct [OF vm_inv_st1 region1_ok f region1_fits] by blast
  have "va_ok 0x40001234" "va_ok 0x80003000" by (simp_all add: va_ok_unat)
  then show ?thesis
    using s' by (simp add: region1_def region_pa_def vm_st1_def translate_zero)
qed

section \<open>Tables of regions\<close>

fun separated :: "VMRegion list \<Rightarrow> bool" where
  "separated [] \<longleftrightarrow> True"
| "separated (g # gs) \<longleftrightarrow> separated gs \<and>
     (valid g \<longrightarrow> (\<forall>h \<in> set gs. valid h \<longrightarrow> va_end g \<le> va_start h \<or> va_end h \<le> va_start g))"

definition regions_pages :: "VMRegion list \<Rightarrow> nat" where
  "regions_pages gs = sum_list (map region_pages (filter valid gs))"

lemma update_table_Cons:
  "update_table_from_vmregion_map env r (g # gs) s =
     (if valid g then rbind (vmm_ptable_map env r g s) (update_table_from_vmregion_map env r gs)
      else update_table_from_vmregion_map env r gs s)"
  by (cases "vmm_ptable_map env r g s") (simp_all add: update_table_from_vmregion_map_def region0_def)

lemma update_table_regions:
  assumes "vm_inv env r s" "\<And>g. g \<in> set gs \<Longrightarrow> valid g \<Longrightarrow> region_ok g \<and> region_fresh (mem s) r g"
    and "separated gs" "unat (pt_bot s) + 4096 * regions_pages gs \<le> unat (top_of_ptables env)"
  shows "\<exists>s'. update_table_from_vmregion_map env r gs s = Inr s' \<and> vm_inv env r s' \<and>
    (\<forall>x. va_ok x \<longrightarrow> translate (mem s') r x =
       (case find (in_region x) gs of
          Some g \<Rightarrow> Some (region_pa g + (x - va_start g), final_attrs (memattr g OR prot g))
        | None \<Rightarrow> translate (mem s) r x))"
  using assms
proof (induction gs arbitrary: s)
  case Nil
  then show ?case by (simp add: update_table_from_vmregion_map_def)
next
  case (Cons g gs)
  show ?case
  proof (cases "valid g")
    case False
    with Cons.IH [of s] Cons.prems show ?thesis
      by (auto simp: update_table_Cons regions_pages_def in_region_def)
  next
    case True
    with Cons.prems have g: "region_ok g" "region_fresh (mem s) r g"
      and b: "unat (pt_bot s) + 4096 * region_pages g + 4096 * regions_pages gs \<le> unat (top_of_ptables env)"
      by (auto simp: regions_pages_def)
    obtain s1 where s1: "vmm_ptable_map env r g s = Inr s1" "vm_inv env r s1"
      "unat (pt_bot s1) \<le> unat (pt_bot s) + 4096 * region_pages g"
      and fr: "\<And>c d. d \<le> unat (va_start g) \<or> unat (va_end g) \<le> c \<Longrightarrow> fresh (mem s) r c d \<Longrightarrow> fresh (mem s1) r c d"
      and tr: "\<And>x. va_ok x \<Longrightarrow> translate (mem s1) r x =
        (if va_start g \<le> x \<and> x < va_end g then Some (region_out x g) else translate (mem s) r x)"
      using ptable_map_region [OF Cons.prems(1) g] b by auto
    have "region_ok h \<and> region_fresh (mem s1) r h" if h: "h \<in> set gs" "valid h" for h
    proof -
      have "va_end g \<le> va_start h \<or> va_end h \<le> va_start g" using Cons.prems(3) True h by auto
      then show ?thesis
        using Cons.prems(2) [of h] h fr unfolding region_fresh_def by (auto simp: word_le_nat_alt)
    qed
    from Cons.IH [OF s1(2) this] Cons.prems(3) b s1(3)
    obtain s' where s': "update_table_from_vmregion_map env r gs s1 = Inr s'" "vm_inv env r s'"
      and tr': "\<And>x. va_ok x \<Longrightarrow> translate (mem s') r x =
       (case find (in_region x) gs of
          Some g \<Rightarrow> Some (region_pa g + (x - va_start g), final_attrs (memattr g OR prot g))
        | None \<Rightarrow> translate (mem s1) r x)"
      by auto
    have none: "find (in_region x) gs = None" if "in_region x g" for x
    proof -
      have "\<not> in_region x h" if "h \<in> set gs" for h
        using Cons.prems(3) True that \<open>in_region x g\<close> by (fastforce simp: in_region_def)
      then show ?thesis by (simp add: find_None_iff)
    qed
    have "in_region x g \<longleftrightarrow> va_start g \<le> x \<and> x < va_end g" for x
      using True by (simp add: in_region_def)
    then have "translate (mem s') r x =
       (case find (in_region x) (g # gs) of
          Some g \<Rightarrow> Some (region_pa g + (x - va_start g), final_attrs (memattr g OR prot g))
        | None \<Rightarrow> translate (mem s) r x)" if "va_ok x" for x
      using tr [OF that] tr' [OF that] none [of x]
      by (cases "in_region x g") (auto simp: region_out_def split: option.split)
    then show ?thesis using s1(1) s' True by (auto simp: update_table_Cons)
  qed
qed

text \<open>
  Building a table from a region map whose valid regions are page aligned, do not overlap and are
  fresh in the table gives the translation the map describes: an address of a valid region goes to
  its offset in that region, and every other address translates as before.
\<close>

theorem update_table_from_vmregion_map_correct:
  assumes "vm_inv env r s" "\<And>g. g \<in> set gs \<Longrightarrow> valid g \<Longrightarrow> region_ok g \<and> region_fresh (mem s) r g"
    and "separated gs" "unat (pt_bot s) + 4096 * regions_pages gs \<le> unat (top_of_ptables env)"
  shows "\<exists>s'. update_table_from_vmregion_map env r gs s = Inr s' \<and> vm_inv env r s' \<and>
    (\<forall>x. va_ok x \<longrightarrow> translate (mem s') r x =
       (case find (in_region x) gs of
          Some g \<Rightarrow> Some (region_pa g + (x - va_start g), final_attrs (memattr g OR prot g))
        | None \<Rightarrow> translate (mem s) r x))"
  by (rule update_table_regions [OF assms])

definition region2 :: VMRegion where
  "region2 = \<lparr>valid = True, va_start = 0x100000000, va_end = 0x100200000, memattr = PROT_MEMTYPE_DEVICE,
     prot = PROT_RW_RW, pa_start = 0\<rparr>"

theorem update_table_from_vmregion_map_correct_witness:
  "\<exists>s'. update_table_from_vmregion_map vm_env1 0x10000 [region1, region0, region2] vm_st1 = Inr s' \<and>
     translate (mem s') 0x10000 0x3ff008 = Some (0x1003ff008, final_attrs (PROT_MEMTYPE_NORMAL OR PROT_RW_RWX)) \<and>
     translate (mem s') 0x10000 0x100000010 = Some (0x100000010, final_attrs (PROT_MEMTYPE_DEVICE OR PROT_RW_RW)) \<and>
     translate (mem s') 0x10000 0 = None"
proof -
  have ok2: "region_ok region2"
    by (simp add: region_ok_def region2_def region_pa_def IS_ALIGNED_dvd PROT_MEMTYPE_DEVICE_def
        PROT_RW_RW_def prot_bit16 attrs0_def)
  have "region_ok g \<and> region_fresh (mem vm_st1) 0x10000 g" if "g \<in> set [region1, region0, region2]" "valid g" for g
    using that region1_ok ok2 by (auto simp: region_fresh_def vm_st1_def fresh_zero region0_def)
  moreover have "separated [region1, region0, region2]"
    by (simp add: region1_def region0_def region2_def)
  moreover have "unat (pt_bot vm_st1) + 4096 * regions_pages [region1, region0, region2] \<le> unat (top_of_ptables vm_env1)"
    by (simp add: regions_pages_def region_pages_def pages_for_def region0_def region1_def region2_def vm_st1_def vm_env1_def)
  ultimately obtain s' where s': "update_table_from_vmregion_map vm_env1 0x10000 [region1, region0, region2] vm_st1 = Inr s'"
    "\<And>x. va_ok x \<Longrightarrow> translate (mem s') 0x10000 x =
       (case find (in_region x) [region1, region0, region2] of
          Some g \<Rightarrow> Some (region_pa g + (x - va_start g), final_attrs (memattr g OR prot g))
        | None \<Rightarrow> translate (mem vm_st1) 0x10000 x)"
    using update_table_from_vmregion_map_correct [OF vm_inv_st1] by blast
  have "va_ok 0x3ff008" "va_ok 0x100000010" "va_ok 0" by (simp_all add: va_ok_unat)
  then show ?thesis
    using s' by (simp add: in_region_def region0_def region1_def region2_def region_pa_def vm_st1_def translate_zero)
qed

section \<open>Failures\<close>

lemma ensure_level_error: "vmm_ensure_level env r l va s = Inl e \<Longrightarrow> e = NoMorePagetables"
proof -
  have alloc: "zalloc_ptable env s = Inl e \<Longrightarrow> e = NoMorePagetables" for s
    by (auto simp: zalloc_cases split: if_splits)
  have step: "ensure_step env va k (t, s) = Inl e \<Longrightarrow> e = NoMorePagetables" for va k t s
    using alloc [of s] by (auto simp: ensure_step_def rbind_Inl_iff Let_def split: desc.splits)
  have "rfold (ensure_step env va) ks y = Inl e \<Longrightarrow> e = NoMorePagetables" for va ks y
    by (induction ks arbitrary: y) (use step in \<open>auto simp: rbind_Inl_iff\<close>)
  then show "vmm_ensure_level env r l va s = Inl e \<Longrightarrow> e = NoMorePagetables"
    by (auto simp: vmm_ensure_level_def rbind_Inl_iff)
qed

lemma set_step_error:
  assumes "set_step env r u prt l x = Inl e"
  shows "e = NoMorePagetables"
proof -
  obtain v p s where x: "x = (v, p, s)" by (cases x)
  show ?thesis
  proof (cases "vmm_ensure_level env r l v s")
    case (Inr s1)
    obtain d q ps where "vmm_translation_walk (mem s1) r v = (d, q, ps)" by (metis prod_cases3)
    then show ?thesis using assms x Inr by (cases u) (simp_all add: set_step_def set_block_or_page_def)
  qed (use assms x ensure_level_error in \<open>auto simp: set_step_def set_block_or_page_def\<close>)
qed

lemma rwhile_error:
  "rwhile n oof b f s = Inl e \<Longrightarrow> (\<And>x e. f x = Inl e \<Longrightarrow> P e) \<Longrightarrow> P oof \<Longrightarrow> P e"
  by (induction n arbitrary: s) (auto simp: rbind_Inl_iff split: if_splits)

lemma rwhile_exit: "rwhile n oof b f s = Inr t \<Longrightarrow> \<not> b t"
  by (induction n arbitrary: s) (auto split: if_splits)

lemma set_range_error:
  assumes "ptable_set_range env r pa vs ve u prt s = Inl e"
  shows "e \<in> {UnalignedStart, UnalignedEnd, NoMorePagetables, OutOfFuel}"
proof -
  let ?P = "\<lambda>e. e \<in> {UnalignedStart, UnalignedEnd, NoMorePagetables, OutOfFuel}"
  have loop: "?P e" if "rwhile n OutOfFuel b (set_step env r u prt l) x = Inl e" for n b l x e
    by (rule rwhile_error [OF that]) (use set_step_error in auto)
  show ?thesis
    using assms unfolding ptable_set_range_def Let_def
    by (auto simp: rbind_Inl_iff both_aligned_def split: if_splits prod.splits dest: rwhile_exit loop)
qed

text \<open>
  The failure for a translation that is misaligned at level 2 is unreachable, for any arguments
  and any state: the first loop does not end before both addresses are 2M aligned or the range is
  exhausted. A range whose two addresses differ modulo 2M is mapped with pages throughout, which the
  comment above the check says fails.
\<close>

theorem misaligned_unreachable: "ptable_set_range env r pa vs ve u prt s \<noteq> Inl Misaligned"
  using set_range_error [of env r pa vs ve u prt s Misaligned] by auto

text \<open>
  The overlap and order checks of \<open>update_table_from_vmregion_map\<close> can never fire. The region they
  compare with is the zero region it starts from, because the loop never updates it, so overlapping
  regions are mapped one over the other without a word.
\<close>

theorem region_checks_never_fire:
  "update_table_from_vmregion_map env r gs s \<noteq> Inl RegionsOverlap
   \<and> update_table_from_vmregion_map env r gs s \<noteq> Inl RegionsOutOfOrder"
proof (induction gs arbitrary: s)
  case Nil
  then show ?case by (simp add: update_table_from_vmregion_map_def)
next
  case (Cons g gs)
  have "vmm_ptable_map env r g s \<noteq> Inl RegionsOverlap \<and> vmm_ptable_map env r g s \<noteq> Inl RegionsOutOfOrder"
    using set_range_error unfolding vmm_ptable_map_def ptable_map_range_def Let_def by fastforce
  then show ?case using Cons by (cases "vmm_ptable_map env r g s") (auto simp: update_table_Cons)
qed

section \<open>Break-before-make\<close>

text \<open>
  C8: every update that mapping or unmapping a range makes follows break-before-make, whatever the
  state of the tables and whether or not the errata workarounds are on: a live entry is made invalid
  first and is written again only after a \<open>DSB\<close>, an invalidation of the TLBs and another \<open>DSB\<close>. At
  the end no invalidated entry is left without maintenance.
\<close>

theorem set_range_break_before_make:
  assumes "ptable_set_range env r pa vs ve u prt s = Inr s'"
  shows "\<exists>es. trace s' = trace s @ es \<and> bbm_run es (mem s, \<lambda>_. 0) = Some (mem s', \<lambda>_. 0)"
  using bbm_set_range [OF assms] by (simp add: bbm_safe_append)

theorem set_range_break_before_make_witness:
  "\<exists>s' es. ptable_set_range vm_env1 0x10000 0 0 0x1000 False PROT_RW_RWX vm_st1 = Inr s' \<and>
     trace s' = trace vm_st1 @ es \<and> bbm_run es (mem vm_st1, \<lambda>_. 0) = Some (mem s', \<lambda>_. 0)"
proof -
  have "\<not> bit PROT_RW_RWX 16" by (simp add: PROT_RW_RWX_def nT_write attrs0_def)
  then have "\<exists>s'. ptable_set_range vm_env1 0x10000 0 0 0x1000 False PROT_RW_RWX vm_st1 = Inr s'"
    using ptable_set_range_maps [OF vm_inv_st1, where vs = 0 and ve = "0x1000" and pa = 0 and prt = PROT_RW_RWX]
    by (simp add: IS_ALIGNED_dvd vm_st1_def vm_env1_def fresh_zero pages_for_def) blast
  then obtain s' where "ptable_set_range vm_env1 0x10000 0 0 0x1000 False PROT_RW_RWX vm_st1 = Inr s'" ..
  with set_range_break_before_make [OF this] show ?thesis by blast
qed

section \<open>Software walks\<close>

lemma translate_walk:
  assumes "translate m r va = Some (out, at)"
  obtains k a at' p ps where "vmm_translation_walk m r va = (Block k a at', p, ps)"
    and "out = a OR take_bit (OFFSBOT k) va" and "vmm_level m r va = k" and "k \<le> 3"
    and "addr_ok (OFFSBOT k) a"
proof -
  obtain k t ps where w: "vmm_translation_walk m r va = (read_desc (m (entry_addr t va k)) k, entry_addr t va k, ps)"
    "leaf m r va = (k, m (entry_addr t va k))"
    using walk_leaf [of m r va] by metis
  obtain k' a at' where d: "read_desc (m (entry_addr t va k)) k = Block k' a at'"
    "out = a OR take_bit (OFFSBOT k) va"
    using assms w(2) by (auto simp: translate_def leaf_out_def split: desc.splits)
  have k: "k \<le> 3" "k' = k"
    using leaf_level [of m r va] w(2) read_desc_level [of "m (entry_addr t va k)" k] d(1) by auto
  moreover have "addr_ok (OFFSBOT k) a"
    using wf_read_desc [OF k(1), of "m (entry_addr t va k)"] d(1) k(2) by simp
  ultimately show thesis
    using w(1) d by (intro that [of k a at' "entry_addr t va k" ps]) (simp_all add: vmm_level_def)
qed


text \<open>A 1G block at \<open>0x40000000\<close> that maps to \<open>0x80000000\<close>: bit 30 of the address leaks into the result.\<close>

definition block_mem :: pt_mem where
  "block_mem = (\<lambda>_. 0)(0x10000 := 0x11003, 0x11008 := 0x80000741)"

lemmas walk_defs = vmm_translation_walk_def vmm_translation_walk_to_level_def walk_loop.simps entry_addr_def
  OFFS_def OFFSBOT_def OFFSTOP_def BIT_SLICE_def BIT_def read_desc_def read_attrs_def Let_def

lemma block_mem_walk:
  "vmm_translation_walk block_mem 0x10000 0x40000008 =
     (Block 1 0x80000000 (read_attrs 0x80000741), 0x11008, [None, Some 0x10000])"
  by (simp add: walk_defs block_mem_def)


section \<open>Splitting a block\<close>

lemma bit_2_u64: "bit (2 :: u64) n \<longleftrightarrow> n = 1"
  by (auto simp: bit_numeral_rec bit_1_iff split: nat.splits)

lemma read_desc_ignores_bit1: "read_desc (e OR 2) 3 = read_desc e 3"
proof -
  have "read_attrs (e OR 2) = read_attrs e"
    by (rule read_attrs_eqI) (auto simp: bit_write_read_attrs bit_or_iff bit_2_u64 attr_bits_def)
  moreover have "push_bit 12 (BIT_SLICE (e OR 2) 47 12) = push_bit 12 (BIT_SLICE e 47 12)"
  proof (rule bit_eqI)
    fix n
    have "12 \<le> n \<Longrightarrow> \<not> bit (2 :: u64) n" unfolding bit_2_u64 by simp
    then show "bit (push_bit 12 (BIT_SLICE (e OR 2) 47 12)) n = bit (push_bit 12 (BIT_SLICE e 47 12)) n"
      by (auto simp: bit_addr_field bit_or_iff)
  qed
  moreover have "BIT (e OR 2) 0 = BIT e 0"
    by (simp add: BIT_of_bool bit_or_iff bit_2_u64 del: bit_0)
  ultimately show ?thesis unfolding read_desc_def by simp
qed

lemma read_child_block:
  assumes "1 \<le> l" "l < 3" "addr_ok (OFFSBOT (Suc l)) a" "OA at = 0" "\<not> bit (nT at) 0"
  shows "\<exists>at'. read_desc (write_desc (Block l a at)) (Suc l) = Block (Suc l) a at' \<and> at'\<lparr>nT := 0\<rparr> = at\<lparr>nT := 0\<rparr>"
proof -
  have "read_desc (write_desc (Block l a at)) (Suc l) = read_desc (write_desc (Block (Suc l) a at)) (Suc l)"
  proof (cases "l = 2")
    case True
    have "write_desc (Block 3 a at) = write_desc (Block 2 a at) OR 2" by (simp add: ac_simps)
    then have "read_desc (write_desc (Block 3 a at)) 3 = read_desc (write_desc (Block 2 a at)) 3"
      by (simp only: read_desc_ignores_bit1)
    then show ?thesis using True by (simp only: eval_nat_numeral)
  qed (use assms(2) in simp)
  also have "\<dots> = Block (Suc l) a (if Suc l = 3 then at\<lparr>nT := ucast (BIT a 16)\<rparr> else at)"
    using assms by (intro read_write_block) auto
  finally show ?thesis by auto
qed

text \<open>
  C13: what \<open>vmm_ensure_level\<close> does to a mapped block. The new table is filled with 512 copies of the
  block's own descriptor, not with the 512 parts of the block, so afterwards every part of it
  translates to the first part: the map changes for every address of the block but those in it.
\<close>

theorem ensure_level_block_aliases:
  assumes "vm_inv env r s" "va_ok va" "leaf (mem s) r va = (l, w)" "l < 3"
    and "read_desc w l = Block l a at" "\<not> bit w 16"
    and "unat (pt_bot s) + 4096 \<le> unat (top_of_ptables env)"
  shows "\<exists>s'. vmm_ensure_level env r (Suc l) va s = Inr s' \<and>
    (\<forall>x. va_ok x \<longrightarrow> translate (mem s') r x =
      (if blk l x = blk l va then Some (a OR take_bit (OFFSBOT (Suc l)) x, at\<lparr>nT := 0\<rparr>)
       else translate (mem s) r x))"
proof -
  have prefix: "\<exists>t. rfold (ensure_step env va) [0..<j] (r, s) = Inr (t, s) \<and> tbl (mem s) r va j = Some t"
    if "j \<le> l" for j
    using that
  proof (induction j)
    case (Suc j)
    then obtain t where t: "rfold (ensure_step env va) [0..<j] (r, s) = Inr (t, s)" "tbl (mem s) r va j = Some t"
      by auto
    have "j < fst (leaf (mem s) r va)" using Suc.prems assms(3) by simp
    with ensure_step_table [OF t(2)] obtain b
      where "ensure_step env va j (t, s) = Inr (b, s)" "tbl (mem s) r va (Suc j) = Some b" by blast
    then show ?case using t(1) by (auto simp: rfold_snoc)
  qed simp
  then obtain t where t: "rfold (ensure_step env va) [0..<l] (r, s) = Inr (t, s)" "tbl (mem s) r va l = Some t"
    by blast
  have nt: "\<not> is_Table (read_desc (mem s (entry_addr t va l)) l)"
    using assms(3) t(2) unfolding is_leaf_leaf [symmetric] by (auto simp: is_leaf_def ent_def)
  have "0 < (4096 :: nat)" by simp
  then have "pt_bot s < top_of_ptables env" using assms(7) by (simp add: word_less_nat_alt)
  then obtain pg s3 where "zalloc_ptable env s = Inr (pg, s3)"
    by (simp add: zalloc_cases not_le [symmetric])
  then obtain s' where step: "ensure_step env va l (t, s) = Inr (pg, s')"
    by (simp add: ensure_step_alloc [OF nt])
  have e: "vmm_ensure_level env r (Suc l) va s = Inr s'"
    using t(1) step by (simp add: vmm_ensure_level_def rfold_snoc)
  note L = ensure_step_new(4) [OF assms(1,2,4,3) t(2) step]
  have wf: "addr_ok (OFFSBOT l) a" "OA at = 0" "1 \<le> l"
    using wf_read_desc [of l w] assms(4,5) by auto
  have at: "at = read_attrs w"
    using assms(5) by (auto simp: read_desc_def split: if_splits)
  have n: "\<not> bit (nT at) 0" unfolding at using assms(6) by (simp add: read_attrs_def bit_ucast_BIT del: bit_0)
  have "OFFSBOT (Suc l) \<le> OFFSBOT l" by (rule OFFSBOT_antimono) simp
  then have "addr_ok (OFFSBOT (Suc l)) a" using wf(1) by (auto simp: addr_ok_bit)
  then have rd: "\<exists>at'. read_desc (write_desc (Block l a at)) (Suc l) = Block (Suc l) a at' \<and> at'\<lparr>nT := 0\<rparr> = at\<lparr>nT := 0\<rparr>"
    using n wf(2,3) assms(4) by (intro read_child_block) auto
  have "translate (mem s') r x =
      (if blk l x = blk l va then Some (a OR take_bit (OFFSBOT (Suc l)) x, at\<lparr>nT := 0\<rparr>)
       else translate (mem s) r x)" if "va_ok x" for x
    using L [OF that] rd assms(5) by (auto simp: translate_def leaf_out_def simp del: write_desc.simps)
  then show ?thesis using e by blast
qed

text \<open>The tree of the instances below: one 1G block from \<open>0x40000000\<close> to \<open>0x80000000\<close>.\<close>

definition prot1 :: u64 where
  "prot1 = PROT_MEMTYPE_NORMAL OR PROT_RW_RWX"

lemma prot1_bit16: "\<not> bit prot1 16"
  by (simp add: prot1_def PROT_MEMTYPE_NORMAL_def PROT_RW_RWX_def prot_bit16 attrs0_def)

lemma make_desc_unset16:
  assumes "l < 3" "addr_ok (OFFSBOT l) pa" "\<not> bit prt 16"
  shows "\<not> bit (vmm_make_desc pa prt l) 16"
proof -
  have "21 \<le> OFFSBOT l" using assms(1) by (simp add: OFFSBOT_def)
  then have "\<not> bit pa 16" using assms(2) by (auto simp: addr_ok_bit)
  then show ?thesis
    using assms(3) unfolding vmm_make_desc_def bit_write_desc_block
    by (simp add: nT_write read_attrs_def bit_ucast_BIT del: bit_0)
qed

lemma one_block_state:
  "\<exists>s. set_block_or_page vm_env1 0x10000 0x40000000 0x80000000 False prot1 1 vm_st1 = Inr s \<and>
     vm_inv vm_env1 0x10000 s \<and> unat (pt_bot s) = 0x12000 \<and>
     (\<forall>x. va_ok x \<longrightarrow> blk 1 x = 1 \<longrightarrow> leaf (mem s) 0x10000 x = (1, vmm_make_desc 0x80000000 prot1 1))"
proof -
  have v: "va_ok 0x40000000" and lf: "leaf (mem vm_st1) 0x10000 0x40000000 = (0, 0)"
    and pg: "unat (pt_bot vm_st1) + 4096 * (1 - 0) \<le> unat (top_of_ptables vm_env1)"
    and pa: "addr_ok (OFFSBOT 1) 0x80000000" and b: "blk 1 (0x40000000 :: u64) = 1"
    by (simp_all add: va_ok_unat vm_st1_def vm_env1_def leaf_zero addr_ok_def IS_ALIGNED_dvd blk_def)
  from set_block_or_page_unmapped [OF vm_inv_st1 v lf _ _ _ _ pg pa prot1_bit16]
  obtain s where "set_block_or_page vm_env1 0x10000 0x40000000 0x80000000 False prot1 1 vm_st1 = Inr s"
    "vm_inv vm_env1 0x10000 s" "unat (pt_bot s) = unat (pt_bot vm_st1) + 4096 * (1 - 0)"
    "\<And>x. va_ok x \<Longrightarrow> blk 1 x = 1 \<Longrightarrow> leaf (mem s) 0x10000 x = (1, vmm_make_desc 0x80000000 prot1 1)"
    using b by auto
  then show ?thesis by (auto simp: vm_st1_def)
qed

theorem ensure_level_block_aliases_witness:
  "\<exists>s s'. set_block_or_page vm_env1 0x10000 0x40000000 0x80000000 False prot1 1 vm_st1 = Inr s \<and>
     translate (mem s) 0x10000 0x40200008 = Some (0x80200008, final_attrs prot1) \<and>
     vmm_ensure_level vm_env1 0x10000 2 0x40000000 s = Inr s' \<and>
     translate (mem s') 0x10000 0x40200008 = Some (0x80000008, final_attrs prot1)"
proof -
  obtain s where s: "set_block_or_page vm_env1 0x10000 0x40000000 0x80000000 False prot1 1 vm_st1 = Inr s"
    "vm_inv vm_env1 0x10000 s" "unat (pt_bot s) = 0x12000"
    and L: "\<And>x. va_ok x \<Longrightarrow> blk 1 x = 1 \<Longrightarrow> leaf (mem s) 0x10000 x = (1, vmm_make_desc 0x80000000 prot1 1)"
    using one_block_state by blast
  have v: "va_ok 0x40000000" "va_ok 0x40200008" by (simp_all add: va_ok_unat)
  have b: "blk 1 (0x40000000 :: u64) = 1" "blk 1 (0x40200008 :: u64) = 1" by (simp_all add: blk_def)
  have pa: "addr_ok (OFFSBOT 1) 0x80000000" by (simp add: addr_ok_def IS_ALIGNED_dvd)
  obtain at where at: "read_desc (vmm_make_desc 0x80000000 prot1 1) 1 = Block 1 0x80000000 at"
    "at\<lparr>nT := 0\<rparr> = final_attrs prot1"
    using make_desc_read [OF _ _ pa prot1_bit16] by auto
  have n: "\<not> bit (vmm_make_desc 0x80000000 prot1 1) 16"
    by (rule make_desc_unset16 [OF _ pa prot1_bit16]) simp
  have "unat (pt_bot s) + 4096 \<le> unat (top_of_ptables vm_env1)" using s(3) by (simp add: vm_env1_def)
  from ensure_level_block_aliases [OF s(2) v(1) L [OF v(1) b(1)] _ at(1) n this]
  obtain s' where s': "vmm_ensure_level vm_env1 0x10000 2 0x40000000 s = Inr s'"
    "\<And>x. va_ok x \<Longrightarrow> translate (mem s') 0x10000 x =
      (if blk 1 x = blk 1 0x40000000 then Some (0x80000000 OR take_bit (OFFSBOT 2) x, at\<lparr>nT := 0\<rparr>)
       else translate (mem s) 0x10000 x)"
    by (auto simp: numeral_2_eq_2)
  have "take_bit 21 (0x40200008 :: u64) = 8" "take_bit 30 (0x40200008 :: u64) = 0x200008"
    by (simp_all add: take_bit_eq_mask mask_eq_exp_minus_1)
  then have "translate (mem s) 0x10000 0x40200008 = Some (0x80200008, final_attrs prot1)"
    "translate (mem s') 0x10000 0x40200008 = Some (0x80000008, final_attrs prot1)"
    using s'(2) [OF v(2)] L [OF v(2) b(2)] at b by (simp_all add: translate_def leaf_out_def)
  then show ?thesis using s(1) s'(1) by blast
qed

section \<open>Descriptors\<close>

text \<open>
  C11: reading back a written descriptor gives the descriptor exactly when it is well formed for its
  level: the right constructor, an aligned 48-bit address, no \<open>OA\<close> bits, and for tables and pages an
  \<open>nT\<close> that agrees with bit 16 of the address, because the two share that bit of the entry.
\<close>

theorem read_write_desc_iff:
  assumes "l \<le> 3"
  shows "read_desc (write_desc d) l = d \<longleftrightarrow> wf_desc l d"
  using assms by (metis read_write_desc wf_read_desc)

theorem read_write_desc_iff_witness:
  "read_desc (write_desc (Table 1 0x20000 attrs0)) 1 = Table 1 0x20000 attrs0 \<and>
   read_desc (write_desc (Table 1 0x10000 attrs0)) 1 \<noteq> Table 1 0x10000 attrs0"
proof -
  have "wf_desc 1 (Table 1 0x20000 attrs0)" "\<not> wf_desc 1 (Table 1 0x10000 attrs0)"
    by (simp_all add: addr_ok_def IS_ALIGNED_dvd attrs0_def BIT_def)
  then show ?thesis
    using read_write_desc_iff [of 1 "Table 1 0x20000 attrs0"] read_write_desc_iff [of 1 "Table 1 0x10000 attrs0"]
    by (simp del: write_desc.simps wf_desc.simps)
qed

section \<open>Ensuring a level and the entry it gives\<close>

text \<open>
  \<open>vmm_pte\<close> of an unmapped address succeeds when the allocator has the pages for the missing
  tables, changes no translation, and returns the address of the entry that decides the page: writing
  any last-level descriptor there changes the translation of the addresses of that page and of no
  other.
\<close>

theorem vmm_pte_decides_page:
  assumes "vm_inv env r s" "va_ok va" "leaf (mem s) r va = (k0, w0)" "\<not> bit w0 0"
    and "unat (pt_bot s) + 4096 * (3 - k0) \<le> unat (top_of_ptables env)"
  shows "\<exists>p s'. vmm_pte env r va s = Inr (p, s') \<and> vm_inv env r s' \<and>
    (\<forall>x. va_ok x \<longrightarrow> translate (mem s') r x = translate (mem s) r x \<and>
       (\<forall>w. translate ((mem s')(p := w)) r x =
          (if drop_bit 12 x = drop_bit 12 va then leaf_out x (3, w) else translate (mem s) r x)))"
proof -
  obtain s' where s': "vmm_ensure_level env r 3 va s = Inr s'" "vm_inv env r s'"
    and L: "\<And>x. va_ok x \<Longrightarrow> leaf (mem s') r x =
       (if k0 < 3 \<and> blk k0 x = blk k0 va then (shared 3 va x, 0) else leaf (mem s) r x)"
    using ensure_level_unmapped [OF assms(1-4) _ assms(5)] by auto
  have k0: "k0 \<le> 3" using leaf_level [of "mem s" r va] assms(3) by simp
  have "fst (leaf (mem s') r va) = 3"
    using L [OF assms(2)] assms(3) k0 shared_all [of 3 va va] by (cases "k0 = 3") auto
  then obtain t ps w where W: "vmm_translation_walk (mem s') r va = (read_desc w 3, entry_addr t va 3, ps)"
    "tbl (mem s') r va 3 = Some t" "leaf (mem s') r va = (3, w)"
    using walk_leaf [of "mem s'" r va] by (metis fst_conv)
  have T: "tree_ok (mem s') r (pt_bot s')" using s'(2) by (simp add: vm_inv_def)
  have same: "translate (mem s') r x = translate (mem s) r x" if x: "va_ok x" for x
  proof (cases "k0 < 3 \<and> blk k0 x = blk k0 va")
    case True
    then have "leaf (mem s) r x = (k0, w0)" using leaf_blk [OF assms(2) x _ assms(3)] by simp
    then show ?thesis using L [OF x] True assms(4) by (simp add: translate_def leaf_out_unset del: bit_0)
  next
    case False
    then show ?thesis by (simp only: translate_def L [OF x] if_False)
  qed
  have "translate ((mem s')(entry_addr t va 3 := w')) r x =
          (if drop_bit 12 x = drop_bit 12 va then leaf_out x (3, w') else translate (mem s) r x)"
    if x: "va_ok x" for x w'
    using leaf_update [OF T assms(2) W(3,2) read_desc_3 x, of w'] same [OF x]
    by (simp add: translate_def blk_def)
  moreover have "vmm_pte env r va s = Inr (entry_addr t va 3, s')"
    using W(1) by (simp add: vmm_pte_def vmm_pte_at_level_def vmm_desc_at_level_def s'(1) vmm_translation_walk_def)
  ultimately show ?thesis using s'(2) same by blast
qed

theorem vmm_pte_decides_page_witness:
  "\<exists>p s'. vmm_pte vm_env1 0x10000 0x12345678 vm_st1 = Inr (p, s') \<and>
     translate (mem s') 0x10000 0x12345678 = None \<and>
     translate ((mem s')(p := vmm_make_desc 0x7000 prot1 3)) 0x10000 0x12345678 = Some (0x7678, final_attrs prot1) \<and>
     translate ((mem s')(p := vmm_make_desc 0x7000 prot1 3)) 0x10000 0x12346678 = None"
proof -
  have v: "va_ok 0x12345678" "va_ok 0x12346678" and lf: "leaf (mem vm_st1) 0x10000 0x12345678 = (0, 0)"
    and pg: "unat (pt_bot vm_st1) + 4096 * (3 - 0) \<le> unat (top_of_ptables vm_env1)"
    and pa: "addr_ok (OFFSBOT 3) 0x7000"
    by (simp_all add: va_ok_unat vm_st1_def vm_env1_def leaf_zero addr_ok_def IS_ALIGNED_dvd)
  obtain at where at: "read_desc (vmm_make_desc 0x7000 prot1 3) 3 = Block 3 0x7000 at" "at\<lparr>nT := 0\<rparr> = final_attrs prot1"
    using make_desc_read [OF _ _ pa prot1_bit16] by auto
  have t: "take_bit 12 (0x12345678 :: u64) = 0x678"
    by (simp add: take_bit_eq_mask mask_eq_exp_minus_1)
  have lo: "leaf_out 0x12345678 (3, vmm_make_desc 0x7000 prot1 3) = Some (0x7678, final_attrs prot1)"
    using at by (simp add: leaf_out_def t)
  have z: "translate (mem vm_st1) 0x10000 x = None" for x by (simp add: vm_st1_def translate_zero)
  have d: "drop_bit 12 (0x12346678 :: u64) \<noteq> drop_bit 12 0x12345678" by simp
  from vmm_pte_decides_page [OF vm_inv_st1 v(1) lf _ pg] obtain p s' where
    "vmm_pte vm_env1 0x10000 0x12345678 vm_st1 = Inr (p, s')"
    "\<And>x. va_ok x \<Longrightarrow> translate (mem s') 0x10000 x = None"
    "\<And>x w. va_ok x \<Longrightarrow> translate ((mem s')(p := w)) 0x10000 x =
       (if drop_bit 12 x = drop_bit 12 0x12345678 then leaf_out x (3, w) else None)"
    unfolding z by auto
  with v d lo show ?thesis by auto
qed

end
