(* ===== verification/Layout.thy ===== *)
theory Layout
  imports Bits
begin

text \<open>
  The memory layout that \<open>init_device\<close> computes at boot (\<open>lib/arch/device.c\<close>, \<open>inc/device.h\<close>) and the
  address arithmetic of \<open>inc/vmm/vmm_regions.h\<close>: the stacks, the vector tables, the harness's linear
  map of memory and the test data that is spread over a 64G space.
\<close>

section \<open>Sizes\<close>

definition KiB :: u64 where "KiB = 1024"
definition MiB :: u64 where "MiB = 1024 * 1024"
definition GiB :: u64 where "GiB = 1024 * 1024 * 1024"
definition PAGE_SIZE :: u64 where "PAGE_SIZE = 4096"
definition PAGE_SHIFT :: nat where "PAGE_SHIFT = 12"
definition PMD_SHIFT :: nat where "PMD_SHIFT = 21"
definition STACK_SIZE :: u64 where "STACK_SIZE = 2 * MiB"
definition MAX_CPUS :: u64 where "MAX_CPUS = 4"

lemmas size_defs = KiB_def MiB_def GiB_def PAGE_SIZE_def PAGE_SHIFT_def PMD_SHIFT_def STACK_SIZE_def MAX_CPUS_def

section \<open>init_device\<close>

record dtb_mem_t =
  base :: u64
  size :: u64
  top :: u64

text \<open>What comes from outside: the linker's symbols and the identification registers.\<close>

record linker =
  ld_begin_text :: u64
  ld_end_text :: u64
  ld_begin_data :: u64
  ld_end_data :: u64
  ld_end_sections :: u64

record idregs =
  ctr_el0 :: u64
  id_aa64mmfr0_el1 :: u64
  dczid_el0 :: u64

record layout =
  NO_CPUS :: u64
  TOP_OF_MEM :: u64
  BOT_OF_MEM :: u64
  TOTAL_MEM :: u64
  TOTAL_HEAP :: u64
  TOTAL_TABLE_SPACE :: u64
  BOT_OF_HEAP :: u64
  TOP_OF_HEAP :: u64
  BOT_OF_PTABLES :: u64
  TOP_OF_PTABLES :: u64
  BOT_OF_IO :: u64
  TOP_OF_IO :: u64
  TOP_OF_STACK_PA :: u64
  BOT_OF_STACK_PA :: u64
  BOT_OF_DATA :: u64
  TOP_OF_DATA :: u64
  TOP_OF_TEXT :: u64
  BOT_OF_TEXT :: u64
  BOT_OF_TESTDATA :: u64
  TOP_OF_TESTDATA :: u64
  HARNESS_MMAP_BASE :: u64
  TESTDATA_MMAP_BASE :: u64
  cache_line_size :: u64
  cache_line_shift :: nat
  asid_size :: u64
  dc_zero_allow :: bool
  dc_zero_block_width :: u64

definition init_device :: "linker \<Rightarrow> idregs \<Rightarrow> dtb_mem_t \<Rightarrow> dtb_mem_t \<Rightarrow> layout" where
  "init_device ld ids mem_region io_region =
     (let top_mem = top mem_region; bot_mem = base mem_region;
          bot_stack = ALIGN_UP (ld_end_sections ld) PMD_SHIFT;
          top_stack = bot_stack + 2 * MAX_CPUS * STACK_SIZE;
          total_heap = MINu (64 * MiB) ((top_mem - bot_mem) div 8);
          bot_heap = top_stack;
          top_heap = bot_heap + ALIGN_UP total_heap PAGE_SHIFT;
          total_table = MINu (32 * MiB) ((top_mem - bot_mem) div 8);
          bot_pt = top_heap;
          top_pt = bot_pt + ALIGN_UP total_table PAGE_SHIFT;
          dminline = drop_bit 16 (ctr_el0 ids) AND 0xf;
          line = 4 * push_bit (unat dminline) 1
      in \<lparr>NO_CPUS = 4, TOP_OF_MEM = top_mem, BOT_OF_MEM = bot_mem, TOTAL_MEM = size mem_region,
          TOTAL_HEAP = total_heap, TOTAL_TABLE_SPACE = total_table,
          BOT_OF_HEAP = bot_heap, TOP_OF_HEAP = top_heap, BOT_OF_PTABLES = bot_pt, TOP_OF_PTABLES = top_pt,
          BOT_OF_IO = ALIGN_TO (base io_region) PAGE_SHIFT, TOP_OF_IO = ALIGN_UP (top io_region) PAGE_SHIFT,
          TOP_OF_STACK_PA = top_stack, BOT_OF_STACK_PA = bot_stack,
          BOT_OF_DATA = ld_begin_data ld, TOP_OF_DATA = ld_end_data ld,
          TOP_OF_TEXT = ld_end_text ld, BOT_OF_TEXT = ld_begin_text ld,
          BOT_OF_TESTDATA = ALIGN_UP top_pt PMD_SHIFT, TOP_OF_TESTDATA = top_mem,
          HARNESS_MMAP_BASE = 64 * GiB, TESTDATA_MMAP_BASE = 128 * GiB,
          cache_line_size = line, cache_line_shift = log2 line,
          asid_size = (if BIT_SLICE (id_aa64mmfr0_el1 ids) 7 4 = 0 then 8 else 16),
          dc_zero_allow = (drop_bit 4 (dczid_el0 ids) = 0),
          dc_zero_block_width = 4 * push_bit (unat (dczid_el0 ids AND 0xf)) 1\<rparr>)"

section \<open>Stacks and vector tables\<close>

definition STACK_MMAP_BASE :: u64 where "STACK_MMAP_BASE = 16 * GiB"
definition VTABLE_MMAP_BASE :: u64 where "VTABLE_MMAP_BASE = 17 * GiB"

definition STACK_MMAP_THREAD_TOP_EL0 :: "u64 \<Rightarrow> u64" where
  "STACK_MMAP_THREAD_TOP_EL0 cpu = STACK_MMAP_BASE + (1 + cpu) * 2 * STACK_SIZE - STACK_SIZE"
definition STACK_MMAP_THREAD_TOP_EL1 :: "u64 \<Rightarrow> u64" where
  "STACK_MMAP_THREAD_TOP_EL1 cpu = STACK_MMAP_BASE + (1 + cpu) * 2 * STACK_SIZE"
definition STACK_MMAP_THREAD_BOT_EL0 :: "u64 \<Rightarrow> u64" where
  "STACK_MMAP_THREAD_BOT_EL0 cpu = STACK_MMAP_THREAD_TOP_EL0 cpu - STACK_SIZE"
definition STACK_MMAP_THREAD_BOT_EL1 :: "u64 \<Rightarrow> u64" where
  "STACK_MMAP_THREAD_BOT_EL1 cpu = STACK_MMAP_THREAD_TOP_EL1 cpu - STACK_SIZE"

definition STACK_PYS_THREAD_TOP_ELx :: "layout \<Rightarrow> u64 \<Rightarrow> u64 \<Rightarrow> u64" where
  "STACK_PYS_THREAD_TOP_ELx L cpu el = BOT_OF_STACK_PA L + (1 + cpu) * 2 * STACK_SIZE - STACK_SIZE * (1 - el)"
definition STACK_PYS_THREAD_BOT_ELx :: "layout \<Rightarrow> u64 \<Rightarrow> u64 \<Rightarrow> u64" where
  "STACK_PYS_THREAD_BOT_ELx L cpu el = STACK_PYS_THREAD_TOP_ELx L cpu el - STACK_SIZE"

definition IN_STACK_MMAP_SPACE :: "u64 \<Rightarrow> bool" where
  "IN_STACK_MMAP_SPACE va \<longleftrightarrow> STACK_MMAP_BASE \<le> va \<and> va \<le> STACK_MMAP_BASE + 1 * GiB"
definition STACK_MMAP_VA_TO_PA :: "layout \<Rightarrow> u64 \<Rightarrow> u64" where
  "STACK_MMAP_VA_TO_PA L va = va - STACK_MMAP_BASE + BOT_OF_STACK_PA L"
definition STACK_SAFE_PA :: "layout \<Rightarrow> u64 \<Rightarrow> u64" where
  "STACK_SAFE_PA L va = (if \<not> IN_STACK_MMAP_SPACE va then va else STACK_MMAP_VA_TO_PA L va)"

definition THR_VTABLE_PA :: "u64 \<Rightarrow> u64 \<Rightarrow> u64" where
  "THR_VTABLE_PA vector_base_pa t = vector_base_pa + PAGE_SIZE * t"
definition THR_VTABLE_VA :: "bool \<Rightarrow> u64 \<Rightarrow> u64 \<Rightarrow> u64" where
  "THR_VTABLE_VA enable_pgtable vector_base_pa t =
     (if enable_pgtable then VTABLE_MMAP_BASE + PAGE_SIZE * t else THR_VTABLE_PA vector_base_pa t)"

section \<open>Test data\<close>

definition REGION_SHIFT :: nat where "REGION_SHIFT = 2 + PMD_SHIFT"
definition NR_REGIONS :: nat where "NR_REGIONS = 16"
definition TESTDATA_MMAP_SIZE :: u64 where "TESTDATA_MMAP_SIZE = 64 * GiB"
definition TESTDATA_MMAP_SIZE_SHIFT :: nat where "TESTDATA_MMAP_SIZE_SHIFT = 6 + 30"
definition TESTDATA_MMAP_GAP_SHIFT :: nat where "TESTDATA_MMAP_GAP_SHIFT = TESTDATA_MMAP_SIZE_SHIFT - 4"

definition MMAP_8M_RESIDUE :: "u64 \<Rightarrow> u64" where
  "MMAP_8M_RESIDUE p = p AND BITMASK REGION_SHIFT"
definition MMAP_8M_INDEX :: "layout \<Rightarrow> u64 \<Rightarrow> u64" where
  "MMAP_8M_INDEX L p = drop_bit REGION_SHIFT (p - BOT_OF_TESTDATA L)"
definition MMAP_8M_VA_INDEX :: "layout \<Rightarrow> u64 \<Rightarrow> u64" where
  "MMAP_8M_VA_INDEX L v = drop_bit TESTDATA_MMAP_GAP_SHIFT (v - TESTDATA_MMAP_BASE L)"
definition TESTDATA_MMAP_8M_VA_FROM_INDEX :: "layout \<Rightarrow> u64 \<Rightarrow> u64" where
  "TESTDATA_MMAP_8M_VA_FROM_INDEX L idx = TESTDATA_MMAP_BASE L + idx * push_bit TESTDATA_MMAP_GAP_SHIFT 1"
definition TESTDATA_MMAP_8M_PA_FROM_INDEX :: "layout \<Rightarrow> u64 \<Rightarrow> u64" where
  "TESTDATA_MMAP_8M_PA_FROM_INDEX L idx = BOT_OF_TESTDATA L + idx * push_bit REGION_SHIFT 1"

definition TESTDATA_MMAP_PHYS_TO_VIRT :: "layout \<Rightarrow> u64 \<Rightarrow> u64" where
  "TESTDATA_MMAP_PHYS_TO_VIRT L p =
     TESTDATA_MMAP_8M_VA_FROM_INDEX L (MMAP_8M_INDEX L p) + MMAP_8M_RESIDUE (p - BOT_OF_TESTDATA L)"
definition TESTDATA_MMAP_VIRT_TO_PHYS :: "layout \<Rightarrow> u64 \<Rightarrow> u64" where
  "TESTDATA_MMAP_VIRT_TO_PHYS L v =
     TESTDATA_MMAP_8M_PA_FROM_INDEX L (MMAP_8M_VA_INDEX L v) + MMAP_8M_RESIDUE (v - TESTDATA_MMAP_BASE L)"

definition IN_TESTDATA_RANGE :: "layout \<Rightarrow> u64 \<Rightarrow> bool" where
  "IN_TESTDATA_RANGE L va \<longleftrightarrow> TESTDATA_MMAP_BASE L \<le> va \<and> va < TESTDATA_MMAP_BASE L + TESTDATA_MMAP_SIZE"
definition HARNESS_MMAP_PHYS_TO_VIRT :: "layout \<Rightarrow> u64 \<Rightarrow> u64" where
  "HARNESS_MMAP_PHYS_TO_VIRT L p = HARNESS_MMAP_BASE L + (p - BOT_OF_MEM L)"
definition SAFE_TESTDATA_VA :: "layout \<Rightarrow> u64 \<Rightarrow> u64" where
  "SAFE_TESTDATA_VA L va =
     (if \<not> IN_TESTDATA_RANGE L va then HARNESS_MMAP_PHYS_TO_VIRT L va
      else HARNESS_MMAP_PHYS_TO_VIRT L (TESTDATA_MMAP_VIRT_TO_PHYS L va))"
definition SAFE_TESTDATA_PA :: "layout \<Rightarrow> u64 \<Rightarrow> u64" where
  "SAFE_TESTDATA_PA L va = (if \<not> IN_TESTDATA_RANGE L va then va else TESTDATA_MMAP_VIRT_TO_PHYS L va)"

section \<open>Stacks: the two views agree\<close>

text \<open>
  The virtual and the physical stack macros describe the same stacks: translating the bottom and
  the top of a thread's virtual stack, for either exception level, gives the bottom and the top of its
  physical stack, for every layout and thread.
\<close>

theorem stack_views_agree:
  "STACK_MMAP_VA_TO_PA L (STACK_MMAP_THREAD_BOT_EL0 cpu) = STACK_PYS_THREAD_BOT_ELx L cpu 0
   \<and> STACK_MMAP_VA_TO_PA L (STACK_MMAP_THREAD_TOP_EL0 cpu) = STACK_PYS_THREAD_TOP_ELx L cpu 0
   \<and> STACK_MMAP_VA_TO_PA L (STACK_MMAP_THREAD_BOT_EL1 cpu) = STACK_PYS_THREAD_BOT_ELx L cpu 1
   \<and> STACK_MMAP_VA_TO_PA L (STACK_MMAP_THREAD_TOP_EL1 cpu) = STACK_PYS_THREAD_TOP_ELx L cpu 1"
  by (simp add: STACK_MMAP_VA_TO_PA_def STACK_PYS_THREAD_BOT_ELx_def STACK_PYS_THREAD_TOP_ELx_def
      STACK_MMAP_THREAD_BOT_EL0_def STACK_MMAP_THREAD_TOP_EL0_def STACK_MMAP_THREAD_BOT_EL1_def
      STACK_MMAP_THREAD_TOP_EL1_def algebra_simps)

section \<open>Test data: the spread is a bijection\<close>

definition spread :: "u64 \<Rightarrow> u64" where
  "spread d = push_bit 32 (drop_bit 23 d) OR take_bit 23 d"

definition gather :: "u64 \<Rightarrow> u64" where
  "gather e = push_bit 23 (drop_bit 32 e) OR take_bit 23 e"

lemmas testdata_defs = TESTDATA_MMAP_PHYS_TO_VIRT_def TESTDATA_MMAP_VIRT_TO_PHYS_def
  TESTDATA_MMAP_8M_VA_FROM_INDEX_def TESTDATA_MMAP_8M_PA_FROM_INDEX_def MMAP_8M_INDEX_def MMAP_8M_VA_INDEX_def
  MMAP_8M_RESIDUE_def REGION_SHIFT_def PMD_SHIFT_def TESTDATA_MMAP_GAP_SHIFT_def TESTDATA_MMAP_SIZE_SHIFT_def

lemma add_fields: "k \<le> n \<Longrightarrow> push_bit n a + take_bit k b = (push_bit n a OR take_bit k b :: u64)"
  by (rule disjunctive_add_eq_or) (auto intro: bit_eqI simp: bit_simps)

lemma phys_to_virt_spread: "TESTDATA_MMAP_PHYS_TO_VIRT L p = TESTDATA_MMAP_BASE L + spread (p - BOT_OF_TESTDATA L)"
proof -
  have "drop_bit 23 d * push_bit 32 1 + take_bit 23 d = spread d" for d :: u64
    using add_fields [of 23 32 "drop_bit 23 d" d] by (simp add: spread_def push_bit_eq_mult mult.commute)
  then show ?thesis
    by (simp add: testdata_defs BITMASK_mask add.assoc flip: take_bit_eq_mask)
qed

lemma virt_to_phys_gather: "TESTDATA_MMAP_VIRT_TO_PHYS L v = BOT_OF_TESTDATA L + gather (v - TESTDATA_MMAP_BASE L)"
proof -
  have "drop_bit 32 d * push_bit 23 1 + take_bit 23 d = gather d" for d :: u64
    using add_fields [of 23 23 "drop_bit 32 d" d] by (simp add: gather_def push_bit_eq_mult mult.commute)
  then show ?thesis
    by (simp add: testdata_defs BITMASK_mask add.assoc flip: take_bit_eq_mask)
qed

lemma gather_spread: "take_bit 55 d = d \<Longrightarrow> gather (spread d) = d"
proof -
  assume d: "take_bit 55 d = d"
  then have b: "bit d n \<Longrightarrow> n < 55" for n by (metis bit_take_bit_iff)
  show "gather (spread d) = d"
  proof (rule bit_eqI)
    fix n
    show "bit (gather (spread d)) n = bit d n"
      using b [of n] bit_imp_le_length [of d n] by (cases "n < 23") (auto simp: gather_def spread_def bit_simps)
  qed
qed

lemma spread_gather:
  assumes "\<And>n. bit e n \<Longrightarrow> n < 23 \<or> 32 \<le> n"
  shows "spread (gather e) = e"
proof (rule bit_eqI)
  fix n
  show "bit (spread (gather e)) n = bit e n"
    using assms [of n] bit_imp_le_length [of e n]
    by (cases "n < 23"; cases "n < 32") (auto simp: gather_def spread_def bit_simps)
qed

lemma lt_bits: "unat (d :: u64) < 2 ^ n \<Longrightarrow> bit d k \<Longrightarrow> k < n"
proof -
  assume d: "unat d < 2 ^ n" "bit d k"
  then have "take_bit n d = d" by (simp add: word_unat_eq_iff unat_take_bit)
  then show "k < n" using d(2) by (metis bit_take_bit_iff)
qed

lemma bits_lt: "n < 64 \<Longrightarrow> (\<And>k. bit (d :: u64) k \<Longrightarrow> k < n) \<Longrightarrow> unat d < 2 ^ n"
proof -
  assume d: "n < 64" "\<And>k. bit d k \<Longrightarrow> k < n"
  then have "take_bit n d = d" by (intro bit_eqI) (auto simp: bit_simps)
  then have "unat d = unat d mod 2 ^ n" by (metis unat_take_bit)
  then show "unat d < 2 ^ n" by (metis mod_less_divisor zero_less_numeral zero_less_power)
qed

lemma spread_lt: "unat d < 2 ^ 27 \<Longrightarrow> unat (spread d) < 2 ^ 36"
proof (rule bits_lt)
  fix k assume "unat d < 2 ^ 27" "bit (spread d) k"
  then show "k < 36" using lt_bits [of d 27] by (fastforce simp: spread_def bit_simps)
qed simp

text \<open>
  C10: the test data's physical 8M regions and their spread over the 64G space are in bijection: every
  physical address of the sixteen regions has a virtual one in the test range, which translates back
  to it, and the \<open>SAFE_TESTDATA\<close> macros take that virtual address to the physical address and to its
  alias in the harness's linear map.
\<close>

theorem testdata_round_trip:
  assumes "unat (p - BOT_OF_TESTDATA L) < 2 ^ 27" and "TESTDATA_MMAP_BASE L = 128 * GiB"
  shows "TESTDATA_MMAP_VIRT_TO_PHYS L (TESTDATA_MMAP_PHYS_TO_VIRT L p) = p
    \<and> IN_TESTDATA_RANGE L (TESTDATA_MMAP_PHYS_TO_VIRT L p)
    \<and> SAFE_TESTDATA_PA L (TESTDATA_MMAP_PHYS_TO_VIRT L p) = p
    \<and> SAFE_TESTDATA_VA L (TESTDATA_MMAP_PHYS_TO_VIRT L p) = HARNESS_MMAP_PHYS_TO_VIRT L p"
proof -
  let ?d = "p - BOT_OF_TESTDATA L"
  have "take_bit 55 ?d = ?d"
    using assms(1) by (simp add: word_unat_eq_iff unat_take_bit)
  then have rt: "TESTDATA_MMAP_VIRT_TO_PHYS L (TESTDATA_MMAP_PHYS_TO_VIRT L p) = p"
    by (simp add: phys_to_virt_spread virt_to_phys_gather gather_spread)
  have s: "unat (spread ?d) < 2 ^ 36" by (rule spread_lt [OF assms(1)])
  have b: "unat (TESTDATA_MMAP_BASE L) = 137438953472" by (simp add: assms(2) GiB_def)
  then have "unat (TESTDATA_MMAP_PHYS_TO_VIRT L p) = 137438953472 + unat (spread ?d)"
    unfolding phys_to_virt_spread using s by (subst unat_add_no_wrap) simp_all
  moreover have "unat (TESTDATA_MMAP_BASE L + TESTDATA_MMAP_SIZE) = 206158430208"
    by (simp add: assms(2) GiB_def TESTDATA_MMAP_SIZE_def)
  ultimately have "IN_TESTDATA_RANGE L (TESTDATA_MMAP_PHYS_TO_VIRT L p)"
    using s b by (simp add: IN_TESTDATA_RANGE_def word_le_nat_alt word_less_nat_alt)
  then show ?thesis using rt by (simp add: SAFE_TESTDATA_PA_def SAFE_TESTDATA_VA_def)
qed

section \<open>The computed layout\<close>

text \<open>The order and the alignment of the regions that \<open>init_device\<close> places above the image.\<close>

definition layout_order :: "layout \<Rightarrow> bool" where
  "layout_order L \<longleftrightarrow>
     IS_ALIGNED (BOT_OF_STACK_PA L) 21 \<and> IS_ALIGNED (BOT_OF_HEAP L) 12 \<and> IS_ALIGNED (TOP_OF_HEAP L) 12 \<and>
     IS_ALIGNED (TOP_OF_PTABLES L) 12 \<and> IS_ALIGNED (BOT_OF_TESTDATA L) 21 \<and>
     TOP_OF_STACK_PA L = BOT_OF_HEAP L \<and> TOP_OF_HEAP L = BOT_OF_PTABLES L \<and>
     unat (TOP_OF_STACK_PA L) = unat (BOT_OF_STACK_PA L) + 16777216 \<and>
     BOT_OF_HEAP L \<le> TOP_OF_HEAP L \<and> BOT_OF_PTABLES L \<le> TOP_OF_PTABLES L \<and>
     TOP_OF_PTABLES L \<le> BOT_OF_TESTDATA L \<and> BOT_OF_TESTDATA L \<le> TOP_OF_TESTDATA L"

text \<open>
  What the rest of the harness relies on. The regions of memory in the order of the drawing in
  \<open>init_device\<close>, each with its first address and the one after its last; each lies within memory, they do not
  overlap, and each has room for what is put there: two stacks for each of four CPUs, the heap, the
  translation tables and sixteen regions of 8M of test data. The image ends below the stacks, whose 2M block is
  the first one after it. The pages of the devices contain the devices' addresses and nothing of memory.
\<close>

definition mem_regions :: "layout \<Rightarrow> (u64 \<times> u64) list" where
  "mem_regions L =
     [(BOT_OF_TEXT L, TOP_OF_TEXT L), (BOT_OF_DATA L, TOP_OF_DATA L), (BOT_OF_STACK_PA L, TOP_OF_STACK_PA L),
      (BOT_OF_HEAP L, TOP_OF_HEAP L), (BOT_OF_PTABLES L, TOP_OF_PTABLES L), (BOT_OF_TESTDATA L, TOP_OF_TESTDATA L)]"

definition room :: "nat \<Rightarrow> u64 \<Rightarrow> u64 \<Rightarrow> bool" where
  "room n b t \<longleftrightarrow> unat b + n \<le> unat t"

definition next_boundary :: "nat \<Rightarrow> u64 \<Rightarrow> u64 \<Rightarrow> bool" where
  "next_boundary n x y \<longleftrightarrow> IS_ALIGNED y n \<and> x \<le> y \<and> unat y < unat x + 2 ^ n"

definition layout_ok :: "linker \<Rightarrow> dtb_mem_t \<Rightarrow> dtb_mem_t \<Rightarrow> layout \<Rightarrow> bool" where
  "layout_ok ld mem_region io_region L \<longleftrightarrow>
     BOT_OF_MEM L = base mem_region \<and> TOP_OF_MEM L = top mem_region \<and>
     (\<forall>(b, t) \<in> set (mem_regions L). BOT_OF_MEM L \<le> b \<and> b \<le> t \<and> t \<le> TOP_OF_MEM L) \<and>
     sorted_wrt (\<lambda>(b, t) (b', t'). t \<le> b') (mem_regions L) \<and>
     TOP_OF_DATA L \<le> ld_end_sections ld \<and> next_boundary 21 (ld_end_sections ld) (BOT_OF_STACK_PA L) \<and>
     room (4 * 2 * 2097152) (BOT_OF_STACK_PA L) (TOP_OF_STACK_PA L) \<and>
     IS_ALIGNED (BOT_OF_HEAP L) 12 \<and> IS_ALIGNED (TOP_OF_HEAP L) 12 \<and>
     unat (TOTAL_HEAP L) = min 67108864 ((unat (top mem_region) - unat (base mem_region)) div 8) \<and>
     room (unat (TOTAL_HEAP L)) (BOT_OF_HEAP L) (TOP_OF_HEAP L) \<and>
     IS_ALIGNED (BOT_OF_PTABLES L) 12 \<and> IS_ALIGNED (TOP_OF_PTABLES L) 12 \<and>
     unat (TOTAL_TABLE_SPACE L) = min 33554432 ((unat (top mem_region) - unat (base mem_region)) div 8) \<and>
     room (unat (TOTAL_TABLE_SPACE L)) (BOT_OF_PTABLES L) (TOP_OF_PTABLES L) \<and>
     next_boundary 21 (TOP_OF_PTABLES L) (BOT_OF_TESTDATA L) \<and> TOP_OF_TESTDATA L = TOP_OF_MEM L \<and>
     room (16 * 8388608) (BOT_OF_TESTDATA L) (TOP_OF_TESTDATA L) \<and>
     IS_ALIGNED (BOT_OF_IO L) 12 \<and> BOT_OF_IO L \<le> base io_region \<and> unat (base io_region) < unat (BOT_OF_IO L) + 4096 \<and>
     next_boundary 12 (top io_region) (TOP_OF_IO L) \<and>
     (TOP_OF_IO L \<le> BOT_OF_MEM L \<or> TOP_OF_MEM L \<le> BOT_OF_IO L)"

text \<open>
  What is assumed of the image and of the device tree: the linker script's order, an image within memory with
  256M above it, and devices outside of memory, which consists of whole pages.
\<close>

definition platform_ok :: "linker \<Rightarrow> dtb_mem_t \<Rightarrow> dtb_mem_t \<Rightarrow> bool" where
  "platform_ok ld mem_region io_region \<longleftrightarrow>
     base mem_region \<le> ld_begin_text ld \<and> ld_begin_text ld \<le> ld_end_text ld \<and> ld_end_text ld \<le> ld_begin_data ld \<and>
     ld_begin_data ld \<le> ld_end_data ld \<and> ld_end_data ld \<le> ld_end_sections ld \<and>
     unat (ld_end_sections ld) + 2 ^ 28 \<le> unat (top mem_region) \<and> unat (top mem_region) \<le> 2 ^ 48 \<and>
     IS_ALIGNED (base mem_region) 12 \<and> IS_ALIGNED (top mem_region) 12 \<and>
     base io_region \<le> top io_region \<and> unat (top io_region) \<le> 2 ^ 48 \<and>
     (top io_region \<le> base mem_region \<or> top mem_region \<le> base io_region)"

lemma ALIGN_UP_small:
  assumes "unat x \<le> 2 ^ 50" "n \<le> 21"
  shows "IS_ALIGNED (ALIGN_UP x n) n" "unat x \<le> unat (ALIGN_UP x n)" "unat (ALIGN_UP x n) < unat x + 2 ^ n"
proof -
  have "(2::nat) ^ n \<le> 2 ^ 21" using assms(2) by (intro power_increasing) simp_all
  then have "unat x + 2 ^ n \<le> 2 ^ 64" "n < 64" using assms by simp_all
  note ALIGN_UP_least [OF this]
  then show "IS_ALIGNED (ALIGN_UP x n) n" "unat x \<le> unat (ALIGN_UP x n)" "unat (ALIGN_UP x n) < unat x + 2 ^ n"
    by (simp_all add: word_le_nat_alt)
qed

lemma unat_add_small: "unat a \<le> 2 ^ 60 \<Longrightarrow> unat b \<le> 2 ^ 60 \<Longrightarrow> unat (a + b :: u64) = unat a + unat b"
  by (subst unat_add_no_wrap) simp_all

lemma MINu_le: "unat (MINu a b) \<le> unat a"
  by (simp add: MINu_def word_less_nat_alt)

lemma init_device_layout:
  fixes ids :: idregs and io_region :: dtb_mem_t
  assumes "unat (ld_end_sections ld) + 2 ^ 28 \<le> unat (top mem_region)" "unat (top mem_region) \<le> 2 ^ 48"
  defines "L \<equiv> init_device ld ids mem_region io_region"
  shows "layout_order L" "next_boundary 21 (ld_end_sections ld) (BOT_OF_STACK_PA L)"
    "next_boundary 21 (TOP_OF_PTABLES L) (BOT_OF_TESTDATA L)"
    "room (unat (TOTAL_HEAP L)) (BOT_OF_HEAP L) (TOP_OF_HEAP L)"
    "room (unat (TOTAL_TABLE_SPACE L)) (BOT_OF_PTABLES L) (TOP_OF_PTABLES L)"
    "room (16 * 8388608) (BOT_OF_TESTDATA L) (TOP_OF_TESTDATA L)"
proof -
  let ?es = "ld_end_sections ld" and ?L = "L"
  define th where "th = MINu (64 * MiB) ((top mem_region - base mem_region) div 8)"
  define tt where "tt = MINu (32 * MiB) ((top mem_region - base mem_region) div 8)"
  have sz: "unat (64 * MiB) = 67108864" "unat (32 * MiB) = 33554432" "unat (2 * MAX_CPUS * STACK_SIZE) = 16777216"
    by (simp_all add: size_defs)
  have t: "unat th \<le> 67108864" "unat tt \<le> 33554432"
    using MINu_le [of "64 * MiB"] MINu_le [of "32 * MiB"] unfolding th_def tt_def sz by auto
  have es: "unat ?es \<le> 2 ^ 48" using assms by simp
  have L: "BOT_OF_STACK_PA ?L = ALIGN_UP ?es 21" "TOP_OF_STACK_PA ?L = ALIGN_UP ?es 21 + 2 * MAX_CPUS * STACK_SIZE"
    "BOT_OF_HEAP ?L = TOP_OF_STACK_PA ?L" "TOP_OF_HEAP ?L = BOT_OF_HEAP ?L + ALIGN_UP th 12"
    "BOT_OF_PTABLES ?L = TOP_OF_HEAP ?L" "TOP_OF_PTABLES ?L = BOT_OF_PTABLES ?L + ALIGN_UP tt 12"
    "BOT_OF_TESTDATA ?L = ALIGN_UP (TOP_OF_PTABLES ?L) 21" "TOP_OF_TESTDATA ?L = top mem_region"
    by (simp_all add: L_def init_device_def Let_def th_def tt_def PMD_SHIFT_def PAGE_SHIFT_def)
  note a1 = ALIGN_UP_small [of ?es 21, simplified] and a2 = ALIGN_UP_small [of th 12, simplified]
    and a3 = ALIGN_UP_small [of tt 12, simplified]
  have b1: "unat (BOT_OF_STACK_PA ?L) < unat ?es + 2097152" "IS_ALIGNED (BOT_OF_STACK_PA ?L) 21"
    using a1 es by (simp_all add: L)
  have b2: "unat (TOP_OF_STACK_PA ?L) = unat (BOT_OF_STACK_PA ?L) + 16777216"
    using b1(1) es sz(3) unfolding L by (subst unat_add_small) simp_all
  have b3: "unat (TOP_OF_HEAP ?L) = unat (BOT_OF_HEAP ?L) + unat (ALIGN_UP th 12)"
    unfolding L(4) by (rule unat_add_small) (use L(3) b1(1) b2 es a2(3) t in auto)
  have b4: "unat (TOP_OF_PTABLES ?L) = unat (BOT_OF_PTABLES ?L) + unat (ALIGN_UP tt 12)"
    unfolding L(6) by (rule unat_add_small) (use L(3,5) b1(1) b2 b3 es a2(3) a3(3) t in auto)
  have tp: "unat (TOP_OF_PTABLES ?L) \<le> unat ?es + 2 ^ 27"
    using b1(1) b2 b3 b4 a2(3) a3(3) t L(3,5) by simp
  note a4 = ALIGN_UP_small [of "TOP_OF_PTABLES ?L" 21, simplified]
  have b5: "unat (TOP_OF_PTABLES ?L) \<le> unat (BOT_OF_TESTDATA ?L)" "unat (BOT_OF_TESTDATA ?L) \<le> unat (TOP_OF_TESTDATA ?L)"
    "IS_ALIGNED (BOT_OF_TESTDATA ?L) 21"
    using a4 tp es assms(1) unfolding L(7,8) by simp_all
  have "4096 dvd unat (BOT_OF_STACK_PA ?L)"
    using b1(2) dvd_trans [of 4096 "2097152 :: nat"] by (simp add: IS_ALIGNED_dvd)
  then have al: "IS_ALIGNED (BOT_OF_HEAP ?L) 12" "IS_ALIGNED (TOP_OF_HEAP ?L) 12" "IS_ALIGNED (TOP_OF_PTABLES ?L) 12"
    using a2(1) a3(1) t b2 b3 b4 L(3,5) by (simp_all add: IS_ALIGNED_dvd)
  show "layout_order L"
    unfolding layout_order_def using al b1(2) b2 b3 b4 b5 L(3,5) by (simp add: word_le_nat_alt)
  show "next_boundary 21 ?es (BOT_OF_STACK_PA L)"
    using a1 es b1 by (simp add: next_boundary_def L(1) word_le_nat_alt)
  show "next_boundary 21 (TOP_OF_PTABLES L) (BOT_OF_TESTDATA L)"
    using a4 tp es b5 by (simp add: next_boundary_def L(7) word_le_nat_alt)
  have "TOTAL_HEAP L = th" "TOTAL_TABLE_SPACE L = tt" by (simp_all add: L_def init_device_def Let_def th_def tt_def)
  then show "room (unat (TOTAL_HEAP L)) (BOT_OF_HEAP L) (TOP_OF_HEAP L)"
    "room (unat (TOTAL_TABLE_SPACE L)) (BOT_OF_PTABLES L) (TOP_OF_PTABLES L)"
    using a2(2) a3(2) t b3 b4 by (simp_all add: room_def)
  have "unat (BOT_OF_TESTDATA L) < unat (TOP_OF_PTABLES L) + 2097152" using a4 tp es by (simp add: L(7))
  moreover have "unat (TOP_OF_PTABLES L) < unat ?es + 2097152 + 16777216 + 67108864 + 4096 + 33554432 + 4096"
    using b1(1) b2 b3 b4 a2(3) a3(3) t L(3,5) by simp
  ultimately show "room (16 * 8388608) (BOT_OF_TESTDATA L) (TOP_OF_TESTDATA L)"
    using assms(1) by (simp add: room_def L(8))
qed

lemma unat_MINu: "unat (MINu a b) = min (unat a) (unat b)"
  by (simp add: MINu_def word_less_nat_alt min_def)

text \<open>
  C9: on every platform whose image is linked in the order of the linker script and has 256M of memory above it,
  the layout \<open>init_device\<close> computes is right: text, data, stacks, heap, translation tables and test data lie
  within memory in this order and do not overlap, each is aligned as documented and large enough, the stacks
  are on the first 2M boundary after the image, and the pages of the devices hold the devices and no memory.
\<close>

theorem init_device_layout_ok:
  assumes "platform_ok ld mem_region io_region"
  shows "layout_ok ld mem_region io_region (init_device ld ids mem_region io_region)"
proof -
  let ?L = "init_device ld ids mem_region io_region"
  have pf: "unat (ld_end_sections ld) + 2 ^ 28 \<le> unat (top mem_region)" "unat (top mem_region) \<le> 2 ^ 48" "unat (top io_region) \<le> 2 ^ 48"
    using assms by (simp_all add: platform_ok_def)
  note l = init_device_layout [OF pf(1,2), of ids io_region]
  have F: "BOT_OF_MEM ?L = base mem_region" "TOP_OF_MEM ?L = top mem_region" "TOP_OF_TESTDATA ?L = top mem_region"
    "BOT_OF_TEXT ?L = ld_begin_text ld" "TOP_OF_TEXT ?L = ld_end_text ld" "BOT_OF_DATA ?L = ld_begin_data ld" "TOP_OF_DATA ?L = ld_end_data ld"
    "BOT_OF_IO ?L = ALIGN_TO (base io_region) 12" "TOP_OF_IO ?L = ALIGN_UP (top io_region) 12"
    "TOTAL_HEAP ?L = MINu (64 * MiB) ((top mem_region - base mem_region) div 8)"
    "TOTAL_TABLE_SPACE ?L = MINu (32 * MiB) ((top mem_region - base mem_region) div 8)"
    by (simp_all add: init_device_def Let_def PAGE_SHIFT_def)
  have bt: "base mem_region \<le> top mem_region" using assms by (simp add: platform_ok_def word_le_nat_alt)
  then have df: "unat ((top mem_region - base mem_region) div 8) = (unat (top mem_region) - unat (base mem_region)) div 8"
    by (simp add: unat_div unat_sub)
  have tot: "unat (TOTAL_HEAP ?L) = min 67108864 ((unat (top mem_region) - unat (base mem_region)) div 8)"
    "unat (TOTAL_TABLE_SPACE ?L) = min 33554432 ((unat (top mem_region) - unat (base mem_region)) div 8)"
    by (simp_all add: F unat_MINu df MiB_def)
  note up = ALIGN_UP_small [of "top io_region" 12, simplified]
  have iot: "next_boundary 12 (top io_region) (TOP_OF_IO ?L)" using up pf(3) by (simp add: next_boundary_def F word_le_nat_alt)
  have iob: "IS_ALIGNED (BOT_OF_IO ?L) 12" "BOT_OF_IO ?L \<le> base io_region" "unat (base io_region) < unat (BOT_OF_IO ?L) + 4096"
    using ALIGN_TO_aligned [of "base io_region" 12] div_mult_mod_eq [of "unat (base io_region)" 4096]
      mod_less_divisor [of 4096 "unat (base io_region)"]
    by (simp_all add: F word_le_nat_alt unat_ALIGN_TO)
  have apart: "TOP_OF_IO ?L \<le> BOT_OF_MEM ?L \<or> TOP_OF_MEM ?L \<le> BOT_OF_IO ?L"
  proof -
    have al: "4096 dvd unat (base mem_region)" "4096 dvd unat (top mem_region)" "4096 dvd unat (TOP_OF_IO ?L)" "4096 dvd unat (BOT_OF_IO ?L)"
      using assms iot iob by (simp_all add: platform_ok_def next_boundary_def IS_ALIGNED_dvd)
    have gap: "x \<le> y" if "4096 dvd x" "4096 dvd y" "x < y + 4096" for x y :: nat
      using that by (elim dvdE) simp
    consider "unat (top io_region) \<le> unat (base mem_region)" | "unat (top mem_region) \<le> unat (base io_region)"
      using assms by (auto simp: platform_ok_def word_le_nat_alt)
    then show ?thesis
      using gap [OF al(3,1)] gap [OF al(2,4)] iot iob(3) by cases (auto simp: next_boundary_def word_le_nat_alt F(1,2))
  qed
  have order: "BOT_OF_STACK_PA ?L \<le> TOP_OF_STACK_PA ?L" "TOP_OF_STACK_PA ?L = BOT_OF_HEAP ?L" "BOT_OF_HEAP ?L \<le> TOP_OF_HEAP ?L"
      "TOP_OF_HEAP ?L = BOT_OF_PTABLES ?L" "BOT_OF_PTABLES ?L \<le> TOP_OF_PTABLES ?L" "TOP_OF_PTABLES ?L \<le> BOT_OF_TESTDATA ?L"
      "BOT_OF_TESTDATA ?L \<le> TOP_OF_TESTDATA ?L"
    and image: "base mem_region \<le> ld_begin_text ld" "ld_begin_text ld \<le> ld_end_text ld" "ld_end_text ld \<le> ld_begin_data ld"
      "ld_begin_data ld \<le> ld_end_data ld" "ld_end_data ld \<le> ld_end_sections ld" "ld_end_sections ld \<le> BOT_OF_STACK_PA ?L"
    using l(1,2) assms by (auto simp: layout_order_def next_boundary_def platform_ok_def word_le_nat_alt)
  note chain = image order
  have al: "IS_ALIGNED (BOT_OF_HEAP ?L) 12" "IS_ALIGNED (TOP_OF_HEAP ?L) 12" "IS_ALIGNED (BOT_OF_PTABLES ?L) 12" "IS_ALIGNED (TOP_OF_PTABLES ?L) 12"
    using l(1) by (auto simp: layout_order_def)
  have ends: "TOP_OF_DATA ?L \<le> ld_end_sections ld" "TOP_OF_TESTDATA ?L = TOP_OF_MEM ?L" using image(5) by (simp_all add: F)
  show ?thesis
    unfolding layout_ok_def
  proof (intro conjI)
    show "\<forall>(b, t) \<in> set (mem_regions ?L). BOT_OF_MEM ?L \<le> b \<and> b \<le> t \<and> t \<le> TOP_OF_MEM ?L"
      using chain unfolding mem_regions_def word_le_nat_alt F by simp
    show "sorted_wrt (\<lambda>(b, t) (b', t'). t \<le> b') (mem_regions ?L)"
      using chain unfolding mem_regions_def word_le_nat_alt F by simp
    show "room (4 * 2 * 2097152) (BOT_OF_STACK_PA ?L) (TOP_OF_STACK_PA ?L)" using l(1) by (auto simp: room_def layout_order_def)
  qed (fact F(1) F(2) l(2-6) al tot iot iob apart ends)+
qed

text \<open>QEMU's \<open>virt\<close> machine with 1G of memory at \<open>0x40000000\<close>, and an image that ends at \<open>0x40612345\<close>.\<close>

definition qemu_linker :: linker where
  "qemu_linker = \<lparr>ld_begin_text = 0x40080000, ld_end_text = 0x40200000, ld_begin_data = 0x40400000,
     ld_end_data = 0x40600000, ld_end_sections = 0x40612345\<rparr>"

definition qemu_memory :: dtb_mem_t where
  "qemu_memory = \<lparr>base = 0x40000000, size = 0x40000000, top = 0x80000000\<rparr>"

definition qemu_io :: dtb_mem_t where
  "qemu_io = \<lparr>base = 0x9000000, size = 0x1000, top = 0x9001000\<rparr>"

definition qemu_layout :: layout where
  "qemu_layout = init_device qemu_linker
     \<lparr>ctr_el0 = 0x84448004, id_aa64mmfr0_el1 = 0x1124, dczid_el0 = 4\<rparr> qemu_memory qemu_io"

theorem init_device_layout_ok_witness: "layout_ok qemu_linker qemu_memory qemu_io qemu_layout"
  unfolding qemu_layout_def
  by (rule init_device_layout_ok) (simp add: platform_ok_def qemu_linker_def qemu_memory_def qemu_io_def IS_ALIGNED_dvd)

lemma qemu_values:
  "BOT_OF_MEM qemu_layout = 0x40000000" "TOP_OF_MEM qemu_layout = 0x80000000" "TOTAL_MEM qemu_layout = 0x40000000"
  "BOT_OF_STACK_PA qemu_layout = 0x40800000" "TOP_OF_STACK_PA qemu_layout = 0x41800000"
  "BOT_OF_HEAP qemu_layout = 0x41800000" "TOP_OF_HEAP qemu_layout = 0x45800000"
  "BOT_OF_PTABLES qemu_layout = 0x45800000" "TOP_OF_PTABLES qemu_layout = 0x47800000"
  "BOT_OF_TESTDATA qemu_layout = 0x47800000" "TOP_OF_TESTDATA qemu_layout = 0x80000000"
  "BOT_OF_IO qemu_layout = 0x9000000" "TOP_OF_IO qemu_layout = 0x9001000"
  "BOT_OF_TEXT qemu_layout = 0x40080000" "TOP_OF_TEXT qemu_layout = 0x40200000"
  "BOT_OF_DATA qemu_layout = 0x40400000" "TOP_OF_DATA qemu_layout = 0x40600000"
  "HARNESS_MMAP_BASE qemu_layout = 0x1000000000" "TESTDATA_MMAP_BASE qemu_layout = 0x2000000000"
  by (simp_all add: qemu_layout_def init_device_def qemu_linker_def qemu_memory_def qemu_io_def Let_def size_defs ALIGN_UP_def ALIGN_TO_def MINu_def)

theorem testdata_round_trip_witness:
  "TESTDATA_MMAP_PHYS_TO_VIRT qemu_layout 0x48000010 = 0x2100000010
   \<and> TESTDATA_MMAP_VIRT_TO_PHYS qemu_layout 0x2100000010 = 0x48000010
   \<and> SAFE_TESTDATA_VA qemu_layout 0x2100000010 = 0x1008000010"
proof -
  have p: "TESTDATA_MMAP_PHYS_TO_VIRT qemu_layout 0x48000010 = 0x2100000010"
    by (simp add: testdata_defs qemu_values BITMASK_def)
  show ?thesis
    using testdata_round_trip [of "0x48000010" qemu_layout] unfolding p
    by (simp add: qemu_values p GiB_def HARNESS_MMAP_PHYS_TO_VIRT_def)
qed

end
