(* ===== verification/VmmTables.thy ===== *)
theory VmmTables
  imports VmmProps Layout
begin

text \<open>
  The harness's and the tests' translation tables (\<open>lib/arch/vmm/vmm_pgtable.c\<close>), the control of
  \<open>TTBR0\<close> (\<open>inc/vmm/vmm_va_macros.h\<close>) and the table walker with its two callbacks
  (\<open>lib/arch/vmm/vmm_show.c\<close>). The region arrays of the source are lists of their set entries in the
  order of the tags, which is the order the code visits them in.
\<close>

section \<open>Region maps\<close>

definition region :: "u64 \<Rightarrow> u64 \<Rightarrow> u64 \<Rightarrow> u64 \<Rightarrow> u64 \<Rightarrow> VMRegion" where
  "region lo hi mattr prt pa =
     \<lparr>valid = True, va_start = lo, va_end = hi, memattr = mattr, prot = prt, pa_start = pa\<rparr>"

definition shared_regions :: "layout \<Rightarrow> VMRegion list" where
  "shared_regions L =
     [region (BOT_OF_IO L) (TOP_OF_IO L) PROT_MEMTYPE_DEVICE PROT_RW_RW 0,
      region (BOT_OF_TEXT L) (TOP_OF_TEXT L) PROT_MEMTYPE_NORMAL PROT_RX_RX 0,
      region (BOT_OF_DATA L) (TOP_OF_DATA L) PROT_MEMTYPE_NORMAL PROT_RW_RWX 0,
      region (BOT_OF_STACK_PA L) (TOP_OF_STACK_PA L) PROT_MEMTYPE_NORMAL PROT_RW_RWX 0,
      region (BOT_OF_HEAP L) (TOP_OF_HEAP L) PROT_MEMTYPE_NORMAL PROT_RW_RWX 0,
      region (BOT_OF_PTABLES L) (TOP_OF_PTABLES L) PROT_MEMTYPE_NORMAL PROT_RW_RWX 0]"

definition testdata_regions :: "layout \<Rightarrow> VMRegion list" where
  "testdata_regions L = [region (BOT_OF_TESTDATA L) (TOP_OF_TESTDATA L) PROT_MEMTYPE_NORMAL PROT_RW_RWX 0]"

definition test_regions :: "layout \<Rightarrow> u64 \<Rightarrow> VMRegion list" where
  "test_regions L vector_base_pa =
     [region STACK_MMAP_BASE (STACK_MMAP_BASE + 1 * GiB) PROT_MEMTYPE_NORMAL PROT_RW_RW (BOT_OF_STACK_PA L),
      region VTABLE_MMAP_BASE (VTABLE_MMAP_BASE + 4 * NO_CPUS L * KiB) PROT_MEMTYPE_NORMAL PROT_RW_RW vector_base_pa]"

definition thread_regions :: "layout \<Rightarrow> bool \<Rightarrow> u64 \<Rightarrow> u64 \<Rightarrow> VMRegion list" where
  "thread_regions L enable_pgtable vector_base_pa cpu =
     (let vtable_bot = THR_VTABLE_VA enable_pgtable vector_base_pa cpu;
          vtable_top = THR_VTABLE_VA enable_pgtable vector_base_pa cpu + PAGE_SIZE;
          vtable_pa = THR_VTABLE_PA vector_base_pa cpu
      in [region (STACK_MMAP_THREAD_BOT_EL0 cpu) (STACK_MMAP_THREAD_TOP_EL0 cpu)
            PROT_MEMTYPE_NORMAL PROT_RW_RW (STACK_PYS_THREAD_BOT_ELx L cpu 0),
          region (STACK_MMAP_THREAD_BOT_EL1 cpu) (STACK_MMAP_THREAD_TOP_EL1 cpu)
            PROT_MEMTYPE_NORMAL PROT_RW_U (STACK_PYS_THREAD_BOT_ELx L cpu 1),
          region vtable_bot vtable_top PROT_MEMTYPE_NORMAL PROT_RW_RW vtable_pa])"

definition harness_regions :: "layout \<Rightarrow> VMRegion list" where
  "harness_regions L =
     [region (HARNESS_MMAP_BASE L) (HARNESS_MMAP_BASE L + TOTAL_MEM L) PROT_MEMTYPE_NORMAL PROT_RW_RWX (BOT_OF_MEM L)]"

definition vm_alloc_base_map :: "vm_env \<Rightarrow> layout \<Rightarrow> vm_st \<Rightarrow> vmm_err + u64 \<times> vm_st" where
  "vm_alloc_base_map env L s =
     rbind (zalloc_ptable env s) (\<lambda>(root, s).
     rbind (update_table_from_vmregion_map env root (shared_regions L) s) (\<lambda>s.
     rbind (update_table_from_vmregion_map env root (testdata_regions L) s) (\<lambda>s. Inr (root, s))))"

definition vmm_alloc_table ::
  "vm_env \<Rightarrow> layout \<Rightarrow> bool \<Rightarrow> u64 \<Rightarrow> u64 \<Rightarrow> bool \<Rightarrow> vm_st \<Rightarrow> vmm_err + u64 \<times> vm_st" where
  "vmm_alloc_table env L enable_pgtable vector_base_pa cpu is_test s =
     rbind (vm_alloc_base_map env L s) (\<lambda>(root, s).
     rbind (if is_test
            then update_table_from_vmregion_map env root (test_regions L vector_base_pa) s
            else update_table_from_vmregion_map env root (thread_regions L enable_pgtable vector_base_pa cpu) s) (\<lambda>s.
     rbind (update_table_from_vmregion_map env root (harness_regions L) s) (\<lambda>s. Inr (root, s))))"

definition vmm_alloc_new_4k_pgtable ::
  "vm_env \<Rightarrow> layout \<Rightarrow> bool \<Rightarrow> u64 \<Rightarrow> u64 \<Rightarrow> vm_st \<Rightarrow> vmm_err + u64 \<times> vm_st" where
  "vmm_alloc_new_4k_pgtable env L enable_pgtable vector_base_pa cpu s =
     vmm_alloc_table env L enable_pgtable vector_base_pa cpu False s"

definition vmm_alloc_new_test_pgtable ::
  "vm_env \<Rightarrow> layout \<Rightarrow> bool \<Rightarrow> u64 \<Rightarrow> u64 \<Rightarrow> vm_st \<Rightarrow> vmm_err + u64 \<times> vm_st" where
  "vmm_alloc_new_test_pgtable env L enable_pgtable vector_base_pa cpu s =
     vmm_alloc_table env L enable_pgtable vector_base_pa cpu True s"

text \<open>All the regions of a table, in the order they are mapped.\<close>

definition table_regions :: "layout \<Rightarrow> bool \<Rightarrow> u64 \<Rightarrow> u64 \<Rightarrow> bool \<Rightarrow> VMRegion list" where
  "table_regions L enable_pgtable vector_base_pa cpu is_test =
     shared_regions L @ testdata_regions L @
     (if is_test then test_regions L vector_base_pa else thread_regions L enable_pgtable vector_base_pa cpu) @
     harness_regions L"

section \<open>What the tables translate\<close>

lemma update_table_append:
  "update_table_from_vmregion_map env r (gs @ hs) s =
     rbind (update_table_from_vmregion_map env r gs s) (update_table_from_vmregion_map env r hs)"
  by (cases "update_table_from_vmregion_map env r gs s")
    (simp_all add: update_table_from_vmregion_map_def rfold_append Let_def)

lemma alloc_table_regions:
  "vmm_alloc_table env L en vb cpu is_test s =
     rbind (zalloc_ptable env s) (\<lambda>(root, s).
     rbind (update_table_from_vmregion_map env root (table_regions L en vb cpu is_test) s) (\<lambda>s. Inr (root, s)))"
proof (cases "zalloc_ptable env s")
  case (Inr x)
  obtain root s1 where x: "x = (root, s1)" by (cases x)
  let ?u = "update_table_from_vmregion_map env root"
  show ?thesis
    by (cases "?u (shared_regions L) s1")
      (auto simp: vmm_alloc_table_def vm_alloc_base_map_def table_regions_def Inr x update_table_append rbind_assoc
        intro!: arg_cong2 [where f = rbind])
qed (simp add: vmm_alloc_table_def vm_alloc_base_map_def)

text \<open>A fresh page of zeros is the root of an empty tree.\<close>

lemma zero_page_root:
  assumes "\<And>a. unat pg \<le> unat a \<Longrightarrow> unat a < unat pg + 4096 \<Longrightarrow> m a = 0" and "IS_ALIGNED pg 12" and va: "va_ok va"
  shows "tbl m pg va l = (if l = 0 then Some pg else None)" and "leaf m pg va = (0, 0)"
proof -
  have e: "m (entry_addr pg va 0) = 0"
    using entry_addr_bounds [OF assms(2) va, of 0] by (intro assms(1))
  then have "tbl m pg va (Suc 0) = None" by (simp add: tbl_Suc unset_read_desc)
  then show "tbl m pg va l = (if l = 0 then Some pg else None)"
    using tbl_None_mono [of m pg va "Suc 0" l] by (cases l) auto
  show "leaf m pg va = (0, 0)"
    unfolding is_leaf_leaf [symmetric] using e by (simp add: is_leaf_def ent_def unset_read_desc)
qed

lemma zalloc_root:
  assumes "zalloc_ptable env s = Inr (root, s')" "unat (top_of_ptables env) \<le> 2 ^ 48" "IS_ALIGNED (pt_bot s) 12"
  shows "vm_inv env root s'" "va_ok va \<Longrightarrow> leaf (mem s') root va = (0, 0)"
    "unat (pt_bot s') = unat (pt_bot s) + 4096" "root = pt_bot s"
proof -
  note Z = zalloc_ptable_spec [OF assms]
  note R = zero_page_root [OF Z(7) Z(4)]
  show "va_ok va \<Longrightarrow> leaf (mem s') root va = (0, 0)" by (rule R) auto
  show "unat (pt_bot s') = unat (pt_bot s) + 4096" "root = pt_bot s" using Z by auto
  have t: "tbl (mem s') root va l = (if l = 0 then Some root else None)" if "va_ok va" for va l
    by (rule R) (use that in auto)
  have "tree_ok (mem s') root (pt_bot s')"
    using t Z(2,4) unfolding tree_ok_def by (auto split: if_splits)
  then show "vm_inv env root s'"
    using Z assms(2) by (simp add: vm_inv_def)
qed

lemma fresh_root: "(\<And>x. va_ok x \<Longrightarrow> leaf m r x = (0, 0)) \<Longrightarrow> fresh m r lo hi"
  by (simp add: fresh_def)

text \<open>
  C7: building a harness or a test table. If the regions of the table are page aligned and separated and
  the page-table space is large enough, \<open>__vmm_alloc_table\<close> returns a fresh root whose translation is
  exactly that of the regions: addresses of a region go to their offset in it, all others fault.
\<close>

theorem alloc_table_correct:
  assumes "unat (top_of_ptables env) \<le> 2 ^ 48" "IS_ALIGNED (pt_bot s) 12"
    and "\<And>g. g \<in> set (table_regions L en vb cpu is_test) \<Longrightarrow> region_ok g"
    and "separated (table_regions L en vb cpu is_test)"
    and "unat (pt_bot s) + 4096 * (1 + regions_pages (table_regions L en vb cpu is_test)) \<le> unat (top_of_ptables env)"
  shows "\<exists>s'. vmm_alloc_table env L en vb cpu is_test s = Inr (pt_bot s, s') \<and> vm_inv env (pt_bot s) s' \<and>
    (\<forall>x. va_ok x \<longrightarrow> translate (mem s') (pt_bot s) x =
       map_option (\<lambda>g. (region_pa g + (x - va_start g), final_attrs (memattr g OR prot g)))
         (find (in_region x) (table_regions L en vb cpu is_test)))"
proof -
  let ?gs = "table_regions L en vb cpu is_test"
  have "pt_bot s < top_of_ptables env" using assms(5) by (simp add: word_less_nat_alt)
  then obtain root s1 where z: "zalloc_ptable env s = Inr (root, s1)"
    by (simp add: zalloc_cases not_le [symmetric])
  note Z = zalloc_root [OF z assms(1,2)]
  have ex: "\<exists>s'. update_table_from_vmregion_map env root ?gs s1 = Inr s' \<and> vm_inv env root s' \<and>
    (\<forall>x. va_ok x \<longrightarrow> translate (mem s') root x =
       (case find (in_region x) ?gs of
          Some g \<Rightarrow> Some (region_pa g + (x - va_start g), final_attrs (memattr g OR prot g))
        | None \<Rightarrow> translate (mem s1) root x))"
  proof (rule update_table_regions)
    show "region_ok g \<and> region_fresh (mem s1) root g" if "g \<in> set ?gs" for g
      using assms(3) that Z(2) by (auto simp: region_fresh_def intro: fresh_root)
  qed (use Z assms(4,5) in simp_all)
  have none: "translate (mem s1) root x = None" if "va_ok x" for x
    using Z(2) [OF that] by (simp add: translate_def leaf_out_unset)
  from ex obtain s' where u: "update_table_from_vmregion_map env root ?gs s1 = Inr s'" "vm_inv env root s'"
    and tr: "\<And>x. va_ok x \<Longrightarrow> translate (mem s') root x =
       (case find (in_region x) ?gs of
          Some g \<Rightarrow> Some (region_pa g + (x - va_start g), final_attrs (memattr g OR prot g))
        | None \<Rightarrow> translate (mem s1) root x)" by blast
  have "vmm_alloc_table env L en vb cpu is_test s = Inr (root, s')"
    unfolding alloc_table_regions z using u(1) by simp
  moreover have "translate (mem s') root x =
       map_option (\<lambda>g. (region_pa g + (x - va_start g), final_attrs (memattr g OR prot g))) (find (in_region x) ?gs)"
    if "va_ok x" for x
    using tr [OF that] none [OF that] by (cases "find (in_region x) ?gs") simp_all
  ultimately show ?thesis using u(2) Z(4) by blast
qed

lemma qemu_table:
  defines "gs \<equiv> table_regions qemu_layout True 0x40100000 1 True"
  shows "g \<in> set gs \<Longrightarrow> region_ok g" and "separated gs" and "regions_pages gs \<le> 5000"
proof -
  note defs = gs_def table_regions_def shared_regions_def testdata_regions_def test_regions_def harness_regions_def
    region_def qemu_values STACK_MMAP_BASE_def VTABLE_MMAP_BASE_def GiB_def KiB_def
  have no: "NO_CPUS qemu_layout = 4" by (simp add: qemu_layout_def init_device_def Let_def)
  show "g \<in> set gs \<Longrightarrow> region_ok g"
    by (auto simp: defs no region_ok_def region_pa_def IS_ALIGNED_dvd PROT_MEMTYPE_NORMAL_def PROT_MEMTYPE_DEVICE_def
        PROT_RW_RWX_def PROT_RW_RW_def PROT_RX_RX_def prot_bit16 attrs0_def)
  show "separated gs" by (simp add: defs no)
  show "regions_pages gs \<le> 5000" by (simp add: defs no regions_pages_def region_pages_def pages_for_def)
qed

text \<open>The instance is QEMU's layout: a stack address, an address of the harness map and a hole.\<close>

theorem alloc_table_correct_witness:
  "\<exists>s'. vmm_alloc_table \<lparr>top_of_ptables = TOP_OF_PTABLES qemu_layout, repeat_tlbi = False, isb_after_pte_st = False\<rparr>
     qemu_layout True 0x40100000 1 True \<lparr>mem = \<lambda>_. 0, pt_bot = BOT_OF_PTABLES qemu_layout, trace = []\<rparr> = Inr (0x45800000, s') \<and>
   translate (mem s') 0x45800000 0x400001008 = Some (0x40801008, final_attrs (PROT_MEMTYPE_NORMAL OR PROT_RW_RW)) \<and>
   translate (mem s') 0x45800000 0x1000123456 = Some (0x40123456, final_attrs (PROT_MEMTYPE_NORMAL OR PROT_RW_RWX)) \<and>
   translate (mem s') 0x45800000 0x40080000 = Some (0x40080000, final_attrs (PROT_MEMTYPE_NORMAL OR PROT_RX_RX)) \<and>
   translate (mem s') 0x45800000 0x2000000000 = None"
proof -
  let ?env = "\<lparr>top_of_ptables = TOP_OF_PTABLES qemu_layout, repeat_tlbi = False, isb_after_pte_st = False\<rparr>"
  let ?s = "\<lparr>mem = \<lambda>_. 0, pt_bot = BOT_OF_PTABLES qemu_layout, trace = []\<rparr> :: vm_st"
  have pre: "unat (top_of_ptables ?env) \<le> 2 ^ 48" "IS_ALIGNED (pt_bot ?s) 12"
    by (simp_all add: qemu_values IS_ALIGNED_dvd)
  have pg: "unat (pt_bot ?s) + 4096 * (1 + regions_pages (table_regions qemu_layout True 0x40100000 1 True))
      \<le> unat (top_of_ptables ?env)"
    using qemu_table(3) by (simp add: qemu_values)
  obtain s' where s': "vmm_alloc_table ?env qemu_layout True 0x40100000 1 True ?s = Inr (pt_bot ?s, s')"
    "\<And>x. va_ok x \<Longrightarrow> translate (mem s') (pt_bot ?s) x =
       map_option (\<lambda>g. (region_pa g + (x - va_start g), final_attrs (memattr g OR prot g)))
         (find (in_region x) (table_regions qemu_layout True 0x40100000 1 True))"
    using alloc_table_correct [OF pre qemu_table(1,2) pg] by blast
  have v: "va_ok 0x400001008" "va_ok 0x1000123456" "va_ok 0x40080000" "va_ok 0x2000000000"
    by (simp_all add: va_ok_unat)
  have no: "NO_CPUS qemu_layout = 4" by (simp add: qemu_layout_def init_device_def Let_def)
  show ?thesis
    using s'(1) s'(2) [OF v(1)] s'(2) [OF v(2)] s'(2) [OF v(3)] s'(2) [OF v(4)]
    by (simp add: qemu_values no table_regions_def shared_regions_def testdata_regions_def test_regions_def
        harness_regions_def region_def STACK_MMAP_BASE_def VTABLE_MMAP_BASE_def GiB_def KiB_def in_region_def region_pa_def)
qed

end
