(* ===== verification/Cpu.thy ===== *)
theory Cpu
  imports VmmTables
begin

text \<open>
  The state of one CPU that the harness drives by hand: identification registers and errata
  (\<open>lib/arch/feat.c\<close>, \<open>lib/arch/cpu_errata.c\<close>), the MMU switch and the stacks
  (\<open>lib/arch/vmm/vmm_mmu_control.c\<close>, \<open>lib/arch/vmm/vmm_stack.c\<close>), the translation base register
  (\<open>lib/arch/vmm/vmm_pgtable.c\<close>, \<open>inc/vmm/vmm_va_macros.h\<close>) and cache maintenance
  (\<open>lib/arch/caches.c\<close>).
\<close>

section \<open>Features and errata\<close>

datatype arm_feature = FEAT_SVE | FEAT_SPE | FEAT_RAS | FEAT_PMUv3 | FEAT_TRBE | FEAT_LSE

record id_regs =
  ISAR0 :: u64
  DFR0 :: u64
  PFR0 :: u64
  MIDR :: u64

fun arch_feature_version :: "id_regs \<Rightarrow> arm_feature \<Rightarrow> u8" where
  "arch_feature_version r FEAT_SVE = ucast (BIT_SLICE (PFR0 r) 35 32)"
| "arch_feature_version r FEAT_SPE = ucast (BIT_SLICE (DFR0 r) 35 32)"
| "arch_feature_version r FEAT_RAS = ucast (BIT_SLICE (PFR0 r) 31 28)"
| "arch_feature_version r FEAT_PMUv3 = ucast (BIT_SLICE (DFR0 r) 11 8)"
| "arch_feature_version r FEAT_TRBE = ucast (BIT_SLICE (DFR0 r) 7 4)"
| "arch_feature_version r FEAT_LSE = ucast (BIT_SLICE (ISAR0 r) 23 20)"

definition arch_read_feature_matrix :: "id_regs \<Rightarrow> arm_feature \<Rightarrow> u8" where
  "arch_read_feature_matrix r = arch_feature_version r"

definition arch_has_feature :: "id_regs \<Rightarrow> arm_feature \<Rightarrow> bool" where
  "arch_has_feature r f \<longleftrightarrow> arch_feature_version r f > 0"

record arm_implementation =
  implementor :: u8
  part :: u64
  variant :: u64
  revision :: u64

definition arch_read_implementation :: "id_regs \<Rightarrow> arm_implementation" where
  "arch_read_implementation r =
     \<lparr>implementor = ucast (BIT_SLICE (MIDR r) 31 24), part = BIT_SLICE (MIDR r) 15 4,
      variant = BIT_SLICE (MIDR r) 23 20, revision = BIT_SLICE (MIDR r) 3 0\<rparr>"

definition arch_implementation_eq :: "arm_implementation \<Rightarrow> arm_implementation \<Rightarrow> bool" where
  "arch_implementation_eq lhs rhs \<longleftrightarrow>
     implementor lhs = implementor rhs \<and> part lhs = part rhs \<and> revision lhs = revision rhs \<and> variant lhs = variant rhs"

record arm_implementation_range =
  rng_implementor :: u8
  rng_part :: u64
  min_variant :: u64
  min_revision :: u64
  max_variant :: u64
  max_revision :: u64

definition impl_in_range :: "arm_implementation \<Rightarrow> arm_implementation_range \<Rightarrow> bool" where
  "impl_in_range impl rng =
     (if implementor impl \<noteq> rng_implementor rng then False
      else if part impl \<noteq> rng_part rng then False
      else (min_revision rng \<le> revision impl \<and> revision impl \<le> max_revision rng) \<and>
           (min_variant rng \<le> variant impl \<and> variant impl \<le> max_variant rng))"

definition matches_a76_r0p0_3 :: "arm_implementation \<Rightarrow> bool" where
  "matches_a76_r0p0_3 impl = impl_in_range impl
     \<lparr>rng_implementor = 0x41, rng_part = 0xD0B, min_variant = 0, min_revision = 0, max_variant = 0, max_revision = 3\<rparr>"

definition matches_a72_r0p0_3_or_r1p0 :: "arm_implementation \<Rightarrow> bool" where
  "matches_a72_r0p0_3_or_r1p0 impl \<longleftrightarrow>
     impl_in_range impl
       \<lparr>rng_implementor = 0x41, rng_part = 0xD08, min_variant = 0, min_revision = 0, max_variant = 0, max_revision = 3\<rparr> \<or>
     impl_in_range impl
       \<lparr>rng_implementor = 0x41, rng_part = 0xD08, min_variant = 1, min_revision = 0, max_variant = 1, max_revision = 0\<rparr>"

datatype errata = ERRATA_WORKAROUND_REPEAT_TLBI | ERRATA_WORKAROUND_ISB_AFTER_PTE_ST

definition workarounds :: "(errata \<times> (arm_implementation \<Rightarrow> bool)) list" where
  "workarounds =
     [(ERRATA_WORKAROUND_REPEAT_TLBI, matches_a76_r0p0_3),
      (ERRATA_WORKAROUND_ISB_AFTER_PTE_ST, matches_a72_r0p0_3_or_r1p0)]"

definition initialise_errata_workarounds :: "id_regs \<Rightarrow> (errata \<Rightarrow> bool) \<Rightarrow> errata \<Rightarrow> bool" where
  "initialise_errata_workarounds r need =
     fold (\<lambda>(label, matcher) need.
       if matcher (arch_read_implementation r) then need(label := True) else need) workarounds need"

lemma ucast_slice_eq:
  assumes "hi < 64" "hi - lo < 8" "unat c < 256"
  shows "(ucast (BIT_SLICE x hi lo) :: u8) = ucast c \<longleftrightarrow> BIT_SLICE x hi lo = (c :: u64)"
proof -
  have "take_bit 8 (BIT_SLICE x hi lo) = BIT_SLICE x hi lo"
    using assms(2) by (simp add: BIT_SLICE_take_bit)
  moreover have "take_bit 8 c = c"
    using assms(3) by (simp add: word_unat_eq_iff unat_take_bit)
  moreover have "(ucast a :: u8) = ucast b \<longleftrightarrow> take_bit 8 a = take_bit 8 b" for a b :: u64
  proof -
    have u: "unat (ucast w :: u8) = unat (take_bit 8 w)" for w :: u64
      by (simp add: unsigned_ucast_eq unsigned_take_bit_eq)
    show ?thesis by (simp only: word_unat_eq_iff u)
  qed
  ultimately show ?thesis by simp
qed

text \<open>
  Which CPUs get a workaround, read off the main ID register: repeated TLB invalidation exactly on a
  Cortex-A76 r0p0 to r0p3, and the extra \<open>ISB\<close> exactly on a Cortex-A72 r0p0 to r0p3 or r1p0.
\<close>

theorem errata_workarounds_needed:
  "initialise_errata_workarounds r (\<lambda>_. False) e \<longleftrightarrow>
     BIT_SLICE (MIDR r) 31 24 = 0x41 \<and>
     (case e of
        ERRATA_WORKAROUND_REPEAT_TLBI \<Rightarrow>
          BIT_SLICE (MIDR r) 15 4 = 0xD0B \<and> BIT_SLICE (MIDR r) 23 20 = 0 \<and> BIT_SLICE (MIDR r) 3 0 \<le> 3
      | ERRATA_WORKAROUND_ISB_AFTER_PTE_ST \<Rightarrow>
          BIT_SLICE (MIDR r) 15 4 = 0xD08 \<and>
          (BIT_SLICE (MIDR r) 23 20 = 0 \<and> BIT_SLICE (MIDR r) 3 0 \<le> 3
           \<or> BIT_SLICE (MIDR r) 23 20 = 1 \<and> BIT_SLICE (MIDR r) 3 0 = 0))"
proof -
  have i: "(ucast (BIT_SLICE (MIDR r) 31 24) :: u8) = 0x41 \<longleftrightarrow> BIT_SLICE (MIDR r) 31 24 = 0x41"
    using ucast_slice_eq [of 31 24 "0x41" "MIDR r"] by simp
  have "a \<le> b \<and> b \<le> a \<longleftrightarrow> b = a" for a b :: u64 by auto
  then show ?thesis
    by (cases e) (auto simp: initialise_errata_workarounds_def workarounds_def matches_a76_r0p0_3_def
        matches_a72_r0p0_3_or_r1p0_def impl_in_range_def arch_read_implementation_def i)
qed

section \<open>The MMU, the stacks and the translation base\<close>

text \<open>
  The registers of one CPU and its \<open>thread_info\<close> flags, with the barriers and register writes in the
  order they are made.
\<close>

datatype sys_event = SDsb | SIsb | WriteSctlr u64 | WriteTtbr0 u64 | WriteTcr u64 | WriteMair u64

record cpu_st =
  cpu_no :: u64
  sp :: u64
  sctlr :: u64
  ttbr0 :: u64
  tcr :: u64
  mair :: u64
  mmu_enabled :: bool
  locking_enabled :: bool
  sys_trace :: "sys_event list"

definition semit :: "sys_event list \<Rightarrow> cpu_st \<Rightarrow> cpu_st" where
  "semit es c = c\<lparr>sys_trace := sys_trace c @ es\<rparr>"

definition switch_to_vm_stack :: "layout \<Rightarrow> cpu_st \<Rightarrow> cpu_st" where
  "switch_to_vm_stack L c =
     c\<lparr>sp := sp c - STACK_PYS_THREAD_BOT_ELx L (cpu_no c) 0 + STACK_MMAP_THREAD_BOT_EL0 (cpu_no c)\<rparr>"

definition switch_to_pys_stack :: "layout \<Rightarrow> cpu_st \<Rightarrow> cpu_st" where
  "switch_to_pys_stack L c =
     c\<lparr>sp := sp c - STACK_MMAP_THREAD_BOT_EL0 (cpu_no c) + STACK_PYS_THREAD_BOT_ELx L (cpu_no c) 0\<rparr>"

definition is_using_vm_stack :: "cpu_st \<Rightarrow> bool" where
  "is_using_vm_stack c \<longleftrightarrow>
     STACK_MMAP_THREAD_BOT_EL0 (cpu_no c) \<le> sp c \<and> sp c < STACK_MMAP_THREAD_TOP_EL0 (cpu_no c)"

definition set_sctlr :: "u64 \<Rightarrow> cpu_st \<Rightarrow> cpu_st" where
  "set_sctlr v c = semit [WriteSctlr v, SDsb, SIsb] (c\<lparr>sctlr := v\<rparr>)"

definition vmm_mmu_off :: "layout \<Rightarrow> cpu_st \<Rightarrow> cpu_st" where
  "vmm_mmu_off L c =
     (let c = switch_to_pys_stack L c; c = set_sctlr (sctlr c AND NOT 1) c
      in c\<lparr>mmu_enabled := False, locking_enabled := False\<rparr>)"

definition vmm_mmu_on :: "layout \<Rightarrow> cpu_st \<Rightarrow> cpu_st" where
  "vmm_mmu_on L c =
     (let c = set_sctlr (sctlr c OR 1) c
      in switch_to_vm_stack L (c\<lparr>mmu_enabled := True, locking_enabled := True\<rparr>))"

definition TTBR0_BADDR_MASK :: u64 where
  "TTBR0_BADDR_MASK = BITMASK 48 AND NOT (BITMASK 5)"

definition MK_TTBR :: "u64 \<Rightarrow> u64 \<Rightarrow> u64" where
  "MK_TTBR pgtable asid = (pgtable AND TTBR0_BADDR_MASK) OR push_bit 48 asid"

definition switch_table :: "vm_env \<Rightarrow> u64 \<Rightarrow> u64 \<Rightarrow> cpu_st \<Rightarrow> cpu_st" where
  "switch_table env new_table asid c =
     (let c = semit [SDsb] c;
          c = (if isb_after_pte_st env then semit [SIsb] c else c);
          v = MK_TTBR new_table asid
      in semit [WriteTtbr0 v, SIsb] (c\<lparr>ttbr0 := v\<rparr>))"

definition vmm_switch_ttable :: "vm_env \<Rightarrow> u64 \<Rightarrow> cpu_st \<Rightarrow> cpu_st" where
  "vmm_switch_ttable env new_table c = switch_table env new_table 0 c"

definition vmm_switch_asid :: "vm_env \<Rightarrow> u64 \<Rightarrow> cpu_st \<Rightarrow> cpu_st" where
  "vmm_switch_asid env asid c = switch_table env (ttbr0 c AND TTBR0_BADDR_MASK) asid c"

definition vmm_switch_ttable_asid :: "vm_env \<Rightarrow> u64 \<Rightarrow> u64 \<Rightarrow> cpu_st \<Rightarrow> cpu_st" where
  "vmm_switch_ttable_asid env new_table asid c = switch_table env new_table asid c"

definition set_new_ttable :: "layout \<Rightarrow> u64 \<Rightarrow> u64 \<Rightarrow> u64 \<Rightarrow> cpu_st \<Rightarrow> string + cpu_st" where
  "set_new_ttable L ttbr tc ma c =
     (if sctlr c AND 1 = 1 then Inl ''set_new_ttable:  MMU already on!''
      else let c = semit [WriteTtbr0 ttbr, WriteTcr tc, WriteMair ma, SDsb, SIsb]
                     (c\<lparr>ttbr0 := ttbr, tcr := tc, mair := ma\<rparr>)
           in Inr (vmm_mmu_on L c))"

definition vmm_set_id_translation :: "layout \<Rightarrow> u64 \<Rightarrow> cpu_st \<Rightarrow> string + cpu_st" where
  "vmm_set_id_translation L pgtable c =
     (if pgtable = 0 then Inr (vmm_mmu_off L c)
      else let ttbr = MK_TTBR pgtable 0;
               tc = push_bit 39 0 OR push_bit 37 1 OR push_bit 32 5 OR push_bit 14 0 OR push_bit 12 3 OR
                    push_bit 10 1 OR push_bit 8 1 OR push_bit 0 16;
               ma = push_bit (0 * 8) 0x00 OR push_bit (1 * 8) 0x0c OR push_bit (2 * 8) 0x44 OR push_bit (3 * 8) 0xff
           in set_new_ttable L ttbr tc ma c)"

definition vmm_ensure_in_harness_pgtable_ctx :: "vm_env \<Rightarrow> layout \<Rightarrow> (u64 \<Rightarrow> u64) \<Rightarrow> cpu_st \<Rightarrow> cpu_st" where
  "vmm_ensure_in_harness_pgtable_ctx env L vmm_pgtables c =
     (let c = vmm_switch_ttable env (vmm_pgtables (cpu_no c)) c;
          c = set_sctlr (sctlr c OR 1) c;
          c = c\<lparr>mmu_enabled := True, locking_enabled := True\<rparr>
      in if \<not> is_using_vm_stack c then switch_to_vm_stack L c else c)"

text \<open>
  C14: switching the ASID keeps the table: the base address of the new \<open>TTBR0\<close> is that of the old one and
  its top sixteen bits are the new ASID, and switching the table and the ASID together installs both,
  for any page-aligned table below \<open>2^48\<close> and any 16-bit ASID.
\<close>

theorem switch_asid_keeps_table:
  assumes "IS_ALIGNED t 12" "unat t < 2 ^ 48" "unat asid < 2 ^ 16"
  shows "ttbr0 (vmm_switch_asid env asid (vmm_switch_ttable_asid env t old c)) = MK_TTBR t asid
    \<and> MK_TTBR t asid AND TTBR0_BADDR_MASK = t \<and> drop_bit 48 (MK_TTBR t asid) = asid"
proof -
  have t: "bit t n \<Longrightarrow> 12 \<le> n \<and> n < 48" for n
  proof -
    have "addr_ok 12 t" using assms(1,2) va_ok_unat [of t] by (simp add: addr_ok_def va_ok_def)
    then show "bit t n \<Longrightarrow> 12 \<le> n \<and> n < 48" by (simp add: addr_ok_bit)
  qed
  have M: "bit TTBR0_BADDR_MASK n \<longleftrightarrow> 5 \<le> n \<and> n < 48" for n
    by (auto simp: TTBR0_BADDR_MASK_def BITMASK_mask bit_simps)
  have base: "(MK_TTBR t a) AND TTBR0_BADDR_MASK = t" for a
  proof (rule bit_eqI)
    fix n
    show "bit (MK_TTBR t a AND TTBR0_BADDR_MASK) n = bit t n"
      using t [of n] M [of n] by (auto simp: MK_TTBR_def bit_simps)
  qed
  have asid: "drop_bit 48 (MK_TTBR t asid) = asid"
  proof (rule bit_eqI)
    fix n
    show "bit (drop_bit 48 (MK_TTBR t asid)) n = bit asid n"
      using t [of "48 + n"] lt_bits [OF assms(3), of n] by (auto simp: MK_TTBR_def bit_simps)
  qed
  have "ttbr0 (vmm_switch_asid env asid (vmm_switch_ttable_asid env t old c)) = MK_TTBR t asid"
    by (simp add: vmm_switch_asid_def vmm_switch_ttable_asid_def switch_table_def Let_def semit_def base)
  then show ?thesis using base asid by blast
qed

theorem switch_asid_keeps_table_witness:
  "drop_bit 48 (MK_TTBR 0x45800000 7) = 7 \<and> MK_TTBR 0x45800000 7 AND TTBR0_BADDR_MASK = 0x45800000"
  using switch_asid_keeps_table [of "0x45800000" 7] by (simp add: IS_ALIGNED_dvd)

text \<open>
  Turning the MMU off and on again gives back the stack pointer and the system control register:
  the moves between the virtual and the physical view of the stack are inverse to each other.
\<close>

theorem mmu_off_on:
  assumes "sctlr c AND 1 = 1"
  shows "sp (vmm_mmu_on L (vmm_mmu_off L c)) = sp c \<and> sctlr (vmm_mmu_on L (vmm_mmu_off L c)) = sctlr c
    \<and> mmu_enabled (vmm_mmu_on L (vmm_mmu_off L c)) \<and> locking_enabled (vmm_mmu_on L (vmm_mmu_off L c))"
proof -
  have "(sctlr c AND NOT 1) OR 1 = sctlr c"
  proof (rule bit_eqI)
    fix n
    have "bit (sctlr c) 0" using assms by (metis and.right_neutral bit_1_0 bit_and_iff)
    then show "bit ((sctlr c AND NOT 1) OR 1) n = bit (sctlr c) n"
      using bit_imp_le_length [of "sctlr c" n] by (cases n) (auto simp: bit_simps bit_1_iff)
  qed
  then show ?thesis
    by (simp add: vmm_mmu_on_def vmm_mmu_off_def set_sctlr_def semit_def switch_to_vm_stack_def
        switch_to_pys_stack_def Let_def)
qed

definition cpu1 :: cpu_st where
  "cpu1 = \<lparr>cpu_no = 1, sp = 0x400600000, sctlr = 0x30d0198d, ttbr0 = 0, tcr = 0, mair = 0,
     mmu_enabled = True, locking_enabled = True, sys_trace = []\<rparr>"

theorem mmu_off_on_witness:
  "sp (vmm_mmu_on qemu_layout (vmm_mmu_off qemu_layout cpu1)) = 0x400600000
   \<and> sp (vmm_mmu_off qemu_layout cpu1) = 0x40e00000"
  using mmu_off_on [of cpu1 qemu_layout]
  by (simp add: cpu1_def vmm_mmu_off_def switch_to_pys_stack_def set_sctlr_def semit_def Let_def qemu_values
      STACK_MMAP_THREAD_BOT_EL0_def STACK_MMAP_THREAD_TOP_EL0_def STACK_MMAP_BASE_def STACK_PYS_THREAD_BOT_ELx_def
      STACK_PYS_THREAD_TOP_ELx_def size_defs)

section \<open>Cache maintenance\<close>

text \<open>
  The addresses \<open>flush_data_cache\<close> cleans, in order. The number is fuel: one more than the lines of the
  range extended by a line.
\<close>

fun flush_loop :: "nat \<Rightarrow> u64 \<Rightarrow> u64 \<Rightarrow> u64 \<Rightarrow> u64 list option" where
  "flush_loop 0 line va lim = (if va < lim then None else Some [])"
| "flush_loop (Suc n) line va lim =
     (if va < lim then map_option ((#) va) (flush_loop n line (va + line) lim) else Some [])"

definition flush_data_cache :: "layout \<Rightarrow> u64 \<Rightarrow> u64 \<Rightarrow> u64 list option" where
  "flush_data_cache L start_addr end_addr =
     (let line = cache_line_size L; lim = end_addr + line
      in flush_loop (unat (lim - start_addr) div unat line + 1) line start_addr lim)"

lemma flush_loop_covers:
  assumes "0 < unat line" "unat lim + unat line < 2 ^ 64" "unat lim - unat va \<le> n * unat line"
  shows "\<exists>vs. flush_loop n line va lim = Some vs \<and>
    (\<forall>a :: u64. unat va \<le> unat a \<and> unat a < unat lim \<longrightarrow> (\<exists>v \<in> set vs. unat v \<le> unat a \<and> unat a < unat v + unat line))"
  using assms(3)
proof (induction n arbitrary: va)
  case 0
  then show ?case by (auto simp: word_less_nat_alt)
next
  case (Suc n)
  show ?case
  proof (cases "va < lim")
    case True
    have "unat va + unat line < 2 ^ LENGTH(64)" using True assms(2) by (simp add: word_less_nat_alt)
    then have u: "unat (va + line) = unat va + unat line" by (rule unat_add_no_wrap)
    with Suc.prems have "unat lim - unat (va + line) \<le> n * unat line" by simp
    from Suc.IH [OF this] obtain vs where vs: "flush_loop n line (va + line) lim = Some vs"
      and c: "\<forall>a :: u64. unat va + unat line \<le> unat a \<and> unat a < unat lim \<longrightarrow>
        (\<exists>v \<in> set vs. unat v \<le> unat a \<and> unat a < unat v + unat line)"
      unfolding u by blast
    have "\<exists>v \<in> set (va # vs). unat v \<le> unat a \<and> unat a < unat v + unat line"
      if "unat va \<le> unat a" "unat a < unat lim" for a :: u64
      using c that by (cases "unat a < unat va + unat line") auto
    then show ?thesis using True vs by auto
  qed (auto simp: word_less_nat_alt)
qed

text \<open>
  C15: \<open>flush_data_cache\<close> ends and cleans, for every byte of the range, an address of the byte's cache line,
  for a power-of-two line and any start, aligned or not: the extra line it appends to the range is what
  makes the last line of an unaligned range covered.
\<close>

theorem flush_data_cache_covers:
  assumes "cache_line_size L = push_bit k 1" "k < 20" "start_addr \<le> end_addr" "unat end_addr < 2 ^ 60"
  shows "\<exists>vs. flush_data_cache L start_addr end_addr = Some vs \<and>
    (\<forall>a. start_addr \<le> a \<and> a < end_addr \<longrightarrow> (\<exists>v \<in> set vs. drop_bit k v = drop_bit k a))"
proof -
  let ?l = "cache_line_size L"
  have l: "unat ?l = 2 ^ k" unfolding assms(1) by (rule unat_push_bit_one) (use assms(2) in simp)
  have l20: "(2::nat) ^ k \<le> 2 ^ 20" using assms(2) by (intro power_increasing) simp_all
  have lim: "unat (end_addr + ?l) = unat end_addr + 2 ^ k"
    unfolding l [symmetric] by (rule unat_add_no_wrap) (use l l20 assms(4) in simp)
  have d: "unat (end_addr + ?l - start_addr) = unat end_addr + 2 ^ k - unat start_addr"
    unfolding lim [symmetric] by (rule unat_sub_no_wrap) (use assms(3) lim in \<open>simp add: word_le_nat_alt\<close>)
  have pos: "(0::nat) < 2 ^ k" by simp
  have "unat (end_addr + ?l) - unat start_addr \<le> (unat (end_addr + ?l - start_addr) div unat ?l + 1) * unat ?l"
    using div_bounds [OF pos, of "unat end_addr + 2 ^ k - unat start_addr"] unfolding d l lim by (simp add: algebra_simps)
  moreover have "0 < unat ?l" "unat (end_addr + ?l) + unat ?l < 2 ^ 64"
    using l l20 assms(4) lim by simp_all
  ultimately have "\<exists>vs. flush_data_cache L start_addr end_addr = Some vs \<and>
    (\<forall>a :: u64. unat start_addr \<le> unat a \<and> unat a < unat (end_addr + ?l) \<longrightarrow>
      (\<exists>v \<in> set vs. unat v \<le> unat a \<and> unat a < unat v + unat ?l))"
    unfolding flush_data_cache_def Let_def by (intro flush_loop_covers)
  then obtain vs where
    vs: "flush_data_cache L start_addr end_addr = Some vs"
    and c: "\<And>a :: u64. unat start_addr \<le> unat a \<Longrightarrow> unat a < unat end_addr + 2 ^ k \<Longrightarrow>
      \<exists>v \<in> set vs. unat v \<le> unat a \<and> unat a < unat v + 2 ^ k"
    unfolding lim l by blast
  have "\<exists>v \<in> set vs. drop_bit k v = drop_bit k a" if a: "start_addr \<le> a" "a < end_addr" for a
  proof -
    define b where "b = unat a div 2 ^ k * 2 ^ k"
    have b: "b \<le> unat a" "unat a < b + 2 ^ k" using div_bounds [OF pos, of "unat a"] by (simp_all add: b_def)
    have a': "unat start_addr \<le> unat a" "unat a < unat end_addr"
      using a by (simp_all add: word_le_nat_alt word_less_nat_alt)
    define w :: u64 where "w = of_nat (b + (2 ^ k - 1))"
    have w: "unat w = b + (2 ^ k - 1)"
      unfolding w_def unat_of_nat using b a' l20 assms(4) pos by simp
    obtain v where v: "v \<in> set vs" "unat v \<le> unat w" "unat w < unat v + 2 ^ k"
      using c [of w] w b a' pos by fastforce
    have "b \<le> unat v" "unat v < b + 2 ^ k" using v(2,3) w pos by linarith+
    then have "unat v div 2 ^ k = unat a div 2 ^ k"
      using div_interval [OF pos, of b "unat v"] by (simp add: b_def)
    then show ?thesis using v(1) by (metis unat_drop_bit word_unat_eq_iff)
  qed
  then show ?thesis using vs by blast
qed

theorem flush_data_cache_covers_witness:
  "flush_data_cache (qemu_layout\<lparr>cache_line_size := 64\<rparr>) 0x1010 0x1090 = Some [0x1010, 0x1050, 0x1090] \<and>
   (\<exists>v \<in> set [0x1010, 0x1050, 0x1090 :: u64]. drop_bit 6 v = drop_bit 6 0x108f)"
proof -
  have "flush_data_cache (qemu_layout\<lparr>cache_line_size := 64\<rparr>) 0x1010 0x1090 = Some [0x1010, 0x1050, 0x1090]"
    by code_simp
  moreover have "cache_line_size (qemu_layout\<lparr>cache_line_size := 64\<rparr>) = push_bit 6 1" by simp
  moreover have "unat (0x1090 :: u64) < 2 ^ 60" "(0x1010 :: u64) \<le> 0x1090" "(0x1010 :: u64) \<le> 0x108f"
    "(0x108f :: u64) < 0x1090" "(6 :: nat) < 20" by simp_all
  ultimately show ?thesis
    using flush_data_cache_covers [of "qemu_layout\<lparr>cache_line_size := 64\<rparr>" 6 "0x1010" "0x1090"]
    by (metis option.inject)
qed

end
