(* ===== verification/CpuBoot.thy ===== *)
theory CpuBoot
  imports Cpu
begin

text \<open>
  Starting the CPUs and running functions on them (\<open>lib/arch/cpu_boot.c\<close>, the last part of
  \<open>per_cpu_setup\<close> and \<open>ensure_cpus_on\<close> of \<open>lib/setup.c\<close>): CPU 0 boots the others, then runs a list of
  jobs, each through \<open>run_on_cpu\<close> or \<open>run_on_cpus\<close>; the others are in \<open>secondary_idle_loop\<close>. Each access
  of the shared \<open>cpu_data\<close> is a step, and \<open>wfe\<close> sleeps until the CPU's event register is set, which
  \<open>sev\<close> does on every CPU and \<open>sevl\<close> on its own. The boot call (\<open>psci_cpu_on\<close>, \<open>spin_cpu_on\<close>) lets the
  CPU start in \<open>per_cpu_setup\<close>; the functions run are one step each. Of \<open>per_cpu_setup\<close> the identification
  of the CPU is here, which \<open>check_homogenous_threads\<close> compares, and the end, where the CPU says it has started.

  The accesses of one CPU take effect in the order of the program, but for one reordering: \<open>run_on_cpu_async\<close> has
  a \<open>dsb\<close> between its last store and \<open>sev\<close>, while \<open>per_cpu_setup\<close> and \<open>secondary_idle_loop\<close> have none, so
  that the event may be sent before their store of \<open>started\<close> or \<open>finished\<close> is seen by others. The step relation
  has a parameter: with \<open>True\<close> there is a \<open>dsb\<close> at these places, with \<open>False\<close> there is none, as in the code. The other
  reorderings that the architecture allows where the code has no barrier (in \<open>secondary_idle_loop\<close>, the read of \<open>arg\<close>
  before that of \<open>to_execute\<close>, and the store of \<open>finished\<close> before that of \<open>to_execute\<close>) are not modelled, nor is a \<open>wfe\<close>
  that ends without an event.
\<close>

section \<open>The state\<close>

record cpu_data_t =
  to_execute :: u64
  fn_arg :: u64
  started :: u64
  finished :: u32

text \<open>The six loops that wait: in \<open>cpu_boot\<close>, \<open>ensure_cpus_on\<close>, \<open>run_on_cpus\<close>, \<open>run_on_cpu_async\<close>, at the
  end of \<open>run_on_cpus\<close>, and in \<open>run_on_cpu\<close>. \<open>Wait\<close> is at the test of the loop and \<open>Wfe\<close> in its body.\<close>

datatype wait = BootW | AllW | StartW | AsyncW | FinW | OneW

datatype main_pc =
  Boot nat | Wait wait nat | Wfe wait nat | Check nat | NextJob | Loop nat | Fin0 nat | Arg nat | Exe nat | Kick nat
  | CallF | SetFin | MSev | MSevl | Failed nat

text \<open>At \<open>SStartLate\<close> and \<open>SFinLate\<close> the event was sent and the store is still to be seen.\<close>

datatype sec_pc = SImpl | SInit | SStart | SStartLate | SBootSev | SIdle | SWfe | STake | SClr u64 | SCall u64 | SFin | SFinLate | SSev

text \<open>\<open>boot_data.kind\<close>, as read from the device tree or anything else.\<close>

datatype boot_kind_t = BOOT_KIND_PSCI | BOOT_KIND_SPIN | BOOT_KIND_UNKNOWN

datatype job = On nat u64 u64 | OnAll u64 u64

text \<open>\<open>hw\<close> is what each CPU's identification register says and \<open>impls\<close> the array \<open>thread_infos\<close>'s field.\<close>

record smp_t =
  boot_kind :: boot_kind_t
  hw :: "nat \<Rightarrow> arm_implementation"
  impls :: "nat \<Rightarrow> arm_implementation"
  cdata :: "nat \<Rightarrow> cpu_data_t"
  event :: "nat \<Rightarrow> bool"
  power :: "nat \<Rightarrow> bool"
  main_at :: main_pc
  sec_at :: "nat \<Rightarrow> sec_pc"
  jobs :: "job list"
  all_cpus :: bool
  cur_fn :: u64
  cur_arg :: u64
  calls :: "nat \<Rightarrow> (u64 \<times> u64) list"

definition upd_cpu :: "nat \<Rightarrow> (cpu_data_t \<Rightarrow> cpu_data_t) \<Rightarrow> smp_t \<Rightarrow> smp_t" where
  "upd_cpu i f s = s\<lparr>cdata := (cdata s)(i := f (cdata s i))\<rparr>"

definition main_goto :: "main_pc \<Rightarrow> smp_t \<Rightarrow> smp_t" where "main_goto p s = s\<lparr>main_at := p\<rparr>"

definition sec_goto :: "nat \<Rightarrow> sec_pc \<Rightarrow> smp_t \<Rightarrow> smp_t" where "sec_goto k p s = s\<lparr>sec_at := (sec_at s)(k := p)\<rparr>"

definition sev :: "smp_t \<Rightarrow> smp_t" where "sev s = s\<lparr>event := \<lambda>_. True\<rparr>"

definition sevl :: "nat \<Rightarrow> smp_t \<Rightarrow> smp_t" where "sevl k s = s\<lparr>event := (event s)(k := True)\<rparr>"

definition run_fn :: "nat \<Rightarrow> u64 \<Rightarrow> u64 \<Rightarrow> smp_t \<Rightarrow> smp_t" where
  "run_fn k f a s = s\<lparr>calls := (calls s)(k := calls s k @ [(f, a)])\<rparr>"

section \<open>The steps of CPU 0\<close>

definition wait_done :: "wait \<Rightarrow> cpu_data_t \<Rightarrow> bool" where
  "wait_done w d = (case w of FinW \<Rightarrow> finished d \<noteq> 0 | OneW \<Rightarrow> finished d \<noteq> 0 | _ \<Rightarrow> started d \<noteq> 0)"

definition after_wait :: "wait \<Rightarrow> nat \<Rightarrow> main_pc" where
  "after_wait w i =
     (case w of
        BootW \<Rightarrow> Boot (Suc i)
      | AllW \<Rightarrow> if Suc i < 4 then Wait AllW (Suc i) else Check 0
      | StartW \<Rightarrow> if Suc i < 4 then Wait StartW (Suc i) else Loop 0
      | AsyncW \<Rightarrow> Fin0 i
      | FinW \<Rightarrow> if Suc i < 4 then Wait FinW (Suc i) else NextJob
      | OneW \<Rightarrow> NextJob)"

definition start_job :: "job \<Rightarrow> smp_t \<Rightarrow> smp_t" where
  "start_job j s =
     (case j of
        On c f a \<Rightarrow> main_goto (if c = 0 then CallF else Wait AsyncW c) (s\<lparr>all_cpus := False, cur_fn := f, cur_arg := a\<rparr>)
      | OnAll f a \<Rightarrow>
          main_goto (if IN_STACK_MMAP_SPACE a then Failed 4 else Wait StartW 0) (s\<lparr>all_cpus := True, cur_fn := f, cur_arg := a\<rparr>))"

fun main_step :: "main_pc \<Rightarrow> smp_t \<Rightarrow> smp_t option" where
  "main_step (Boot i) s =
     Some (if i < 4 then
             (if boot_kind s = BOOT_KIND_PSCI \<or> boot_kind s = BOOT_KIND_SPIN
              then main_goto (Wait BootW i) (s\<lparr>power := (power s)(i := True)\<rparr>) else main_goto (Failed i) s)
           else main_goto (Wait AllW 0) s)"
| "main_step (Wait w i) s = Some (main_goto (if wait_done w (cdata s i) then after_wait w i else Wfe w i) s)"
| "main_step (Wfe w i) s = (if event s 0 then Some (main_goto (Wait w i) (s\<lparr>event := (event s)(0 := False)\<rparr>)) else None)"
| "main_step (Check i) s =
     Some (main_goto (if i < 4 then (if arch_implementation_eq (impls s i) (impls s 0) then Check (Suc i) else Failed 4) else NextJob) s)"
| "main_step NextJob s = (case jobs s of [] \<Rightarrow> None | j # js \<Rightarrow> Some (start_job j (s\<lparr>jobs := js\<rparr>)))"
| "main_step (Loop i) s =
     Some (main_goto (if i < 4 then if i \<noteq> 0 then Wait AsyncW i else Loop (Suc i) else CallF) s)"
| "main_step (Fin0 i) s = Some (main_goto (Arg i) (upd_cpu i (\<lambda>d. d\<lparr>finished := 0\<rparr>) s))"
| "main_step (Arg i) s = Some (main_goto (Exe i) (upd_cpu i (\<lambda>d. d\<lparr>fn_arg := cur_arg s\<rparr>) s))"
| "main_step (Exe i) s = Some (main_goto (Kick i) (upd_cpu i (\<lambda>d. d\<lparr>to_execute := cur_fn s\<rparr>) s))"
| "main_step (Kick i) s = Some (main_goto (if all_cpus s then Loop (Suc i) else Wait OneW i) (sev s))"
| "main_step CallF s = Some (main_goto (if all_cpus s then SetFin else NextJob) (run_fn 0 (cur_fn s) (cur_arg s) s))"
| "main_step SetFin s = Some (main_goto MSev (upd_cpu 0 (\<lambda>d. d\<lparr>finished := 1\<rparr>) s))"
| "main_step MSev s = Some (main_goto MSevl (sev s))"
| "main_step MSevl s = Some (main_goto (Wait FinW 0) (sevl 0 s))"
| "main_step (Failed i) s = None"

section \<open>The steps of the other CPUs\<close>

fun sec_step :: "nat \<Rightarrow> sec_pc \<Rightarrow> smp_t \<Rightarrow> smp_t option" where
  "sec_step k SImpl s = Some (sec_goto k SInit (s\<lparr>impls := (impls s)(k := hw s k)\<rparr>))"
| "sec_step k SInit s = Some (sec_goto k SStart (upd_cpu k (\<lambda>d. d\<lparr>to_execute := 0\<rparr>) s))"
| "sec_step k SStart s = Some (sec_goto k SBootSev (upd_cpu k (\<lambda>d. d\<lparr>started := 1\<rparr>) s))"
| "sec_step k SBootSev s = Some (sec_goto k SIdle (sev s))"
| "sec_step k SIdle s = Some (sec_goto k (if to_execute (cdata s k) \<noteq> 0 then STake else SWfe) s)"
| "sec_step k SWfe s = (if event s k then Some (sec_goto k SIdle (s\<lparr>event := (event s)(k := False)\<rparr>)) else None)"
| "sec_step k STake s = Some (sec_goto k (SClr (to_execute (cdata s k))) s)"
| "sec_step k (SClr f) s = Some (sec_goto k (SCall f) (upd_cpu k (\<lambda>d. d\<lparr>to_execute := 0\<rparr>) s))"
| "sec_step k (SCall f) s = Some (sec_goto k SFin (run_fn k f (fn_arg (cdata s k)) s))"
| "sec_step k SFin s = Some (sec_goto k SSev (upd_cpu k (\<lambda>d. d\<lparr>finished := 1\<rparr>) s))"
| "sec_step k SSev s = Some (sec_goto k SIdle (sev s))"
| "sec_step k SStartLate s = Some (sec_goto k SIdle (upd_cpu k (\<lambda>d. d\<lparr>started := 1\<rparr>) s))"
| "sec_step k SFinLate s = Some (sec_goto k SIdle (upd_cpu k (\<lambda>d. d\<lparr>finished := 1\<rparr>) s))"

text \<open>Without a \<open>dsb\<close> the event may be sent first.\<close>

fun sec_late :: "nat \<Rightarrow> sec_pc \<Rightarrow> smp_t \<Rightarrow> smp_t option" where
  "sec_late k SStart s = Some (sec_goto k SStartLate (sev s))"
| "sec_late k SFin s = Some (sec_goto k SFinLate (sev s))"
| "sec_late k p s = None"

inductive smp_step :: "bool \<Rightarrow> smp_t \<Rightarrow> smp_t \<Rightarrow> bool" for dsb where
  main: "main_step (main_at s) s = Some s' \<Longrightarrow> smp_step dsb s s'"
| sec: "0 < k \<Longrightarrow> k < 4 \<Longrightarrow> power s k \<Longrightarrow> sec_step k (sec_at s k) s = Some s' \<Longrightarrow> smp_step dsb s s'"
| late: "\<not> dsb \<Longrightarrow> 0 < k \<Longrightarrow> k < 4 \<Longrightarrow> power s k \<Longrightarrow> sec_late k (sec_at s k) s = Some s' \<Longrightarrow> smp_step dsb s s'"

text \<open>After \<open>cpu_data_init\<close> and \<open>per_cpu_setup(0)\<close>, at the first boot.\<close>

definition cpu_data_init :: "cpu_data_t \<Rightarrow> cpu_data_t" where
  "cpu_data_init d = d\<lparr>started := 0, to_execute := 0\<rparr>"

definition smp_init ::
  "boot_kind_t \<Rightarrow> (nat \<Rightarrow> arm_implementation) \<Rightarrow> (nat \<Rightarrow> arm_implementation) \<Rightarrow> (nat \<Rightarrow> cpu_data_t) \<Rightarrow> job list \<Rightarrow> smp_t" where
  "smp_init kind hw0 im d js = sev (upd_cpu 0 (\<lambda>d. d\<lparr>to_execute := 0, started := 1\<rparr>)
     \<lparr>boot_kind = kind, hw = hw0, impls = im(0 := hw0 0),
      cdata = \<lambda>i. cpu_data_init (d i), event = \<lambda>_. False, power = \<lambda>_. False, main_at = Boot 1, sec_at = \<lambda>_. SImpl,
      jobs = js, all_cpus = False, cur_fn = 0, cur_arg = 0, calls = \<lambda>_. []\<rparr>)"

text \<open>The calls of a CPU that a list of jobs asks for.\<close>

fun for_cpu :: "nat \<Rightarrow> job \<Rightarrow> (u64 \<times> u64) list" where
  "for_cpu k (On c f a) = (if c = k then [(f, a)] else [])"
| "for_cpu k (OnAll f a) = [(f, a)]"

fun job_ok :: "job \<Rightarrow> bool" where
  "job_ok (On c f a) = (c < 4 \<and> f \<noteq> 0)"
| "job_ok (OnAll f a) = (f \<noteq> 0 \<and> \<not> IN_STACK_MMAP_SPACE a)"

section \<open>Every run ends\<close>

fun main_weight :: "main_pc \<Rightarrow> nat" where
  "main_weight (Boot i) = 30 + (4 - i) * 10"
| "main_weight (Wait w i) = (case w of BootW \<Rightarrow> 38 + (3 - i) * 10 | AllW \<Rightarrow> 9 + (4 - i) * 4 | StartW \<Rightarrow> 288 + (4 - i) * 4
     | AsyncW \<Rightarrow> 103 + (3 - i) * 60 | FinW \<Rightarrow> 3 + (4 - i) * 4 | OneW \<Rightarrow> 3)"
| "main_weight (Wfe w i) = (case w of BootW \<Rightarrow> 35 + (3 - i) * 10 | AllW \<Rightarrow> 6 + (4 - i) * 4 | StartW \<Rightarrow> 285 + (4 - i) * 4
     | AsyncW \<Rightarrow> 100 + (3 - i) * 60 | FinW \<Rightarrow> (4 - i) * 4 | OneW \<Rightarrow> 0)"
| "main_weight (Check i) = Suc (4 - i)"
| "main_weight NextJob = 0"
| "main_weight (Loop i) = 45 + (4 - i) * 60"
| "main_weight (Fin0 i) = 99 + (3 - i) * 60"
| "main_weight (Arg i) = 98 + (3 - i) * 60"
| "main_weight (Exe i) = 97 + (3 - i) * 60"
| "main_weight (Kick i) = 65 + (3 - i) * 60"
| "main_weight CallF = 44"
| "main_weight SetFin = 43"
| "main_weight MSev = 42"
| "main_weight MSevl = 24"
| "main_weight (Failed i) = 0"

fun sec_weight :: "sec_pc \<Rightarrow> nat" where
  "sec_weight SImpl = 23" | "sec_weight SInit = 22" | "sec_weight SStart = 21" | "sec_weight SBootSev = 20" | "sec_weight SIdle = 3"
| "sec_weight SWfe = 0" | "sec_weight STake = 2" | "sec_weight (SClr f) = 1" | "sec_weight (SCall f) = 22"
| "sec_weight SFin = 21" | "sec_weight SSev = 20" | "sec_weight SStartLate = 4" | "sec_weight SFinLate = 4"

definition mail_weight :: "cpu_data_t \<Rightarrow> nat" where "mail_weight d = (if to_execute d \<noteq> 0 then 24 else 0)"

definition event_weight :: "bool \<Rightarrow> nat" where "event_weight b = (if b then 4 else 0)"

definition potential :: "smp_t \<Rightarrow> nat" where
  "potential s = main_weight (main_at s) + 310 * length (jobs s) + (\<Sum>k<4. sec_weight (sec_at s k)) +
     (\<Sum>k<4. mail_weight (cdata s k)) + (\<Sum>k<4. event_weight (event s k))"

lemma sum_fun_upd:
  fixes f :: "'a \<Rightarrow> nat" and n :: nat
  assumes "k < n"
  shows "(\<Sum>j<n. f ((x(k := v)) j)) + f (x k) = (\<Sum>j<n. f (x j)) + f v"
proof -
  have "(\<Sum>j<n. f (y j)) = f (y k) + (\<Sum>j \<in> {..<n} - {k}. f (y j))" for y
    by (rule sum.remove) (use assms in auto)
  moreover have "(\<Sum>j \<in> {..<n} - {k}. f ((x(k := v)) j)) = (\<Sum>j \<in> {..<n} - {k}. f (x j))" by (rule sum.cong) auto
  ultimately show ?thesis by (simp only: fun_upd_same)
qed

lemma sum_fun_upd_other: "\<not> k < (n :: nat) \<Longrightarrow> (\<Sum>j<n. f ((x(k := v)) j)) = (\<Sum>j<n. f (x j))"
  by (rule sum.cong) auto

lemma sum_fun_upd_le:
  fixes f :: "'a \<Rightarrow> nat" and n :: nat
  shows "(\<Sum>j<n. f ((x(k := v)) j)) \<le> (\<Sum>j<n. f (x j)) + f v"
  using sum_fun_upd [of k n f x v] sum_fun_upd_other [of k n f x v] by (cases "k < n") auto

lemma sum_fun_upd_mono:
  fixes f :: "'a \<Rightarrow> nat" and n :: nat
  assumes "f v \<le> f (x k)"
  shows "(\<Sum>j<n. f ((x(k := v)) j)) \<le> (\<Sum>j<n. f (x j))"
  using sum_fun_upd [of k n f x v] sum_fun_upd_other [of k n f x v] assms by (cases "k < n") auto

lemmas smp_ops = upd_cpu_def main_goto_def sec_goto_def sev_def sevl_def run_fn_def

lemma potential_main:
  assumes "main_step (main_at s) s = Some s'"
  shows "potential s' < potential s"
proof (cases "main_at s")
  case (Wait w i)
  then have s': "s' = main_goto (if wait_done w (cdata s i) then after_wait w i else Wfe w i) s" using assms by simp
  have "main_weight (after_wait w i) < main_weight (Wait w i)" by (cases w) (auto simp: after_wait_def)
  moreover have "main_weight (Wfe w i) < main_weight (Wait w i)" by (cases w) auto
  ultimately show ?thesis by (simp add: s' potential_def main_goto_def Wait)
next
  case (Wfe w i)
  then have s': "s' = main_goto (Wait w i) (s\<lparr>event := (event s)(0 := False)\<rparr>)" "event s 0" using assms by (simp_all split: if_splits)
  have "main_weight (Wait w i) = main_weight (Wfe w i) + 3" by (cases w) auto
  then show ?thesis using sum_fun_upd [of 0 4 event_weight "event s" False] s'(2)
    by (simp add: s'(1) potential_def main_goto_def Wfe event_weight_def [of True] event_weight_def [of False])
next
  case NextJob
  then obtain j js where j: "jobs s = j # js" "s' = start_job j (s\<lparr>jobs := js\<rparr>)" using assms by (auto split: list.splits)
  then show ?thesis using NextJob by (cases j) (auto simp: start_job_def potential_def main_goto_def)
next
  case (Fin0 i)
  have "(\<Sum>k<4. mail_weight (((cdata s)(i := (cdata s i)\<lparr>finished := 0\<rparr>)) k)) \<le> (\<Sum>k<4. mail_weight (cdata s k))"
    by (rule sum_fun_upd_mono) (simp add: mail_weight_def)
  then show ?thesis using Fin0 assms by (auto simp: potential_def smp_ops)
next
  case (Arg i)
  have "(\<Sum>k<4. mail_weight (((cdata s)(i := (cdata s i)\<lparr>fn_arg := cur_arg s\<rparr>)) k)) \<le> (\<Sum>k<4. mail_weight (cdata s k))"
    by (rule sum_fun_upd_mono) (simp add: mail_weight_def)
  then show ?thesis using Arg assms by (auto simp: potential_def smp_ops)
next
  case (Exe i)
  let ?d = "(cdata s i)\<lparr>to_execute := cur_fn s\<rparr>"
  have "(\<Sum>k<4. mail_weight (((cdata s)(i := ?d)) k)) \<le> (\<Sum>k<4. mail_weight (cdata s k)) + 24"
    using sum_fun_upd_le [of mail_weight "cdata s" i ?d 4] by (simp add: mail_weight_def [of ?d] split: if_splits)
  then show ?thesis using Exe assms by (auto simp: potential_def smp_ops)
next
  case SetFin
  have "(\<Sum>k<4. mail_weight (((cdata s)(0 := (cdata s 0)\<lparr>finished := 1\<rparr>)) k)) \<le> (\<Sum>k<4. mail_weight (cdata s k))"
    by (rule sum_fun_upd_mono) (simp add: mail_weight_def)
  then show ?thesis using SetFin assms by (auto simp: potential_def smp_ops)
next
  case MSevl
  have "(\<Sum>k<4. event_weight (((event s)(0 := True)) k)) \<le> (\<Sum>k<4. event_weight (event s k)) + 4"
    using sum_fun_upd_le [of event_weight "event s" 0 True 4] by (simp add: event_weight_def [of True])
  then show ?thesis using MSevl assms by (auto simp: potential_def smp_ops)
next
  case (Loop i)
  then show ?thesis using assms by (auto simp: potential_def smp_ops)
qed (use assms in \<open>auto simp: potential_def smp_ops event_weight_def split: if_splits\<close>)

lemma potential_sec:
  assumes k: "k < 4" and st: "sec_step k (sec_at s k) s = Some s'"
    and mail: "\<And>f. sec_at s k = SClr f \<Longrightarrow> to_execute (cdata s k) \<noteq> 0"
  shows "potential s' < potential s"
proof -
  have w: "(\<Sum>j<4. sec_weight (((sec_at s)(k := p)) j)) + sec_weight (sec_at s k) = (\<Sum>j<4. sec_weight (sec_at s j)) + sec_weight p" for p
    by (rule sum_fun_upd [OF k])
  have m: "(\<Sum>j<4. mail_weight (((cdata s)(k := d)) j)) + mail_weight (cdata s k) = (\<Sum>j<4. mail_weight (cdata s j)) + mail_weight d" for d
    by (rule sum_fun_upd [OF k])
  have e: "(\<Sum>j<4. event_weight (((event s)(k := b)) j)) + event_weight (event s k) = (\<Sum>j<4. event_weight (event s j)) + event_weight b" for b
    by (rule sum_fun_upd [OF k])
  note simps = potential_def smp_ops mail_weight_def [of "_\<lparr>to_execute := _\<rparr>"] mail_weight_def [of "_\<lparr>finished := _\<rparr>"]
    mail_weight_def [of "_\<lparr>started := _\<rparr>"] mail_weight_def [of "cdata s k"]
  show ?thesis
  proof (cases "sec_at s k")
    case SImpl
    then show ?thesis using st w [of SInit] by (auto simp: potential_def smp_ops)
  next
    case SStartLate
    then show ?thesis using st w [of SIdle] m [of "(cdata s k)\<lparr>started := 1\<rparr>"] by (auto simp: simps split: if_splits)
  next
    case SFinLate
    then show ?thesis using st w [of SIdle] m [of "(cdata s k)\<lparr>finished := 1\<rparr>"] by (auto simp: simps split: if_splits)
  next
    case SInit
    then show ?thesis using st w [of SStart] m [of "(cdata s k)\<lparr>to_execute := 0\<rparr>"] by (auto simp: simps split: if_splits)
  next
    case SStart
    then show ?thesis using st w [of SBootSev] m [of "(cdata s k)\<lparr>started := 1\<rparr>"] by (auto simp: simps split: if_splits)
  next
    case SBootSev
    then show ?thesis using st w [of SIdle] by (auto simp: potential_def smp_ops event_weight_def)
  next
    case SIdle
    then show ?thesis using st w [of STake] w [of SWfe] by (auto simp: potential_def smp_ops)
  next
    case SWfe
    then show ?thesis using st w [of SIdle] e [of False]
      by (auto simp: potential_def smp_ops event_weight_def [of True] event_weight_def [of False] split: if_splits)
  next
    case STake
    then show ?thesis using st w [of "SClr (to_execute (cdata s k))"] by (auto simp: potential_def smp_ops)
  next
    case (SClr f)
    then show ?thesis using st w [of "SCall f"] m [of "(cdata s k)\<lparr>to_execute := 0\<rparr>"] mail by (auto simp: simps)
  next
    case (SCall f)
    then show ?thesis using st w [of SFin] by (auto simp add: potential_def smp_ops)
  next
    case SFin
    then show ?thesis using st w [of SSev] m [of "(cdata s k)\<lparr>finished := 1\<rparr>"] by (auto simp: simps split: if_splits)
  next
    case SSev
    then show ?thesis using st w [of SIdle] by (auto simp: potential_def smp_ops event_weight_def)
  qed
qed

lemma potential_late:
  assumes k: "k < 4" and st: "sec_late k (sec_at s k) s = Some s'"
  shows "potential s' < potential s"
proof -
  have w: "(\<Sum>j<4. sec_weight (((sec_at s)(k := p)) j)) + sec_weight (sec_at s k) = (\<Sum>j<4. sec_weight (sec_at s j)) + sec_weight p" for p
    by (rule sum_fun_upd [OF k])
  show ?thesis
    using st w [of SStartLate] w [of SFinLate] by (cases "sec_at s k") (auto simp: potential_def smp_ops event_weight_def)
qed

section \<open>What holds in every reachable state\<close>

text \<open>What CPU 0 knows of another CPU: not booted; booting; waiting for a job; about to get one, its
  \<open>finished\<close> reset, and with \<open>True\<close> its argument set; or given one, and with \<open>True\<close> seen finished.\<close>

datatype role = Off | Booting | Quiet | Opened bool | Sent bool

fun role_of :: "main_pc \<Rightarrow> bool \<Rightarrow> nat \<Rightarrow> role" where
  "role_of (Boot i) all k = (if k < i then Quiet else Off)"
| "role_of (Wait w i) all k = (case w of BootW \<Rightarrow> if k < i then Quiet else if k = i then Booting else Off
     | AsyncW \<Rightarrow> if all \<and> k < i then Sent False else Quiet | FinW \<Rightarrow> Sent (k < i) | OneW \<Rightarrow> if k = i then Sent False else Quiet | _ \<Rightarrow> Quiet)"
| "role_of (Wfe w i) all k = (case w of BootW \<Rightarrow> if k < i then Quiet else if k = i then Booting else Off
     | AsyncW \<Rightarrow> if all \<and> k < i then Sent False else Quiet | FinW \<Rightarrow> Sent (k < i) | OneW \<Rightarrow> if k = i then Sent False else Quiet | _ \<Rightarrow> Quiet)"
| "role_of (Check i) all k = Quiet"
| "role_of NextJob all k = Quiet"
| "role_of (Loop i) all k = (if k < i then Sent False else Quiet)"
| "role_of (Fin0 i) all k = (if all \<and> k < i then Sent False else Quiet)"
| "role_of (Arg i) all k = (if k = i then Opened False else if all \<and> k < i then Sent False else Quiet)"
| "role_of (Exe i) all k = (if k = i then Opened True else if all \<and> k < i then Sent False else Quiet)"
| "role_of (Kick i) all k = (if k = i \<or> (all \<and> k < i) then Sent False else Quiet)"
| "role_of CallF all k = (if all then Sent False else Quiet)"
| "role_of SetFin all k = Sent False"
| "role_of MSev all k = Sent False"
| "role_of MSevl all k = Sent False"
| "role_of (Failed i) all k = (if k < i then Quiet else Off)"

definition quiet :: "cpu_data_t \<Rightarrow> sec_pc \<Rightarrow> bool" where
  "quiet d p \<longleftrightarrow> started d \<noteq> 0 \<and> to_execute d = 0 \<and> (p = SBootSev \<or> p = SIdle \<or> p = SWfe \<or> p = SSev)"

definition working :: "u64 \<Rightarrow> u64 \<Rightarrow> cpu_data_t \<Rightarrow> sec_pc \<Rightarrow> bool" where
  "working f a d p \<longleftrightarrow> f \<noteq> 0 \<and> started d \<noteq> 0 \<and> finished d = 0 \<and> fn_arg d = a \<and>
     (to_execute d = f \<and> (p = SBootSev \<or> p = SIdle \<or> p = SWfe \<or> p = SSev \<or> p = STake \<or> p = SClr f) \<or>
      to_execute d = 0 \<and> p = SCall f) \<or>
     started d \<noteq> 0 \<and> finished d = 0 \<and> to_execute d = 0 \<and> (p = SFin \<or> p = SFinLate)"

fun role_ok :: "role \<Rightarrow> u64 \<Rightarrow> u64 \<Rightarrow> cpu_data_t \<Rightarrow> sec_pc \<Rightarrow> bool" where
  "role_ok Off f a d p = (started d = 0 \<and> to_execute d = 0 \<and> p = SImpl)"
| "role_ok Booting f a d p =
     (started d = 0 \<and> to_execute d = 0 \<and> (p = SImpl \<or> p = SInit \<or> p = SStart \<or> p = SStartLate) \<or> quiet d p)"
| "role_ok Quiet f a d p = quiet d p"
| "role_ok (Opened filled) f a d p = (quiet d p \<and> finished d = 0 \<and> (filled \<longrightarrow> fn_arg d = a))"
| "role_ok (Sent seen) f a d p = (finished d \<noteq> 0 \<and> quiet d p \<or> \<not> seen \<and> working f a d p)"

text \<open>The calls a CPU has been given and has not made, and those of the current job it has not been given.\<close>

fun given :: "cpu_data_t \<Rightarrow> sec_pc \<Rightarrow> (u64 \<times> u64) list" where
  "given d (SCall f) = [(f, fn_arg d)]"
| "given d p = (if to_execute d \<noteq> 0 then [(to_execute d, fn_arg d)] else [])"

fun to_give :: "main_pc \<Rightarrow> bool \<Rightarrow> nat \<Rightarrow> bool" where
  "to_give (Wait StartW i) all k = True" | "to_give (Wfe StartW i) all k = True"
| "to_give (Wait AsyncW i) all k = (if all then k = 0 \<or> i \<le> k else k = i)"
| "to_give (Wfe AsyncW i) all k = (if all then k = 0 \<or> i \<le> k else k = i)"
| "to_give (Fin0 i) all k = (if all then k = 0 \<or> i \<le> k else k = i)"
| "to_give (Arg i) all k = (if all then k = 0 \<or> i \<le> k else k = i)"
| "to_give (Exe i) all k = (if all then k = 0 \<or> i \<le> k else k = i)"
| "to_give (Loop i) all k = (k = 0 \<or> i \<le> k)"
| "to_give (Kick i) all k = (all \<and> (k = 0 \<or> i < k))"
| "to_give CallF all k = (k = 0)"
| "to_give _ all k = False"

definition todo :: "smp_t \<Rightarrow> nat \<Rightarrow> (u64 \<times> u64) list" where
  "todo s k = (if to_give (main_at s) (all_cpus s) k then [(cur_fn s, cur_arg s)] else []) @ concat (map (for_cpu k) (jobs s))"

text \<open>Where CPU 0 can be.\<close>

fun main_ok :: "main_pc \<Rightarrow> bool \<Rightarrow> u64 \<Rightarrow> cpu_data_t \<Rightarrow> bool" where
  "main_ok (Boot i) all f d = (0 < i \<and> i \<le> 4)"
| "main_ok (Wait w i) all f d = (i < 4 \<and> (w = BootW \<or> w = AsyncW \<or> w = OneW \<longrightarrow> 0 < i) \<and> (w = StartW \<or> w = FinW \<longrightarrow> all) \<and>
     (w = OneW \<longrightarrow> \<not> all) \<and> (w = StartW \<or> w = AsyncW \<or> w = FinW \<or> w = OneW \<longrightarrow> f \<noteq> 0) \<and> (w = FinW \<longrightarrow> finished d \<noteq> 0))"
| "main_ok (Wfe w i) all f d = (i < 4 \<and> (w = BootW \<or> w = AsyncW \<or> w = OneW \<or> w = FinW \<longrightarrow> 0 < i) \<and> (w = StartW \<or> w = FinW \<longrightarrow> all) \<and>
     (w = OneW \<longrightarrow> \<not> all) \<and> (w = StartW \<or> w = AsyncW \<or> w = FinW \<or> w = OneW \<longrightarrow> f \<noteq> 0) \<and> (w = FinW \<longrightarrow> finished d \<noteq> 0))"
| "main_ok (Check i) all f d = (i \<le> 4)"
| "main_ok NextJob all f d = True"
| "main_ok (Loop i) all f d = (i \<le> 4 \<and> all \<and> f \<noteq> 0)"
| "main_ok (Fin0 i) all f d = (0 < i \<and> i < 4 \<and> f \<noteq> 0)"
| "main_ok (Arg i) all f d = (0 < i \<and> i < 4 \<and> f \<noteq> 0)"
| "main_ok (Exe i) all f d = (0 < i \<and> i < 4 \<and> f \<noteq> 0)"
| "main_ok (Kick i) all f d = (0 < i \<and> i < 4 \<and> f \<noteq> 0)"
| "main_ok CallF all f d = (f \<noteq> 0)"
| "main_ok SetFin all f d = (all \<and> f \<noteq> 0)"
| "main_ok MSev all f d = (all \<and> f \<noteq> 0 \<and> finished d \<noteq> 0)"
| "main_ok MSevl all f d = (all \<and> f \<noteq> 0 \<and> finished d \<noteq> 0)"
| "main_ok (Failed i) all f d = (0 < i)"

text \<open>Nobody sleeps through what it waits for: the one who made it true is still to send the event.\<close>

definition on_time :: "sec_pc \<Rightarrow> bool" where "on_time p \<longleftrightarrow> p \<noteq> SStartLate \<and> p \<noteq> SFinLate"

definition main_awake :: "smp_t \<Rightarrow> bool" where
  "main_awake s \<longleftrightarrow> (\<forall>k. on_time (sec_at s k)) \<and> (\<forall>w i. main_at s = Wfe w i \<longrightarrow> event s 0 \<or> \<not> wait_done w (cdata s i) \<or> 0 < i \<and> (sec_at s i = SBootSev \<or> sec_at s i = SSev))"

definition sec_awake :: "smp_t \<Rightarrow> nat \<Rightarrow> bool" where
  "sec_awake s k \<longleftrightarrow> (sec_at s k = SWfe \<longrightarrow> event s k \<or> to_execute (cdata s k) = 0 \<or> main_at s = Kick k)"

definition cpu_inv :: "job list \<Rightarrow> smp_t \<Rightarrow> nat \<Rightarrow> bool" where
  "cpu_inv js s k \<longleftrightarrow>
     role_ok (role_of (main_at s) (all_cpus s) k) (cur_fn s) (cur_arg s) (cdata s k) (sec_at s k) \<and>
     (role_of (main_at s) (all_cpus s) k \<noteq> Off \<longleftrightarrow> power s k) \<and> sec_awake s k \<and>
     calls s k @ given (cdata s k) (sec_at s k) @ todo s k = concat (map (for_cpu k) js)"

definition smp_inv :: "bool \<Rightarrow> job list \<Rightarrow> smp_t \<Rightarrow> bool" where
  "smp_inv dsb js s \<longleftrightarrow>
     main_ok (main_at s) (all_cpus s) (cur_fn s) (cdata s 0) \<and> started (cdata s 0) \<noteq> 0 \<and> (dsb \<longrightarrow> main_awake s) \<and>
     list_all job_ok (jobs s) \<and> calls s 0 @ todo s 0 = concat (map (for_cpu 0) js) \<and>
     (\<forall>k. 0 < k \<longrightarrow> k < 4 \<longrightarrow> cpu_inv js s k)"

lemma smp_init_inv: "list_all job_ok js \<Longrightarrow> smp_inv dsb js (smp_init kind hw0 im d js)"
  by (simp add: smp_inv_def smp_init_def smp_ops cpu_inv_def main_awake_def on_time_def sec_awake_def todo_def cpu_data_init_def)

lemma given_upd [simp]: "given (d\<lparr>finished := x\<rparr>) p = given d p" "given (d\<lparr>started := y\<rparr>) p = given d p"
  by (cases p; simp)+

lemma given_quiet [simp]:
  assumes "quiet d p"
  shows "given d p = []" "given (d\<lparr>fn_arg := a\<rparr>) p = []" "f \<noteq> 0 \<Longrightarrow> given (d\<lparr>to_execute := f\<rparr>) p = [(f, fn_arg d)]"
    "quiet (d\<lparr>fn_arg := a\<rparr>) p" "quiet (d\<lparr>finished := x\<rparr>) p"
  using assms by (auto simp: quiet_def)

lemma quiet_working: "quiet d p \<Longrightarrow> f \<noteq> 0 \<Longrightarrow> finished d = 0 \<Longrightarrow> fn_arg d = a \<Longrightarrow> working f a (d\<lparr>to_execute := f\<rparr>) p"
  by (auto simp: quiet_def working_def)

lemma smp_invI:
  assumes "main_ok (main_at s) (all_cpus s) (cur_fn s) (cdata s 0)" "started (cdata s 0) \<noteq> 0" "dsb \<longrightarrow> main_awake s"
    "list_all job_ok (jobs s)" "calls s 0 @ todo s 0 = concat (map (for_cpu 0) js)"
    "\<And>k. 0 < k \<Longrightarrow> k < 4 \<Longrightarrow> cpu_inv js s k"
  shows "smp_inv dsb js s"
  using assms by (simp add: smp_inv_def)

lemma smp_invD:
  assumes "smp_inv dsb js s"
  shows "main_ok (main_at s) (all_cpus s) (cur_fn s) (cdata s 0)" "started (cdata s 0) \<noteq> 0" "dsb \<longrightarrow> main_awake s"
    "list_all job_ok (jobs s)" "calls s 0 @ todo s 0 = concat (map (for_cpu 0) js)"
    "0 < k \<Longrightarrow> k < 4 \<Longrightarrow> cpu_inv js s k"
  using assms by (simp_all add: smp_inv_def)

lemmas cpu_inv_defs = cpu_inv_def sec_awake_def todo_def

lemma main_inv:
  assumes I: "smp_inv dsb js s" and st: "main_step (main_at s) s = Some s'"
  shows "smp_inv dsb js s'"
proof -
  note D = smp_invD [OF I]
  show ?thesis
  proof (cases "main_at s")
    case (Boot i)
    then consider (last) "\<not> i < 4" "s' = main_goto (Wait AllW 0) s"
      | (on) "i < 4" "s' = main_goto (Wait BootW i) (s\<lparr>power := (power s)(i := True)\<rparr>)"
      | (bad) "i < 4" "s' = main_goto (Failed i) s"
      using st by (auto split: if_splits)
    then show ?thesis
    proof cases
      case last
      show ?thesis
      proof (rule smp_invI)
        fix k :: nat assume k: "0 < k" "k < 4"
        show "cpu_inv js s' k" using D(6) [OF k] D(1) Boot k last(1) by (auto simp: last(2) cpu_inv_defs main_goto_def)
      qed (use D(1-5) Boot last(1) in \<open>simp_all add: last(2) main_goto_def main_awake_def todo_def\<close>)
    next
      case on
      show ?thesis
      proof (rule smp_invI)
        fix k :: nat assume k: "0 < k" "k < 4"
        show "cpu_inv js s' k" using D(6) [OF k] D(1) Boot k on(1)
          by (cases "k < i"; cases "k = i") (auto simp: on(2) cpu_inv_defs main_goto_def)
      qed (use D(1-5) Boot on(1) in \<open>simp_all add: on(2) main_goto_def main_awake_def todo_def\<close>)
    next
      case bad
      show ?thesis
      proof (rule smp_invI)
        fix k :: nat assume k: "0 < k" "k < 4"
        show "cpu_inv js s' k" using D(6) [OF k] D(1) Boot k bad(1) by (auto simp: bad(2) cpu_inv_defs main_goto_def)
      qed (use D(1-5) Boot bad(1) in \<open>simp_all add: bad(2) main_goto_def main_awake_def todo_def\<close>)
    qed
  next
    case (Check i)
    show ?thesis
    proof (rule smp_invI)
      fix k :: nat assume k: "0 < k" "k < 4"
      show "cpu_inv js s' k" using D(6) [OF k] st Check D(1) k by (auto simp: cpu_inv_defs main_goto_def split: if_splits)
    qed (use D(1-5) st Check in \<open>auto simp: main_goto_def main_awake_def todo_def split: if_splits\<close>)
  next
    case (Loop i)
    show ?thesis
    proof (rule smp_invI)
      fix k :: nat assume k: "0 < k" "k < 4"
      show "cpu_inv js s' k" using D(6) [OF k] st Loop D(1) k by (auto simp: cpu_inv_defs main_goto_def split: if_splits)
    qed (use D(1-5) st Loop in \<open>auto simp: main_goto_def main_awake_def todo_def split: if_splits\<close>)
  next
    case (Fin0 i)
    show ?thesis
    proof (rule smp_invI)
      fix k :: nat assume k: "0 < k" "k < 4"
      show "cpu_inv js s' k" using D(6) [OF k] st Fin0 D(1) k by (auto simp: cpu_inv_defs smp_ops split: if_splits)
    qed (use D(1-5) st Fin0 in \<open>auto simp: smp_ops main_awake_def todo_def split: if_splits\<close>)
  next
    case (Arg i)
    show ?thesis
    proof (rule smp_invI)
      fix k :: nat assume k: "0 < k" "k < 4"
      show "cpu_inv js s' k" using D(6) [OF k] st Arg D(1) k by (auto simp: cpu_inv_defs smp_ops split: if_splits)
    qed (use D(1-5) st Arg in \<open>auto simp: smp_ops main_awake_def todo_def split: if_splits\<close>)
  next
    case (Kick i)
    show ?thesis
    proof (rule smp_invI)
      fix k :: nat assume k: "0 < k" "k < 4"
      show "cpu_inv js s' k" using D(6) [OF k] st Kick D(1) k by (auto simp: cpu_inv_defs smp_ops split: if_splits)
    qed (use D(1-5) st Kick in \<open>auto simp: smp_ops main_awake_def todo_def split: if_splits\<close>)
  next
    case CallF
    show ?thesis
    proof (rule smp_invI)
      fix k :: nat assume k: "0 < k" "k < 4"
      show "cpu_inv js s' k" using D(6) [OF k] st CallF D(1) k by (auto simp: cpu_inv_defs smp_ops split: if_splits)
    qed (use D(1-5) st CallF in \<open>auto simp: smp_ops main_awake_def todo_def split: if_splits\<close>)
  next
    case SetFin
    show ?thesis
    proof (rule smp_invI)
      fix k :: nat assume k: "0 < k" "k < 4"
      show "cpu_inv js s' k" using D(6) [OF k] st SetFin D(1) k by (auto simp: cpu_inv_defs smp_ops split: if_splits)
    qed (use D(1-5) st SetFin in \<open>auto simp: smp_ops main_awake_def todo_def split: if_splits\<close>)
  next
    case MSev
    show ?thesis
    proof (rule smp_invI)
      fix k :: nat assume k: "0 < k" "k < 4"
      show "cpu_inv js s' k" using D(6) [OF k] st MSev D(1) k by (auto simp: cpu_inv_defs smp_ops split: if_splits)
    qed (use D(1-5) st MSev in \<open>auto simp: smp_ops main_awake_def todo_def split: if_splits\<close>)
  next
    case MSevl
    show ?thesis
    proof (rule smp_invI)
      fix k :: nat assume k: "0 < k" "k < 4"
      show "cpu_inv js s' k" using D(6) [OF k] st MSevl D(1) k by (auto simp: cpu_inv_defs smp_ops split: if_splits)
    qed (use D(1-5) st MSevl in \<open>auto simp: smp_ops main_awake_def todo_def split: if_splits\<close>)
  next
    case Failed
    then show ?thesis using st by simp
  next
    case (Exe i)
    then have s': "s' = main_goto (Kick i) (upd_cpu i (\<lambda>d. d\<lparr>to_execute := cur_fn s\<rparr>) s)" using st by simp
    show ?thesis
    proof (rule smp_invI)
      fix k :: nat assume k: "0 < k" "k < 4"
      have C: "cpu_inv js s k" by (rule D(6) [OF k])
      show "cpu_inv js s' k"
      proof (cases "k = i")
        case True
        have q: "quiet (cdata s i) (sec_at s i)" "finished (cdata s i) = 0" "fn_arg (cdata s i) = cur_arg s" "cur_fn s \<noteq> 0"
          using C D(1) Exe True by (simp_all add: cpu_inv_def)
        then show ?thesis using C True Exe k
          by (auto simp: s' cpu_inv_defs smp_ops quiet_working split: if_splits)
      next
        case False
        then show ?thesis using C Exe by (auto simp: s' cpu_inv_defs smp_ops split: if_splits)
      qed
    qed (use D(1-5) Exe in \<open>auto simp: s' smp_ops main_awake_def todo_def split: if_splits\<close>)
  next
    case NextJob
    then obtain j js' where j: "jobs s = j # js'" "s' = start_job j (s\<lparr>jobs := js'\<rparr>)" "job_ok j" "list_all job_ok js'"
      using st D(4) by (auto split: list.splits)
    show ?thesis
    proof (rule smp_invI)
      fix k :: nat assume k: "0 < k" "k < 4"
      show "cpu_inv js s' k" using D(6) [OF k] NextJob j k
        by (cases j) (auto simp: cpu_inv_defs start_job_def main_goto_def split: if_splits)
    qed (use D(1-5) NextJob j in \<open>(cases j; auto simp: start_job_def main_goto_def main_awake_def todo_def split: if_splits)+\<close>)
  next
    case (Wfe w i)
    then have s': "s' = main_goto (Wait w i) (s\<lparr>event := (event s)(0 := False)\<rparr>)" using st by (simp split: if_splits)
    have r: "role_of (Wait w i) = role_of (Wfe w i)" "to_give (Wait w i) = to_give (Wfe w i)"
      by (intro ext, cases w; simp)+
    show ?thesis
    proof (rule smp_invI)
      fix k :: nat assume k: "0 < k" "k < 4"
      show "cpu_inv js s' k" using D(6) [OF k] Wfe k by (auto simp: s' cpu_inv_defs main_goto_def r)
    next
      show "main_ok (main_at s') (all_cpus s') (cur_fn s') (cdata s' 0)" using D(1) Wfe by (simp add: s' main_goto_def)
      show "dsb \<longrightarrow> main_awake s'" using D(3) by (simp add: s' main_goto_def main_awake_def)
      show "calls s' 0 @ todo s' 0 = concat (map (for_cpu 0) js)" using D(5) Wfe by (simp add: s' main_goto_def todo_def r split: if_splits)
    qed (use D(2,4) in \<open>simp_all add: s' main_goto_def\<close>)
  next
    case (Wait w i)
    show ?thesis
    proof (cases "wait_done w (cdata s i)")
      case False
      then have s': "s' = main_goto (Wfe w i) s" using st Wait by simp
      have r: "role_of (Wait w i) = role_of (Wfe w i)" "to_give (Wait w i) = to_give (Wfe w i)"
        by (intro ext, cases w; simp)+
      show ?thesis
      proof (rule smp_invI)
        fix k :: nat assume k: "0 < k" "k < 4"
        show "cpu_inv js s' k" using D(6) [OF k] Wait k by (auto simp: s' cpu_inv_defs main_goto_def r)
    next
      next
        show "main_ok (main_at s') (all_cpus s') (cur_fn s') (cdata s' 0)"
          using D(1) Wait False by (cases "i = 0") (auto simp: s' main_goto_def wait_done_def)
      qed (use D(2-5) Wait False in \<open>auto simp: s' main_goto_def main_awake_def todo_def r\<close>)
    next
      case True
      then have s': "s' = main_goto (after_wait w i) s" using st Wait by simp
      show ?thesis
      proof (rule smp_invI)
        fix k :: nat assume k: "0 < k" "k < 4"
        show "cpu_inv js s' k" using D(6) [OF k] D(1) Wait True k
          by (cases w; cases "Suc i < 4"; cases "k < i"; cases "k = i")
            (auto simp: s' cpu_inv_defs main_goto_def after_wait_def wait_done_def working_def less_Suc_eq split: if_splits)
      next
        show "main_ok (main_at s') (all_cpus s') (cur_fn s') (cdata s' 0)"
          using D(1) Wait by (cases w; cases "Suc i < 4") (simp_all add: s' main_goto_def after_wait_def)
        show "dsb \<longrightarrow> main_awake s'"
          using D(3) by (cases w; cases "Suc i < 4") (simp_all add: s' main_goto_def after_wait_def main_awake_def)
        show "calls s' 0 @ todo s' 0 = concat (map (for_cpu 0) js)"
          using D(5) D(1) Wait by (cases w; cases "Suc i < 4") (simp_all add: s' main_goto_def after_wait_def todo_def split: if_splits)
      qed (use D(2,4) in \<open>simp_all add: s' main_goto_def\<close>)
    qed
  qed
qed

lemma sec_step_frame:
  assumes "sec_step k p s = Some s'"
  shows "main_at s' = main_at s" "all_cpus s' = all_cpus s" "cur_fn s' = cur_fn s" "cur_arg s' = cur_arg s" "jobs s' = jobs s"
    "power s' = power s" "j \<noteq> k \<Longrightarrow> cdata s' j = cdata s j" "j \<noteq> k \<Longrightarrow> sec_at s' j = sec_at s j" "j \<noteq> k \<Longrightarrow> calls s' j = calls s j"
    "j \<noteq> k \<Longrightarrow> event s j \<Longrightarrow> event s' j"
  using assms by (cases p; auto simp: smp_ops split: if_splits)+

lemma sec_step_awake:
  assumes k: "k \<noteq> 0" and st: "sec_step k (sec_at s k) s = Some s'" and a: "main_awake s"
  shows "main_awake s'"
proof -
  have on: "on_time (sec_at s j)" for j using a by (simp add: main_awake_def)
  have "on_time (sec_at s' k)" using on [of k] st by (cases "sec_at s k") (auto simp: smp_ops on_time_def split: if_splits)
  then have on': "on_time (sec_at s' j)" for j using on [of j] sec_step_frame(8) [OF st, of j] by (cases "j = k") simp_all
  have e: "event s 0 \<Longrightarrow> event s' 0" by (rule sec_step_frame(10) [OF st]) (use k in simp)
  have done': "\<not> wait_done w (cdata s k) \<Longrightarrow> event s' 0 \<or> \<not> wait_done w (cdata s' k) \<or> sec_at s' k = SBootSev \<or> sec_at s' k = SSev" for w
    using st on [of k] by (cases "sec_at s k") (auto simp: smp_ops wait_done_def on_time_def split: if_splits wait.splits)
  have kick: "sec_at s k = SBootSev \<or> sec_at s k = SSev \<Longrightarrow> event s' 0" using st by (auto simp: smp_ops)
  have "event s' 0 \<or> \<not> wait_done w (cdata s' i) \<or> 0 < i \<and> (sec_at s' i = SBootSev \<or> sec_at s' i = SSev)"
    if m: "main_at s' = Wfe w i" for w i
  proof -
    have "event s 0 \<or> \<not> wait_done w (cdata s i) \<or> 0 < i \<and> (sec_at s i = SBootSev \<or> sec_at s i = SSev)"
      using a m sec_step_frame(1) [OF st] by (simp add: main_awake_def)
    then show ?thesis using e done' [of w] kick k sec_step_frame(7,8) [OF st, of i] by (cases "i = k") auto
  qed
  then show ?thesis using on' by (simp add: main_awake_def)
qed

text \<open>What a step does to the CPU's own data and where it is, and the call it makes.\<close>

fun sec_own :: "sec_pc \<Rightarrow> cpu_data_t \<Rightarrow> cpu_data_t \<times> sec_pc \<times> (u64 \<times> u64) list" where
  "sec_own SImpl d = (d, SInit, [])"
| "sec_own SInit d = (d\<lparr>to_execute := 0\<rparr>, SStart, [])"
| "sec_own SStart d = (d\<lparr>started := 1\<rparr>, SBootSev, [])"
| "sec_own SBootSev d = (d, SIdle, [])"
| "sec_own SIdle d = (d, if to_execute d \<noteq> 0 then STake else SWfe, [])"
| "sec_own SWfe d = (d, SIdle, [])"
| "sec_own STake d = (d, SClr (to_execute d), [])"
| "sec_own (SClr f) d = (d\<lparr>to_execute := 0\<rparr>, SCall f, [])"
| "sec_own (SCall f) d = (d, SFin, [(f, fn_arg d)])"
| "sec_own SFin d = (d\<lparr>finished := 1\<rparr>, SSev, [])"
| "sec_own SSev d = (d, SIdle, [])"
| "sec_own SStartLate d = (d\<lparr>started := 1\<rparr>, SIdle, [])"
| "sec_own SFinLate d = (d\<lparr>finished := 1\<rparr>, SIdle, [])"

lemma sec_step_own:
  assumes "sec_step k (sec_at s k) s = Some s'"
  shows "sec_own (sec_at s k) (cdata s k) = (cdata s' k, sec_at s' k, drop (length (calls s k)) (calls s' k))"
    "take (length (calls s k)) (calls s' k) = calls s k"
  using assms by (cases "sec_at s k"; auto simp: smp_ops split: if_splits)+

lemma quiet_own: "quiet d p \<Longrightarrow> sec_own p d = (d', p', l) \<Longrightarrow> quiet d' p' \<and> d' = d \<and> l = []"
  by (auto simp: quiet_def)

lemma working_own:
  assumes "working f a d p" "sec_own p d = (d', p', l)"
  shows "finished d' \<noteq> 0 \<and> quiet d' p' \<or> working f a d' p'" "l @ given d' p' = given d p"
  using assms by (cases p; force simp: working_def quiet_def)+

lemma role_own:
  assumes "role_ok r f a d p" "r \<noteq> Off" "sec_own p d = (d', p', l)"
  shows "role_ok r f a d' p' \<and> l @ given d' p' = given d p"
proof (cases "quiet d p")
  case True
  note q = quiet_own [OF True assms(3)]
  have "role_ok r f a d' p'" using assms(1,2) q True by (cases r) (auto simp: working_def quiet_def)
  then show ?thesis using conjunct1 [OF q] q True by simp
next
  case False
  then show ?thesis
  proof (cases r)
    case Booting
    then have "started d = 0" "to_execute d = 0" "p = SImpl \<or> p = SInit \<or> p = SStart \<or> p = SStartLate" using assms(1) False by auto
    then show ?thesis using assms(3) Booting by (auto simp: quiet_def)
  next
    case (Sent seen)
    then have "working f a d p" "\<not> seen" using assms(1) False by auto
    then show ?thesis using working_own [OF _ assms(3)] Sent by auto
  qed (use assms False in auto)
qed

lemma sec_step_own_inv:
  assumes k: "0 < k" and st: "sec_step k (sec_at s k) s = Some s'" and p: "power s k" and C: "cpu_inv js s k"
  shows "cpu_inv js s' k"
proof -
  have R: "role_ok (role_of (main_at s) (all_cpus s) k) (cur_fn s) (cur_arg s) (cdata s k) (sec_at s k)" "sec_awake s k"
    "calls s k @ given (cdata s k) (sec_at s k) @ todo s k = concat (map (for_cpu k) js)"
    "role_of (main_at s) (all_cpus s) k \<noteq> Off" 
    using C p by (simp_all add: cpu_inv_def)
  note F = sec_step_frame(1-6) [OF st]
  have t: "todo s' k = todo s k" using F by (simp add: todo_def)
  note own = sec_step_own [OF st]
  note g = role_own [OF R(1,4) own(1)]
  have "calls s' k = calls s k @ drop (length (calls s k)) (calls s' k)" using own(2) by (metis append_take_drop_id)
  then have c: "calls s' k @ given (cdata s' k) (sec_at s' k) = calls s k @ given (cdata s k) (sec_at s k)"
    using g by (metis append_assoc)
  have w: "sec_awake s' k" using R(2) st by (cases "sec_at s k") (auto simp: sec_awake_def smp_ops split: if_splits)
  have "calls s' k @ given (cdata s' k) (sec_at s' k) @ todo s' k = concat (map (for_cpu k) js)"
    using R(3) c t by (metis append_assoc)
  then show ?thesis unfolding cpu_inv_def using g w R(4) p F by simp
qed

lemma sec_inv:
  assumes I: "smp_inv dsb js s" and k: "0 < k" "k < 4" and p: "power s k" and st: "sec_step k (sec_at s k) s = Some s'"
  shows "smp_inv dsb js s'"
proof (rule smp_invI)
  note D = smp_invD [OF I] and F = sec_step_frame [OF st]
  have t: "todo s' j = todo s j" for j using F by (simp add: todo_def)
  show "main_ok (main_at s') (all_cpus s') (cur_fn s') (cdata s' 0)" "started (cdata s' 0) \<noteq> 0" "list_all job_ok (jobs s')"
    using D(1,2,4) F k by simp_all
  show "calls s' 0 @ todo s' 0 = concat (map (for_cpu 0) js)" using D(5) F k t by simp
  show "dsb \<longrightarrow> main_awake s'" using sec_step_awake [OF _ st] D(3) k by simp
  fix j :: nat assume j: "0 < j" "j < 4"
  show "cpu_inv js s' j"
  proof (cases "j = k")
    case True
    then show ?thesis using sec_step_own_inv [OF k(1) st p D(6) [OF k]] by simp
  next
    case False
    then show ?thesis using D(6) [OF j] F False t by (auto simp: cpu_inv_def sec_awake_def)
  qed
qed

lemma sec_late_own:
  assumes "sec_late k (sec_at s k) s = Some s'"
  shows "cdata s' = cdata s" "calls s' = calls s" "power s' = power s" "main_at s' = main_at s" "all_cpus s' = all_cpus s"
    "cur_fn s' = cur_fn s" "cur_arg s' = cur_arg s" "jobs s' = jobs s" "event s' j"
    "sec_at s k = SStart \<and> sec_at s' = (sec_at s)(k := SStartLate) \<or> sec_at s k = SFin \<and> sec_at s' = (sec_at s)(k := SFinLate)"
  using assms by (cases "sec_at s k"; auto simp: smp_ops)+

lemma role_late:
  "role_ok r f a d SStart \<Longrightarrow> r \<noteq> Off \<Longrightarrow> role_ok r f a d SStartLate"
  "role_ok r f a d SFin \<Longrightarrow> r \<noteq> Off \<Longrightarrow> role_ok r f a d SFinLate"
  by (cases r; simp add: quiet_def working_def)+

lemma late_inv:
  assumes I: "smp_inv False js s" and k: "0 < k" "k < 4" and p: "power s k" and st: "sec_late k (sec_at s k) s = Some s'"
  shows "smp_inv False js s'"
proof (rule smp_invI)
  note D = smp_invD [OF I] and F = sec_late_own [OF st]
  have t: "todo s' j = todo s j" for j using F by (simp add: todo_def)
  show "main_ok (main_at s') (all_cpus s') (cur_fn s') (cdata s' 0)" "started (cdata s' 0) \<noteq> 0" "list_all job_ok (jobs s')"
    using D(1,2,4) F by simp_all
  show "calls s' 0 @ todo s' 0 = concat (map (for_cpu 0) js)" using D(5) F(2) t by simp
  fix j :: nat assume j: "0 < j" "j < 4"
  have C: "role_ok (role_of (main_at s) (all_cpus s) j) (cur_fn s) (cur_arg s) (cdata s j) (sec_at s j)"
    "role_of (main_at s) (all_cpus s) j \<noteq> Off \<longleftrightarrow> power s j"
    "calls s j @ given (cdata s j) (sec_at s j) @ todo s j = concat (map (for_cpu j) js)"
    using D(6) [OF j] by (simp_all add: cpu_inv_def)
  have g: "given (cdata s j) (sec_at s' j) = given (cdata s j) (sec_at s j)"
    "role_ok (role_of (main_at s) (all_cpus s) j) (cur_fn s) (cur_arg s) (cdata s j) (sec_at s' j)"
    using F(10) C(1,2) p role_late by (cases "j = k"; auto)+
  show "cpu_inv js s' j" unfolding cpu_inv_def sec_awake_def using C g t F(1-9) by simp
qed simp

lemma role_mail: "role_ok r f a d (SClr g) \<Longrightarrow> to_execute d \<noteq> 0"
  by (cases r) (simp_all add: quiet_def working_def)

lemma smp_step_inv:
  assumes I: "smp_inv dsb js s" and st: "smp_step dsb s s'"
  shows "smp_inv dsb js s'" "potential s' < potential s"
proof -
  have "smp_inv dsb js s' \<and> potential s' < potential s" using st
  proof (cases rule: smp_step.cases)
    case main
    then show ?thesis using main_inv [OF I] potential_main by blast
  next
    case (sec k)
    have c: "cpu_inv js s k" by (rule smp_invD(6) [OF I sec(1,2)])
    have "to_execute (cdata s k) \<noteq> 0" if "sec_at s k = SClr f" for f
      using c that role_mail unfolding cpu_inv_def by metis
    then have "potential s' < potential s" by (rule potential_sec [OF sec(2,4)])
    then show ?thesis using sec_inv [OF I sec] by blast
  next
    case (late k)
    then show ?thesis using late_inv [of js s k s'] potential_late [of k s s'] I by simp
  qed
  then show "smp_inv dsb js s'" "potential s' < potential s" by simp_all
qed

lemma sec_can_step: "0 < k \<Longrightarrow> k < 4 \<Longrightarrow> power s k \<Longrightarrow> sec_at s k \<noteq> SWfe \<or> event s k \<Longrightarrow> \<exists>s'. smp_step dsb s s'"
  using smp_step.sec [of k s "the (sec_step k (sec_at s k) s)"] by (cases "sec_at s k") auto

text \<open>CPU 0 sleeps while the condition it waits for holds, and no event is on its way.\<close>

definition lost_wake_up :: "smp_t \<Rightarrow> bool" where
  "lost_wake_up s \<longleftrightarrow> (\<exists>w i. main_at s = Wfe w i \<and> i < 4 \<and> wait_done w (cdata s i)) \<and> \<not> event s 0 \<and>
     (\<forall>k. 0 < k \<and> k < 4 \<and> power s k \<longrightarrow> sec_at s k = SWfe \<and> \<not> event s k)"

text \<open>Otherwise CPU 0 does not wait for a CPU that cannot go on.\<close>

lemma stuck_at_end:
  assumes I: "smp_inv dsb js s" and stuck: "\<nexists>s'. smp_step dsb s s'"
  shows "main_at s = NextJob \<and> jobs s = [] \<or> (\<exists>i. main_at s = Failed i) \<or> \<not> dsb \<and> lost_wake_up s"
proof -
  note D = smp_invD [OF I]
  have asleep: "sec_at s k = SWfe \<and> \<not> event s k" if "0 < k" "k < 4" "power s k" for k
    using sec_can_step [OF that] stuck by blast
  have n: "main_step (main_at s) s = None" using stuck smp_step.main by (cases "main_step (main_at s) s") auto
  have lost: "\<not> dsb \<and> lost_wake_up s" if w: "main_at s = Wfe w i" for w i
  proof -
    have e: "\<not> event s 0" using n w by (simp split: if_splits)
    have i: "i < 4" using D(1) w by simp
    have f: "wait_done w (cdata s i) \<and> (0 < i \<longrightarrow> sec_at s i = SWfe)"
    proof (cases "i = 0")
      case True
      then show ?thesis using D(1,2) w by (cases w) (auto simp: wait_done_def)
    next
      case False
      have c: "cpu_inv js s i" by (rule D(6)) (use False i in auto)
      have s: "power s i \<Longrightarrow> sec_at s i = SWfe \<and> \<not> event s i" using asleep [of i] False i by simp
      have p: "power s i" using c w by (cases w) (auto simp: cpu_inv_def)
      have a: "sec_at s i = SWfe" "\<not> event s i" using s p by simp_all
      then have "to_execute (cdata s i) = 0" using c w by (simp add: cpu_inv_def sec_awake_def)
      then have "role_ok r f x (cdata s i) SWfe \<Longrightarrow> r \<noteq> Off \<Longrightarrow> started (cdata s i) \<noteq> 0 \<and> (\<forall>b. r = Sent b \<longrightarrow> finished (cdata s i) \<noteq> 0)" for r f x
        by (cases r) (auto simp: quiet_def working_def)
      moreover have "role_ok (role_of (Wfe w i) (all_cpus s) i) (cur_fn s) (cur_arg s) (cdata s i) SWfe"
        "role_of (Wfe w i) (all_cpus s) i \<noteq> Off" using c a w p by (simp_all add: cpu_inv_def)
      ultimately have f: "started (cdata s i) \<noteq> 0" "\<And>b. role_of (Wfe w i) (all_cpus s) i = Sent b \<Longrightarrow> finished (cdata s i) \<noteq> 0"
        by blast+
      have "wait_done w (cdata s i)" using f by (cases w) (simp_all add: wait_done_def)
      then show ?thesis using a by simp
    qed
    have l: "lost_wake_up s" unfolding lost_wake_up_def using w i f e asleep by blast
    have "\<not> main_awake s" using w e f by (auto simp: main_awake_def)
    then show ?thesis using D(3) l by blast
  qed
  show ?thesis using n lost by (cases "main_at s") (simp_all split: list.splits, blast?)
qed

section \<open>The checks at the boot\<close>

definition known_kind :: "boot_kind_t \<Rightarrow> bool" where "known_kind k \<longleftrightarrow> k = BOOT_KIND_PSCI \<or> k = BOOT_KIND_SPIN"

definition homogeneous :: "(nat \<Rightarrow> arm_implementation) \<Rightarrow> bool" where
  "homogeneous h \<longleftrightarrow> (\<forall>k<4. arch_implementation_eq (h k) (h 0))"

text \<open>What CPU 0 has found out.\<close>

fun checked :: "boot_kind_t \<Rightarrow> (nat \<Rightarrow> arm_implementation) \<Rightarrow> job list \<Rightarrow> job list \<Rightarrow> main_pc \<Rightarrow> bool" where
  "checked kind h js q (Boot i) = (q = js \<and> (i = 1 \<or> known_kind kind))"
| "checked kind h js q (Wait w i) = (if w = BootW \<or> w = AllW then q = js \<and> known_kind kind else known_kind kind \<and> homogeneous h)"
| "checked kind h js q (Wfe w i) = (if w = BootW \<or> w = AllW then q = js \<and> known_kind kind else known_kind kind \<and> homogeneous h)"
| "checked kind h js q (Check i) = (q = js \<and> known_kind kind \<and> (\<forall>k<i. arch_implementation_eq (h k) (h 0)))"
| "checked kind h js q (Failed i) = (q = js \<and> \<not> (known_kind kind \<and> homogeneous h))"
| "checked kind h js q p = (known_kind kind \<and> homogeneous h)"

definition boot_inv :: "boot_kind_t \<Rightarrow> (nat \<Rightarrow> arm_implementation) \<Rightarrow> job list \<Rightarrow> smp_t \<Rightarrow> bool" where
  "boot_inv kind h js s \<longleftrightarrow> boot_kind s = kind \<and> hw s = h \<and> impls s 0 = h 0 \<and>
     (\<forall>k. 0 < k \<and> sec_at s k \<noteq> SImpl \<longrightarrow> impls s k = h k) \<and> checked kind h js (jobs s) (main_at s)"

lemma smp_init_boot: "boot_inv kind h js (smp_init kind h im d js)"
  by (simp add: boot_inv_def smp_init_def smp_ops)

lemma checked_wait:
  assumes "checked kind h js q (Wait w i)"
  shows "checked kind h js q (after_wait w i)"
  using assms by (cases w) (simp_all add: after_wait_def)

lemma main_boot:
  assumes I: "smp_inv dsb js s" and B: "boot_inv kind h js s" and st: "main_step (main_at s) s = Some s'"
  shows "boot_inv kind h js s'"
proof -
  have frame: "boot_kind s' = boot_kind s" "hw s' = hw s" "impls s' = impls s" "sec_at s' = sec_at s"
    using st by (cases "main_at s"; auto simp: smp_ops start_job_def split: if_splits list.splits job.splits)+
  note D = smp_invD [OF I]
  have c: "checked kind h js (jobs s) (main_at s)" and k: "boot_kind s = kind" using B by (simp_all add: boot_inv_def)
  have "checked kind h js (jobs s') (main_at s')"
  proof (cases "main_at s")
    case (Boot i)
    then show ?thesis using st c k by (auto simp: main_goto_def known_kind_def split: if_splits)
  next
    case (Wait w i)
    then show ?thesis using st c checked_wait by (auto simp: main_goto_def split: if_splits)
  next
    case (Wfe w i)
    then show ?thesis using st c by (auto simp: main_goto_def split: if_splits)
  next
    case (Check i)
    have q: "impls s j = h j" if "j < 4" for j
    proof (cases "j = 0")
      case True
      then show ?thesis using B by (simp add: boot_inv_def)
    next
      case False
      have "quiet (cdata s j) (sec_at s j)" using D(6) [of j] that False Check by (simp add: cpu_inv_def)
      then show ?thesis using B False by (auto simp: boot_inv_def quiet_def)
    qed
    have "i \<le> 4" using D(1) Check by simp
    then show ?thesis using st c q [of i] q [of 0] Check
      by (auto simp: main_goto_def homogeneous_def less_Suc_eq split: if_splits)
  next
    case NextJob
    then obtain j js' where "jobs s = j # js'" "s' = start_job j (s\<lparr>jobs := js'\<rparr>)" "job_ok j"
      using st D(4) by (auto split: list.splits)
    then show ?thesis using c NextJob by (cases j) (auto simp: start_job_def main_goto_def)
  qed (use st c in \<open>auto simp: smp_ops split: if_splits\<close>)
  then show ?thesis using B frame by (simp add: boot_inv_def)
qed

lemma sec_boot:
  assumes k: "0 < k" and B: "boot_inv kind h js s" and st: "sec_step k (sec_at s k) s = Some s'"
  shows "boot_inv kind h js s'"
proof -
  have f: "boot_kind s' = boot_kind s" "hw s' = hw s" "impls s' 0 = impls s 0" "jobs s' = jobs s" "main_at s' = main_at s"
    using st k by (cases "sec_at s k"; auto simp: smp_ops split: if_splits)+
  have i: "sec_at s k \<noteq> SImpl \<Longrightarrow> impls s' = impls s" "sec_at s k = SImpl \<Longrightarrow> impls s' = (impls s)(k := hw s k)"
    "j \<noteq> k \<Longrightarrow> sec_at s' j = sec_at s j" for j
    using st by (cases "sec_at s k"; auto simp: smp_ops split: if_splits)+
  have "impls s' j = hw s j" if "0 < j" "sec_at s' j \<noteq> SImpl" for j
    using that B i k by (cases "j = k"; cases "sec_at s k = SImpl") (simp_all add: boot_inv_def)
  then show ?thesis using B f by (simp add: boot_inv_def)
qed

lemma late_boot:
  assumes "0 < k" "boot_inv kind h js s" "sec_late k (sec_at s k) s = Some s'"
  shows "boot_inv kind h js s'"
  using assms by (cases "sec_at s k") (auto simp: boot_inv_def smp_ops split: if_splits)

lemma smp_run:
  assumes "list_all job_ok js" "(smp_step dsb ^^ m) (smp_init kind h im d js) s"
  shows "smp_inv dsb js s \<and> boot_inv kind h js s \<and> m + potential s \<le> potential (smp_init kind h im d js)"
  using assms(2)
proof (induction m arbitrary: s)
  case 0
  then show ?case using smp_init_inv [OF assms(1), of dsb kind h im d] smp_init_boot [of kind h js im d] by simp
next
  case (Suc m)
  then obtain s1 where r: "(smp_step dsb ^^ m) (smp_init kind h im d js) s1" "smp_step dsb s1 s" by auto
  note IH = Suc.IH [OF r(1)]
  have "boot_inv kind h js s" using r(2) IH
    by (cases rule: smp_step.cases) (blast intro: main_boot sec_boot late_boot)+
  then show ?case using IH smp_step_inv [of dsb js s1 s] r(2) by simp
qed

text \<open>Where a run that cannot go on is.\<close>

lemma smp_end:
  assumes I: "smp_inv dsb js s" and B: "boot_inv kind h js s" and stuck: "\<nexists>s'. smp_step dsb s s'"
  shows "(if known_kind kind \<and> homogeneous h
          then main_at s = NextJob \<and> jobs s = [] \<and> (\<forall>k < 4. calls s k = concat (map (for_cpu k) js))
          else (\<exists>i. main_at s = Failed i) \<and> (\<forall>k < 4. calls s k = [])) \<or> \<not> dsb \<and> lost_wake_up s"
  using stuck_at_end [OF I stuck]
proof (elim disjE exE conjE)
  assume e: "main_at s = NextJob" "jobs s = []"
  have "calls s k = concat (map (for_cpu k) js)" if "k < 4" for k
    using smp_invD(5) [OF I] smp_invD(6) [OF I, of k] that e by (cases "k = 0") (auto simp: todo_def cpu_inv_def)
  then show ?thesis using B e by (simp add: boot_inv_def)
next
  fix i assume e: "main_at s = Failed i"
  have "jobs s = js" "\<not> (known_kind kind \<and> homogeneous h)" using B e by (simp_all add: boot_inv_def)
  moreover have "calls s k = []" if "k < 4" for k
    using smp_invD(5) [OF I] smp_invD(6) [OF I, of k] that e \<open>jobs s = js\<close> by (cases "k = 0") (auto simp: todo_def cpu_inv_def)
  ultimately show ?thesis using e by auto
qed blast

text \<open>A run by a schedule: the CPU of each step, and whether it is the reordered one.\<close>

definition scheduled :: "nat \<times> bool \<Rightarrow> smp_t \<Rightarrow> smp_t option" where
  "scheduled c s = (case c of (k, l) \<Rightarrow>
     if k = 0 then main_step (main_at s) s
     else if 4 \<le> k \<or> \<not> power s k then None
     else if l then sec_late k (sec_at s k) s else sec_step k (sec_at s k) s)"

fun replay :: "(nat \<times> bool) list \<Rightarrow> smp_t \<Rightarrow> smp_t option" where
  "replay [] s = Some s"
| "replay (c # cs) s = (case scheduled c s of None \<Rightarrow> None | Some s1 \<Rightarrow> replay cs s1)"

lemma scheduled_step: "scheduled (k, l) s = Some s' \<Longrightarrow> smp_step False s s'"
  by (auto simp: scheduled_def intro: smp_step.intros split: if_splits)

lemma replay_run: "replay cs s = Some s' \<Longrightarrow> (smp_step False ^^ length cs) s s'"
proof (induction cs arbitrary: s)
  case (Cons c cs)
  then obtain s1 where "scheduled c s = Some s1" "replay cs s1 = Some s'" by (auto split: option.splits)
  then show ?case using Cons.IH [of s1] scheduled_step [of "fst c" "snd c" s s1]
    by (auto simp: relpowp_commute [symmetric] simp del: relpowp.simps(2) intro!: relpowp_Suc_I2)
qed simp

text \<open>
  Without the \<open>dsb\<close> the boot can hang: CPU 1 sends its event before \<open>started\<close> is seen, CPU 0 wakes, tests and sleeps
  again, and no other event comes.
\<close>

definition hang :: "(nat \<times> bool) list" where
  "hang = [(0, False), (0, False), (0, False), (0, False), (1, False), (1, False), (1, True), (0, False), (0, False),
     (1, False), (1, False), (1, False), (1, False)]"

lemma boot_can_hang:
  "\<exists>m s. (smp_step False ^^ m) (smp_init BOOT_KIND_PSCI h im d js) s \<and> (\<nexists>s'. smp_step False s s') \<and> lost_wake_up s"
proof -
  let ?s = "the (replay hang (smp_init BOOT_KIND_PSCI h im d js))"
  have r: "replay hang (smp_init BOOT_KIND_PSCI h im d js) = Some ?s"
    by (simp add: hang_def scheduled_def smp_init_def smp_ops wait_done_def cpu_data_init_def)
  have s: "main_at ?s = Wfe BootW 1" "\<not> event ?s 0" "\<not> event ?s 1" "started (cdata ?s 1) = 1" "sec_at ?s 1 = SWfe"
    "power ?s = (\<lambda>k. k = 1)"
    by (auto simp: hang_def scheduled_def smp_init_def smp_ops wait_done_def cpu_data_init_def fun_eq_iff)
  have l: "lost_wake_up ?s" unfolding lost_wake_up_def using s
    by (intro conjI exI [of _ BootW] exI [of _ 1]) (auto simp: wait_done_def)
  have "\<not> smp_step False ?s s'" for s' using s by (auto elim!: smp_step.cases)
  then show ?thesis using replay_run [OF r] l by blast
qed



end
