(* ===== verification/Bakery.thy ===== *)
theory Bakery
  imports Prelude
begin

text \<open>
  The lock used before the MMU is on (\<open>lamport_lock\<close>, \<open>lamport_unlock\<close> of \<open>lib/arch/sync.c\<close>), a
  bakery lock. Every read and write of the shared \<open>volatile\<close> fields is a step of its own, so the steps of
  the CPUs interleave between any two of them: \<open>get_ticket\<close> reads a number twice, once to compare it and
  once to take it, and \<open>lex_less\<close> reads the other's number up to twice after the test for zero. The
  \<open>dmb\<close>s make the accesses happen in program order, which is what the interleaving assumes.
\<close>

section \<open>The program of a CPU\<close>

text \<open>
  Where a CPU is: outside; at the first and the second read of \<open>number[j]\<close> in \<open>get_ticket\<close> with the
  maximum so far; about to store its ticket; about to clear \<open>entering\<close>; waiting for \<open>entering[j]\<close>; at
  the three reads of \<open>number[j]\<close> in the second wait; or holding the lock.
\<close>

datatype bpc = Out | Max1 nat u32 | Max2 nat u32 | Assign u32 | Clear | Ent nat | Num1 nat | Num2 nat | Num3 nat | Crit

record lamport_lock_t =
  entering :: "nat \<Rightarrow> bool"
  number :: "nat \<Rightarrow> u32"
  pc :: "nat \<Rightarrow> bpc"

definition lamport_init :: lamport_lock_t where
  "lamport_init = \<lparr>entering = \<lambda>_. False, number = \<lambda>_. 0, pc = \<lambda>_. Out\<rparr>"

definition goto :: "nat \<Rightarrow> bpc \<Rightarrow> lamport_lock_t \<Rightarrow> lamport_lock_t" where
  "goto i p s = s\<lparr>pc := (pc s)(i := p)\<rparr>"

text \<open>One access of CPU \<open>i\<close>; none when it spins or is at the end.\<close>

fun lock_access :: "nat \<Rightarrow> nat \<Rightarrow> bpc \<Rightarrow> lamport_lock_t \<Rightarrow> lamport_lock_t option" where
  "lock_access n i Out s = Some (goto i (Max1 0 0) (s\<lparr>entering := (entering s)(i := True)\<rparr>))"
| "lock_access n i (Max1 j m) s =
     (if j < n then Some (goto i (if m < number s j then Max2 j m else Max1 (Suc j) m) s)
      else Some (goto i (Assign (1 + m)) s))"
| "lock_access n i (Max2 j m) s = Some (goto i (Max1 (Suc j) (number s j)) s)"
| "lock_access n i (Assign t) s = Some (goto i Clear (s\<lparr>number := (number s)(i := t)\<rparr>))"
| "lock_access n i Clear s = Some (goto i (Ent 0) (s\<lparr>entering := (entering s)(i := False)\<rparr>))"
| "lock_access n i (Ent j) s =
     (if j < n then if entering s j then None else Some (goto i (Num1 j) s) else Some (goto i Crit s))"
| "lock_access n i (Num1 j) s = Some (goto i (if number s j = 0 then Ent (Suc j) else Num2 j) s)"
| "lock_access n i (Num2 j) s = Some (goto i (if number s j < number s i then Num1 j else Num3 j) s)"
| "lock_access n i (Num3 j) s = Some (goto i (if number s j = number s i \<and> j < i then Num1 j else Ent (Suc j)) s)"
| "lock_access n i Crit s = Some (goto i Out (s\<lparr>number := (number s)(i := 0)\<rparr>))"

inductive lamport_step :: "nat \<Rightarrow> lamport_lock_t \<Rightarrow> lamport_lock_t \<Rightarrow> bool" where
  access: "i < n \<Longrightarrow> lock_access n i (pc s i) s = Some s' \<Longrightarrow> lamport_step n s s'"

text \<open>
  The states of runs in which no ticket is the largest number of 32 bits: the next one would wrap to 0,
  which means no ticket. Tickets only grow while the lock is never free.
\<close>

inductive lamport_reach :: "nat \<Rightarrow> lamport_lock_t \<Rightarrow> bool" for n where
  init: "lamport_reach n lamport_init"
| step: "lamport_reach n s \<Longrightarrow> lamport_step n s s' \<Longrightarrow> (\<forall>i < n. number s' i \<noteq> - 1) \<Longrightarrow> lamport_reach n s'"

inductive_cases lamport_stepE: "lamport_step n s s'"

section \<open>The invariant\<close>

fun doorway :: "bpc \<Rightarrow> bool" where
  "doorway (Max1 j m) = True" | "doorway (Max2 j m) = True" | "doorway (Assign t) = True" | "doorway Clear = True" | "doorway _ = False"

fun ticketed :: "bpc \<Rightarrow> bool" where
  "ticketed Out = False" | "ticketed (Max1 j m) = False" | "ticketed (Max2 j m) = False" | "ticketed (Assign t) = False" | "ticketed _ = True"

text \<open>The CPU has seen \<open>j\<close> outside its doorway since it has its ticket; and has let \<open>j\<close> be behind it.\<close>

fun past_door :: "bpc \<Rightarrow> nat \<Rightarrow> bool" where
  "past_door (Ent q) j = (j < q)" | "past_door (Num1 q) j = (j \<le> q)" | "past_door (Num2 q) j = (j \<le> q)"
| "past_door (Num3 q) j = (j \<le> q)" | "past_door Crit j = True" | "past_door _ j = False"

fun past_all :: "bpc \<Rightarrow> nat \<Rightarrow> bool" where
  "past_all (Ent q) j = (j < q)" | "past_all (Num1 q) j = (j < q)" | "past_all (Num2 q) j = (j < q)"
| "past_all (Num3 q) j = (j < q)" | "past_all Crit j = True" | "past_all _ j = False"

text \<open>What the maximum so far, or the ticket, is at least.\<close>

fun ticket_above :: "nat \<Rightarrow> bpc \<Rightarrow> u32 \<Rightarrow> bool" where
  "ticket_above l (Max1 q m) x = (l < q \<longrightarrow> x \<le> m)"
| "ticket_above l (Max2 q m) x = (l < q \<longrightarrow> x \<le> m)"
| "ticket_above l (Assign t) x = (x < t)"
| "ticket_above l _ x = True"

definition local_ok :: "lamport_lock_t \<Rightarrow> nat \<Rightarrow> bool" where
  "local_ok s i \<longleftrightarrow> entering s i = doorway (pc s i) \<and> (number s i \<noteq> 0) = ticketed (pc s i) \<and>
     (case pc s i of Max1 q m \<Rightarrow> m \<noteq> - 1 | Max2 q m \<Rightarrow> m \<noteq> - 1 | Assign t \<Rightarrow> t \<noteq> 0 | _ \<Rightarrow> True)"

definition behind :: "lamport_lock_t \<Rightarrow> nat \<Rightarrow> nat \<Rightarrow> bool" where
  "behind s i j \<longleftrightarrow> number s j = 0 \<or> number s i < number s j \<or> (number s i = number s j \<and> i < j)"

definition pair_ok :: "lamport_lock_t \<Rightarrow> nat \<Rightarrow> nat \<Rightarrow> bool" where
  "pair_ok s i j \<longleftrightarrow>
     (past_door (pc s i) j \<longrightarrow> ticket_above i (pc s j) (number s i)) \<and>
     (past_all (pc s i) j \<longrightarrow> behind s i j) \<and>
     (pc s i = Num3 j \<longrightarrow> number s j = 0 \<or> number s i \<le> number s j)"

definition second_read_ok :: "lamport_lock_t \<Rightarrow> nat \<Rightarrow> bool" where
  "second_read_ok s j \<longleftrightarrow>
     (\<forall>q m. pc s j = Max2 q m \<longrightarrow> m < number s q \<or> (\<forall>l < q. l \<noteq> j \<longrightarrow> \<not> past_door (pc s l) j))"

definition lamport_inv :: "nat \<Rightarrow> lamport_lock_t \<Rightarrow> bool" where
  "lamport_inv n s \<longleftrightarrow> (\<forall>j \<ge> n. pc s j = Out) \<and> (\<forall>i. local_ok s i) \<and> (\<forall>i j. i \<noteq> j \<longrightarrow> pair_ok s i j) \<and> (\<forall>j. second_read_ok s j)"

lemmas lamport_defs = local_ok_def pair_ok_def second_read_ok_def behind_def goto_def

lemma lamport_init_inv: "lamport_inv n lamport_init"
  by (simp add: lamport_inv_def lamport_defs lamport_init_def)

lemma succ_gt:
  assumes "m \<noteq> - 1" "x \<le> m"
  shows "x < 1 + (m :: u32)"
proof -
  have "unat m \<noteq> 4294967295" using assms(1) by (simp add: word_unat_eq_iff unsigned_minus_1_eq_mask mask_eq_exp_minus_1)
  moreover have "unat m < 4294967296" by (rule u32_unat_lt)
  ultimately have "unat m < 4294967295" by linarith
  then have "unat (1 + m) = Suc (unat m)" by (simp add: unat_word_ariths)
  then show ?thesis using assms(2) by (simp add: word_less_nat_alt word_le_nat_alt)
qed

text \<open>What a step of one CPU has to show: its own clauses, and those of the others about it.\<close>

lemma frame_inv:
  assumes I: "lamport_inv n s" and i: "i < n"
    and same: "\<And>k. k \<noteq> i \<Longrightarrow> pc s' k = pc s k \<and> number s' k = number s k \<and> entering s' k = entering s k"
    and own: "local_ok s' i" "second_read_ok s' i"
    and pairs: "\<And>j. j \<noteq> i \<Longrightarrow> pair_ok s' i j \<and> pair_ok s' j i"
    and door: "\<And>j. j \<noteq> i \<Longrightarrow> doorway (pc s j) \<Longrightarrow> past_door (pc s' i) j \<Longrightarrow> past_door (pc s i) j"
    and read: "\<And>j m. j \<noteq> i \<Longrightarrow> pc s j = Max2 i m \<Longrightarrow> m < number s i \<Longrightarrow>
      m < number s' i \<or> (\<forall>l < i. l \<noteq> j \<longrightarrow> \<not> past_door (pc s l) j)"
  shows "lamport_inv n s'"
  unfolding lamport_inv_def
proof (intro conjI allI impI)
  show "pc s' j = Out" if "n \<le> j" for j using I i same [of j] that by (auto simp: lamport_inv_def)
  have L: "\<And>k. local_ok s k" and P: "\<And>j k. j \<noteq> k \<Longrightarrow> pair_ok s j k" and R: "\<And>k. second_read_ok s k"
    using I by (simp_all add: lamport_inv_def)
  show "local_ok s' k" for k
    using own(1) same [of k] L [of k] by (cases "k = i") (simp_all add: local_ok_def)
  show "pair_ok s' j k" if "j \<noteq> k" for j k
  proof (cases "j = i \<or> k = i")
    case True
    then show ?thesis using pairs [of j] pairs [of k] that by (cases "j = i") auto
  next
    case False
    then show ?thesis using P [OF that] same [of j] same [of k] by (simp add: pair_ok_def behind_def)
  qed
  show "second_read_ok s' j" for j
  proof (cases "j = i")
    case True
    then show ?thesis using own(2) by simp
  next
    case False
    note sj = same [OF False]
    show ?thesis unfolding second_read_ok_def
    proof (intro allI impI)
      fix q m assume q: "pc s' j = Max2 q m"
      then have pj: "pc s j = Max2 q m" using sj by simp
      have keep: "\<forall>l < q. l \<noteq> j \<longrightarrow> \<not> past_door (pc s' l) j" if n: "\<forall>l < q. l \<noteq> j \<longrightarrow> \<not> past_door (pc s l) j"
      proof (intro allI impI)
        fix l assume l: "l < q" "l \<noteq> j"
        show "\<not> past_door (pc s' l) j"
        proof (cases "l = i")
          case True
          then show ?thesis using door [OF False] pj n l by auto
        next
          case no: False
          then show ?thesis using same [OF no] n l by simp
        qed
      qed
      from R [of j] pj consider "m < number s q" | "\<forall>l < q. l \<noteq> j \<longrightarrow> \<not> past_door (pc s l) j"
        unfolding second_read_ok_def by blast
      then show "m < number s' q \<or> (\<forall>l < q. l \<noteq> j \<longrightarrow> \<not> past_door (pc s' l) j)"
      proof cases
        case 1
        show ?thesis
        proof (cases "q = i")
          case True
          then show ?thesis using read [OF False, of m] pj 1 keep by auto
        next
          case no: False
          then show ?thesis using same [OF no] 1 by simp
        qed
      next
        case 2
        then show ?thesis using keep by blast
      qed
    qed
  qed
qed


lemma inv_D:
  assumes "lamport_inv n s"
  shows "local_ok s i" "i \<noteq> j \<Longrightarrow> pair_ok s i j" "second_read_ok s j" "n \<le> j \<Longrightarrow> pc s j = Out"
  using assms by (simp_all add: lamport_inv_def)

lemma past_all_door: "past_all p j \<Longrightarrow> past_door p j"
  by (cases p) auto

lemma past_door_ticketed: "past_door p j \<Longrightarrow> ticketed p"
  by (cases p) auto

lemma no_door_above: "\<not> doorway p \<Longrightarrow> ticket_above l p x"
  by (cases p) auto

lemmas lock_case_defs = local_ok_def pair_ok_def behind_def goto_def

text \<open>Most steps of CPU \<open>i\<close> change only where it is, and neither enter nor leave the doorway.\<close>

lemma move_inv:
  assumes I: "lamport_inv n s" and i: "i < n" and s': "s' = goto i p s"
    and p: "doorway p = doorway (pc s i)" "ticketed p = ticketed (pc s i)" "local_ok s' i" "second_read_ok s' i"
    and above: "\<And>j. j \<noteq> i \<Longrightarrow> past_door (pc s j) i \<Longrightarrow> ticket_above j p (number s j)"
    and mine: "\<And>j. j \<noteq> i \<Longrightarrow> past_door p j \<Longrightarrow> ticket_above i (pc s j) (number s i)"
      "\<And>j. j \<noteq> i \<Longrightarrow> past_all p j \<Longrightarrow> behind s i j"
      "\<And>j. p = Num3 j \<Longrightarrow> j \<noteq> i \<Longrightarrow> number s j = 0 \<or> number s i \<le> number s j"
    and door: "\<And>j. j \<noteq> i \<Longrightarrow> doorway (pc s j) \<Longrightarrow> past_door p j \<Longrightarrow> past_door (pc s i) j"
  shows "lamport_inv n s'"
proof (rule frame_inv [OF I i])
  fix j assume j: "j \<noteq> i"
  have P: "pair_ok s j i" using inv_D(2) [OF I] j by simp
  show "pair_ok s' i j \<and> pair_ok s' j i"
    using P above [OF j] mine(1,2) [OF j] mine(3) [of j] j by (simp add: s' pair_ok_def behind_def goto_def)
  show "past_door (pc s i) j" if "doorway (pc s j)" "past_door (pc s' i) j"
    using door [OF j] that by (simp add: s' goto_def)
qed (use p in \<open>simp_all add: s' goto_def\<close>)

section \<open>Every step keeps it\<close>

lemma out_inv:
  assumes I: "lamport_inv n s" and i: "i < n" and p: "pc s i = Out"
  shows "lamport_inv n (goto i (Max1 0 0) (s\<lparr>entering := (entering s)(i := True)\<rparr>))" (is "lamport_inv n ?s")
proof (rule frame_inv [OF I i])
  note L = inv_D(1) [OF I, of i]
  show "local_ok ?s i" using L p by (simp add: lock_case_defs)
  show "second_read_ok ?s i" by (simp add: goto_def second_read_ok_def)
  fix j assume j: "j \<noteq> i"
  have "pair_ok s j i" using inv_D(2) [OF I] j by simp
  then show "pair_ok ?s i j \<and> pair_ok ?s j i" using L p j by (simp add: lock_case_defs)
qed (simp_all add: goto_def p)

lemma assign_inv:
  assumes I: "lamport_inv n s" and i: "i < n" and p: "pc s i = Assign t"
  shows "lamport_inv n (goto i Clear (s\<lparr>number := (number s)(i := t)\<rparr>))" (is "lamport_inv n ?s")
proof (rule frame_inv [OF I i])
  note L = inv_D(1) [OF I, of i]
  show "local_ok ?s i" using L p by (simp add: lock_case_defs)
  show "second_read_ok ?s i" by (simp add: goto_def second_read_ok_def)
  fix j assume j: "j \<noteq> i"
  have P: "pair_ok s j i" using inv_D(2) [OF I] j by simp
  then have a: "past_door (pc s j) i \<Longrightarrow> number s j < t" using p by (simp add: pair_ok_def)
  have "pair_ok ?s j i" using a past_all_door [of "pc s j" i] j by (auto simp: pair_ok_def behind_def goto_def)
  then show "pair_ok ?s i j \<and> pair_ok ?s j i" using j by (simp add: pair_ok_def goto_def)
  fix m assume "pc s j = Max2 i m" "m < number s i"
  then show "m < number ?s i \<or> (\<forall>l < i. l \<noteq> j \<longrightarrow> \<not> past_door (pc s l) j)"
    using L p by (simp add: local_ok_def)
qed (simp_all add: goto_def p)

lemma clear_inv:
  assumes I: "lamport_inv n s" and i: "i < n" and p: "pc s i = Clear"
  shows "lamport_inv n (goto i (Ent 0) (s\<lparr>entering := (entering s)(i := False)\<rparr>))" (is "lamport_inv n ?s")
proof (rule frame_inv [OF I i])
  note L = inv_D(1) [OF I, of i]
  show "local_ok ?s i" using L p by (simp add: lock_case_defs)
  show "second_read_ok ?s i" by (simp add: goto_def second_read_ok_def)
  fix j assume j: "j \<noteq> i"
  have "pair_ok s j i" using inv_D(2) [OF I] j by simp
  then show "pair_ok ?s i j \<and> pair_ok ?s j i" using p j by (simp add: pair_ok_def behind_def goto_def)
qed (simp_all add: goto_def p)

lemma crit_inv:
  assumes I: "lamport_inv n s" and i: "i < n" and p: "pc s i = Crit"
  shows "lamport_inv n (goto i Out (s\<lparr>number := (number s)(i := 0)\<rparr>))" (is "lamport_inv n ?s")
proof (rule frame_inv [OF I i])
  note L = inv_D(1) [OF I]
  show "local_ok ?s i" using L [of i] p by (simp add: lock_case_defs)
  show "second_read_ok ?s i" by (simp add: goto_def second_read_ok_def)
  fix j assume j: "j \<noteq> i"
  then show "pair_ok ?s i j \<and> pair_ok ?s j i" by (simp add: pair_ok_def behind_def goto_def)
  fix m assume m: "pc s j = Max2 i m" "m < number s i"
  have False if l: "l < i" "l \<noteq> j" "past_door (pc s l) j" for l
  proof -
    have "number s l \<le> m" using inv_D(2) [OF I l(2)] l m(1) by (simp add: pair_ok_def)
    moreover have "number s l \<noteq> 0" using past_door_ticketed [OF l(3)] L [of l] by (simp add: local_ok_def)
    moreover have "behind s i l" using inv_D(2) [OF I, of i l] l(1) p by (simp add: pair_ok_def)
    ultimately show False using m(2) l(1) by (auto simp: behind_def)
  qed
  then show "m < number ?s i \<or> (\<forall>l < i. l \<noteq> j \<longrightarrow> \<not> past_door (pc s l) j)" by blast
qed (simp_all add: goto_def p)

lemma max1_inv:
  assumes I: "lamport_inv n s" and i: "i < n" and p: "pc s i = Max1 q m" and st: "lock_access n i (pc s i) s = Some s'"
  shows "lamport_inv n s'"
proof (cases "q < n")
  case True
  have s': "s' = goto i (if m < number s q then Max2 q m else Max1 (Suc q) m) s" using st p True by simp
  show ?thesis
  proof (rule move_inv [OF I i s'])
    show "local_ok s' i" using inv_D(1) [OF I, of i] p by (simp add: s' lock_case_defs)
    show "second_read_ok s' i" by (simp add: s' goto_def second_read_ok_def)
    fix j assume j: "j \<noteq> i" "past_door (pc s j) i"
    then have "ticket_above j (Max1 q m) (number s j)" using inv_D(2) [OF I j(1)] p by (simp add: pair_ok_def)
    then show "ticket_above j (if m < number s q then Max2 q m else Max1 (Suc q) m) (number s j)"
      by (auto simp: less_Suc_eq)
  qed (simp_all add: p split: if_splits)
next
  case False
  have s': "s' = goto i (Assign (1 + m)) s" using st p False by simp
  have m: "m \<noteq> - 1" using inv_D(1) [OF I, of i] p by (simp add: local_ok_def)
  show ?thesis
  proof (rule move_inv [OF I i s'])
    show "local_ok s' i" using inv_D(1) [OF I, of i] p succ_gt [OF m, of 0] by (auto simp: s' lock_case_defs)
    show "second_read_ok s' i" by (simp add: s' goto_def second_read_ok_def)
    fix j assume j: "j \<noteq> i" "past_door (pc s j) i"
    then have "j < n" using inv_D(4) [OF I, of j] by (cases "n \<le> j") auto
    then have "number s j \<le> m" using inv_D(2) [OF I j(1)] p j(2) False by (simp add: pair_ok_def)
    then show "ticket_above j (Assign (1 + m)) (number s j)" using succ_gt [OF m] by simp
  qed (simp_all add: p)
qed

lemma max2_inv:
  assumes I: "lamport_inv n s" and i: "i < n" and p: "pc s i = Max2 q m" and w: "number s q \<noteq> - 1"
  shows "lamport_inv n (goto i (Max1 (Suc q) (number s q)) s)" (is "lamport_inv n ?s")
proof (rule move_inv [OF I i refl])
  show "local_ok ?s i" using inv_D(1) [OF I, of i] p w by (simp add: lock_case_defs)
  show "second_read_ok ?s i" by (simp add: goto_def second_read_ok_def)
  fix j assume j: "j \<noteq> i" "past_door (pc s j) i"
  have "j < q \<Longrightarrow> number s j \<le> m" using inv_D(2) [OF I j(1)] p j(2) by (simp add: pair_ok_def)
  moreover have "j < q \<Longrightarrow> m < number s q" using inv_D(3) [OF I, of i] p j by (auto simp: second_read_ok_def)
  ultimately show "ticket_above j (Max1 (Suc q) (number s q)) (number s j)" by (auto simp: less_Suc_eq)
qed (simp_all add: p)

text \<open>The waits change nothing but where the CPU is, after the doorway.\<close>

lemma wait_inv:
  assumes I: "lamport_inv n s" and i: "i < n" and p: "ticketed (pc s i)" "\<not> doorway (pc s i)" and a: "ticketed a" "\<not> doorway a"
    and mine: "\<And>j. j \<noteq> i \<Longrightarrow> past_door a j \<Longrightarrow> past_door (pc s i) j \<or> \<not> doorway (pc s j)"
      "\<And>j. j \<noteq> i \<Longrightarrow> past_all a j \<Longrightarrow> past_all (pc s i) j \<or> behind s i j"
      "\<And>j. a = Num3 j \<Longrightarrow> j \<noteq> i \<Longrightarrow> number s j = 0 \<or> number s i \<le> number s j"
  shows "lamport_inv n (goto i a s)" (is "lamport_inv n ?s")
proof (rule move_inv [OF I i refl])
  show "local_ok ?s i" using inv_D(1) [OF I, of i] p a by (cases a) (simp_all add: lock_case_defs)
  show "second_read_ok ?s i" using a by (cases a) (simp_all add: goto_def second_read_ok_def)
  fix j assume j: "j \<noteq> i"
  have P: "pair_ok s i j" using inv_D(2) [OF I] j by simp
  show "ticket_above j a (number s j)" by (rule no_door_above [OF a(2)])
  show "ticket_above i (pc s j) (number s i)" if "past_door a j"
    using mine(1) [OF j that] P no_door_above by (auto simp: pair_ok_def)
  show "behind s i j" if "past_all a j" using mine(2) [OF j that] P by (auto simp: pair_ok_def)
  show "past_door (pc s i) j" if "doorway (pc s j)" "past_door a j" using mine(1) [OF j that(2)] that(1) by blast
qed (use p a mine(3) in simp_all)

lemma ent_inv:
  assumes I: "lamport_inv n s" and i: "i < n" and p: "pc s i = Ent q" and st: "lock_access n i (pc s i) s = Some s'"
  shows "lamport_inv n s'"
proof (cases "q < n")
  case True
  then have e: "\<not> entering s q" "s' = goto i (Num1 q) s" using st p by (simp_all split: if_splits)
  have d: "\<not> doorway (pc s q)" using e(1) inv_D(1) [OF I, of q] by (simp add: local_ok_def)
  show ?thesis unfolding e(2) by (rule wait_inv [OF I i]) (auto simp: p le_less d)
next
  case False
  then have s': "s' = goto i Crit s" using st p by simp
  have out: "j < q \<or> pc s j = Out" for j using inv_D(4) [OF I, of j] False by (cases "n \<le> j") auto
  have zero: "j < q \<or> number s j = 0" for j using out [of j] inv_D(1) [OF I, of j] by (auto simp: local_ok_def)
  show ?thesis unfolding s'
  proof (rule wait_inv [OF I i])
    fix j show "past_door (pc s i) j \<or> \<not> doorway (pc s j)" using out [of j] by (auto simp: p)
    show "past_all (pc s i) j \<or> behind s i j" using zero [of j] by (auto simp: p behind_def)
  qed (simp_all add: p)
qed

lemma num_inv:
  assumes I: "lamport_inv n s" and i: "i < n" and p: "pc s i = Num1 q \<or> pc s i = Num2 q \<or> pc s i = Num3 q" and st: "lock_access n i (pc s i) s = Some s'"
  shows "lamport_inv n s'"
proof -
  have third: "pc s i = Num3 q \<Longrightarrow> q \<noteq> i \<Longrightarrow> number s q = 0 \<or> number s i \<le> number s q"
    using inv_D(2) [OF I, of i q] by (simp add: pair_ok_def)
  obtain a where a: "s' = goto i a s" "a \<in> {Num1 q, Num2 q, Num3 q, Ent (Suc q)}"
    "a = Num3 q \<Longrightarrow> number s i \<le> number s q"
    "a = Ent (Suc q) \<Longrightarrow> q \<noteq> i \<Longrightarrow> behind s i q"
    using p
  proof (elim disjE)
    assume c: "pc s i = Num1 q"
    show ?thesis by (rule that [of "if number s q = 0 then Ent (Suc q) else Num2 q"]) (use st c in \<open>simp_all add: behind_def split: if_splits\<close>)
  next
    assume c: "pc s i = Num2 q"
    show ?thesis by (rule that [of "if number s q < number s i then Num1 q else Num3 q"]) (use st c in \<open>auto split: if_splits\<close>)
  next
    assume c: "pc s i = Num3 q"
    show ?thesis
      by (rule that [of "if number s q = number s i \<and> q < i then Num1 q else Ent (Suc q)"])
        (use st c third [OF c] in \<open>auto simp: behind_def split: if_splits\<close>)
  qed
  have pd: "past_door (pc s i) j = (j \<le> q)" "past_all (pc s i) j = (j < q)" for j using p by auto
  show ?thesis unfolding a(1)
  proof (rule wait_inv [OF I i])
    fix j assume j: "j \<noteq> i"
    show "past_door (pc s i) j \<or> \<not> doorway (pc s j)" if "past_door a j" using that a(2) by (auto simp: pd)
    show "past_all (pc s i) j \<or> behind s i j" if "past_all a j"
      using that a(2) a(4) j by (cases "j = q") (auto simp: pd)
    show "number s j = 0 \<or> number s i \<le> number s j" if "a = Num3 j" using that a(2,3) by auto
  qed (use p a(2) in auto)
qed

lemma access_inv:
  assumes I: "lamport_inv n s" and i: "i < n" and st: "lock_access n i (pc s i) s = Some s'" and w: "\<And>k. number s k \<noteq> - 1"
  shows "lamport_inv n s'"
proof (cases "pc s i")
  case (Max2 q m)
  then show ?thesis using max2_inv [OF I i Max2 w] st by simp
next
  case (Max1 q m)
  then show ?thesis using max1_inv [OF I i] st by simp
next
  case (Ent q)
  then show ?thesis using ent_inv [OF I i] st by simp
next
  case (Num1 q)
  then show ?thesis using num_inv [OF I i, of q] st by simp
next
  case (Num2 q)
  then show ?thesis using num_inv [OF I i, of q] st by simp
next
  case (Num3 q)
  then show ?thesis using num_inv [OF I i, of q] st by simp
next
  case Out
  then show ?thesis using out_inv [OF I i] st by simp
next
  case (Assign t)
  then show ?thesis using assign_inv [OF I i] st by simp
next
  case Clear
  then show ?thesis using clear_inv [OF I i] st by simp
next
  case Crit
  then show ?thesis using crit_inv [OF I i] st by simp
qed

lemma lamport_reach_inv: "lamport_reach n s \<Longrightarrow> lamport_inv n s \<and> (\<forall>i. number s i \<noteq> - 1)"
proof (induction rule: lamport_reach.induct)
  case init
  then show ?case using lamport_init_inv by (simp add: lamport_init_def)
next
  case (step s s')
  then have I: "lamport_inv n s'" using access_inv by (auto elim!: lamport_stepE)
  have "number s' i \<noteq> - 1" for i
    using step.hyps(3) inv_D(4) [OF I, of i] inv_D(1) [OF I, of i] by (cases "i < n") (auto simp: local_ok_def)
  then show ?case using I by blast
qed

text \<open>The state after accesses by the CPUs of a list, in that order.\<close>

fun lamport_run :: "nat \<Rightarrow> nat list \<Rightarrow> lamport_lock_t \<Rightarrow> lamport_lock_t option" where
  "lamport_run n [] s = Some s"
| "lamport_run n (i # is) s =
     (if i < n then case lock_access n i (pc s i) s of None \<Rightarrow> None
        | Some s' \<Rightarrow> if list_all (\<lambda>k. number s' k \<noteq> - 1) [0..<n] then lamport_run n is s' else None
      else None)"

lemma lamport_run_reach: "lamport_run n is s = Some s' \<Longrightarrow> lamport_reach n s \<Longrightarrow> lamport_reach n s'"
proof (induction "is" arbitrary: s)
  case (Cons i "is")
  then obtain s1 where "i < n" "lock_access n i (pc s i) s = Some s1" "\<forall>k < n. number s1 k \<noteq> - 1" "lamport_run n is s1 = Some s'"
    by (auto split: if_splits option.splits simp: list_all_iff)
  then show ?case using Cons.IH [of s1] lamport_reach.step [OF Cons.prems(2) lamport_step.access, of i s1] by blast
qed simp

text \<open>
  C33: Mutual exclusion of the boot-time lock: with each read and write of the lock a step of its own, in
  every reachable state at most one CPU is between \<open>lamport_lock\<close> and \<open>lamport_unlock\<close>. The second read of
  \<open>number[j]\<close> in \<open>get_ticket\<close>, which may return another value than the one compared, does not break it.
\<close>

theorem lamport_mutual_exclusion:
  assumes "lamport_reach n s" "pc s i = Crit" "j \<noteq> i"
  shows "pc s j \<noteq> Crit"
proof
  assume j: "pc s j = Crit"
  have I: "lamport_inv n s" using lamport_reach_inv [OF assms(1)] by simp
  have nz: "number s i \<noteq> 0" "number s j \<noteq> 0"
    using inv_D(1) [OF I, of i] inv_D(1) [OF I, of j] assms(2) j by (simp_all add: local_ok_def)
  have "behind s i j" "behind s j i" using inv_D(2) [OF I] assms(2,3) j by (auto simp: pair_ok_def)
  then have "number s i < number s j \<or> (number s i = number s j \<and> i < j)" "number s j < number s i \<or> (number s j = number s i \<and> j < i)"
    using nz by (simp_all add: behind_def)
  then show False using less_asym by (elim disjE) (blast, simp_all)
qed

text \<open>Both CPUs take ticket 1; CPU 0 has the lock and CPU 1 spins.\<close>

theorem lamport_mutual_exclusion_witness:
  "\<exists>s. lamport_reach 2 s \<and> pc s 0 = Crit \<and> number s 1 = 1 \<and> pc s 1 = Num1 0 \<and> pc s 1 \<noteq> Crit"
proof -
  have "\<exists>s. lamport_run 2 ([0, 1] @ [0, 0, 0, 1, 1, 1] @ [0, 1, 0, 1] @ [0, 0, 0, 0, 0, 0, 0, 0, 0] @ [1, 1, 1, 1]) lamport_init = Some s \<and>
      pc s 0 = Crit \<and> number s 1 = 1 \<and> pc s 1 = Num1 0"
    by (simp add: lamport_init_def goto_def list_all_iff)
  then obtain s where s: "lamport_reach 2 s" "pc s 0 = Crit" "number s 1 = 1 \<and> pc s 1 = Num1 0"
    using lamport_run_reach [OF _ lamport_reach.init] by blast
  then show ?thesis using lamport_mutual_exclusion [OF s(1,2), of 1] by auto
qed

end
