(* ===== verification/Rand.thy ===== *)
theory Rand
  imports Bits "HOL-Library.Multiset"
begin

text \<open>
  The pseudo random numbers of \<open>lib/rand.c\<close>: a 64-bit linear feedback register, ranges and the shuffle.
  The state is the seed; the lock that protects it is not a step of its own.
\<close>

section \<open>The generator\<close>

definition randn_st :: "u64 \<Rightarrow> u64" where
  "randn_st seed =
     fold (\<lambda>i st. if i mod 7 = 0 \<or> i mod 13 = 0 then st XOR (drop_bit i seed AND 0x1) else st) [0..<64] 1"

text \<open>The result is the number and the new seed, which are the same.\<close>

definition randn :: "u64 \<Rightarrow> u64 \<times> u64" where
  "randn seed = (let st = randn_st seed; new_seed = push_bit 1 seed + st in (new_seed, new_seed))"

definition randrange :: "u64 \<Rightarrow> u64 \<Rightarrow> u64 \<Rightarrow> string + u64 \<times> u64" where
  "randrange low high seed =
     (let (r, seed) = randn seed
      in if low = high then Inr (low, seed)
         else if high < low then Inl ''! randrange, low was larger than high''
         else Inr (low + r mod (high - low), seed))"

text \<open>
  The array is a list. Each round draws two indices, even for an array of one, and swaps.
\<close>

fun shuffle_loop :: "nat \<Rightarrow> 'a list \<Rightarrow> u64 \<Rightarrow> 'a list \<times> u64" where
  "shuffle_loop 0 arr seed = (arr, seed)"
| "shuffle_loop (Suc i) arr seed =
     (let n = of_nat (length arr); (x, seed) = randn seed; x = unat (x mod n);
          (y, seed) = randn seed; y = unat (y mod n);
          datum = arr ! x; arr = arr[x := arr ! y]; arr = arr[y := datum]
      in shuffle_loop i arr seed)"

definition shuffle :: "'a list \<Rightarrow> u64 \<Rightarrow> 'a list \<times> u64" where
  "shuffle arr seed = shuffle_loop (length arr) arr seed"

section \<open>The generator is a bijection\<close>

text \<open>
  The feedback bit is the parity of the tapped bits, negated. The top bit is tapped, so the step that
  shifts it out loses nothing.
\<close>

definition taps :: "nat list" where
  "taps = filter (\<lambda>i. i mod 7 = 0 \<or> i mod 13 = 0) [0..<64]"

lemma fold_filter_xor:
  "fold (\<lambda>i st. if P i then st XOR f i else st) xs (a :: u64) = fold (\<lambda>i st. st XOR f i) (filter P xs) a"
  by (induction xs arbitrary: a) auto

lemma bit_fold_xor: "bit (fold (\<lambda>i st. st XOR f i) xs (a :: u64)) n \<longleftrightarrow>
  (bit a n \<noteq> odd (length (filter (\<lambda>i. bit (f i) n) xs)))"
  by (induction xs arbitrary: a) (auto simp: bit_xor_iff)

lemma bit_randn_st: "bit (randn_st s) n \<longleftrightarrow> n = 0 \<and> even (length (filter (bit s) taps))"
proof -
  have "bit (randn_st s) n \<longleftrightarrow>
      (bit (1 :: u64) n \<noteq> odd (length (filter (\<lambda>i. bit (drop_bit i s AND 1) n) taps)))"
    by (simp add: randn_st_def fold_filter_xor bit_fold_xor taps_def del: bit_0)
  also have "filter (\<lambda>i. bit (drop_bit i s AND 1) n) taps = (if n = 0 then filter (bit s) taps else [])"
    by (auto simp: bit_simps bit_1_iff simp del: bit_0 intro!: filter_cong)
  finally show ?thesis by (auto simp: bit_1_iff)
qed

lemma bit_shl: "bit (push_bit 1 (s :: u64)) n \<longleftrightarrow> n \<noteq> 0 \<and> n < 64 \<and> bit s (n - 1)"
  by (simp only: bit_push_bit_iff) auto

lemma randn_or: "fst (randn s) = push_bit 1 s OR randn_st s"
proof -
  have "push_bit 1 s AND randn_st s = 0"
    by (rule bit_eqI) (simp only: bit_and_iff bit_shl bit_randn_st bit_0_eq bot_apply, auto)
  then have "push_bit 1 s + randn_st s = push_bit 1 s OR randn_st s"
    by (rule disjunctive_add_eq_or)
  then show ?thesis by (simp only: randn_def Let_def fst_conv)
qed

lemma bit_randn: "bit (fst (randn s)) n \<longleftrightarrow>
  (if n = 0 then even (length (filter (bit s) taps)) else n < 64 \<and> bit s (n - 1))"
  unfolding randn_or by (simp only: bit_or_iff bit_shl bit_randn_st) auto

lemma taps_last: "taps = butlast taps @ [63]"
  by code_simp

lemma taps_63: "length (filter P taps) = length (filter P (butlast taps)) + (if P 63 then 1 else 0)"
proof -
  have "length (filter P (xs @ [63])) = length (filter P xs) + (if P 63 then 1 else 0)" for xs by simp
  then show ?thesis using taps_last by metis
qed

lemma randn_inj: "fst (randn s) = fst (randn t) \<Longrightarrow> s = t"
proof -
  assume eq: "fst (randn s) = fst (randn t)"
  have low: "bit s n = bit t n" if "n < 63" for n
    using bit_randn [of s "Suc n"] bit_randn [of t "Suc n"] that eq by simp
  have b: "list_all (\<lambda>i. i < 63) (butlast taps)" by code_simp
  then have "filter (bit s) (butlast taps) = filter (bit t) (butlast taps)"
    using low b by (intro filter_cong) (auto simp: list_all_iff)
  moreover have "even (length (filter (bit s) taps)) = even (length (filter (bit t) taps))"
    using bit_randn [of s 0] bit_randn [of t 0] eq by simp
  ultimately have "bit s 63 = bit t 63"
    unfolding taps_63 by (auto split: if_splits)
  show "s = t"
  proof (rule bit_word_eqI)
    fix n assume "n < LENGTH(64)"
    then show "bit s n = bit t n" using low [of n] \<open>bit s 63 = bit t 63\<close> by (cases "n = 63") auto
  qed
qed

text \<open>
  The generator's step is a bijection on the 64-bit states, so from every seed the sequence is purely
  periodic: no seed leads into the cycle of another without being on it.
\<close>

theorem randn_bij: "bij (\<lambda>seed. snd (randn seed))"
proof -
  have "snd (randn s) = fst (randn s)" for s by (simp add: randn_def Let_def)
  then have "inj (\<lambda>seed. snd (randn seed))" by (auto intro!: injI randn_inj)
  then show ?thesis by (simp add: bij_def finite_UNIV_inj_surj)
qed

section \<open>Ranges and shuffles\<close>

lemma randrange_cases:
  "randrange low high seed =
     (if low = high then Inr (low, snd (randn seed))
      else if high < low then Inl ''! randrange, low was larger than high''
      else Inr (low + fst (randn seed) mod (high - low), snd (randn seed)))"
  by (simp add: randrange_def split: prod.splits)

lemma randrange_bounds:
  assumes "randrange low high seed = Inr (r, seed')"
  shows "low \<le> r" "r \<le> high" "low < high \<Longrightarrow> r < high"
proof -
  have 1: "unat low \<le> unat (low + x mod (high - low)) \<and> unat (low + x mod (high - low)) < unat high"
    if "low < high" for x
  proof -
    have d: "unat (high - low) = unat high - unat low" using that by (intro unat_sub_no_wrap) simp
    then have "unat (x mod (high - low)) < unat high - unat low"
      using that by (simp add: unat_mod word_less_nat_alt)
    moreover from this have "unat low + unat (x mod (high - low)) < 18446744073709551616"
      using u64_unat_lt [of high] by linarith
    then have "unat (low + x mod (high - low)) = unat low + unat (x mod (high - low))"
      by (intro unat_add_no_wrap) simp
    ultimately show ?thesis by simp
  qed
  have "r = low \<and> low = high \<or> low < high \<and> r = low + fst (randn seed) mod (high - low)"
    using assms by (auto simp: randrange_cases not_less order.order_iff_strict split: if_splits)
  then show "low \<le> r" "r \<le> high" "low < high \<Longrightarrow> r < high"
    using 1 [of "fst (randn seed)"] by (auto simp: word_le_nat_alt word_less_nat_alt)
qed

lemma randrange_total: "low \<le> high \<Longrightarrow> \<exists>r seed'. randrange low high seed = Inr (r, seed')"
  by (auto simp: randrange_cases)

lemma swap_mset: "x < length arr \<Longrightarrow> y < length arr \<Longrightarrow> mset (arr[x := arr ! y, y := arr ! x]) = mset arr"
  by (rule mset_swap)

lemma shuffle_loop_mset:
  assumes "length arr < 2 ^ 64" "arr \<noteq> []"
  shows "mset (fst (shuffle_loop i arr seed)) = mset arr"
  using assms
proof (induction i arbitrary: arr seed)
  case (Suc i)
  let ?n = "of_nat (length arr) :: u64"
  let ?x = "unat (fst (randn seed) mod ?n)" and ?y = "unat (fst (randn (snd (randn seed))) mod ?n)"
  have n: "unat ?n = length arr" using Suc.prems(1) by (simp add: unat_of_nat)
  have lt: "unat (z mod ?n) < length arr" for z
    using Suc.prems(2) n by (simp add: unat_mod)
  let ?arr = "arr[?x := arr ! ?y, ?y := arr ! ?x]"
  have "mset (fst (shuffle_loop (Suc i) arr seed)) = mset (fst (shuffle_loop i ?arr (snd (randn (snd (randn seed))))))"
    by (simp add: Let_def split: prod.splits)
  also have "\<dots> = mset ?arr" using Suc.prems by (intro Suc.IH) simp_all
  also have "\<dots> = mset arr" by (rule swap_mset [OF lt lt])
  finally show ?case .
qed simp

lemma shuffle_mset: "length arr < 2 ^ 64 \<Longrightarrow> mset (fst (shuffle arr seed)) = mset arr"
  by (cases "arr = []") (simp_all add: shuffle_def shuffle_loop_mset)

lemma shuffle_length: "length arr < 2 ^ 64 \<Longrightarrow> length (fst (shuffle arr seed)) = length arr"
  by (rule mset_eq_length) (rule shuffle_mset)

end
