(* ===== verification/Cstring.thy ===== *)
theory Cstring
  imports Bits
begin

text \<open>
  The string functions of \<open>lib/string.c\<close>. A C string is the list of its characters before the NUL; the
  empty list is a string that starts with its NUL. \<open>strcmp_mem\<close> is \<open>strcmp\<close> against a literal where the
  other argument is a pointer into byte memory.
\<close>

definition char_u8 :: "char \<Rightarrow> u8" where "char_u8 c = of_char c"

lemma unat_char_u8: "unat (char_u8 c) = of_char c"
proof -
  have "char_u8 c = of_nat (of_char c)" unfolding char_u8_def by (rule of_nat_of_char [symmetric])
  then have "unat (char_u8 c) = of_char c mod 256" by (simp only: unat_of_nat) simp
  then show ?thesis by simp
qed

lemma char_u8_eq: "char_u8 c = char_u8 d \<longleftrightarrow> c = d"
  by (simp add: word_unat_eq_iff unat_char_u8)

section \<open>Comparing and searching\<close>

fun strlen_loop :: "string \<Rightarrow> u64 \<Rightarrow> u64" where
  "strlen_loop [] i = i"
| "strlen_loop (c # s) i = strlen_loop s (i + 1)"

definition strlen :: "string \<Rightarrow> u64" where
  "strlen s = strlen_loop s 0"

fun strstartswith :: "string \<Rightarrow> string \<Rightarrow> bool" where
  "strstartswith s1 [] = True"
| "strstartswith [] (p # prefix) = False"
| "strstartswith (c # s1) (p # prefix) = (if c \<noteq> p then False else strstartswith s1 prefix)"

fun strcmp :: "string \<Rightarrow> string \<Rightarrow> bool" where
  "strcmp [] s2 = (s2 = [])"
| "strcmp (c # s1) [] = False"
| "strcmp (c # s1) (d # s2) = (if c \<noteq> d then False else strcmp s1 s2)"

text \<open>
  \<open>strpartition\<close> writes the part before the separator to \<open>outL\<close> without a NUL, and the part after it with
  its NUL to \<open>outR\<close>. The result is the flag, the characters written to \<open>outL\<close> and the string at \<open>outR\<close>
  (\<open>None\<close> when nothing was written there).
\<close>

fun strpartition :: "string \<Rightarrow> char \<Rightarrow> bool \<times> string \<times> string option" where
  "strpartition [] sep = (False, [], None)"
| "strpartition (c # s) sep =
     (if c \<noteq> sep then (case strpartition s sep of (b, l, r) \<Rightarrow> (b, c # l, r)) else (True, [], Some s))"

fun strcmp_mem :: "mem8 \<Rightarrow> u64 \<Rightarrow> string \<Rightarrow> bool" where
  "strcmp_mem m p [] = (m p = 0)"
| "strcmp_mem m p (c # s) =
     (if m p = 0 then False else if m p \<noteq> char_u8 c then False else strcmp_mem m (p + 1) s)"

fun strstartswith_mem :: "mem8 \<Rightarrow> u64 \<Rightarrow> string \<Rightarrow> bool" where
  "strstartswith_mem m p [] = True"
| "strstartswith_mem m p (c # s) = (if m p \<noteq> char_u8 c then False else strstartswith_mem m (p + 1) s)"

section \<open>Numbers\<close>

definition ctoi_hex :: "char \<Rightarrow> u64" where
  "ctoi_hex c =
     (let n = of_char c :: nat
      in if of_char (CHR ''0'') \<le> n \<and> n \<le> of_char (CHR ''9'') then of_nat (n - of_char (CHR ''0''))
         else if of_char (CHR ''a'') \<le> n \<and> n \<le> of_char (CHR ''f'') then of_nat (n - of_char (CHR ''a''))
         else if of_char (CHR ''A'') \<le> n \<and> n \<le> of_char (CHR ''F'') then of_nat (n - of_char (CHR ''A''))
         else 0)"

definition ctoi :: "char \<Rightarrow> u64" where
  "ctoi c =
     (let n = of_char c :: nat
      in if of_char (CHR ''0'') \<le> n \<and> n \<le> of_char (CHR ''9'') then of_nat (n - of_char (CHR ''0'')) else 0)"

fun atoi_hex_loop :: "string \<Rightarrow> u64 \<Rightarrow> u64" where
  "atoi_hex_loop [] x = x"
| "atoi_hex_loop (c # s) x = atoi_hex_loop s (x * 16 + ctoi_hex c)"

definition atoi_hex :: "string \<Rightarrow> u64" where
  "atoi_hex s = atoi_hex_loop (drop 2 s) 0"

fun atoi_dec_loop :: "string \<Rightarrow> u64 \<Rightarrow> string + u64" where
  "atoi_dec_loop [] x = Inr x"
| "atoi_dec_loop (c # s) x =
     (if c = CHR ''_'' then atoi_dec_loop s x
      else if c = CHR ''k'' \<or> c = CHR ''K''
        then (if s \<noteq> [] then Inl ''invalid input, [kK] only valid at end.'' else Inr (x * 1000))
      else if c = CHR ''m'' \<or> c = CHR ''M''
        then (if s \<noteq> [] then Inl ''invalid input, [mM] only valid at end.'' else Inr (x * 1000000))
      else atoi_dec_loop s (x * 10 + ctoi c))"

definition atoi_dec :: "string \<Rightarrow> string + u64" where
  "atoi_dec s = atoi_dec_loop s 0"

definition atoi :: "string \<Rightarrow> string + u64" where
  "atoi s = (if take 2 s = ''0x'' then Inr (atoi_hex s) else atoi_dec s)"

section \<open>What they compute\<close>

lemma strlen_length: "strlen s = of_nat (length s)"
proof -
  have "strlen_loop s i = i + of_nat (length s)" for i by (induction s arbitrary: i) simp_all
  then show ?thesis by (simp add: strlen_def)
qed

lemma strcmp_eq [simp]: "strcmp s t \<longleftrightarrow> s = t"
  by (induction s t rule: strcmp.induct) auto

lemma strstartswith_iff: "strstartswith s p \<longleftrightarrow> (\<exists>t. s = p @ t)"
  by (induction s p rule: strstartswith.induct) auto

lemma strpartition_eq:
  "strpartition s sep =
     (sep \<in> set s, takeWhile (\<lambda>c. c \<noteq> sep) s,
      if sep \<in> set s then Some (tl (dropWhile (\<lambda>c. c \<noteq> sep) s)) else None)"
  by (induction s) auto

text \<open>The decimal digits of a number, most significant first: what the printer writes for \<open>%d\<close>.\<close>

definition digit :: "nat \<Rightarrow> char" where "digit n = char_of (48 + n)"

fun decimal :: "nat \<Rightarrow> string" where
  "decimal n = (if n < 10 then [digit n] else decimal (n div 10) @ [digit (n mod 10)])"

declare decimal.simps [simp del]

lemma ctoi_digit: "n < 10 \<Longrightarrow> ctoi (digit n) = of_nat n"
  by (simp add: ctoi_def digit_def)

lemma digit_neq: "n < 10 \<Longrightarrow> digit n \<notin> set ''_kKmMx''"
proof -
  assume n: "n < 10"
  have "of_char (digit n) = 48 + n" using n by (simp add: digit_def)
  then show ?thesis using n by (auto dest!: arg_cong [where f = "of_char :: char \<Rightarrow> nat"])
qed

lemma atoi_dec_loop_append:
  "set s \<inter> set ''_kKmM'' = {} \<Longrightarrow> atoi_dec_loop (s @ t) x = rbind (atoi_dec_loop s x) (atoi_dec_loop t)"
  by (induction s x rule: atoi_dec_loop.induct) auto

lemma decimal_digits: "c \<in> set (decimal n) \<Longrightarrow> \<exists>d<10. c = digit d"
proof (induction n rule: decimal.induct)
  case (1 n)
  have m: "n mod 10 < 10" by simp
  show ?case
  proof (cases "n < 10")
    case True
    then have "c = digit n" using 1(2) by (subst (asm) decimal.simps) simp
    then show ?thesis using True by blast
  next
    case False
    then have "c \<in> set (decimal (n div 10)) \<or> c = digit (n mod 10)" using 1(2) by (subst (asm) decimal.simps) auto
    then show ?thesis using 1(1) False m by blast
  qed
qed

lemma atoi_dec_decimal: "atoi_dec_loop (decimal n) 0 = Inr (of_nat n)"
proof (induction n rule: decimal.induct)
  case (1 n)
  show ?case
  proof (cases "n < 10")
    case True
    then show ?thesis using digit_neq [OF True] by (subst decimal.simps) (simp add: ctoi_digit)
  next
    case False
    have d: "n mod 10 < 10" by simp
    have "set (decimal (n div 10)) \<inter> set ''_kKmM'' = {}"
      using decimal_digits digit_neq by fastforce
    then have "atoi_dec_loop (decimal n) 0 = atoi_dec_loop [digit (n mod 10)] (of_nat (n div 10))"
      using False 1 by (subst decimal.simps) (simp add: atoi_dec_loop_append del: atoi_dec_loop.simps)
    also have "\<dots> = Inr (of_nat (n div 10) * 10 + of_nat (n mod 10))"
      using digit_neq [OF d] by (simp add: ctoi_digit del: of_nat_mod)
    also have "of_nat (n div 10) * 10 + of_nat (n mod 10) = (of_nat n :: u64)"
      by (metis div_mult_mod_eq of_nat_add of_nat_mult of_nat_numeral)
    finally show ?thesis .
  qed
qed

lemma atoi_dec_underscores:
  "set s \<inter> set ''kKmM'' = {} \<Longrightarrow> atoi_dec_loop (filter (\<lambda>c. c \<noteq> CHR ''_'') s) x = atoi_dec_loop s x"
  by (induction s x rule: atoi_dec_loop.induct) auto

lemma atoi_number:
  assumes "filter (\<lambda>c. c \<noteq> CHR ''_'') s = decimal n"
  shows "atoi s = Inr (of_nat n)" "c \<in> set ''kK'' \<Longrightarrow> atoi (s @ [c]) = Inr (of_nat n * 1000)"
    "c \<in> set ''mM'' \<Longrightarrow> atoi (s @ [c]) = Inr (of_nat n * 1000000)"
proof -
  have d: "set s \<subseteq> insert (CHR ''_'') (digit ` {..<10})"
  proof
    fix c assume "c \<in> set s"
    then have "c = CHR ''_'' \<or> c \<in> set (decimal n)" unfolding assms [symmetric] by simp
    then show "c \<in> insert (CHR ''_'') (digit ` {..<10})" using decimal_digits [of c n] by auto
  qed
  have "c \<notin> set ''kKmMx''" if c: "c \<in> set s" for c
  proof -
    consider "c = CHR ''_''" | e where "e < 10" "c = digit e" using d c by blast
    then show ?thesis
    proof cases
      case 2
      then show ?thesis using digit_neq [of e] by simp
    qed simp
  qed
  then have "set s \<inter> set ''kKmMx'' = {}" by blast
  then have k: "set s \<inter> set ''kKmM'' = {}" "CHR ''x'' \<notin> set s" by auto
  have v: "atoi_dec_loop s 0 = Inr (of_nat n)"
    using atoi_dec_underscores [OF k(1), of 0] atoi_dec_decimal [of n] by (simp add: assms)
  have s: "s \<noteq> []" using assms by (subst (asm) decimal.simps) (auto split: if_splits)
  have app: "atoi_dec_loop (s @ t) x = rbind (atoi_dec_loop s x) (atoi_dec_loop t)" for t x
    using k(1) by (induction s x rule: atoi_dec_loop.induct) auto
  have x: "atoi u = atoi_dec_loop u 0" if "CHR ''x'' \<notin> set u" for u
  proof -
    have "set (take 2 u) \<subseteq> set u" by (rule set_take_subset)
    then have "take 2 u \<noteq> ''0x''" using that by auto
    then show ?thesis by (simp add: atoi_def atoi_dec_def)
  qed
  have a: "atoi (s @ t) = atoi_dec_loop (s @ t) 0" if "t = [] \<or> t = [c] \<and> c \<noteq> CHR ''x''" for t c
    using that k(2) by (intro x) auto
  show "atoi s = Inr (of_nat n)" using a [of "[]"] v by simp
  show "c \<in> set ''kK'' \<Longrightarrow> atoi (s @ [c]) = Inr (of_nat n * 1000)" using a [of "[c]" c] app v by auto
  show "c \<in> set ''mM'' \<Longrightarrow> atoi (s @ [c]) = Inr (of_nat n * 1000000)" using a [of "[c]" c] app v by auto
qed

text \<open>
  C16: \<open>atoi\<close> reads back a decimal number, with underscores anywhere between or around its digits, modulo
  \<open>2^64\<close>; a final \<open>k\<close> or \<open>K\<close> multiplies it by a thousand and \<open>m\<close> or \<open>M\<close> by a million.
\<close>

theorem atoi_decimal:
  assumes "filter (\<lambda>c. c \<noteq> CHR ''_'') s = decimal n"
  shows "atoi s = Inr (of_nat n) \<and> (\<forall>c \<in> set ''kK''. atoi (s @ [c]) = Inr (of_nat n * 1000))
    \<and> (\<forall>c \<in> set ''mM''. atoi (s @ [c]) = Inr (of_nat n * 1000000))"
  using atoi_number [OF assms] by blast

theorem atoi_decimal_witness: "atoi ''1_024k'' = Inr 1024000 \<and> atoi ''1_024'' = Inr 1024"
  proof -
  have "filter (\<lambda>c. c \<noteq> CHR ''_'') ''1_024'' = decimal 1024" by code_simp
  from atoi_decimal [OF this] show ?thesis by simp
qed

text \<open>
  \<open>ctoi_hex\<close> gives a hexadecimal digit its value exactly when the digit is decimal: it forgets to add
  ten to the letters, so \<open>a\<close> to \<open>f\<close> are read as 0 to 5.
\<close>

definition hex_value :: "char \<Rightarrow> nat option" where
  "hex_value c = map_of (zip ''0123456789abcdefABCDEF'' ([0..<16] @ [10..<16])) c"

theorem ctoi_hex_correct_iff:
  assumes "hex_value c = Some v"
  shows "ctoi_hex c = of_nat v \<longleftrightarrow> v < 10"
proof -
  have "list_all (\<lambda>c. \<forall>v. hex_value c = Some v \<longrightarrow> (ctoi_hex c = of_nat v \<longleftrightarrow> v < 10)) ''0123456789abcdefABCDEF''"
    by (simp add: hex_value_def ctoi_hex_def upt_rec)
  moreover have "c \<in> set ''0123456789abcdefABCDEF''"
    using assms unfolding hex_value_def by (metis in_set_zipE map_of_SomeD)
  ultimately show ?thesis using assms by (simp only: list_all_iff)
qed

theorem ctoi_hex_correct_iff_witness: "ctoi_hex (CHR ''a'') \<noteq> 10 \<and> atoi ''0xa'' = Inr 0"
  using ctoi_hex_correct_iff [of "CHR ''a''" 10] by (simp add: hex_value_def atoi_def atoi_hex_def ctoi_hex_def upt_rec)

end
