(* ===== verification/Base64.thy ===== *)
theory Base64
  imports Cstring
begin

text \<open>
  The base64 decoder of \<open>lib/base64.c\<close>, which reads the messages of the hash's
  unit tests, and an encoder it is checked against.
\<close>

definition at :: "string \<Rightarrow> nat \<Rightarrow> char" where
  "at data i = (if i < length data then data ! i else CHR 0x00)"

definition in_chars :: "char \<Rightarrow> char \<Rightarrow> char \<Rightarrow> bool" where
  "in_chars lo c hi \<longleftrightarrow> char_u8 lo \<le> char_u8 c \<and> char_u8 c \<le> char_u8 hi"

definition b64decodechar :: "char \<Rightarrow> string + u8" where
  "b64decodechar c =
     (if in_chars (CHR ''A'') c (CHR ''Z'') then Inr (char_u8 c - char_u8 (CHR ''A''))
      else if in_chars (CHR ''a'') c (CHR ''z'') then Inr (26 + (char_u8 c - char_u8 (CHR ''a'')))
      else if in_chars (CHR ''0'') c (CHR ''9'') then Inr (52 + (char_u8 c - char_u8 (CHR ''0'')))
      else if c = CHR ''+'' then Inr 62
      else if c = CHR ''/'' then Inr 63
      else Inl ''unreachable'')"

text \<open>\<open>eat\<close> reads four characters at a position; it returns the three octets and how many count.\<close>

definition eat :: "string \<Rightarrow> nat \<Rightarrow> string + u8 list \<times> nat" where
  "eat data i =
     rbind (b64decodechar (at data i)) (\<lambda>a.
     rbind (b64decodechar (at data (i + 1))) (\<lambda>b.
     rbind (if at data (i + 2) = CHR ''='' then Inr 0 else b64decodechar (at data (i + 2))) (\<lambda>c.
     rbind (if at data (i + 3) = CHR ''='' then Inr 0 else b64decodechar (at data (i + 3))) (\<lambda>d.
     let bite = [push_bit 2 a OR drop_bit 4 b, push_bit 4 (b AND 0xf) OR drop_bit 2 c, push_bit 6 (c AND 3) OR d]
     in Inr (bite, if at data (i + 2) = CHR ''='' then 1 else if at data (i + 3) = CHR ''='' then 2 else 3)))))"

text \<open>The loop. The octets are written at \<open>out + j\<close>, where \<open>j\<close> is their number so far.\<close>

function b64_loop :: "string \<Rightarrow> nat \<Rightarrow> nat \<Rightarrow> u8 list \<Rightarrow> string + u8 list \<times> nat" where
  "b64_loop data len i out =
     rbind (eat data i) (\<lambda>(bite, ate).
       if ate < 3 then Inr (out @ bite, length out + ate)
       else if i + 4 < len then b64_loop data len (i + 4) (out @ bite)
       else Inr (out @ bite, length out + 3))"
  by pat_completeness auto
termination by (relation "measure (\<lambda>(data, len, i, out). len - i)") auto

definition b64decode :: "string \<Rightarrow> nat \<Rightarrow> string + u8 list \<times> nat" where
  "b64decode data len = b64_loop data len 0 []"

declare b64_loop.simps [simp del]

section \<open>The encoder and the round trip\<close>

definition b64_table :: string where
  "b64_table = ''ABCDEFGHIJKLMNOPQRSTUVWXYZabcdefghijklmnopqrstuvwxyz0123456789+/''"

definition enc6 :: "u8 \<Rightarrow> char" where
  "enc6 v = b64_table ! unat (take_bit 6 v)"

definition sextets :: "u8 \<Rightarrow> u8 \<Rightarrow> u8 \<Rightarrow> string" where
  "sextets x y z =
     [enc6 (drop_bit 2 x), enc6 (push_bit 4 (x AND 3) OR drop_bit 4 y),
      enc6 (push_bit 2 (y AND 0xf) OR drop_bit 6 z), enc6 (z AND 0x3f)]"

fun b64encode :: "u8 list \<Rightarrow> string" where
  "b64encode [] = []"
| "b64encode [x] = take 2 (sextets x 0 0) @ ''==''"
| "b64encode [x, y] = take 3 (sextets x y 0) @ ''=''"
| "b64encode (x # y # z # bs) = sextets x y z @ b64encode bs"

lemma table_decode: "i < 64 \<Longrightarrow> b64decodechar (b64_table ! i) = Inr (of_nat i) \<and> b64_table ! i \<noteq> CHR ''=''"
proof -
  assume "i < 64"
  moreover have "list_all (\<lambda>i. b64decodechar (b64_table ! i) = Inr (of_nat i) \<and> b64_table ! i \<noteq> CHR ''='') [0..<64]"
    by code_simp
  ultimately show ?thesis by (simp only: list_all_iff set_upt atLeastLessThan_iff) simp
qed

lemma decode_enc6: "b64decodechar (enc6 v) = Inr (take_bit 6 v)" and enc6_pad: "enc6 v \<noteq> CHR ''=''"
proof -
  have "unat (take_bit 6 v) < 64" by (simp add: unat_take_bit)
  from table_decode [OF this] show "b64decodechar (enc6 v) = Inr (take_bit 6 v)" "enc6 v \<noteq> CHR ''=''"
    by (simp_all add: enc6_def)
qed

lemma bit8_eqI: "list_all (\<lambda>n. bit x n = bit y n) [0..<8] \<Longrightarrow> x = (y :: u8)"
  by (rule bit_word_eqI) (auto simp: list_all_iff)

lemma bit8_high: "8 \<le> n \<Longrightarrow> \<not> bit (x :: u8) n"
  using bit_imp_le_length [of x n] by auto

lemma octets:
  fixes x y z :: u8
  defines "a \<equiv> take_bit 6 (drop_bit 2 x)" and "b \<equiv> take_bit 6 (push_bit 4 (x AND 3) OR drop_bit 4 y)"
    and "c \<equiv> take_bit 6 (push_bit 2 (y AND 0xf) OR drop_bit 6 z)" and "d \<equiv> take_bit 6 (z AND 0x3f)"
  shows "push_bit 2 a OR drop_bit 4 b = x" "push_bit 4 (b AND 0xf) OR drop_bit 2 c = y" "push_bit 6 (c AND 3) OR d = z"
proof -
  have m: "(3 :: u8) = mask 2" "(0xf :: u8) = mask 4" "(0x3f :: u8) = mask 6"
    by (simp_all add: mask_eq_exp_minus_1)
  show "push_bit 2 a OR drop_bit 4 b = x"
    unfolding a_def b_def m by (rule bit8_eqI) (simp add: upt_rec bit_simps bit8_high del: bit_0, (simp add: eval_nat_numeral)?)
  show "push_bit 4 (b AND 0xf) OR drop_bit 2 c = y"
    unfolding b_def c_def m by (rule bit8_eqI) (simp add: upt_rec bit_simps bit8_high del: bit_0, (simp add: eval_nat_numeral)?)
  show "push_bit 6 (c AND 3) OR d = z"
    unfolding c_def d_def m by (rule bit8_eqI) (simp add: upt_rec bit_simps bit8_high del: bit_0, (simp add: eval_nat_numeral)?)
qed

lemma at_append: "at (pre @ s) (length pre + k) = at s k"
  by (simp add: at_def nth_append)

lemma at_append0: "at (pre @ s) (length pre) = at s 0"
  using at_append [of pre s 0] by simp

lemma eat_append: "eat (pre @ s) (length pre) = eat s 0"
  unfolding eat_def by (simp only: at_append at_append0 add_0)

lemma eat_encode:
  "eat (b64encode [x]) 0 = Inr ([x, 0, 0], 1)"
  "eat (b64encode [x, y]) 0 = Inr ([x, y, 0], 2)"
  "eat (b64encode (x # y # z # bs)) 0 = Inr ([x, y, z], 3)"
  using octets(1,2) [of x 0] octets(3) [of 0 0] octets(1,2) [of x y] octets(3) [of y 0] octets(2,3) [of y z]
    octets(2) [of 0 0]
  by (simp_all add: eat_def at_def sextets_def decode_enc6 enc6_pad Let_def)

lemma b64_loop_encode:
  assumes "bs \<noteq> []" "len = length (pre @ b64encode bs)"
  shows "\<exists>pad. b64_loop (pre @ b64encode bs) len (length pre) out = Inr (out @ bs @ pad, length out + length bs)"
  using assms
proof (induction bs arbitrary: pre out rule: b64encode.induct)
  case (2 x)
  then show ?case by (subst b64_loop.simps) (simp only: eat_append eat_encode, simp)
next
  case (3 x y)
  then show ?case by (subst b64_loop.simps) (simp only: eat_append eat_encode, simp)
next
  case (4 x y z bs)
  show ?case
  proof (cases "bs = []")
    case True
    then show ?thesis using 4
      by (subst b64_loop.simps) (simp only: eat_append eat_encode, simp add: sextets_def)
  next
    case False
    have l: "length (sextets x y z) = 4" by (simp add: sextets_def)
    have "b64encode bs \<noteq> []" using False by (cases bs rule: b64encode.cases) (simp_all add: sextets_def)
    then have step: "b64_loop (pre @ b64encode (x # y # z # bs)) len (length pre) out =
        b64_loop ((pre @ sextets x y z) @ b64encode bs) len (length (pre @ sextets x y z)) (out @ [x, y, z])"
      using 4(3) l by (subst b64_loop.simps) (simp only: eat_append eat_encode, simp)
    have "len = length ((pre @ sextets x y z) @ b64encode bs)" using 4(3) by simp
    from 4(1) [OF False this, of "out @ [x, y, z]"] show ?thesis unfolding step by simp
  qed
qed simp

text \<open>
  C17: the decoder inverts base64: from the encoding of any non-empty octet string it returns the number of
  the octets, and the buffer it wrote starts with them, whatever the padding.
\<close>

theorem b64decode_encode:
  assumes "bs \<noteq> []"
  shows "\<exists>pad. b64decode (b64encode bs) (length (b64encode bs)) = Inr (bs @ pad, length bs)"
  using b64_loop_encode [of bs "length (b64encode bs)" "[]" "[]"] assms by (simp add: b64decode_def)

theorem b64decode_encode_witness:
  "\<exists>pad. b64decode ''aGVybWVz'' 8 = Inr ([0x68, 0x65, 0x72, 0x6d, 0x65, 0x73] @ pad, 6)"
proof -
  have "b64encode [0x68, 0x65, 0x72, 0x6d, 0x65, 0x73] = ''aGVybWVz''" by code_simp
  from b64decode_encode [of "[0x68, 0x65, 0x72, 0x6d, 0x65, 0x73]", unfolded this] show ?thesis
    by (simp add: eval_nat_numeral)
qed

end
