(* ===== verification/Fdt.thy ===== *)
theory Fdt
  imports Cstring Layout
begin

text \<open>
  The reader of the flattened device tree in \<open>lib/arch/device.c\<close>. The tree is bytes in memory, \<open>fdt\<close> its
  address; pointers are 64-bit words and \<open>NULL\<close> is 0. Every walk over the structure block has fuel, a
  bound on the pieces it visits and on the length of the names: \<open>Fuel\<close> is the outcome of a walk that
  needs more. \<open>Undefined\<close> is an access outside the 100 entries of \<open>namestack\<close>.
\<close>

datatype fdt_err = Fuel | Undefined | Failed string

section \<open>Pieces\<close>

definition FDT_BEGIN_NODE :: u32 where "FDT_BEGIN_NODE = 0x1"
definition FDT_END_NODE :: u32 where "FDT_END_NODE = 0x2"
definition FDT_PROP :: u32 where "FDT_PROP = 0x3"
definition FDT_NOP :: u32 where "FDT_NOP = 0x4"
definition FDT_END :: u32 where "FDT_END = 0x9"

definition FDT_ALIGN :: "u64 \<Rightarrow> u64" where
  "FDT_ALIGN x = (x + 3) AND NOT 3"

lemmas fdt_tokens = FDT_BEGIN_NODE_def FDT_END_NODE_def FDT_PROP_def FDT_NOP_def FDT_END_def

record fdt_structure_piece =
  current :: u64
  token :: u32
  nxt :: u64

text \<open>The headers' offsets: a node's name is 4 bytes after its token, a property's data 12 bytes.\<close>

definition fdt_off_dt_struct :: "mem8 \<Rightarrow> u64 \<Rightarrow> u64" where
  "fdt_off_dt_struct m fdt = ucast (read_be m (fdt + 8))"
definition fdt_off_dt_strings :: "mem8 \<Rightarrow> u64 \<Rightarrow> u64" where
  "fdt_off_dt_strings m fdt = ucast (read_be m (fdt + 12))"

definition dtb_read_str :: "mem8 \<Rightarrow> u64 \<Rightarrow> u32 \<Rightarrow> u64" where
  "dtb_read_str m fdt nameoff = fdt + fdt_off_dt_strings m fdt + ucast nameoff"

fun skip_name :: "nat \<Rightarrow> mem8 \<Rightarrow> u64 \<Rightarrow> u64 option" where
  "skip_name 0 m ps = None"
| "skip_name (Suc n) m ps = (if m ps \<noteq> 0 then skip_name n m (ps + 1) else Some ps)"

definition dtb_read_piece :: "nat \<Rightarrow> mem8 \<Rightarrow> u64 \<Rightarrow> fdt_err + fdt_structure_piece" where
  "dtb_read_piece n m p =
     (let tok = read_be m p; piece = \<lambda>q. \<lparr>current = p, token = tok, nxt = q\<rparr>
      in if tok = FDT_BEGIN_NODE then
           (case skip_name n m (p + 4) of None \<Rightarrow> Inl Fuel | Some ps \<Rightarrow> Inr (piece (FDT_ALIGN (ps + 1))))
         else if tok = FDT_END_NODE then Inr (piece (FDT_ALIGN (p + 4)))
         else if tok = FDT_PROP then Inr (piece (FDT_ALIGN (p + 12 + ucast (read_be m (p + 4)))))
         else Inr (piece 0))"

section \<open>Walks\<close>

text \<open>
  All walks are the same loop: read the piece at \<open>struct_block\<close>, act on its token, which may return a
  result, and go to the next piece. \<open>st\<close> is what the loop remembers between pieces.
\<close>

fun fdt_walk ::
  "nat \<Rightarrow> mem8 \<Rightarrow> string \<Rightarrow> (fdt_structure_piece \<Rightarrow> 's \<Rightarrow> fdt_err + 'r + 's) \<Rightarrow> 's \<Rightarrow> u64 \<Rightarrow> fdt_err + 'r" where
  "fdt_walk 0 m msg act st p = Inl Fuel"
| "fdt_walk (Suc n) m msg act st p =
     (if p = 0 then Inl (Failed msg)
      else rbind (dtb_read_piece n m p) (\<lambda>piece.
           rbind (act piece st) (\<lambda>r.
             case r of Inl res \<Rightarrow> Inr res | Inr st \<Rightarrow> fdt_walk n m msg act st (nxt piece))))"

text \<open>The node on top and the names below it: \<open>current_node\<close> and \<open>namestack\<close>.\<close>

type_synonym names = "u64 \<times> u64 list"

definition push_name :: "u64 \<Rightarrow> names \<Rightarrow> fdt_err + names" where
  "push_name node ns = (case ns of (cur, stk) \<Rightarrow> if length stk \<ge> 100 then Inl Undefined else Inr (node, cur # stk))"

definition pop_name :: "names \<Rightarrow> fdt_err + names" where
  "pop_name ns = (case ns of (cur, []) \<Rightarrow> Inl Undefined | (cur, x # stk) \<Rightarrow> Inr (x, stk))"

definition struct_start :: "mem8 \<Rightarrow> u64 \<Rightarrow> u64" where
  "struct_start m fdt = fdt + fdt_off_dt_struct m fdt"

definition find_node_act :: "mem8 \<Rightarrow> string \<Rightarrow> fdt_structure_piece \<Rightarrow> unit \<Rightarrow> fdt_err + u64 + unit" where
  "find_node_act m node_name piece st =
     (if token piece = FDT_BEGIN_NODE then
        (if strcmp_mem m (current piece + 4) node_name then Inr (Inl (current piece)) else Inr (Inr ()))
      else if token piece = FDT_END then Inr (Inl 0)
      else Inr (Inr ()))"

definition fdt_find_node :: "nat \<Rightarrow> mem8 \<Rightarrow> u64 \<Rightarrow> string \<Rightarrow> fdt_err + u64" where
  "fdt_find_node n m fdt node_name =
     fdt_walk n m ''! fdt_find_node, reached end of unreachable function ?'' (find_node_act m node_name) ()
       (struct_start m fdt)"

definition read_node_act :: "mem8 \<Rightarrow> string \<Rightarrow> fdt_structure_piece \<Rightarrow> names \<Rightarrow> fdt_err + u64 + names" where
  "read_node_act m node_name piece ns =
     (if token piece = FDT_BEGIN_NODE then
        rbind (push_name (current piece + 4) ns) (\<lambda>ns.
          if strcmp_mem m (current piece + 4) node_name then Inr (Inl (current piece)) else Inr (Inr ns))
      else if token piece = FDT_END_NODE then
        (if length (snd ns) = 1 then Inr (Inl 0) else rbind (pop_name ns) (\<lambda>ns. Inr (Inr ns)))
      else if token piece = FDT_END then Inr (Inl 0)
      else Inr (Inr ns))"

definition fdt_read_node :: "nat \<Rightarrow> mem8 \<Rightarrow> u64 \<Rightarrow> string \<Rightarrow> fdt_err + u64" where
  "fdt_read_node n m node node_name =
     fdt_walk n m ''! fdt_read_node, could not find node: never reached FDT_END''
       (read_node_act m node_name) (0, []) node"

definition read_prop_act ::
  "mem8 \<Rightarrow> u64 \<Rightarrow> string \<Rightarrow> fdt_structure_piece \<Rightarrow> names \<Rightarrow> fdt_err + u64 + names" where
  "read_prop_act m fdt prop_name piece ns =
     (if token piece = FDT_BEGIN_NODE then rbind (push_name (current piece + 4) ns) (\<lambda>ns. Inr (Inr ns))
      else if token piece = FDT_END_NODE then
        (if length (snd ns) = 1 then Inr (Inl 0) else rbind (pop_name ns) (\<lambda>ns. Inr (Inr ns)))
      else if token piece = FDT_PROP then
        (if length (snd ns) = 1 \<and> strcmp_mem m (dtb_read_str m fdt (read_be m (current piece + 8))) prop_name
         then Inr (Inl (current piece)) else Inr (Inr ns))
      else if token piece = FDT_END then Inr (Inl 0)
      else Inr (Inr ns))"

definition fdt_read_prop :: "nat \<Rightarrow> mem8 \<Rightarrow> u64 \<Rightarrow> u64 \<Rightarrow> string \<Rightarrow> fdt_err + u64" where
  "fdt_read_prop n m fdt node prop_name =
     fdt_walk n m ''! fdt_read_prop, could not find property: never reached FDT_END''
       (read_prop_act m fdt prop_name) (0, []) node"

text \<open>This walk also remembers the last node header; it returns the header and the piece after the property.\<close>

definition with_prop_act ::
  "mem8 \<Rightarrow> u64 \<Rightarrow> string \<Rightarrow> string \<Rightarrow> fdt_structure_piece \<Rightarrow> u64 \<times> names \<Rightarrow>
   fdt_err + fdt_structure_piece + u64 \<times> names" where
  "with_prop_act m fdt prop_name expected_value piece st =
     (case st of (curr_header, ns) \<Rightarrow>
      if token piece = FDT_BEGIN_NODE then
        rbind (push_name (current piece + 4) ns) (\<lambda>ns. Inr (Inr (current piece, ns)))
      else if token piece = FDT_END_NODE then rbind (pop_name ns) (\<lambda>ns. Inr (Inr (curr_header, ns)))
      else if token piece = FDT_PROP then
        (if strcmp_mem m (dtb_read_str m fdt (read_be m (current piece + 8))) prop_name
            \<and> strcmp_mem m (current piece + 12) expected_value
         then Inr (Inl \<lparr>current = curr_header, token = FDT_PROP, nxt = nxt piece\<rparr>) else Inr (Inr st))
      else if token piece = FDT_END then Inr (Inl \<lparr>current = 0, token = FDT_END, nxt = 0\<rparr>)
      else Inr (Inr st))"

definition fdt_find_node_with_prop_with_index ::
  "nat \<Rightarrow> mem8 \<Rightarrow> u64 \<Rightarrow> u64 \<Rightarrow> string \<Rightarrow> string \<Rightarrow> fdt_err + fdt_structure_piece" where
  "fdt_find_node_with_prop_with_index n m fdt index prop_name expected_value =
     fdt_walk n m ''! fdt_find_node_with_prop, could not find property: never reached FDT_END''
       (with_prop_act m fdt prop_name expected_value) (0, 0, [])
       (if index = 0 then struct_start m fdt else index)"

definition find_prop_act ::
  "mem8 \<Rightarrow> u64 \<Rightarrow> string \<Rightarrow> string \<Rightarrow> fdt_structure_piece \<Rightarrow> names \<Rightarrow> fdt_err + u64 + names" where
  "find_prop_act m fdt node_name prop_name piece ns =
     (if token piece = FDT_BEGIN_NODE then rbind (push_name (current piece + 4) ns) (\<lambda>ns. Inr (Inr ns))
      else if token piece = FDT_END_NODE then rbind (pop_name ns) (\<lambda>ns. Inr (Inr ns))
      else if token piece = FDT_PROP then
        (if strcmp_mem m (fst ns) node_name
            \<and> strcmp_mem m (dtb_read_str m fdt (read_be m (current piece + 8))) prop_name
         then Inr (Inl (current piece)) else Inr (Inr ns))
      else if token piece = FDT_END then Inr (Inl 0)
      else Inr (Inr ns))"

definition fdt_find_prop :: "nat \<Rightarrow> mem8 \<Rightarrow> u64 \<Rightarrow> string \<Rightarrow> string \<Rightarrow> fdt_err + u64" where
  "fdt_find_prop n m fdt node_name prop_name =
     fdt_walk n m ''! fdt_find_prop, could not find property: never reached FDT_END''
       (find_prop_act m fdt node_name prop_name) (0, []) (struct_start m fdt)"

section \<open>What the harness reads from the tree\<close>

datatype boot_kind = BOOT_KIND_PSCI | BOOT_KIND_SPIN

record boot_data_t =
  kind :: boot_kind
  spin_base :: "u64 list"

definition dtb_check_psci :: "nat \<Rightarrow> mem8 \<Rightarrow> u64 \<Rightarrow> fdt_err + unit" where
  "dtb_check_psci n m fdt =
     rbind (fdt_find_node n m fdt ''psci'') (\<lambda>psci.
       if psci = 0 then Inl (Failed ''FDT: for enable-method psci expected a psci node.'') else Inr ())"

definition dtb_read_cpu_enable :: "nat \<Rightarrow> mem8 \<Rightarrow> u64 \<Rightarrow> boot_data_t \<Rightarrow> fdt_err + boot_data_t" where
  "dtb_read_cpu_enable n m fdt bd =
     (if fdt = 0 then Inr (bd\<lparr>kind := BOOT_KIND_PSCI\<rparr>)
      else rbind (fdt_find_node n m fdt ''cpus'') (\<lambda>cpus.
           rbind (fdt_read_node n m cpus ''cpu@0'') (\<lambda>cpu0.
           rbind (fdt_read_node n m cpus ''cpu@1'') (\<lambda>cpu1.
           rbind (fdt_read_node n m cpus ''cpu@2'') (\<lambda>cpu2.
           rbind (fdt_read_node n m cpus ''cpu@3'') (\<lambda>cpu3.
           if cpu0 = 0 then Inl (Failed ''Malformed dtb: no cpu@0 node'')
           else if cpu1 = 0 then Inl (Failed ''FDT: Could not find CPU 1.'')
           else if cpu2 = 0 then Inl (Failed ''FDT: Could not find CPU 2.'')
           else if cpu3 = 0 then Inl (Failed ''FDT: Could not find CPU 3.'')
           else rbind (fdt_read_prop n m fdt cpu0 ''enable-method'') (\<lambda>en.
             if en = 0 then Inl (Failed ''FDT: CPU0 did not have an enable-method property.'')
             else if strcmp_mem m (en + 12) ''psci'' then Inr (bd\<lparr>kind := BOOT_KIND_PSCI\<rparr>)
             else if strcmp_mem m (en + 12) ''spin-table'' then
               rbind (fdt_read_prop n m fdt cpu0 ''cpu-release-addr'') (\<lambda>r0.
               rbind (fdt_read_prop n m fdt cpu1 ''cpu-release-addr'') (\<lambda>r1.
               rbind (fdt_read_prop n m fdt cpu2 ''cpu-release-addr'') (\<lambda>r2.
               rbind (fdt_read_prop n m fdt cpu3 ''cpu-release-addr'') (\<lambda>r3.
               Inr (bd\<lparr>kind := BOOT_KIND_SPIN,
                       spin_base := map (\<lambda>r. read_be64 m (r + 12)) [r0, r1, r2, r3]\<rparr>)))))
             else Inl (Failed ''FDT: (cpu@0) cpu-enable expected psci''))))))))"

text \<open>The address of the boot arguments, 0 for the empty string of the code.\<close>

definition dtb_bootargs :: "nat \<Rightarrow> mem8 \<Rightarrow> u64 \<Rightarrow> boot_data_t \<Rightarrow> fdt_err + boot_data_t \<times> u64" where
  "dtb_bootargs n m fdt bd =
     rbind (dtb_read_cpu_enable n m fdt bd) (\<lambda>bd.
       if fdt = 0 then Inr (bd, 0)
       else rbind (fdt_find_prop n m fdt ''chosen'' ''bootargs'') (\<lambda>prop.
         if prop = 0 then Inr (bd, 0) else Inr (bd, prop + 12)))"

fun memory_loop ::
  "nat \<Rightarrow> nat \<Rightarrow> mem8 \<Rightarrow> u64 \<Rightarrow> fdt_structure_piece \<Rightarrow> fdt_err + u64" where
  "memory_loop 0 n m fdt piece = Inl Fuel"
| "memory_loop (Suc k) n m fdt piece =
     rbind (fdt_read_prop n m fdt (current piece) ''reg'') (\<lambda>memory_prop.
       if strstartswith_mem m (current piece + 4) ''memory@'' then Inr memory_prop
       else rbind (fdt_find_node_with_prop_with_index n m fdt (nxt piece) ''device_type'' ''memory'') (\<lambda>piece.
         if current piece = 0 then Inl (Failed ''! dtb_read_memory: could not find a memory@XXXXYYYY node'')
         else memory_loop k n m fdt piece))"

definition dtb_read_memory :: "nat \<Rightarrow> mem8 \<Rightarrow> u64 \<Rightarrow> u64 \<Rightarrow> fdt_err + dtb_mem_t" where
  "dtb_read_memory n m ld_end fdt =
     (if fdt = 0 then Inr \<lparr>base = ld_end, size = 1 * GiB, top = ld_end + 1 * GiB\<rparr>
      else rbind (fdt_find_node_with_prop_with_index n m fdt 0 ''device_type'' ''memory'') (\<lambda>piece.
        if current piece = 0 then Inl (Failed ''! dtb_read_memory: could not find a memory@XXXXYYYY node'')
        else rbind (memory_loop n n m fdt piece) (\<lambda>prop.
          let len = read_be m (prop + 4); block = \<lambda>i. ucast (read_be m (prop + 12 + i * 4)) :: u64
          in if len = 16 then
               (let b = push_bit 32 (block 0) OR block 1; s = push_bit 32 (block 2) OR block 3
                in Inr \<lparr>base = b, size = s, top = b + s\<rparr>)
             else if len = 8 then (let b = block 0; s = block 1 in Inr \<lparr>base = b, size = s, top = b + s\<rparr>)
             else Inl (Failed ''! dtb_read_memory: unsupported size for memory node reg''))))"

definition dtb_read_ioregion :: "nat \<Rightarrow> mem8 \<Rightarrow> u64 \<Rightarrow> fdt_err + dtb_mem_t" where
  "dtb_read_ioregion n m fdt =
     (let rpi3 = \<lparr>base = 0x3F000000, size = PAGE_SIZE, top = 0x3F001000\<rparr>
      in if fdt = 0 then Inr rpi3
         else rbind (fdt_find_node n m fdt ''pl011@9000000'') (\<lambda>pl011.
           if pl011 \<noteq> 0 then Inr \<lparr>base = 0x9000000, size = PAGE_SIZE, top = 0x9001000\<rparr>
           else rbind (fdt_find_node n m fdt ''soc'') (\<lambda>soc.
             if soc = 0 then Inl (Failed ''! unsupported architecture: no /soc or /pl011@9000000 nodes in dtb'')
             else rbind (fdt_read_node n m soc ''serial@7e215040'') (\<lambda>serial.
               if serial = 0
               then Inl (Failed ''! unsupported architecture: no /pl011@9000000 /soc/serial@7e215040 nodes in dtb'')
               else Inr rpi3))))"

end
