(* ===== verification/FdtTree.thy ===== *)
theory FdtTree
  imports Fdt
begin

text \<open>
  Device trees and what the walks of \<open>Fdt\<close> find in them. A tree is flattened to the events of the
  structure block; \<open>laid\<close> says that memory holds the events from an address on. A walk over laid events is
  a walk over the list, and on a flattened tree it finds nodes and properties of the tree.
\<close>

section \<open>Events in memory\<close>

datatype fdt_ev = EBegin string | EProp string "u8 list" | EEnd | EFinish

fun ev_token :: "fdt_ev \<Rightarrow> u32" where
  "ev_token (EBegin nm) = FDT_BEGIN_NODE"
| "ev_token (EProp k v) = FDT_PROP"
| "ev_token EEnd = FDT_END_NODE"
| "ev_token EFinish = FDT_END"

fun ev_next :: "u64 \<Rightarrow> fdt_ev \<Rightarrow> u64" where
  "ev_next p (EBegin nm) = FDT_ALIGN (p + 4 + of_nat (length nm) + 1)"
| "ev_next p (EProp k v) = FDT_ALIGN (p + 12 + of_nat (length v))"
| "ev_next p EEnd = FDT_ALIGN (p + 4)"
| "ev_next p EFinish = 0"

fun ev_at :: "mem8 \<Rightarrow> u64 \<Rightarrow> u64 \<Rightarrow> fdt_ev \<Rightarrow> bool" where
  "ev_at m fdt p (EBegin nm) = (strcmp_mem m (p + 4) nm \<and> CHR 0x00 \<notin> set nm)"
| "ev_at m fdt p (EProp k v) =
     (strcmp_mem m (dtb_read_str m fdt (read_be m (p + 8))) k \<and> CHR 0x00 \<notin> set k \<and> length v < 2 ^ 32 \<and>
      read_be m (p + 4) = of_nat (length v) \<and> (\<forall>i<length v. m (p + 12 + of_nat i) = v ! i))"
| "ev_at m fdt p e = True"

fun laid :: "mem8 \<Rightarrow> u64 \<Rightarrow> u64 \<Rightarrow> fdt_ev list \<Rightarrow> bool" where
  "laid m fdt p [] = True"
| "laid m fdt p (e # es) = (p \<noteq> 0 \<and> read_be m p = ev_token e \<and> ev_at m fdt p e \<and> laid m fdt (ev_next p e) es)"

definition addr :: "u64 \<Rightarrow> fdt_ev list \<Rightarrow> u64" where
  "addr p es = fold (\<lambda>e p. ev_next p e) es p"

lemma addr_simps [simp]: "addr p [] = p" "addr p (e # es) = addr (ev_next p e) es"
  "addr p (es @ fs) = addr (addr p es) fs"
  by (simp_all add: addr_def)

lemma laid_append: "laid m fdt p (es @ fs) \<longleftrightarrow> laid m fdt p es \<and> laid m fdt (addr p es) fs"
  by (induction es arbitrary: p) auto

fun ev_name :: "fdt_ev \<Rightarrow> string" where
  "ev_name (EBegin nm) = nm"
| "ev_name e = []"

lemma char_u8_0: "char_u8 c = 0 \<longleftrightarrow> c = CHR 0x00"
  using char_u8_eq [of c "CHR 0x00"] by (simp add: char_u8_def)

text \<open>Memory holds one string at an address.\<close>

lemma strcmp_mem_unique:
  "strcmp_mem m p a \<Longrightarrow> CHR 0x00 \<notin> set a \<Longrightarrow> CHR 0x00 \<notin> set b \<Longrightarrow> strcmp_mem m p b \<longleftrightarrow> a = b"
proof (induction a arbitrary: p b)
  case Nil
  then show ?case by (cases b) (auto simp: char_u8_0)
next
  case (Cons c a)
  then show ?case by (cases b) (auto simp: char_u8_0 char_u8_eq split: if_splits)
qed

lemma skip_name_strcmp:
  "strcmp_mem m p a \<Longrightarrow> length a < n \<Longrightarrow> skip_name n m p = Some (p + of_nat (length a))"
proof (induction a arbitrary: p n)
  case Nil
  then show ?case by (cases n) auto
next
  case (Cons c a)
  then show ?case by (cases n) (auto split: if_splits simp: algebra_simps)
qed

lemma read_piece_laid:
  assumes "laid m fdt p (e # es)" "length (ev_name e) < n"
  shows "dtb_read_piece n m p = Inr \<lparr>current = p, token = ev_token e, nxt = ev_next p e\<rparr>"
proof (cases e)
  case (EBegin nm)
  then have "skip_name n m (p + 4) = Some (p + 4 + of_nat (length nm))"
    using assms by (intro skip_name_strcmp) auto
  then show ?thesis using assms EBegin by (simp add: dtb_read_piece_def Let_def)
next
  case (EProp k v)
  have "(ucast (of_nat (length v) :: u32) :: u64) = of_nat (length v)"
    using assms EProp by (simp add: word_unat_eq_iff unsigned_ucast_eq unat_of_nat take_bit_nat_eq_self)
  then show ?thesis using assms EProp by (simp add: dtb_read_piece_def fdt_tokens Let_def)
qed (use assms in \<open>simp_all add: dtb_read_piece_def fdt_tokens Let_def\<close>)

section \<open>Walks over events\<close>

fun lrun :: "(u64 \<Rightarrow> fdt_ev \<Rightarrow> 's \<Rightarrow> fdt_err + 'r + 's) \<Rightarrow> 's \<Rightarrow> u64 \<Rightarrow> fdt_ev list \<Rightarrow> (fdt_err + 'r) + 's" where
  "lrun act st p [] = Inr st"
| "lrun act st p (e # es) =
     (case act p e st of
        Inl err \<Rightarrow> Inl (Inl err)
      | Inr (Inl r) \<Rightarrow> Inl (Inr r)
      | Inr (Inr st) \<Rightarrow> lrun act st (ev_next p e) es)"

lemma lrun_append:
  "lrun act st p (es @ fs) = (case lrun act st p es of Inl r \<Rightarrow> Inl r | Inr st \<Rightarrow> lrun act st (addr p es) fs)"
  by (induction es arbitrary: st p) (auto split: sum.splits)

text \<open>
  Fuel: one unit for each event, and more than the longest node name left after them.
\<close>

lemma fdt_walk_lrun:
  assumes "laid m fdt p es" "\<forall>e \<in> set es. length (ev_name e) + length es < n"
    and "\<And>e p st. laid m fdt p [e] \<Longrightarrow>
      act \<lparr>current = p, token = ev_token e, nxt = ev_next p e\<rparr> st = lact p e st"
  shows "fdt_walk n m msg act st p =
    (case lrun lact st p es of Inl r \<Rightarrow> r | Inr st \<Rightarrow> fdt_walk (n - length es) m msg act st (addr p es))"
  using assms(1,2)
proof (induction es arbitrary: n st p)
  case (Cons e es)
  then obtain k where n: "n = Suc k" by (cases n) auto
  have p: "dtb_read_piece k m p = Inr \<lparr>current = p, token = ev_token e, nxt = ev_next p e\<rparr>"
    using Cons.prems n by (intro read_piece_laid) auto
  have a: "act \<lparr>current = p, token = ev_token e, nxt = ev_next p e\<rparr> st = lact p e st"
    using Cons.prems(1) by (intro assms(3)) simp
  have ih: "fdt_walk k m msg act st (ev_next p e) =
      (case lrun lact st (ev_next p e) es of
         Inl r \<Rightarrow> r | Inr st \<Rightarrow> fdt_walk (k - length es) m msg act st (addr (ev_next p e) es))" for st
    using Cons.prems n by (intro Cons.IH) auto
  show ?case using Cons.prems(1) by (auto simp: n p a ih split: sum.splits)
qed simp

section \<open>Trees\<close>

datatype fdt_node = Node (nname: string) (nprops: "(string \<times> u8 list) list") (children: "fdt_node list")

primrec flatten :: "fdt_node \<Rightarrow> fdt_ev list" where
  "flatten (Node nm ps cs) = EBegin nm # map (\<lambda>(k, v). EProp k v) ps @ concat (map flatten cs) @ [EEnd]"

primrec nodes :: "fdt_node \<Rightarrow> fdt_node list" where
  "nodes (Node nm ps cs) = Node nm ps cs # concat (map nodes cs)"

primrec depth :: "fdt_node \<Rightarrow> nat" where
  "depth (Node nm ps cs) = Suc (foldr max (map depth cs) 0)"

lemma foldr_max_ge: "x \<in> set xs \<Longrightarrow> x \<le> foldr max xs (a :: nat)"
  by (induction xs) auto

lemma depth_child: "c \<in> set cs \<Longrightarrow> depth c < depth (Node nm ps cs)"
  using foldr_max_ge [of "depth c" "map depth cs" 0] by (simp add: less_Suc_eq_le)

section \<open>Finding a node\<close>

fun lfind_node :: "string \<Rightarrow> u64 \<Rightarrow> fdt_ev \<Rightarrow> unit \<Rightarrow> fdt_err + u64 + unit" where
  "lfind_node nm p (EBegin x) st = (if x = nm then Inr (Inl p) else Inr (Inr ()))"
| "lfind_node nm p EFinish st = Inr (Inl 0)"
| "lfind_node nm p e st = Inr (Inr ())"

lemma find_node_act_l:
  "CHR 0x00 \<notin> set nm \<Longrightarrow> laid m fdt p [e] \<Longrightarrow>
   find_node_act m nm \<lparr>current = p, token = ev_token e, nxt = q\<rparr> st = lfind_node nm p e st"
  by (cases e) (auto simp: find_node_act_def fdt_tokens strcmp_mem_unique)

lemma lrun_find_props: "lrun (lfind_node nm) st p (map (\<lambda>(k, v). EProp k v) ps) = Inr st"
  by (induction ps arbitrary: p st) auto

definition found :: "string \<Rightarrow> u64 \<Rightarrow> fdt_ev list \<Rightarrow> fdt_node list \<Rightarrow> bool" where
  "found nm p es ns \<longleftrightarrow>
     (case List.find (\<lambda>s. nname s = nm) ns of
        None \<Rightarrow> lrun (lfind_node nm) () p es = Inr ()
      | Some s \<Rightarrow> \<exists>pre post. es = pre @ flatten s @ post \<and> lrun (lfind_node nm) () p es = Inl (Inr (addr p pre)))"

lemma find_append: "List.find P (xs @ ys) = (case List.find P xs of None \<Rightarrow> List.find P ys | Some x \<Rightarrow> Some x)"
  by (induction xs) auto

lemma found_append:
  assumes "found nm p es ns" "found nm (addr p es) fs ms"
  shows "found nm p (es @ fs) (ns @ ms)"
proof (cases "List.find (\<lambda>s. nname s = nm) ns")
  case None
  then have 1: "lrun (lfind_node nm) () p es = Inr ()" using assms(1) by (simp add: found_def)
  show ?thesis
  proof (cases "List.find (\<lambda>s. nname s = nm) ms")
    case (Some s)
    then obtain pre post where f: "fs = pre @ flatten s @ post"
      "lrun (lfind_node nm) () (addr p es) fs = Inl (Inr (addr (addr p es) pre))"
      using assms(2) by (auto simp: found_def)
    have "es @ fs = (es @ pre) @ flatten s @ post \<and> lrun (lfind_node nm) () p (es @ fs) = Inl (Inr (addr p (es @ pre)))"
      unfolding lrun_append using f 1 by simp
    then show ?thesis using None Some by (auto simp: found_def find_append simp del: append_assoc)
  qed (use None 1 assms(2) in \<open>simp add: found_def find_append lrun_append\<close>)
next
  case (Some s)
  then obtain pre post where f: "es = pre @ flatten s @ post" "lrun (lfind_node nm) () p es = Inl (Inr (addr p pre))"
    using assms(1) by (auto simp: found_def)
  have "es @ fs = pre @ flatten s @ (post @ fs) \<and> lrun (lfind_node nm) () p (es @ fs) = Inl (Inr (addr p pre))"
    unfolding lrun_append using f by simp
  then have "\<exists>pre post. es @ fs = pre @ flatten s @ post \<and> lrun (lfind_node nm) () p (es @ fs) = Inl (Inr (addr p pre))"
    by blast
  then show ?thesis using Some by (simp add: found_def find_append)
qed

lemma found_flatten: "found nm p (flatten t) (nodes t)"
proof (induction t arbitrary: p)
  case (Node x ps cs)
  show ?case
  proof (cases "x = nm")
    case True
    then show ?thesis by (auto simp: found_def intro!: exI [of _ "[]"])
  next
    case False
    have "found nm p (concat (map flatten ds)) (concat (map nodes ds))" if "set ds \<subseteq> set cs" for ds p
      using that
    proof (induction ds arbitrary: p)
      case (Cons d ds)
      then show ?case using Node.IH by (auto intro: found_append)
    qed (simp add: found_def)
    moreover have "found nm p (EBegin x # map (\<lambda>(k, v). EProp k v) ps) []" for p
      using False by (simp add: found_def lrun_find_props)
    moreover have "found nm p [EEnd] []" for p by (simp add: found_def)
    ultimately have "found nm p ((EBegin x # map (\<lambda>(k, v). EProp k v) ps) @ concat (map flatten cs) @ [EEnd])
        ([] @ concat (map nodes cs) @ [])"
      by (intro found_append) auto
    then show ?thesis using False by (simp add: found_def)
  qed
qed

text \<open>The tree at the structure block of a blob, with enough fuel for its walk.\<close>

definition blob :: "mem8 \<Rightarrow> u64 \<Rightarrow> fdt_node \<Rightarrow> nat \<Rightarrow> bool" where
  "blob m fdt t n \<longleftrightarrow> laid m fdt (struct_start m fdt) (flatten t @ [EFinish]) \<and>
     (\<forall>e \<in> set (flatten t). length (ev_name e) + length (flatten t) + 1 < n) \<and> depth t \<le> 100"

lemma find_node_tree:
  assumes "blob m fdt t n" "CHR 0x00 \<notin> set nm"
  shows "\<exists>r. fdt_find_node n m fdt nm = Inr r \<and>
    (case List.find (\<lambda>s. nname s = nm) (nodes t) of
       None \<Rightarrow> r = 0
     | Some s \<Rightarrow> \<exists>pre post. flatten t = pre @ flatten s @ post \<and> r = addr (struct_start m fdt) pre \<and>
         laid m fdt r (flatten s @ post @ [EFinish]))"
proof -
  let ?p = "struct_start m fdt"
  have l: "laid m fdt ?p (flatten t @ [EFinish])" using assms(1) by (simp add: blob_def)
  have ne: "flatten t \<noteq> []" by (cases t) simp
  have f: "\<forall>e \<in> set (flatten t @ [EFinish]). length (ev_name e) + length (flatten t @ [EFinish]) < n"
    using assms(1) ne by (fastforce simp: blob_def dest: hd_in_set)
  have w: "fdt_find_node n m fdt nm =
      (case lrun (lfind_node nm) () ?p (flatten t @ [EFinish]) of
         Inl r \<Rightarrow> r | Inr st \<Rightarrow> fdt_walk (n - length (flatten t @ [EFinish])) m
           ''! fdt_find_node, reached end of unreachable function ?'' (find_node_act m nm) st
           (addr ?p (flatten t @ [EFinish])))"
    unfolding fdt_find_node_def by (rule fdt_walk_lrun [OF l f]) (rule find_node_act_l [OF assms(2)])
  show ?thesis
  proof (cases "List.find (\<lambda>s. nname s = nm) (nodes t)")
    case None
    then have "lrun (lfind_node nm) () ?p (flatten t) = Inr ()"
      using found_flatten [of nm ?p t] by (simp add: found_def)
    then show ?thesis using None by (simp add: w lrun_append)
  next
    case (Some s)
    then obtain pre post where f: "flatten t = pre @ flatten s @ post"
      "lrun (lfind_node nm) () ?p (flatten t) = Inl (Inr (addr ?p pre))"
      using found_flatten [of nm ?p t] by (auto simp: found_def)
    have "fdt_find_node n m fdt nm = Inr (addr ?p pre)" unfolding w lrun_append f(2) by simp
    moreover have "laid m fdt (addr ?p pre) (flatten s @ post @ [EFinish])"
      using l unfolding f(1) append_assoc by (subst (asm) laid_append) simp
    ultimately show ?thesis using Some f(1) by auto
  qed
qed

section \<open>Reading a property\<close>

definition prop_evs :: "(string \<times> u8 list) list \<Rightarrow> fdt_ev list" where
  "prop_evs ps = map (\<lambda>(k, v). EProp k v) ps"

definition prop_addr :: "u64 \<Rightarrow> fdt_node \<Rightarrow> string \<Rightarrow> u64" where
  "prop_addr q t k = addr q (EBegin (nname t) # prop_evs (takeWhile (\<lambda>kv. fst kv \<noteq> k) (nprops t)))"

text \<open>A property header at \<open>r\<close> that holds the value \<open>v\<close>.\<close>

definition prop_value :: "mem8 \<Rightarrow> u64 \<Rightarrow> u8 list \<Rightarrow> bool" where
  "prop_value m r v \<longleftrightarrow> r \<noteq> 0 \<and> read_be m (r + 4) = of_nat (length v) \<and>
     (\<forall>i<length v. m (r + 12 + of_nat i) = v ! i)"

lemma flatten_evs: "flatten t = EBegin (nname t) # prop_evs (nprops t) @ concat (map flatten (children t)) @ [EEnd]"
  by (cases t) (simp add: prop_evs_def)

lemma prop_evs_simps [simp]: "prop_evs [] = []" "prop_evs ((k, v) # ps) = EProp k v # prop_evs ps"
  "prop_evs (ps @ qs) = prop_evs ps @ prop_evs qs"
  by (simp_all add: prop_evs_def)

lemma split_at_key:
  "map_of ps k = Some v \<Longrightarrow> \<exists>qs. ps = takeWhile (\<lambda>kv. fst kv \<noteq> k) ps @ (k, v) # qs"
  by (induction ps) auto

lemma prop_addr_value:
  assumes "laid m fdt q (flatten t @ rest)" "map_of (nprops t) k = Some v"
  shows "prop_value m (prop_addr q t k) v"
proof -
  let ?tw = "takeWhile (\<lambda>kv. fst kv \<noteq> k) (nprops t)"
  obtain qs where qs: "nprops t = ?tw @ (k, v) # qs" using split_at_key [OF assms(2)] by blast
  have "flatten t @ rest = (EBegin (nname t) # prop_evs ?tw) @ EProp k v # prop_evs qs @
      concat (map flatten (children t)) @ [EEnd] @ rest"
    by (subst flatten_evs, subst qs) (simp del: takeWhile_eq_all_conv)
  then have "laid m fdt q ((EBegin (nname t) # prop_evs ?tw) @ EProp k v # prop_evs qs @
      concat (map flatten (children t)) @ [EEnd] @ rest)" using assms(1) by simp
  then have "laid m fdt (prop_addr q t k) (EProp k v # prop_evs qs @ concat (map flatten (children t)) @ [EEnd] @ rest)"
    unfolding prop_addr_def laid_append by blast
  then show ?thesis by (simp add: prop_value_def)
qed

definition lnames ::
  "(u64 \<Rightarrow> string \<Rightarrow> names \<Rightarrow> bool) \<Rightarrow> (nat \<Rightarrow> bool) \<Rightarrow> u64 \<Rightarrow> fdt_ev \<Rightarrow> names \<Rightarrow> fdt_err + u64 + names" where
  "lnames hit stop p e ns =
     (case e of
        EBegin nm \<Rightarrow> rbind (push_name (p + 4) ns) (\<lambda>ns. Inr (Inr ns))
      | EProp k v \<Rightarrow> if hit p k ns then Inr (Inl p) else Inr (Inr ns)
      | EEnd \<Rightarrow> if stop (length (snd ns)) then Inr (Inl 0) else rbind (pop_name ns) (\<lambda>ns. Inr (Inr ns))
      | EFinish \<Rightarrow> Inr (Inl 0))"

lemma lnames_simps [simp]:
  "lnames hit stop p (EBegin nm) (cur, stk) = (if length stk \<ge> 100 then Inl Undefined else Inr (Inr (p + 4, cur # stk)))"
  "lnames hit stop p (EProp k v) ns = (if hit p k ns then Inr (Inl p) else Inr (Inr ns))"
  "lnames hit stop p EEnd (cur, x # stk) = (if stop (Suc (length stk)) then Inr (Inl 0) else Inr (Inr (x, stk)))"
  "lnames hit stop p EFinish ns = Inr (Inl 0)"
  by (simp_all add: lnames_def push_name_def pop_name_def)

lemma lrun_props_skip:
  "\<forall>kv \<in> set ps. \<forall>p. \<not> hit p (fst kv) ns \<Longrightarrow> lrun (lnames hit stop) ns p (prop_evs ps) = Inr ns"
  by (induction ps arbitrary: p) auto

text \<open>\<open>fdt_read_prop\<close> takes a property only at depth one and stops at the end of depth one.\<close>

abbreviation lread_prop :: "string \<Rightarrow> u64 \<Rightarrow> fdt_ev \<Rightarrow> names \<Rightarrow> fdt_err + u64 + names" where
  "lread_prop k \<equiv> lnames (\<lambda>p k' ns. length (snd ns) = Suc 0 \<and> k' = k) (\<lambda>n. n = Suc 0)"

lemma read_prop_act_l:
  "CHR 0x00 \<notin> set k \<Longrightarrow> laid m fdt p [e] \<Longrightarrow>
   read_prop_act m fdt k \<lparr>current = p, token = ev_token e, nxt = q\<rparr> ns = lread_prop k p e ns"
  by (cases e) (auto simp: read_prop_act_def lnames_def fdt_tokens strcmp_mem_unique)

lemma read_prop_skip:
  "stk \<noteq> [] \<Longrightarrow> length stk + depth t \<le> 100 \<Longrightarrow> lrun (lread_prop k) (cur, stk) p (flatten t) = Inr (cur, stk)"
proof (induction t arbitrary: cur stk p)
  case (Node x ps cs)
  have "lrun (lread_prop k) (c, cur # stk) p (concat (map flatten ds)) = Inr (c, cur # stk)"
    if "set ds \<subseteq> set cs" for c p ds
    using that
  proof (induction ds arbitrary: p)
    case (Cons d ds)
    have "depth d < depth (Node x ps cs)" using Cons.prems depth_child [of d cs x ps] by simp
    then have "lrun (lread_prop k) (c, cur # stk) p (flatten d) = Inr (c, cur # stk)" for p
      using Cons.prems Node.prems by (intro Node.IH) auto
    then show ?case using Cons by (simp add: lrun_append)
  qed simp
  note this [OF order_refl]
  moreover have "lrun (lread_prop k) (c, cur # stk) p (prop_evs ps) = Inr (c, cur # stk)" for c p
    using Node.prems(1) by (intro lrun_props_skip) auto
  moreover have "\<not> 100 \<le> length stk" using Node.prems(2) by simp
  ultimately show ?case
    using Node.prems(1) by (subst flatten_evs) (simp add: lrun_append)
qed

lemma read_prop_flatten:
  assumes "depth t \<le> 100"
  shows "lrun (lread_prop k) (0, []) p (flatten t) =
    Inl (Inr (if map_of (nprops t) k = None then 0 else prop_addr p t k))"
proof -
  let ?ns = "(p + 4, [0]) :: names"
  let ?q = "ev_next p (EBegin (nname t))"
  show ?thesis
  proof (cases "map_of (nprops t) k")
    case None
    have "lrun (lread_prop k) ?ns q (prop_evs (nprops t)) = Inr ?ns" for q
      using None by (intro lrun_props_skip) (auto simp: map_of_eq_None_iff image_iff)
    moreover have "lrun (lread_prop k) ?ns q (concat (map flatten ds)) = Inr ?ns" if "set ds \<subseteq> set (children t)" for ds q
      using that
    proof (induction ds arbitrary: q)
      case (Cons d ds)
      have "depth d < depth t" using Cons.prems depth_child [of d "children t" "nname t" "nprops t"] by simp
      then have "lrun (lread_prop k) ?ns q (flatten d) = Inr ?ns" for q using assms by (intro read_prop_skip) auto
      then show ?case using Cons by (simp add: lrun_append)
    qed simp
    note this [OF order_refl]
    ultimately show ?thesis using None by (subst flatten_evs) (simp add: lrun_append)
  next
    case (Some v)
    let ?tw = "takeWhile (\<lambda>kv. fst kv \<noteq> k) (nprops t)"
    obtain qs where qs: "nprops t = ?tw @ (k, v) # qs" using split_at_key [OF Some] by blast
    have tw: "lrun (lread_prop k) ?ns q (prop_evs ?tw) = Inr ?ns" for q
      by (intro lrun_props_skip) (auto dest: set_takeWhileD)
    have "prop_evs (nprops t) = prop_evs ?tw @ EProp k v # prop_evs qs" by (subst qs) simp
    then have "lrun (lread_prop k) ?ns ?q (prop_evs (nprops t)) = Inl (Inr (addr ?q (prop_evs ?tw)))"
      by (simp add: lrun_append tw)
    then show ?thesis using Some by (subst flatten_evs) (simp add: lrun_append prop_addr_def)
  qed
qed

lemma read_prop_tree:
  assumes "laid m fdt p (flatten t @ rest)" "depth t \<le> 100" "CHR 0x00 \<notin> set k"
    and "\<forall>e \<in> set (flatten t). length (ev_name e) + length (flatten t) < n"
  shows "\<exists>r. fdt_read_prop n m fdt p k = Inr r \<and>
    (case map_of (nprops t) k of None \<Rightarrow> r = 0 | Some v \<Rightarrow> prop_value m r v)"
proof -
  have l: "laid m fdt p (flatten t)" using assms(1) by (simp add: laid_append)
  have "fdt_read_prop n m fdt p k = Inr (if map_of (nprops t) k = None then 0 else prop_addr p t k)"
    unfolding fdt_read_prop_def
    using fdt_walk_lrun [OF l assms(4), where lact = "lread_prop k" and act = "read_prop_act m fdt k",
        OF read_prop_act_l [OF assms(3)], of _ "(0, [])"]
    by (simp only: read_prop_flatten [OF assms(2)] sum.case)
  then show ?thesis using prop_addr_value [OF assms(1)] by (auto split: option.splits)
qed

section \<open>Finding a property of a named node\<close>

abbreviation lfind_prop :: "mem8 \<Rightarrow> string \<Rightarrow> string \<Rightarrow> u64 \<Rightarrow> fdt_ev \<Rightarrow> names \<Rightarrow> fdt_err + u64 + names" where
  "lfind_prop m nn k \<equiv> lnames (\<lambda>p k' ns. strcmp_mem m (fst ns) nn \<and> k' = k) (\<lambda>n. False)"

lemma find_prop_act_l:
  "CHR 0x00 \<notin> set k \<Longrightarrow> laid m fdt p [e] \<Longrightarrow>
   find_prop_act m fdt nn k \<lparr>current = p, token = ev_token e, nxt = q\<rparr> ns = lfind_prop m nn k p e ns"
  by (cases e) (auto simp: find_prop_act_def lnames_def fdt_tokens strcmp_mem_unique)

definition has_prop :: "string \<Rightarrow> string \<Rightarrow> fdt_node \<Rightarrow> bool" where
  "has_prop nn k s \<longleftrightarrow> nname s = nn \<and> map_of (nprops s) k \<noteq> None"

definition pfound :: "mem8 \<Rightarrow> string \<Rightarrow> string \<Rightarrow> names \<Rightarrow> u64 \<Rightarrow> fdt_ev list \<Rightarrow> fdt_node list \<Rightarrow> bool" where
  "pfound m nn k st p es ns \<longleftrightarrow>
     (case List.find (has_prop nn k) ns of
        None \<Rightarrow> lrun (lfind_prop m nn k) st p es = Inr st
      | Some s \<Rightarrow> \<exists>pre post. es = pre @ flatten s @ post \<and>
          lrun (lfind_prop m nn k) st p es = Inl (Inr (prop_addr (addr p pre) s k)))"

lemma pfound_append:
  assumes "pfound m nn k st p es ns" "pfound m nn k st (addr p es) fs ms"
  shows "pfound m nn k st p (es @ fs) (ns @ ms)"
proof (cases "List.find (has_prop nn k) ns")
  case None
  then have 1: "lrun (lfind_prop m nn k) st p es = Inr st" using assms(1) by (simp add: pfound_def)
  show ?thesis
  proof (cases "List.find (has_prop nn k) ms")
    case (Some s)
    then obtain pre post where f: "fs = pre @ flatten s @ post"
      "lrun (lfind_prop m nn k) st (addr p es) fs = Inl (Inr (prop_addr (addr (addr p es) pre) s k))"
      using assms(2) by (auto simp: pfound_def)
    have "es @ fs = (es @ pre) @ flatten s @ post \<and>
        lrun (lfind_prop m nn k) st p (es @ fs) = Inl (Inr (prop_addr (addr p (es @ pre)) s k))"
      unfolding lrun_append using f 1 by simp
    then have "\<exists>pre post. es @ fs = pre @ flatten s @ post \<and>
        lrun (lfind_prop m nn k) st p (es @ fs) = Inl (Inr (prop_addr (addr p pre) s k))" by blast
    then show ?thesis using None Some by (simp add: pfound_def find_append)
  qed (use None 1 assms(2) in \<open>simp add: pfound_def find_append lrun_append\<close>)
next
  case (Some s)
  then obtain pre post where f: "es = pre @ flatten s @ post"
    "lrun (lfind_prop m nn k) st p es = Inl (Inr (prop_addr (addr p pre) s k))"
    using assms(1) by (auto simp: pfound_def)
  have "es @ fs = pre @ flatten s @ (post @ fs) \<and>
      lrun (lfind_prop m nn k) st p (es @ fs) = Inl (Inr (prop_addr (addr p pre) s k))"
    unfolding lrun_append using f by simp
  then have "\<exists>pre post. es @ fs = pre @ flatten s @ post \<and>
      lrun (lfind_prop m nn k) st p (es @ fs) = Inl (Inr (prop_addr (addr p pre) s k))" by blast
  then show ?thesis using Some by (simp add: pfound_def find_append)
qed

lemma lrun_props_hit:
  assumes "map_of ps k = Some v" "strcmp_mem m cur nn"
  shows "lrun (lfind_prop m nn k) (cur, stk) p (prop_evs ps) =
    Inl (Inr (addr p (prop_evs (takeWhile (\<lambda>kv. fst kv \<noteq> k) ps))))"
proof -
  let ?tw = "takeWhile (\<lambda>kv. fst kv \<noteq> k) ps"
  obtain qs where qs: "ps = ?tw @ (k, v) # qs" using split_at_key [OF assms(1)] by blast
  have tw: "lrun (lfind_prop m nn k) (cur, stk) q (prop_evs ?tw) = Inr (cur, stk)" for q
    by (intro lrun_props_skip) (auto dest: set_takeWhileD)
  have "prop_evs ps = prop_evs ?tw @ EProp k v # prop_evs qs" by (subst qs) simp
  then show ?thesis by (simp add: lrun_append tw assms(2))
qed

lemma pfound_flatten:
  "laid m fdt p (flatten t) \<Longrightarrow> length stk + depth t \<le> 100 \<Longrightarrow> CHR 0x00 \<notin> set nn \<Longrightarrow>
   pfound m nn k (cur, stk) p (flatten t) (nodes t)"
proof (induction t arbitrary: cur stk p)
  case (Node x ps cs)
  let ?st = "(p + 4, cur # stk)"
  let ?q = "ev_next p (EBegin x)"
  have l: "laid m fdt ?q (prop_evs ps @ concat (map flatten cs) @ [EEnd])" "strcmp_mem m (p + 4) nn \<longleftrightarrow> x = nn"
    using Node.prems(1,3) by (auto simp: prop_evs_def strcmp_mem_unique)
  have stk: "\<not> 100 \<le> length stk" using Node.prems(2) by simp
  have kids: "pfound m nn k ?st q (concat (map flatten ds)) (concat (map nodes ds))"
    if "set ds \<subseteq> set cs" "laid m fdt q (concat (map flatten ds))" for ds q
    using that
  proof (induction ds arbitrary: q)
    case (Cons d ds)
    have "depth d < depth (Node x ps cs)" using Cons.prems depth_child [of d cs x ps] by simp
    then have "pfound m nn k ?st q (flatten d) (nodes d)"
      using Cons.prems Node.prems by (intro Node.IH) (auto simp: laid_append)
    moreover have "pfound m nn k ?st (addr q (flatten d)) (concat (map flatten ds)) (concat (map nodes ds))"
      using Cons.prems by (intro Cons.IH) (auto simp: laid_append)
    ultimately show ?case by (simp add: pfound_append)
  qed (simp add: pfound_def)
  show ?case
  proof (cases "has_prop nn k (Node x ps cs)")
    case True
    then obtain v where v: "x = nn" "map_of ps k = Some v" by (auto simp: has_prop_def)
    have "lrun (lfind_prop m nn k) (cur, stk) p (flatten (Node x ps cs)) =
        Inl (Inr (prop_addr p (Node x ps cs) k))"
      using stk lrun_props_hit [OF v(2), of m "p + 4" nn] l(2) v(1)
      by (subst flatten_evs) (simp add: lrun_append prop_addr_def)
    then show ?thesis using True by (auto simp: pfound_def intro!: exI [of _ "[]"])
  next
    case False
    have p0: "lrun (lfind_prop m nn k) ?st ?q (prop_evs ps) = Inr ?st"
      using False l(2) by (intro lrun_props_skip) (auto simp: has_prop_def map_of_eq_None_iff image_iff)
    have "laid m fdt (addr ?q (prop_evs ps)) (concat (map flatten cs))"
      using l(1) by (simp add: laid_append)
    note ks = kids [OF order_refl this]
    have run: "lrun (lfind_prop m nn k) (cur, stk) p (flatten (Node x ps cs)) =
      (case lrun (lfind_prop m nn k) ?st (addr ?q (prop_evs ps)) (concat (map flatten cs)) of
         Inl r \<Rightarrow> Inl r | Inr st \<Rightarrow> lrun (lfind_prop m nn k) st (addr ?q (prop_evs ps @ concat (map flatten cs))) [EEnd])"
      using stk p0 by (subst flatten_evs) (auto simp: lrun_append split: sum.splits)
    show ?thesis
    proof (cases "List.find (has_prop nn k) (concat (map nodes cs))")
      case None
      then show ?thesis using ks False run by (simp add: pfound_def)
    next
      case (Some s)
      then obtain pre post where f: "concat (map flatten cs) = pre @ flatten s @ post"
        "lrun (lfind_prop m nn k) ?st (addr ?q (prop_evs ps)) (concat (map flatten cs)) =
         Inl (Inr (prop_addr (addr (addr ?q (prop_evs ps)) pre) s k))"
        using ks by (auto simp: pfound_def)
      let ?pre = "EBegin x # prop_evs ps @ pre"
      have "flatten (Node x ps cs) = ?pre @ flatten s @ (post @ [EEnd])"
        by (subst flatten_evs) (simp add: f(1))
      moreover have "lrun (lfind_prop m nn k) (cur, stk) p (flatten (Node x ps cs)) =
          Inl (Inr (prop_addr (addr p ?pre) s k))"
        unfolding run f(2) by simp
      ultimately have "\<exists>pre post. flatten (Node x ps cs) = pre @ flatten s @ post \<and>
          lrun (lfind_prop m nn k) (cur, stk) p (flatten (Node x ps cs)) = Inl (Inr (prop_addr (addr p pre) s k))"
        by blast
      then show ?thesis using False Some by (simp add: pfound_def del: flatten.simps)
    qed
  qed
qed

lemma find_prop_tree:
  assumes "blob m fdt t n" "CHR 0x00 \<notin> set nn" "CHR 0x00 \<notin> set k"
  shows "\<exists>r. fdt_find_prop n m fdt nn k = Inr r \<and>
    (case List.find (has_prop nn k) (nodes t) of None \<Rightarrow> r = 0 | Some s \<Rightarrow> prop_value m r (the (map_of (nprops s) k)))"
proof -
  let ?p = "struct_start m fdt"
  have l: "laid m fdt ?p (flatten t @ [EFinish])" using assms(1) by (simp add: blob_def)
  have ne: "flatten t \<noteq> []" by (cases t) simp
  have f: "\<forall>e \<in> set (flatten t @ [EFinish]). length (ev_name e) + length (flatten t @ [EFinish]) < n"
    using assms(1) ne by (fastforce simp: blob_def dest: hd_in_set)
  note w = fdt_walk_lrun [OF l f, where lact = "lfind_prop m nn k" and act = "find_prop_act m fdt nn k",
        OF find_prop_act_l [OF assms(3)], of _ "(0, [])"]
  have pf: "pfound m nn k (0, []) ?p (flatten t) (nodes t)"
    using l assms by (intro pfound_flatten) (auto simp: laid_append blob_def)
  show ?thesis
  proof (cases "List.find (has_prop nn k) (nodes t)")
    case None
    then show ?thesis using pf w by (simp add: pfound_def lrun_append fdt_find_prop_def)
  next
    case (Some s)
    then obtain pre post where g: "flatten t = pre @ flatten s @ post"
      "lrun (lfind_prop m nn k) (0, []) ?p (flatten t) = Inl (Inr (prop_addr (addr ?p pre) s k))"
      using pf by (auto simp: pfound_def)
    have "laid m fdt (addr ?p pre) (flatten s @ post @ [EFinish])"
      using l unfolding g(1) append_assoc by (subst (asm) laid_append) simp
    moreover have "has_prop nn k s" using Some by (auto simp: find_Some_iff)
    then obtain v where "map_of (nprops s) k = Some v" by (auto simp: has_prop_def)
    ultimately show ?thesis using prop_addr_value Some w g(2) by (simp add: lrun_append fdt_find_prop_def)
  qed
qed

section \<open>Properties\<close>

text \<open>
  C18: \<open>fdt_find_node\<close> finds the first node of a name in a blob's tree, in document order: it returns
  \<open>NULL\<close> exactly when no node has the name, and otherwise the address where that node and its subtree
  lie; it never runs off the blob.
\<close>

theorem fdt_find_node_first:
  assumes "blob m fdt t n" "CHR 0x00 \<notin> set nm"
  shows "\<exists>r. fdt_find_node n m fdt nm = Inr r \<and>
    (case List.find (\<lambda>s. nname s = nm) (nodes t) of
       None \<Rightarrow> r = 0
     | Some s \<Rightarrow> r \<noteq> 0 \<and> (\<exists>rest. laid m fdt r (flatten s @ rest)))"
proof -
  obtain r where r: "fdt_find_node n m fdt nm = Inr r"
    "case List.find (\<lambda>s. nname s = nm) (nodes t) of
       None \<Rightarrow> r = 0
     | Some s \<Rightarrow> \<exists>pre post. flatten t = pre @ flatten s @ post \<and> r = addr (struct_start m fdt) pre \<and>
         laid m fdt r (flatten s @ post @ [EFinish])"
    using find_node_tree [OF assms] by blast
  have "r \<noteq> 0" if "laid m fdt r (flatten s @ rest)" for s rest
    using that by (cases s) simp
  then show ?thesis using r by (fastforce split: option.splits)
qed

text \<open>
  \<open>fdt_read_prop\<close> reads the properties of a node and of no other: at a node that lies in memory it
  returns the header of the first property of the name in the node itself, with the property's length and
  bytes, and \<open>NULL\<close> when the node has none, even if its children or later siblings do.
\<close>

theorem fdt_read_prop_own:
  assumes "laid m fdt p (flatten t @ rest)" "depth t \<le> 100" "CHR 0x00 \<notin> set k"
    and "\<forall>e \<in> set (flatten t). length (ev_name e) + length (flatten t) < n"
  shows "\<exists>r. fdt_read_prop n m fdt p k = Inr r \<and>
    (case map_of (nprops t) k of None \<Rightarrow> r = 0 | Some v \<Rightarrow> prop_value m r v)"
  using read_prop_tree [OF assms] .

text \<open>
  \<open>fdt_find_prop\<close>, which fetches the boot arguments, returns the value of the property in the first node
  that has both the name and the property, and \<open>NULL\<close> when there is none, for trees up to a hundred deep.
\<close>

theorem fdt_find_prop_first:
  assumes "blob m fdt t n" "CHR 0x00 \<notin> set nn" "CHR 0x00 \<notin> set k"
  shows "\<exists>r. fdt_find_prop n m fdt nn k = Inr r \<and>
    (case List.find (has_prop nn k) (nodes t) of None \<Rightarrow> r = 0 | Some s \<Rightarrow> prop_value m r (the (map_of (nprops s) k)))"
  using find_prop_tree [OF assms] .

text \<open>
  A blob: the header at 0x1000, the structure block 16 bytes in and the strings 80 bytes in. The root
  holds \<open>chosen\<close>, whose \<open>bootargs\<close> are \<open>-n5\<close>.
\<close>

definition blob_tree :: fdt_node where
  "blob_tree = Node [] [] [Node ''cpus'' [] [], Node ''chosen'' [(''bootargs'', [0x2d, 0x6e, 0x35, 0])] []]"

definition blob_bytes :: "u8 list" where
  "blob_bytes =
    [0, 0, 0, 0, 0, 0, 0, 0, 0, 0, 0, 16, 0, 0, 0, 80,
      0, 0, 0, 1, 0, 0, 0, 0, 0, 0, 0, 1, 99, 112, 117, 115,
      0, 0, 0, 0, 0, 0, 0, 2, 0, 0, 0, 1, 99, 104, 111, 115,
      101, 110, 0, 0, 0, 0, 0, 3, 0, 0, 0, 4, 0, 0, 0, 0,
      45, 110, 53, 0, 0, 0, 0, 2, 0, 0, 0, 2, 0, 0, 0, 9,
      98, 111, 111, 116, 97, 114, 103, 115, 0]"

definition blob_mem :: mem8 where
  "blob_mem a = (let i = unat (a - 0x1000) in if i < length blob_bytes then blob_bytes ! i else 0)"

lemmas blob_eval = blob_tree_def blob_mem_def blob_bytes_def read_be_def fdt_tokens FDT_ALIGN_def char_u8_def
  dtb_read_str_def fdt_off_dt_strings_def fdt_off_dt_struct_def struct_start_def Let_def All_less_Suc2

lemma blob_laid:
  "laid blob_mem 0x1000 0x1010 (flatten blob_tree @ [EFinish])"
  "laid blob_mem 0x1000 0x1028 (flatten (Node ''chosen'' [(''bootargs'', [0x2d, 0x6e, 0x35, 0])] []) @ [])"
  by (simp_all add: blob_eval)

lemma blob_tree_blob: "blob blob_mem 0x1000 blob_tree 100"
proof -
  have "struct_start blob_mem 0x1000 = 0x1010" by (simp add: blob_eval)
  then have "laid blob_mem 0x1000 (struct_start blob_mem 0x1000) (flatten blob_tree @ [EFinish])"
    using blob_laid(1) by simp
  moreover have "list_all (\<lambda>e. length (ev_name e) + length (flatten blob_tree) + 1 < 100) (flatten blob_tree)" by code_simp
  moreover have "depth blob_tree \<le> 100" by code_simp
  ultimately show ?thesis by (simp add: blob_def list_all_iff)
qed

theorem fdt_find_node_first_witness:
  "fdt_find_node 100 blob_mem 0x1000 ''soc'' = Inr 0 \<and>
   (\<exists>r. fdt_find_node 100 blob_mem 0x1000 ''cpus'' = Inr r \<and> r \<noteq> 0)"
  using fdt_find_node_first [OF blob_tree_blob, of "''soc''"] fdt_find_node_first [OF blob_tree_blob, of "''cpus''"]
  by (auto simp: blob_tree_def)

theorem fdt_find_prop_first_witness:
  "\<exists>r. fdt_find_prop 100 blob_mem 0x1000 ''chosen'' ''bootargs'' = Inr r \<and> prop_value blob_mem r [0x2d, 0x6e, 0x35, 0]"
  using fdt_find_prop_first [OF blob_tree_blob, of "''chosen''" "''bootargs''"]
  by (simp add: blob_tree_def has_prop_def)

theorem fdt_read_prop_own_witness:
  "fdt_read_prop 100 blob_mem 0x1000 0x1010 ''bootargs'' = Inr 0 \<and>
   (\<exists>r. fdt_read_prop 100 blob_mem 0x1000 0x1028 ''bootargs'' = Inr r \<and> prop_value blob_mem r [0x2d, 0x6e, 0x35, 0])"
proof -
  let ?t = "Node ''chosen'' [(''bootargs'', [0x2d, 0x6e, 0x35, 0])] []"
  have 1: "list_all (\<lambda>e. length (ev_name e) + length (flatten blob_tree) < 100) (flatten blob_tree)" "depth blob_tree \<le> 100"
    by code_simp+
  have 2: "list_all (\<lambda>e. length (ev_name e) + length (flatten ?t) < 100) (flatten ?t)" "depth ?t \<le> 100"
    by code_simp+
  have k: "CHR 0x00 \<notin> set ''bootargs''" by simp
  show ?thesis
    using fdt_read_prop_own [OF blob_laid(1) 1(2) k 1(1) [unfolded list_all_iff]]
      fdt_read_prop_own [OF blob_laid(2) 2(2) k 2(1) [unfolded list_all_iff]]
    by (simp add: blob_tree_def)
qed

end
