(* ===== verification/Regex.thy ===== *)
theory Regex
  imports Cstring
begin

text \<open>
  The patterns that select tests (\<open>lib/re/re.c\<close>): characters and wildcards, matched with an explicit
  backtrack stack of 100 entries. A compiled pattern is its list of tokens; the pointer to the current
  state is the list from that state on, \<open>NULL\<close> the empty list.
\<close>

record re_tok_t =
  is_char :: bool
  accepts :: char

type_synonym re_t = "re_tok_t list"

datatype re_err = Stack_overrun

definition tokenize :: "char \<Rightarrow> re_tok_t" where
  "tokenize c = (if c = CHR ''*'' \<or> c = CHR ''?'' then \<lparr>is_char = False, accepts = CHR 0x00\<rparr> else \<lparr>is_char = True, accepts = c\<rparr>)"

definition re_compile :: "string \<Rightarrow> re_t" where
  "re_compile s = map tokenize s"

definition would_accept_char :: "string \<Rightarrow> re_tok_t \<Rightarrow> nat \<Rightarrow> bool" where
  "would_accept_char input st idx \<longleftrightarrow> is_char st \<and> accepts st = (if idx < length input then input ! idx else CHR 0x00)"

text \<open>The first position from \<open>valid_up_to\<close> on at which the token is accepted; \<open>None\<close> at the end of the input.\<close>

function eat_stream :: "string \<Rightarrow> re_tok_t \<Rightarrow> nat \<Rightarrow> nat option" where
  "eat_stream input st valid_up_to =
     (if valid_up_to \<ge> length input then None
      else if would_accept_char input st valid_up_to then Some valid_up_to
      else eat_stream input st (valid_up_to + 1))"
  by pat_completeness auto
termination by (relation "measure (\<lambda>(input, st, i). length input - i)") auto

declare eat_stream.simps [simp del]

text \<open>
  Stepping over a wildcard: the new state and position, and the stack entry if one is pushed. The loop
  over consecutive wildcards in the source ends after one round, because \<open>continue\<close> in
  \<open>do \<dots> while (false)\<close> leaves it.
\<close>

definition chomp_wildcard :: "string \<Rightarrow> re_t \<Rightarrow> nat \<Rightarrow> re_t \<times> nat \<times> (nat \<times> re_t) option" where
  "chomp_wildcard input cur idx =
     (case tl cur of
        [] \<Rightarrow> ([], length input, None)
      | next_st # rest \<Rightarrow>
          (case eat_stream input next_st idx of
             None \<Rightarrow> (next_st # rest, length input, None)
           | Some v \<Rightarrow> (next_st # rest, v, Some (v + 1, cur))))"

partial_function (option) re_run ::
  "string \<Rightarrow> re_t \<Rightarrow> nat \<Rightarrow> (nat \<times> re_t) list \<Rightarrow> (re_err + bool) option" where
  "re_run input cur idx stack =
     (if idx = length input \<or> cur = [] then
        (if idx = length input \<and> cur = [] then Some (Inr True)
         else if stack \<noteq> [] then re_run input (snd (hd stack)) (fst (hd stack)) (tl stack)
         else Some (Inr False))
      else if would_accept_char input (hd cur) idx then re_run input (tl cur) (idx + 1) stack
      else if \<not> is_char (hd cur) then
        (case chomp_wildcard input cur idx of
           (cur', idx', None) \<Rightarrow> re_run input cur' idx' stack
         | (cur', idx', Some e) \<Rightarrow>
             if length stack \<ge> 100 then Some (Inl Stack_overrun) else re_run input cur' idx' (e # stack))
      else if stack \<noteq> [] then re_run input (snd (hd stack)) (fst (hd stack)) (tl stack)
      else Some (Inr False))"

definition re_matches :: "re_t \<Rightarrow> string \<Rightarrow> (re_err + bool) option" where
  "re_matches re input = re_run input re 0 []"

section \<open>What a pattern matches\<close>

text \<open>
  The meaning of a pattern: the input is cut into one piece for each token, the character itself for a
  character and any text for a wildcard.
\<close>

definition fits :: "re_tok_t \<Rightarrow> string \<Rightarrow> bool" where
  "fits t w \<longleftrightarrow> is_char t \<longrightarrow> w = [accepts t]"

definition glob :: "re_t \<Rightarrow> string \<Rightarrow> bool" where
  "glob p s \<longleftrightarrow> (\<exists>ws. list_all2 fits p ws \<and> concat ws = s)"

text \<open>Two wildcards in a row, and a wildcard at the end.\<close>

fun in_a_row :: "re_t \<Rightarrow> bool" where
  "in_a_row (t # u # p) \<longleftrightarrow> \<not> is_char t \<and> \<not> is_char u \<or> in_a_row (u # p)"
| "in_a_row p \<longleftrightarrow> False"

definition ends_wild :: "re_t \<Rightarrow> bool" where
  "ends_wild p \<longleftrightarrow> p \<noteq> [] \<and> \<not> is_char (last p)"

text \<open>
  What the search of the code decides, as a recursion: two wildcards in a row match nothing, and a wildcard at
  the end only a text that is not empty. \<open>matched_iff\<close> below says it in terms of the pieces.
\<close>

fun matched :: "re_t \<Rightarrow> string \<Rightarrow> bool" where
  "matched [] s \<longleftrightarrow> s = []"
| "matched (t # p) s \<longleftrightarrow>
     (if is_char t then s \<noteq> [] \<and> hd s = accepts t \<and> matched p (tl s)
      else case p of
             [] \<Rightarrow> s \<noteq> []
           | u # q \<Rightarrow> is_char u \<and> (\<exists>k \<le> length s. matched p (drop k s)))"

lemma glob_Nil: "matched p [] \<longleftrightarrow> p = []"
proof (induction p)
  case (Cons t p)
  then show ?case by (cases p) auto
qed simp

lemma eat_stream_Some:
  "eat_stream s t i = Some j \<Longrightarrow> i \<le> j \<and> j < length s \<and> would_accept_char s t j \<and> (\<forall>l. i \<le> l \<and> l < j \<longrightarrow> \<not> would_accept_char s t l)"
proof (induction s t i rule: eat_stream.induct)
  case (1 s t i)
  then show ?case
    by (subst (asm) (2) eat_stream.simps) (auto split: if_splits simp: le_Suc_eq, metis Suc_leI le_neq_implies_less)
qed

lemma eat_stream_None:
  "eat_stream s t i = None \<Longrightarrow> i \<le> l \<Longrightarrow> l < length s \<Longrightarrow> \<not> would_accept_char s t l"
proof (induction s t i rule: eat_stream.induct)
  case (1 s t i)
  then show ?case
    by (subst (asm) (2) eat_stream.simps) (auto split: if_splits, metis Suc_leI le_neq_implies_less)
qed

lemma glob_char_at:
  assumes "is_char t" "j < length s"
  shows "matched (t # p) (drop j s) \<longleftrightarrow> would_accept_char s t j \<and> matched p (drop (j + 1) s)"
  using assms by (auto simp: would_accept_char_def hd_drop_conv_nth drop_Suc tl_drop)

text \<open>Where the search resumes when the current attempt fails.\<close>

fun resume :: "string \<Rightarrow> (nat \<times> re_t) list \<Rightarrow> (re_err + bool) option" where
  "resume s [] = Some (Inr False)"
| "resume s (e # stack) = re_run s (snd e) (fst e) stack"

lemma resume_if: "(if stack \<noteq> [] then re_run s (snd (hd stack)) (fst (hd stack)) (tl stack) else Some (Inr False)) = resume s stack"
  by (cases stack) auto

definition wilds :: "re_t \<Rightarrow> nat" where
  "wilds p = length (filter (\<lambda>t. \<not> is_char t) p)"

lemma glob_wild_step:
  assumes "\<not> is_char t" "is_char u" "idx \<le> j" "j < length s"
    "\<And>l. idx \<le> l \<Longrightarrow> l < j \<Longrightarrow> \<not> would_accept_char s u l"
  shows "matched (t # u # p) (drop idx s) \<longleftrightarrow> matched (u # p) (drop j s) \<or> matched (t # u # p) (drop (j + 1) s)"
proof -
  have g: "matched (t # u # p) (drop i s) \<longleftrightarrow> (\<exists>l. i \<le> l \<and> l < length s \<and> matched (u # p) (drop l s))" for i
  proof
    assume "matched (t # u # p) (drop i s)"
    then obtain k where k: "k \<le> length (drop i s)" "matched (u # p) (drop k (drop i s))"
      using assms(1) by auto
    then have "drop k (drop i s) \<noteq> []" by (metis glob_Nil list.distinct(1))
    then show "\<exists>l. i \<le> l \<and> l < length s \<and> matched (u # p) (drop l s)"
      using k by (intro exI [of _ "k + i"]) auto
  next
    assume "\<exists>l. i \<le> l \<and> l < length s \<and> matched (u # p) (drop l s)"
    then obtain l where "i \<le> l" "l < length s" "matched (u # p) (drop l s)" by blast
    then show "matched (t # u # p) (drop i s)"
      using assms(1,2) by (auto intro!: exI [of _ "l - i"] simp del: matched.simps(2) simp: matched.simps(2) [of t])
  qed
  have "\<not> matched (u # p) (drop l s)" if "idx \<le> l" "l < j" for l
    using assms(2,4,5) that glob_char_at [of u l s p] by auto
  then show ?thesis unfolding g using assms(3,4) by (metis Suc_eq_plus1 Suc_leI le_trans linorder_not_less nat_less_le not_less_eq_eq)
qed

lemma re_run_glob:
  "length stack + wilds cur \<le> 100 \<Longrightarrow> idx \<le> length s \<Longrightarrow>
   re_run s cur idx stack = (if matched cur (drop idx s) then Some (Inr True) else resume s stack)"
proof (induction cur arbitrary: idx stack)
  case Nil
  then show ?case by (subst re_run.simps) (auto simp: resume_if)
next
  case (Cons t p)
  note IH = Cons.IH
  show ?case
  proof (cases "idx = length s")
    case True
    then show ?thesis by (subst re_run.simps) (simp add: resume_if glob_Nil del: matched.simps)
  next
    case False
    then have lt: "idx < length s" using Cons.prems(2) by simp
    show ?thesis
    proof (cases "is_char t")
      case True
      have "re_run s p (idx + 1) stack = (if matched p (drop (idx + 1) s) then Some (Inr True) else resume s stack)"
        using Cons.prems True lt by (intro IH) (auto simp: wilds_def)
      then show ?thesis using True lt glob_char_at [OF True lt, of p]
        by (subst re_run.simps) (simp add: resume_if del: matched.simps)
    next
      case wild: False
      have nacc: "\<not> would_accept_char s t i" for i using wild by (simp add: would_accept_char_def)
      show ?thesis
      proof (cases p)
        case Nil
        have "re_run s [] (length s) stack = Some (Inr True)" by (subst re_run.simps) simp
        then show ?thesis using wild lt nacc Nil
          by (subst re_run.simps) (simp add: chomp_wildcard_def)
      next
        case p: (Cons u q)
        have IHp: "re_run s (u # q) i stk = (if matched (u # q) (drop i s) then Some (Inr True) else resume s stk)"
          if "length stk + wilds (u # q) \<le> 100" "i \<le> length s" for i stk
          using IH that p by simp
        show ?thesis
          using Cons.prems lt
        proof (induction "length s - idx" arbitrary: idx rule: less_induct)
          case less
          have w: "wilds (t # p) = Suc (wilds (u # q))" using wild p by (simp add: wilds_def)
          have step: "re_run s (t # p) idx stack =
            (case eat_stream s u idx of
               None \<Rightarrow> re_run s (u # q) (length s) stack
             | Some v \<Rightarrow> re_run s (u # q) v ((v + 1, t # p) # stack))"
            using less.prems wild nacc p w
            by (subst re_run.simps) (auto simp: chomp_wildcard_def split: option.splits)
          show ?case
          proof (cases "eat_stream s u idx")
            case None
            have no: "\<not> matched (u # q) (drop l s)" if "idx \<le> l" "is_char u" for l
              using eat_stream_None [OF None that(1)] glob_char_at [OF that(2), of l s q] glob_Nil [of "u # q"]
              by (cases "l < length s") (auto simp del: matched.simps)
            then have "\<not> matched (t # p) (drop idx s)" using wild p by auto
            then show ?thesis using None step IHp [of stack "length s"] less.prems w glob_Nil [of "u # q"]
              by (simp del: matched.simps)
          next
            case (Some j)
            note j = eat_stream_Some [OF Some]
            have u: "is_char u" using j by (simp add: would_accept_char_def)
            have g: "matched (t # p) (drop idx s) \<longleftrightarrow> matched (u # q) (drop j s) \<or> matched (t # p) (drop (j + 1) s)"
              unfolding p using j by (intro glob_wild_step [OF wild u]) auto
            have "re_run s (t # p) (j + 1) stack =
                (if matched (t # p) (drop (j + 1) s) then Some (Inr True) else resume s stack)"
            proof (cases "j + 1 = length s")
              case True
              then show ?thesis by (subst re_run.simps) (simp add: resume_if glob_Nil del: matched.simps)
            next
              case False
              then show ?thesis by (intro less.hyps) (use j less.prems in auto)
            qed
            then show ?thesis using Some step IHp [of "(j + 1, t # p) # stack" j] less.prems w j g
              by (simp del: matched.simps)
          qed
        qed
      qed
    qed
  qed
qed

definition pieces :: "re_t \<Rightarrow> string \<Rightarrow> bool" where
  "pieces p s \<longleftrightarrow> (\<exists>ws. list_all2 fits p ws \<and> concat ws = s \<and> (ends_wild p \<longrightarrow> last ws \<noteq> []))"

lemma pieces_Nil: "pieces [] s \<longleftrightarrow> s = []"
  by (auto simp: pieces_def ends_wild_def)

lemma pieces_single: "pieces [t] s \<longleftrightarrow> fits t s \<and> (is_char t \<or> s \<noteq> [])"
  by (auto simp: pieces_def ends_wild_def list_all2_Cons1)

lemma pieces_Cons:
  assumes "p \<noteq> []"
  shows "pieces (t # p) s \<longleftrightarrow> (\<exists>w s'. fits t w \<and> s = w @ s' \<and> pieces p s')"
proof
  have e: "ends_wild (t # p) = ends_wild p" using assms by (simp add: ends_wild_def)
  { assume "pieces (t # p) s"
    then obtain w ws where w: "fits t w" "list_all2 fits p ws" "w @ concat ws = s" "ends_wild p \<longrightarrow> last (w # ws) \<noteq> []"
      unfolding pieces_def e by (auto simp: list_all2_Cons1)
    then have "ws \<noteq> []" using assms by auto
    then show "\<exists>w s'. fits t w \<and> s = w @ s' \<and> pieces p s'" using w unfolding pieces_def by auto }
  assume "\<exists>w s'. fits t w \<and> s = w @ s' \<and> pieces p s'"
  then obtain w ws where w: "fits t w" "s = w @ concat ws" "list_all2 fits p ws" "ends_wild p \<longrightarrow> last ws \<noteq> []"
    unfolding pieces_def by blast
  then have "ws \<noteq> []" using assms by auto
  then show "pieces (t # p) s" unfolding pieces_def e using w by (intro exI [of _ "w # ws"]) simp
qed

lemma matched_pieces: "matched p s \<longleftrightarrow> \<not> in_a_row p \<and> pieces p s"
proof (induction p arbitrary: s)
  case (Cons t p)
  show ?case
  proof (cases p)
    case Nil
    then show ?thesis by (cases s) (auto simp: pieces_single fits_def)
  next
    case p: (Cons u q)
    have c: "pieces (t # p) s \<longleftrightarrow> (\<exists>w s'. fits t w \<and> s = w @ s' \<and> pieces p s')" by (rule pieces_Cons) (simp add: p)
    show ?thesis
    proof (cases "is_char t")
      case True
      then have "in_a_row (t # p) = in_a_row p" using p by simp
      then show ?thesis using True Cons.IH unfolding c by (cases s) (auto simp: fits_def)
    next
      case False
      have k: "(\<exists>k \<le> length s. Q (drop k s)) \<longleftrightarrow> (\<exists>w s'. s = w @ s' \<and> Q s')" for Q
        by (metis append_eq_conv_conj append_take_drop_id le_add1 length_append)
      have "matched (t # p) s \<longleftrightarrow> is_char u \<and> (\<exists>k \<le> length s. matched p (drop k s))" using False p by simp
      also have "\<dots> \<longleftrightarrow> is_char u \<and> (\<exists>w s'. s = w @ s' \<and> matched p s')" unfolding k ..
      also have "\<dots> \<longleftrightarrow> \<not> in_a_row (t # p) \<and> pieces (t # p) s" unfolding c using False p Cons.IH by (auto simp: fits_def)
      finally show ?thesis .
    qed
  qed
qed (simp add: pieces_Nil)

lemmas matched_iff = matched_pieces [unfolded pieces_def]


text \<open>So without the two exceptions it is the meaning of the pattern.\<close>

lemma matched_glob: "\<not> in_a_row p \<Longrightarrow> \<not> ends_wild p \<Longrightarrow> matched p s = glob p s"
  by (simp add: matched_iff glob_def)

lemma wildcards_in_a_row: "glob (re_compile ''MP**s'') ''MPs'' \<and> \<not> matched (re_compile ''MP**s'') ''MPs''"
proof
  show "glob (re_compile ''MP**s'') ''MPs''"
    unfolding glob_def by (rule exI [of _ "[''M'', ''P'', '''', '''', ''s'']"]) (simp add: re_compile_def tokenize_def fits_def)
qed code_simp

lemma last_wildcard: "glob (re_compile ''MP*'') ''MP'' \<and> \<not> matched (re_compile ''MP*'') ''MP''"
proof
  show "glob (re_compile ''MP*'') ''MP''"
    unfolding glob_def by (rule exI [of _ "[''M'', ''P'', '''']"]) (simp add: re_compile_def tokenize_def fits_def)
qed code_simp


end
