(* ===== verification/Config.thy ===== *)
theory Config
  imports Cstring Vmm
begin

text \<open>
  The command line: the configuration variables and the tables of options (\<open>lib/config.c\<close>), the parser
  (\<open>lib/argparse.c\<close>), the splitting of the boot arguments (\<open>lib/argc.c\<close>) and the search for an option's
  help (\<open>lib/help.c\<close>). Help texts are left out. \<open>Quit\<close> is a run that prints and stops on purpose,
  \<open>Bad\<close> one that ends in \<open>fail()\<close>, \<open>Overrun\<close> a write past one of the parser's fixed buffers.
\<close>

section \<open>Configuration\<close>

datatype arg_err = Quit | Bad string | Overrun

datatype output_style = STYLE_HERDTOOLS | STYLE_ORIGINAL
datatype aff_type = AFF_NONE | AFF_RAND
datatype shuffle_type = SHUF_NONE | SHUF_RAND
datatype concretize_type = CONCRETE_LINEAR | CONCRETE_RANDOM | CONCRETE_FIXED
datatype runner_type = RUNNER_ARRAY | RUNNER_SEMI_ARRAY | RUNNER_EPHEMERAL
datatype warning_name = WARN_UNEXPECTED_EXCEPTION | WARN_LITMUS_START_ASM | WARN_HASH_MISMATCH |
  WARN_MISSING_SC_RESULTS | WARN_SKIP_TEST | WARN_UNREACHABLE | WARN_UNKNONW_REGISTER | WARN_ALWAYS

record config =
  NUMBER_OF_RUNS :: u64
  RUNS_IN_BATCH :: u64
  INITIAL_SEED :: u64
  ENABLE_PGTABLE :: bool
  ENABLE_PERF_COUNTS :: bool
  RUN_FOREVER :: bool
  ENABLE_RESULTS_HIST :: bool
  ENABLE_RESULTS_OUTREG_PRINT :: bool
  ENABLE_RESULTS_MISSING_SC_WARNING :: bool
  VERBOSE :: bool
  TRACE :: bool
  DEBUG :: bool
  WARNINGS_AS_ERRORS :: bool
  enabled_warnings :: "warning_name \<Rightarrow> bool"
  collected_tests :: "string list"
  LITMUS_SYNC_TYPE :: sync_type
  LITMUS_AFF_TYPE :: aff_type
  LITMUS_SHUFFLE_TYPE :: shuffle_type
  LITMUS_CONCRETIZATION_TYPE :: concretize_type
  LITMUS_CONCRETIZATION_CFG :: string
  LITMUS_RUNNER_TYPE :: runner_type
  ENABLE_COLOUR :: bool
  ENABLE_UNITTESTS_CONCRETIZATION_TEST_RANDOM :: bool
  ENABLE_UNITTESTS_CONCRETIZATION_TEST_LINEAR :: bool
  OUTPUT_FORMAT :: output_style

definition default_config :: config where
  "default_config =
     \<lparr>NUMBER_OF_RUNS = 10000, RUNS_IN_BATCH = 1, INITIAL_SEED = 0, ENABLE_PGTABLE = True,
      ENABLE_PERF_COUNTS = False, RUN_FOREVER = False, ENABLE_RESULTS_HIST = True,
      ENABLE_RESULTS_OUTREG_PRINT = True, ENABLE_RESULTS_MISSING_SC_WARNING = True, VERBOSE = True,
      TRACE = False, DEBUG = False, WARNINGS_AS_ERRORS = False,
      enabled_warnings = (\<lambda>w. w \<notin> {WARN_LITMUS_START_ASM, WARN_HASH_MISMATCH, WARN_UNKNONW_REGISTER}),
      collected_tests = [], LITMUS_SYNC_TYPE = SYNC_ASID, LITMUS_AFF_TYPE = AFF_RAND,
      LITMUS_SHUFFLE_TYPE = SHUF_RAND, LITMUS_CONCRETIZATION_TYPE = CONCRETE_RANDOM,
      LITMUS_CONCRETIZATION_CFG = [], LITMUS_RUNNER_TYPE = RUNNER_EPHEMERAL, ENABLE_COLOUR = True,
      ENABLE_UNITTESTS_CONCRETIZATION_TEST_RANDOM = True, ENABLE_UNITTESTS_CONCRETIZATION_TEST_LINEAR = True,
      OUTPUT_FORMAT = STYLE_HERDTOOLS\<rparr>"

fun output_style_to_str :: "output_style \<Rightarrow> string" where
  "output_style_to_str STYLE_HERDTOOLS = ''herdtools''"
| "output_style_to_str STYLE_ORIGINAL = ''orig''"

fun sync_type_to_str :: "sync_type \<Rightarrow> string" where
  "sync_type_to_str SYNC_NONE = ''none''"
| "sync_type_to_str SYNC_ALL = ''all''"
| "sync_type_to_str SYNC_ASID = ''asid''"
| "sync_type_to_str SYNC_VA = ''va''"

fun aff_type_to_str :: "aff_type \<Rightarrow> string" where
  "aff_type_to_str AFF_NONE = ''none''"
| "aff_type_to_str AFF_RAND = ''rand''"

fun shuff_type_to_str :: "shuffle_type \<Rightarrow> string" where
  "shuff_type_to_str SHUF_NONE = ''none''"
| "shuff_type_to_str SHUF_RAND = ''rand''"

fun concretize_type_to_str :: "concretize_type \<Rightarrow> string" where
  "concretize_type_to_str CONCRETE_LINEAR = ''linear''"
| "concretize_type_to_str CONCRETE_RANDOM = ''random''"
| "concretize_type_to_str CONCRETE_FIXED = ''fixed''"

fun runner_type_to_str :: "runner_type \<Rightarrow> string" where
  "runner_type_to_str RUNNER_ARRAY = ''array''"
| "runner_type_to_str RUNNER_SEMI_ARRAY = ''semi''"
| "runner_type_to_str RUNNER_EPHEMERAL = ''ephemeral''"

section \<open>Option tables\<close>

text \<open>Short names are ''-x'' and long names ''--name'', as in the tables of the source.\<close>

datatype opt_arg = OPT_ARG_OPTIONAL | OPT_ARG_REQUIRED | OPT_ARG_NONE

type_synonym action = "config \<Rightarrow> arg_err + config"

datatype argdef =
  FLAG "string option" string "bool \<Rightarrow> config \<Rightarrow> config"
| FLAG_ACTION "string option" string action
| OPT "string option" "string option" "string \<Rightarrow> action" opt_arg
| ENUMERATE string "(string \<times> (config \<Rightarrow> config)) list"

fun argdef_arg_shortname :: "argdef \<Rightarrow> string option" where
  "argdef_arg_shortname (FLAG short long setter) = short"
| "argdef_arg_shortname (FLAG_ACTION short long act) = short"
| "argdef_arg_shortname (OPT short long act arg) = short"
| "argdef_arg_shortname (ENUMERATE long opts) = None"

fun argdef_arg_longname :: "argdef \<Rightarrow> string option" where
  "argdef_arg_longname (FLAG short long setter) = Some long"
| "argdef_arg_longname (FLAG_ACTION short long act) = Some long"
| "argdef_arg_longname (OPT short long act arg) = long"
| "argdef_arg_longname (ENUMERATE long opts) = Some long"

section \<open>Option actions\<close>

text \<open>The value of \<open>atoi\<close> goes through an \<open>int\<close>: its low 32 bits, sign extended.\<close>

definition atoi_int :: "string \<Rightarrow> arg_err + u64" where
  "atoi_int x = (case atoi x of Inl e \<Rightarrow> Inl (Bad e) | Inr v \<Rightarrow> Inr (scast (ucast v :: u32)))"

definition opt_n :: "string \<Rightarrow> action" where
  "opt_n x c = rbind (atoi_int x) (\<lambda>Xn. Inr (c\<lparr>NUMBER_OF_RUNS := Xn\<rparr>))"
definition opt_b :: "string \<Rightarrow> action" where
  "opt_b x c = rbind (atoi_int x) (\<lambda>Xn. Inr (c\<lparr>RUNS_IN_BATCH := Xn\<rparr>))"
definition opt_s :: "string \<Rightarrow> action" where
  "opt_s x c = rbind (atoi_int x) (\<lambda>Xn. Inr (c\<lparr>INITIAL_SEED := Xn\<rparr>))"
definition opt_show :: "string \<Rightarrow> action" where
  "opt_show x c = Inl Quit"

definition opt_q :: "string \<Rightarrow> action" where
  "opt_q x c =
     (if x \<noteq> [] then Inl (Bad ''-q/--quiet did not expect an argument.'')
      else Inr (c\<lparr>VERBOSE := False, DEBUG := False, TRACE := False\<rparr>))"

definition read_warning_name :: "string \<Rightarrow> warning_name option" where
  "read_warning_name w =
     (if strcmp w ''unexpected-exception'' then Some WARN_UNEXPECTED_EXCEPTION
      else if strcmp w ''litmus-start-asm'' then Some WARN_LITMUS_START_ASM
      else if strcmp w ''hash-mismatch'' then Some WARN_HASH_MISMATCH
      else if strcmp w ''missing-sc-results'' then Some WARN_MISSING_SC_RESULTS
      else if strcmp w ''skip-test'' then Some WARN_SKIP_TEST
      else if strcmp w ''unreachable'' then Some WARN_UNREACHABLE
      else if strcmp w ''unknown-register'' then Some WARN_UNKNONW_REGISTER
      else None)"

definition set_all_warnings :: "bool \<Rightarrow> config \<Rightarrow> config" where
  "set_all_warnings v c = c\<lparr>enabled_warnings := (\<lambda>_. v)\<rparr>"

definition parse_warning_flag :: "string \<Rightarrow> action" where
  "parse_warning_flag w c =
     (if strcmp w ''all'' then Inr (set_all_warnings True c)
      else if strcmp w ''none'' then Inr (set_all_warnings False c)
      else let no = strstartswith w ''no-''; w = (if no then drop 3 w else w); v = \<not> no
        in if strcmp w ''error'' then Inr (c\<lparr>WARNINGS_AS_ERRORS := v\<rparr>)
           else (case read_warning_name w of
                   None \<Rightarrow> Inl (Bad ''Unknown -W flag.'')
                 | Some warn \<Rightarrow> Inr (c\<lparr>enabled_warnings := (enabled_warnings c)(warn := v)\<rparr>)))"

text \<open>The comma separated list: the text up to a comma or the end is one flag; a comma means more.\<close>

function opt_w :: "string \<Rightarrow> action" where
  "opt_w w c =
     (let flag = takeWhile (\<lambda>ch. ch \<noteq> CHR '','') w; rest = dropWhile (\<lambda>ch. ch \<noteq> CHR '','') w
      in rbind (parse_warning_flag flag c) (\<lambda>c. if rest = [] then Inr c else opt_w (tl rest) c))"
  by pat_completeness auto
termination
proof (relation "measure (\<lambda>(w, c). length w)", goal_cases)
  case (2 w c flag rest c')
  then show ?case using length_dropWhile_le [of "\<lambda>ch. ch \<noteq> CHR '',''" w]
    by (cases "dropWhile (\<lambda>ch. ch \<noteq> CHR '','') w") auto
qed simp

text \<open>The copy has no NUL: what an earlier, longer value left stays behind.\<close>

definition opt_conc_cfg :: "string \<Rightarrow> action" where
  "opt_conc_cfg x c =
     Inr (c\<lparr>LITMUS_CONCRETIZATION_CFG := x @ drop (length x) (LITMUS_CONCRETIZATION_CFG c)\<rparr>)"

definition display_help_for :: "argdef list \<Rightarrow> string \<Rightarrow> bool" where
  "display_help_for args opt \<longleftrightarrow>
     (\<exists>a \<in> set args.
        (case argdef_arg_shortname a of None \<Rightarrow> False | Some s \<Rightarrow> strcmp (tl s) opt) \<or>
        (case argdef_arg_longname a of None \<Rightarrow> False | Some l \<Rightarrow> strcmp (drop 2 l) opt))"

definition init_cfg_state :: "config \<Rightarrow> config" where
  "init_cfg_state c =
     (case LITMUS_CONCRETIZATION_TYPE c of
        CONCRETE_RANDOM \<Rightarrow> c\<lparr>LITMUS_RUNNER_TYPE := RUNNER_EPHEMERAL\<rparr>
      | CONCRETE_LINEAR \<Rightarrow> c\<lparr>LITMUS_RUNNER_TYPE := RUNNER_SEMI_ARRAY\<rparr>
      | CONCRETE_FIXED \<Rightarrow> c\<lparr>LITMUS_RUNNER_TYPE := RUNNER_EPHEMERAL\<rparr>)"

section \<open>The tables\<close>

text \<open>
  The table a mode adds to the common one is \<open>THIS_ARGS\<close>. The action of \<open>--help\<close> searches both tables,
  so the common table takes the mode's.
\<close>

definition LITMUS_ARGS :: "argdef list" where
  "LITMUS_ARGS =
     [OPT None (Some ''--show'') opt_show OPT_ARG_NONE,
      FLAG None ''--run-forever'' (\<lambda>b c. c\<lparr>RUN_FOREVER := b\<rparr>),
      FLAG None ''--perf'' (\<lambda>b c. c\<lparr>ENABLE_PERF_COUNTS := b\<rparr>),
      OPT (Some ''-n'') None opt_n OPT_ARG_OPTIONAL,
      OPT (Some ''-b'') (Some ''--batch-size'') opt_b OPT_ARG_OPTIONAL,
      ENUMERATE ''--format''
        [(''herdtools'', \<lambda>c. c\<lparr>OUTPUT_FORMAT := STYLE_HERDTOOLS\<rparr>),
         (''original'', \<lambda>c. c\<lparr>OUTPUT_FORMAT := STYLE_ORIGINAL\<rparr>)],
      FLAG None ''--hist'' (\<lambda>b c. c\<lparr>ENABLE_RESULTS_HIST := b\<rparr>),
      FLAG None ''--print-outcome-breakdown'' (\<lambda>b c. c\<lparr>ENABLE_RESULTS_OUTREG_PRINT := b\<rparr>),
      FLAG None ''--print-missing-warning'' (\<lambda>b c. c\<lparr>ENABLE_RESULTS_MISSING_SC_WARNING := b\<rparr>),
      ENUMERATE ''--tlbsync''
        [(''none'', \<lambda>c. c\<lparr>LITMUS_SYNC_TYPE := SYNC_NONE\<rparr>), (''asid'', \<lambda>c. c\<lparr>LITMUS_SYNC_TYPE := SYNC_ASID\<rparr>),
         (''va'', \<lambda>c. c\<lparr>LITMUS_SYNC_TYPE := SYNC_VA\<rparr>), (''all'', \<lambda>c. c\<lparr>LITMUS_SYNC_TYPE := SYNC_ALL\<rparr>)],
      ENUMERATE ''--aff''
        [(''none'', \<lambda>c. c\<lparr>LITMUS_AFF_TYPE := AFF_NONE\<rparr>), (''rand'', \<lambda>c. c\<lparr>LITMUS_AFF_TYPE := AFF_RAND\<rparr>)],
      ENUMERATE ''--shuffle''
        [(''none'', \<lambda>c. c\<lparr>LITMUS_SHUFFLE_TYPE := SHUF_NONE\<rparr>),
         (''rand'', \<lambda>c. c\<lparr>LITMUS_SHUFFLE_TYPE := SHUF_RAND\<rparr>)],
      ENUMERATE ''--concretize''
        [(''linear'', \<lambda>c. c\<lparr>LITMUS_CONCRETIZATION_TYPE := CONCRETE_LINEAR\<rparr>),
         (''random'', \<lambda>c. c\<lparr>LITMUS_CONCRETIZATION_TYPE := CONCRETE_RANDOM\<rparr>),
         (''fixed'', \<lambda>c. c\<lparr>LITMUS_CONCRETIZATION_TYPE := CONCRETE_FIXED\<rparr>)],
      OPT None (Some ''--config-concretize'') opt_conc_cfg OPT_ARG_OPTIONAL]"

definition UNITTEST_ARGS :: "argdef list" where
  "UNITTEST_ARGS =
     [FLAG None ''--test-linear-concretization'' (\<lambda>b c. c\<lparr>ENABLE_UNITTESTS_CONCRETIZATION_TEST_LINEAR := b\<rparr>),
      FLAG None ''--test-random-concretization'' (\<lambda>b c. c\<lparr>ENABLE_UNITTESTS_CONCRETIZATION_TEST_RANDOM := b\<rparr>)]"

definition quit_action :: action where "quit_action c = Inl Quit"

text \<open>\<open>help\<close> is given the long and short names its tables have: the common ones and the mode's.\<close>

definition opt_help :: "argdef list \<Rightarrow> string \<Rightarrow> action" where
  "opt_help args opt c =
     (if opt = [] then Inl Quit
      else if display_help_for args opt then Inl Quit
      else Inl (Bad ''unknown argument''))"

definition COMMON_REST :: "argdef list" where
  "COMMON_REST =
     [FLAG_ACTION (Some ''-V'') ''--version'' quit_action,
      FLAG_ACTION None ''--build'' quit_action,
      FLAG_ACTION None ''--id'' quit_action,
      FLAG (Some ''-p'') ''--pgtable'' (\<lambda>b c. c\<lparr>ENABLE_PGTABLE := b\<rparr>),
      FLAG (Some ''-t'') ''--trace'' (\<lambda>b c. c\<lparr>TRACE := b\<rparr>),
      FLAG (Some ''-d'') ''--debug'' (\<lambda>b c. c\<lparr>DEBUG := b\<rparr>),
      FLAG None ''--verbose'' (\<lambda>b c. c\<lparr>VERBOSE := b\<rparr>),
      OPT (Some ''-q'') (Some ''--quiet'') opt_q OPT_ARG_NONE,
      OPT (Some ''-s'') (Some ''--seed'') opt_s OPT_ARG_REQUIRED,
      OPT (Some ''-W'') None opt_w OPT_ARG_REQUIRED,
      FLAG None ''--color'' (\<lambda>b c. c\<lparr>ENABLE_COLOUR := b\<rparr>)]"

definition COMMON_ARGS :: "argdef list \<Rightarrow> argdef list" where
  "COMMON_ARGS this_args =
     OPT (Some ''-h'') (Some ''--help'')
       (opt_help (OPT (Some ''-h'') (Some ''--help'') (\<lambda>_. quit_action) OPT_ARG_OPTIONAL # COMMON_REST @ this_args))
       OPT_ARG_OPTIONAL
     # COMMON_REST"

section \<open>The parser\<close>

text \<open>\<open>argv\<close> starts with a dash. The result is 0, 1 or 2 as in the source.\<close>

definition argparse_check_name_exact :: "string \<Rightarrow> string option \<Rightarrow> string option \<Rightarrow> nat" where
  "argparse_check_name_exact argv short_name long_name =
     (let s = tl argv; flipped = strstartswith s ''-no-''; s = (if flipped then drop 3 s else s)
      in if (case short_name of None \<Rightarrow> False | Some n \<Rightarrow> strcmp s (tl n)) then 1
         else if s \<noteq> [] \<and> hd s = CHR ''-'' then
           (case long_name of None \<Rightarrow> 0
            | Some n \<Rightarrow> if strcmp (tl s) (drop 2 n) then (if flipped then 2 else 1) else 0)
         else 0)"

text \<open>The buffers hold 100 characters, the right one with its NUL. The result is the right one.\<close>

definition argdef_try_split ::
  "string \<Rightarrow> string option \<Rightarrow> string option \<Rightarrow> opt_arg \<Rightarrow> arg_err + string option" where
  "argdef_try_split argv short_name long_name opt_arg =
     (let s = tl argv
      in if s \<noteq> [] \<and> hd s = CHR ''-'' then
           (case long_name of None \<Rightarrow> Inr None
            | Some n \<Rightarrow>
                if \<not> strstartswith (tl s) (drop 2 n) then Inr None
                else (case strpartition argv (CHR ''='') of (split, lhs, rhs) \<Rightarrow>
                  let r = (case rhs of None \<Rightarrow> [] | Some r \<Rightarrow> r)
                  in if length lhs > 100 \<or> length r + 1 > 100 then Inl Overrun
                     else if \<not> split \<and> opt_arg = OPT_ARG_REQUIRED then Inl (Bad ''expected argument.'')
                     else if split \<and> opt_arg = OPT_ARG_NONE then Inl (Bad ''expected no argument.'')
                     else Inr (Some r)))
         else
           (case short_name of None \<Rightarrow> Inr None
            | Some n \<Rightarrow>
                if s = [] \<or> hd s \<noteq> hd (tl n) then Inr None
                else if length (tl s) + 1 > 100 then Inl Overrun
                else Inr (Some (tl s))))"

fun argparse_check_arg :: "string \<Rightarrow> argdef \<Rightarrow> config \<Rightarrow> arg_err + config option" where
  "argparse_check_arg argv (FLAG short long setter) c =
     (let match = argparse_check_name_exact argv short (Some long)
      in if match = 0 then Inr None else Inr (Some (setter (match = 1) c)))"
| "argparse_check_arg argv (FLAG_ACTION short long act) c =
     (let match = argparse_check_name_exact argv short (Some long)
      in if match = 0 then Inr None else if match = 1 then rbind (act c) (\<lambda>c. Inr (Some c)) else Inr (Some c))"
| "argparse_check_arg argv (OPT short long act arg) c =
     rbind (argdef_try_split argv short long arg) (\<lambda>m.
       case m of None \<Rightarrow> Inr None
       | Some rhs \<Rightarrow>
           if arg = OPT_ARG_NONE \<and> rhs \<noteq> [] then Inl (Bad ''did not expect an argument.'')
           else rbind (act rhs c) (\<lambda>c. Inr (Some c)))"
| "argparse_check_arg argv (ENUMERATE long opts) c =
     rbind (argdef_try_split argv None (Some long) OPT_ARG_REQUIRED) (\<lambda>m.
       case m of None \<Rightarrow> Inr None
       | Some rhs \<Rightarrow>
           (case List.find (\<lambda>(name, setter). strcmp name rhs) opts of
              None \<Rightarrow> Inl (Bad ''got unexpected value'')
            | Some (name, setter) \<Rightarrow> Inr (Some (setter c))))"

fun argparse_read_arg :: "argdef list \<Rightarrow> string \<Rightarrow> config \<Rightarrow> arg_err + config option" where
  "argparse_read_arg [] argv c = Inr None"
| "argparse_read_arg (a # args) argv c =
     rbind (argparse_check_arg argv a c) (\<lambda>r.
       case r of None \<Rightarrow> argparse_read_arg args argv c | Some c \<Rightarrow> Inr (Some c))"

definition read_one :: "argdef list \<Rightarrow> string \<Rightarrow> config \<Rightarrow> arg_err + config" where
  "read_one this_args argv c =
     (if argv \<noteq> [] \<and> hd argv = CHR ''-'' then
        rbind (argparse_read_arg this_args argv c) (\<lambda>r.
          case r of Some c \<Rightarrow> Inr c
          | None \<Rightarrow>
              rbind (argparse_read_arg (COMMON_ARGS this_args) argv c) (\<lambda>r.
                case r of Some c \<Rightarrow> Inr c | None \<Rightarrow> Inl (Bad ''unknown argument'')))
      else if length (collected_tests c) \<ge> 100 then Inl Overrun
      else Inr (c\<lparr>collected_tests := collected_tests c @ [argv]\<rparr>))"

definition argparse_read_args :: "argdef list \<Rightarrow> string list \<Rightarrow> config \<Rightarrow> arg_err + config" where
  "argparse_read_args this_args argv c = rfold (read_one this_args) argv c"

section \<open>Boot arguments\<close>

text \<open>
  The words of the boot arguments, cut at 1020 characters. Each round takes one word and at most one
  space after it.
\<close>

fun split_words :: "nat \<Rightarrow> string \<Rightarrow> string list" where
  "split_words 0 s = []"
| "split_words (Suc n) s =
     (if s = [] then []
      else let rest = dropWhile (\<lambda>c. c \<noteq> CHR '' '') s
           in takeWhile (\<lambda>c. c \<noteq> CHR '' '') s # split_words n (tl rest))"

definition init_args :: "string \<Rightarrow> string list" where
  "init_args bootargs = split_words 1024 (take 1020 bootargs)"

section \<open>What the parser accepts\<close>

fun flags :: "argdef list \<Rightarrow> (string \<times> (bool \<Rightarrow> config \<Rightarrow> config)) list" where
  "flags [] = []"
| "flags (FLAG s l f # args) = (l, f) # flags args"
| "flags (FLAG_ACTION s l f # args) = flags args"
| "flags (OPT s l f g # args) = flags args"
| "flags (ENUMERATE l f # args) = flags args"

lemmas parser_defs = LITMUS_ARGS_def COMMON_ARGS_def COMMON_REST_def read_one_def argparse_check_name_exact_def
  argdef_try_split_def Let_def

lemma flags_append: "flags (xs @ ys) = flags xs @ flags ys"
  by (induction xs rule: flags.induct) auto

lemma flag_on: "\<forall>x \<in> set (flags (LITMUS_ARGS @ COMMON_REST)). read_one LITMUS_ARGS (fst x) c = Inr (snd x True c)"
proof -
  have "\<forall>x \<in> set (flags LITMUS_ARGS). read_one LITMUS_ARGS (fst x) c = Inr (snd x True c)"
    by (simp add: parser_defs)
  moreover have "\<forall>x \<in> set (flags COMMON_REST). read_one LITMUS_ARGS (fst x) c = Inr (snd x True c)"
    by (simp add: parser_defs)
  ultimately show ?thesis by (simp only: flags_append set_append ball_Un)
qed

lemma flag_off:
  "\<forall>x \<in> set (flags (LITMUS_ARGS @ COMMON_REST)). read_one LITMUS_ARGS (''--no-'' @ drop 2 (fst x)) c = Inr (snd x False c)"
proof -
  have "\<forall>x \<in> set (flags LITMUS_ARGS). read_one LITMUS_ARGS (''--no-'' @ drop 2 (fst x)) c = Inr (snd x False c)"
    by (simp add: parser_defs)
  moreover have "\<forall>x \<in> set (flags COMMON_REST). read_one LITMUS_ARGS (''--no-'' @ drop 2 (fst x)) c = Inr (snd x False c)"
    by (simp add: parser_defs)
  ultimately show ?thesis by (simp only: flags_append set_append ball_Un)
qed

text \<open>
  Every flag of the two tables works under its long name and its negation: \<open>--name\<close> sets its variable,
  \<open>--no-name\<close> clears it, nothing else changes, and no other option that is tried first takes the argument.
\<close>

theorem flags_set_and_clear:
  assumes "(l, setter) \<in> set (flags (LITMUS_ARGS @ COMMON_REST))"
  shows "argparse_read_args LITMUS_ARGS [l] c = Inr (setter True c)
    \<and> argparse_read_args LITMUS_ARGS [''--no-'' @ drop 2 l] c = Inr (setter False c)"
  using flag_on [of c, THEN bspec, OF assms] flag_off [of c, THEN bspec, OF assms]
  by (simp add: argparse_read_args_def)

theorem flags_set_and_clear_witness:
  "argparse_read_args LITMUS_ARGS [''--no-pgtable''] default_config = Inr (default_config\<lparr>ENABLE_PGTABLE := False\<rparr>)"
proof -
  have "(''--pgtable'', \<lambda>b c. c\<lparr>ENABLE_PGTABLE := b\<rparr>) \<in> set (flags (LITMUS_ARGS @ COMMON_REST))"
    by (simp add: LITMUS_ARGS_def COMMON_REST_def)
  from flags_set_and_clear [OF this, of default_config] show ?thesis by simp
qed

text \<open>
  The names the harness prints for its settings are accepted back by the options that set them, with
  one exception: \<open>output_style_to_str\<close> says \<open>orig\<close> where \<open>--format\<close> wants \<open>original\<close>, so that name is
  rejected.
\<close>

theorem printed_names_accepted:
  "argparse_read_args LITMUS_ARGS [''--tlbsync='' @ sync_type_to_str ty] c = Inr (c\<lparr>LITMUS_SYNC_TYPE := ty\<rparr>)
   \<and> argparse_read_args LITMUS_ARGS [''--aff='' @ aff_type_to_str af] c = Inr (c\<lparr>LITMUS_AFF_TYPE := af\<rparr>)
   \<and> argparse_read_args LITMUS_ARGS [''--shuffle='' @ shuff_type_to_str sh] c = Inr (c\<lparr>LITMUS_SHUFFLE_TYPE := sh\<rparr>)
   \<and> argparse_read_args LITMUS_ARGS [''--concretize='' @ concretize_type_to_str cc] c
       = Inr (c\<lparr>LITMUS_CONCRETIZATION_TYPE := cc\<rparr>)
   \<and> argparse_read_args LITMUS_ARGS [''--format='' @ output_style_to_str st] c
       = (if st = STYLE_ORIGINAL then Inl (Bad ''got unexpected value'') else Inr (c\<lparr>OUTPUT_FORMAT := st\<rparr>))"
proof -
  have 1: "read_one LITMUS_ARGS (''--tlbsync='' @ sync_type_to_str ty) c = Inr (c\<lparr>LITMUS_SYNC_TYPE := ty\<rparr>)"
    by (cases ty) (simp_all add: parser_defs)
  have 2: "read_one LITMUS_ARGS (''--aff='' @ aff_type_to_str af) c = Inr (c\<lparr>LITMUS_AFF_TYPE := af\<rparr>)"
    by (cases af) (simp_all add: parser_defs)
  have 3: "read_one LITMUS_ARGS (''--shuffle='' @ shuff_type_to_str sh) c = Inr (c\<lparr>LITMUS_SHUFFLE_TYPE := sh\<rparr>)"
    by (cases sh) (simp_all add: parser_defs)
  have 4: "read_one LITMUS_ARGS (''--concretize='' @ concretize_type_to_str cc) c = Inr (c\<lparr>LITMUS_CONCRETIZATION_TYPE := cc\<rparr>)"
    by (cases cc) (simp_all add: parser_defs)
  have 5: "read_one LITMUS_ARGS (''--format='' @ output_style_to_str st) c
      = (if st = STYLE_ORIGINAL then Inl (Bad ''got unexpected value'') else Inr (c\<lparr>OUTPUT_FORMAT := st\<rparr>))"
    by (cases st) (simp_all add: parser_defs)
  have one: "argparse_read_args LITMUS_ARGS [a] c = read_one LITMUS_ARGS a c" for a
    by (cases "read_one LITMUS_ARGS a c") (simp_all add: argparse_read_args_def)
  show ?thesis unfolding one by (intro conjI 1 2 3 4 5)
qed

text \<open>\<open>-Wnone\<close> also clears the warning that is documented as never masked.\<close>

lemma Wnone_masks_always:
  "argparse_read_args LITMUS_ARGS [''-Wnone''] c = Inr (c\<lparr>enabled_warnings := (\<lambda>_. False)\<rparr>)"
  by (simp add: argparse_read_args_def parser_defs parse_warning_flag_def set_all_warnings_def)

fun join_words :: "string list \<Rightarrow> string" where
  "join_words [] = []"
| "join_words [w] = w"
| "join_words (w # v # ws) = w @ CHR '' '' # join_words (v # ws)"

lemma take_word:
  "sep \<notin> set w \<Longrightarrow> takeWhile (\<lambda>c. c \<noteq> sep) (w @ sep # s) = w"
  "sep \<notin> set w \<Longrightarrow> dropWhile (\<lambda>c. c \<noteq> sep) (w @ sep # s) = sep # s"
  by (induction w) auto

lemma split_join:
  "\<forall>w \<in> set ws. w \<noteq> [] \<and> CHR '' '' \<notin> set w \<Longrightarrow> length ws \<le> n \<Longrightarrow> split_words n (join_words ws) = ws"
proof (induction ws arbitrary: n rule: join_words.induct)
  case (1 n)
  then show ?case by (cases n) auto
next
  case (2 w n)
  then obtain k where n: "n = Suc k" by (cases n) auto
  have t: "takeWhile (\<lambda>c. c \<noteq> CHR '' '') w = w" "dropWhile (\<lambda>c. c \<noteq> CHR '' '') w = []"
    using 2 by (auto simp: takeWhile_eq_all_conv dropWhile_eq_Nil_conv)
  have "split_words k [] = []" by (cases k) auto
  then show ?case using 2 unfolding n by (simp only: join_words.simps split_words.simps t Let_def) simp
next
  case (3 w v ws n)
  then obtain k where n: "n = Suc k" by (cases n) auto
  have "takeWhile (\<lambda>c. c \<noteq> CHR '' '') (w @ CHR '' '' # s) = w"
    "dropWhile (\<lambda>c. c \<noteq> CHR '' '') (w @ CHR '' '' # s) = CHR '' '' # s" for s
    using 3 by (simp_all add: take_word)
  then show ?case using 3 n by simp
qed

lemma join_words_length: "\<forall>w \<in> set ws. w \<noteq> [] \<Longrightarrow> length ws \<le> length (join_words ws)"
  by (induction ws rule: join_words.induct) (auto simp: Suc_le_eq)

text \<open>
  Words separated by single spaces, 1020 characters in all, are the arguments the harness sees.
\<close>

theorem init_args_words:
  assumes "\<forall>w \<in> set ws. w \<noteq> [] \<and> CHR '' '' \<notin> set w" "length (join_words ws) \<le> 1020"
  shows "init_args (join_words ws) = ws"
proof -
  have "length ws \<le> 1024" using join_words_length [of ws] assms by auto
  then show ?thesis using assms by (simp add: init_args_def split_join)
qed

theorem init_args_words_witness: "init_args ''litmus -n10k @all'' = [''litmus'', ''-n10k'', ''@all'']"
  using init_args_words [of "[''litmus'', ''-n10k'', ''@all'']"] by simp

end
