(* ===== verification/TestDef.thy ===== *)
theory TestDef
  imports Layout Cstring
begin

text \<open>
  Litmus tests as data (\<open>inc/litmus/litmus_test_def.h\<close>, \<open>lib/litmus_test/litmus_test_def.c\<close>): levels of
  the address space, initial states and the test itself. The functions of a test are not part of it here.
\<close>

datatype rel_offset_t = REGION_SAME_VAR_OFFSET | REGION_SAME_CACHE_LINE_OFFSET | REGION_SAME_PAGE_OFFSET |
  REGION_SAME_PMD_OFFSET | REGION_SAME_PUD_OFFSET | REGION_SAME_PGD_OFFSET

datatype pin_level_t = REGION_SAME_VAR | REGION_SAME_CACHE_LINE | REGION_SAME_PAGE |
  REGION_SAME_PMD | REGION_SAME_PUD | REGION_SAME_PGD

datatype own_level_t = REGION_OWN_VAR | REGION_OWN_CACHE_LINE | REGION_OWN_PAGE |
  REGION_OWN_PMD | REGION_OWN_PUD | REGION_OWN_PGD

datatype prot_type_t = PROT_AP | PROT_ATTRIDX

text \<open>The enumerations index the same tables; these are their values.\<close>

fun offs_ix :: "rel_offset_t \<Rightarrow> nat" where
  "offs_ix REGION_SAME_VAR_OFFSET = 0" | "offs_ix REGION_SAME_CACHE_LINE_OFFSET = 1"
| "offs_ix REGION_SAME_PAGE_OFFSET = 2" | "offs_ix REGION_SAME_PMD_OFFSET = 3"
| "offs_ix REGION_SAME_PUD_OFFSET = 4" | "offs_ix REGION_SAME_PGD_OFFSET = 5"

fun pin_ix :: "pin_level_t \<Rightarrow> nat" where
  "pin_ix REGION_SAME_VAR = 0" | "pin_ix REGION_SAME_CACHE_LINE = 1" | "pin_ix REGION_SAME_PAGE = 2"
| "pin_ix REGION_SAME_PMD = 3" | "pin_ix REGION_SAME_PUD = 4" | "pin_ix REGION_SAME_PGD = 5"

fun own_ix :: "own_level_t \<Rightarrow> nat" where
  "own_ix REGION_OWN_VAR = 0" | "own_ix REGION_OWN_CACHE_LINE = 1" | "own_ix REGION_OWN_PAGE = 2"
| "own_ix REGION_OWN_PMD = 3" | "own_ix REGION_OWN_PUD = 4" | "own_ix REGION_OWN_PGD = 5"

fun pin_level_to_str :: "pin_level_t \<Rightarrow> string" where
  "pin_level_to_str REGION_SAME_VAR = ''REGION_SAME_VAR''"
| "pin_level_to_str REGION_SAME_CACHE_LINE = ''REGION_SAME_CACHE_LINE''"
| "pin_level_to_str REGION_SAME_PAGE = ''REGION_SAME_PAGE''"
| "pin_level_to_str REGION_SAME_PMD = ''REGION_SAME_PMD''"
| "pin_level_to_str REGION_SAME_PUD = ''REGION_SAME_PUD''"
| "pin_level_to_str REGION_SAME_PGD = ''REGION_SAME_PGD''"

fun rel_offset_to_str :: "rel_offset_t \<Rightarrow> string" where
  "rel_offset_to_str REGION_SAME_VAR_OFFSET = ''REGION_SAME_VAR_OFFSET''"
| "rel_offset_to_str REGION_SAME_CACHE_LINE_OFFSET = ''REGION_SAME_CACHE_LINE_OFFSET''"
| "rel_offset_to_str REGION_SAME_PAGE_OFFSET = ''REGION_SAME_PAGE_OFFSET''"
| "rel_offset_to_str REGION_SAME_PMD_OFFSET = ''REGION_SAME_PMD_OFFSET''"
| "rel_offset_to_str REGION_SAME_PUD_OFFSET = ''REGION_SAME_PUD_OFFSET''"
| "rel_offset_to_str REGION_SAME_PGD_OFFSET = ''REGION_SAME_PGD_OFFSET''"

fun own_level_to_str :: "own_level_t \<Rightarrow> string" where
  "own_level_to_str REGION_OWN_VAR = ''REGION_OWN_VAR''"
| "own_level_to_str REGION_OWN_CACHE_LINE = ''REGION_OWN_CACHE_LINE''"
| "own_level_to_str REGION_OWN_PAGE = ''REGION_OWN_PAGE''"
| "own_level_to_str REGION_OWN_PMD = ''REGION_OWN_PMD''"
| "own_level_to_str REGION_OWN_PUD = ''REGION_OWN_PUD''"
| "own_level_to_str REGION_OWN_PGD = ''REGION_OWN_PGD''"

fun prot_type_to_str :: "prot_type_t \<Rightarrow> string" where
  "prot_type_to_str PROT_AP = ''AP''"
| "prot_type_to_str PROT_ATTRIDX = ''AttrIdx''"

text \<open>An initial state: the variable's name, and the type with the member of the union it selects.\<close>

datatype init_type = TYPE_HEAP u64 | TYPE_PTE u64 | TYPE_FIX u64 | TYPE_UNMAPPED | TYPE_IDENTITY_MAP |
  TYPE_ALIAS string | TYPE_ATTRS prot_type_t u64 | TYPE_REGION_OWN own_level_t |
  TYPE_REGION_PIN string pin_level_t | TYPE_REGION_OFFSET string rel_offset_t | TYPE_MAIR u64

record init_varstate_t =
  varname :: string
  itype :: init_type

fun init_type_to_str :: "init_type \<Rightarrow> string" where
  "init_type_to_str (TYPE_HEAP v) = ''TYPE_HEAP''"
| "init_type_to_str (TYPE_PTE v) = ''TYPE_PTE''"
| "init_type_to_str (TYPE_FIX v) = ''TYPE_FIX''"
| "init_type_to_str TYPE_UNMAPPED = ''TYPE_UNMAPPED''"
| "init_type_to_str TYPE_IDENTITY_MAP = ''TYPE_IDENTITY_MAP''"
| "init_type_to_str (TYPE_ALIAS a) = ''TYPE_ALIAS''"
| "init_type_to_str (TYPE_ATTRS p v) = ''TYPE_ATTRS''"
| "init_type_to_str (TYPE_REGION_OWN l) = ''TYPE_REGION_OWN''"
| "init_type_to_str (TYPE_REGION_PIN n l) = ''TYPE_REGION_PIN''"
| "init_type_to_str (TYPE_REGION_OFFSET n l) = ''TYPE_REGION_OFFSET''"
| "init_type_to_str (TYPE_MAIR v) = ''TYPE_MAIR''"

datatype prereq = REQUIRES_DEBUG | REQUIRES_PERF | REQUIRES_PGTABLE | REQUIRES_ARM_AARCH64_FEAT_LSE

text \<open>What choosing a test needs, and the rest of its definition.\<close>

record litmus_test_ref =
  tname :: string
  requires :: "prereq set"

record litmus_test_t = litmus_test_ref +
  no_threads :: nat
  heap_var_names :: "string list"
  reg_names :: "string list"
  interesting_result :: "u64 list option"
  interesting_results :: "u64 list list option"
  no_sc_results :: u64
  init_states :: "init_varstate_t list"
  start_els :: "nat list option"
  sync_handlers :: "(u64 \<times> u64) list option"

end
