(* ===== verification/Frontend.thy ===== *)
theory Frontend
  imports Regex Config TestDef
begin

text \<open>
  Choosing and running tests: \<open>litmus/main.c\<close>, \<open>litmus/main_match_and_run.c\<close> and
  \<open>litmus/main_show_matches.c\<close>. Groups form a tree; what a run does is the list of its events, and a
  run that ends in \<open>abort()\<close> says so. The test itself (\<open>run_test\<close>) is one event here.
\<close>

datatype litmus_test_group = Group (gname: string) (tests: "litmus_test_ref list") (groups: "litmus_test_group list")

datatype run_event = RunTest string | SkipTest string | NoMatch string

text \<open>What the front end looks at: the configuration, the CPU's atomics feature and the dry run flag.\<close>

record front_env =
  fcfg :: config
  has_lse :: bool
  dry_run :: bool

definition missing_prereq :: "front_env \<Rightarrow> litmus_test_ref \<Rightarrow> bool" where
  "missing_prereq env tst \<longleftrightarrow>
     REQUIRES_PERF \<in> requires tst \<and> \<not> ENABLE_PERF_COUNTS (fcfg env) \<or>
     REQUIRES_PGTABLE \<in> requires tst \<and> \<not> ENABLE_PGTABLE (fcfg env) \<or>
     REQUIRES_DEBUG \<in> requires tst \<and> \<not> DEBUG (fcfg env) \<or>
     REQUIRES_ARM_AARCH64_FEAT_LSE \<in> requires tst \<and> \<not> has_lse env"

definition run_test_fn :: "front_env \<Rightarrow> litmus_test_ref \<Rightarrow> bool \<Rightarrow> run_event list" where
  "run_test_fn env tst report_skip =
     (if missing_prereq env tst then (if report_skip then [SkipTest (tname tst)] else [])
      else if \<not> dry_run env then [RunTest (tname tst)] else [])"

primrec run_all_group :: "front_env \<Rightarrow> litmus_test_group \<Rightarrow> run_event list" where
  "run_all_group env (Group nm ts gs) =
     concat (map (\<lambda>t. run_test_fn env t (dry_run env)) ts) @ concat (map (run_all_group env) gs)"

text \<open>The matcher is \<open>re_matches\<close> with the pattern; it may diverge or overrun its stack in principle.\<close>

definition matches :: "string \<Rightarrow> string \<Rightarrow> bool" where
  "matches arg s \<longleftrightarrow> re_matches (re_compile arg) s = Some (Inr True)"

primrec match_and_run_group :: "front_env \<Rightarrow> string \<Rightarrow> litmus_test_group \<Rightarrow> run_event list \<times> bool" where
  "match_and_run_group env arg (Group nm ts gs) =
     (let subs = map (match_and_run_group env arg) gs
      in ((if matches arg nm then run_all_group env (Group nm ts gs) else []) @ concat (map fst subs),
          matches arg nm \<or> (\<exists>x \<in> set subs. snd x)))"

primrec match_and_run_test :: "front_env \<Rightarrow> string \<Rightarrow> litmus_test_group \<Rightarrow> run_event list \<times> bool" where
  "match_and_run_test env arg (Group nm ts gs) =
     (let subs = map (match_and_run_test env arg) gs
      in (concat (map (\<lambda>t. if matches arg (tname t) then run_test_fn env t False else []) ts) @ concat (map fst subs),
          (\<exists>t \<in> set ts. matches arg (tname t)) \<or> (\<exists>x \<in> set subs. snd x)))"

text \<open>The events, and whether the machine still runs afterwards.\<close>

definition match_and_run :: "front_env \<Rightarrow> litmus_test_group \<Rightarrow> string \<Rightarrow> run_event list \<times> bool" where
  "match_and_run env grp arg =
     (let (ev, found) = match_and_run_test env arg grp
      in if found then (ev, True)
         else let (ev', found) = match_and_run_group env arg grp
              in if found then (ev @ ev', True) else (ev @ ev' @ [NoMatch arg], False))"

fun run_args :: "front_env \<Rightarrow> litmus_test_group \<Rightarrow> string list \<Rightarrow> run_event list \<times> bool" where
  "run_args env grp [] = ([], True)"
| "run_args env grp (arg # args) =
     (let (ev, alive) = match_and_run env grp arg
      in if alive then (let (ev', alive) = run_args env grp args in (ev @ ev', alive)) else (ev, False))"

text \<open>One round of the main loop.\<close>

definition main_round :: "config \<Rightarrow> bool \<Rightarrow> litmus_test_group \<Rightarrow> run_event list \<times> bool" where
  "main_round c lse grp =
     (let env = \<lambda>dry. \<lparr>fcfg = c, has_lse = lse, dry_run = dry\<rparr>
      in if collected_tests c = [] then match_and_run (env False) grp ''@all''
         else (let (ev, alive) = run_args (env True) grp (collected_tests c)
               in if alive then (let (ev', alive) = run_args (env False) grp (collected_tests c) in (ev @ ev', alive))
                  else (ev, False)))"

primrec print_all_tests :: "litmus_test_group \<Rightarrow> string list" where
  "print_all_tests (Group nm ts gs) = map tname ts @ concat (map print_all_tests gs)"

primrec print_matches_group :: "string \<Rightarrow> litmus_test_group \<Rightarrow> string list" where
  "print_matches_group arg (Group nm ts gs) =
     (if matches arg nm then nm # print_all_tests (Group nm ts gs) else []) @ concat (map (print_matches_group arg) gs)"

primrec print_matches_test :: "string \<Rightarrow> litmus_test_group \<Rightarrow> string list" where
  "print_matches_test arg (Group nm ts gs) =
     filter (matches arg) (map tname ts) @ concat (map (print_matches_test arg) gs)"

definition show_matches_only :: "litmus_test_group \<Rightarrow> string \<Rightarrow> string list" where
  "show_matches_only grp arg =
     (if arg \<noteq> [] \<and> hd arg = CHR ''@'' then print_matches_group arg grp else print_matches_test arg grp)"

section \<open>What gets run\<close>

primrec all_tests :: "litmus_test_group \<Rightarrow> litmus_test_ref list" where
  "all_tests (Group nm ts gs) = ts @ concat (map all_tests gs)"

primrec all_groups :: "litmus_test_group \<Rightarrow> litmus_test_group list" where
  "all_groups (Group nm ts gs) = Group nm ts gs # concat (map all_groups gs)"

definition tests_run :: "run_event list \<Rightarrow> string list" where
  "tests_run ev = concat (map (\<lambda>e. case e of RunTest n \<Rightarrow> [n] | _ \<Rightarrow> []) ev)"

lemma tests_run_simps [simp]: "tests_run [] = []" "tests_run (xs @ ys) = tests_run xs @ tests_run ys" "tests_run [NoMatch n] = []"
  "tests_run (concat xss) = concat (map tests_run xss)"
proof -
  show "tests_run (concat xss) = concat (map tests_run xss)"
    by (induction xss) (simp_all add: tests_run_def)
qed (simp_all add: tests_run_def)

lemma ran_test_fn: "tests_run (run_test_fn env t r) = (if missing_prereq env t \<or> dry_run env then [] else [tname t])"
  by (simp add: run_test_fn_def tests_run_def)

definition enabled :: "front_env \<Rightarrow> litmus_test_ref \<Rightarrow> bool" where
  "enabled env t \<longleftrightarrow> \<not> missing_prereq env t"

lemma concat_flat: "concat (concat xss) = concat (map concat xss)"
  by (induction xss) auto

lemma concat_if: "concat (map (\<lambda>x. if P x then [f x] else []) xs) = map f (filter P xs)"
  by (induction xs) auto

lemma ran_all_group: "\<not> dry_run env \<Longrightarrow> tests_run (run_all_group env g) = map tname (filter (enabled env) (all_tests g))"
proof (induction g)
  case (Group nm ts gs)
  have "concat (map (\<lambda>g. tests_run (run_all_group env g)) gs) =
      concat (map (\<lambda>g. map tname (filter (enabled env) (all_tests g))) gs)"
    using Group by (intro arg_cong [where f = concat] map_cong) auto
  moreover have "concat (map (\<lambda>t. tests_run (run_test_fn env t (dry_run env))) ts) = map tname (filter (enabled env) ts)"
    unfolding concat_if [symmetric] using Group.prems
    by (intro arg_cong [where f = concat] map_cong) (auto simp: ran_test_fn enabled_def)
  ultimately show ?case using Group.prems
    by (simp add: comp_def filter_concat map_concat)
qed

lemma run_test_match:
  "\<not> dry_run env \<Longrightarrow> tests_run (fst (match_and_run_test env arg g)) =
     map tname (filter (\<lambda>t. matches arg (tname t) \<and> enabled env t) (all_tests g))"
  "snd (match_and_run_test env arg g) \<longleftrightarrow> (\<exists>t \<in> set (all_tests g). matches arg (tname t))"
proof (induction g)
  case (Group nm ts gs)
  {
    case 1
    have "concat (map (\<lambda>g. tests_run (fst (match_and_run_test env arg g))) gs) =
        concat (map (\<lambda>g. map tname (filter (\<lambda>t. matches arg (tname t) \<and> enabled env t) (all_tests g))) gs)"
      using Group(1) 1 by (intro arg_cong [where f = concat] map_cong) auto
    moreover have "concat (map (\<lambda>t. tests_run (if matches arg (tname t) then run_test_fn env t False else [])) ts) =
        map tname (filter (\<lambda>t. matches arg (tname t) \<and> enabled env t) ts)"
      unfolding concat_if [symmetric] using 1
      by (intro arg_cong [where f = concat] map_cong) (auto simp: ran_test_fn enabled_def)
    ultimately show ?case by (simp add: comp_def filter_concat map_concat Let_def)
  next
    case 2
    then show ?case using Group(2) by (auto simp: Let_def)
  }
qed

lemma run_group_match:
  "\<not> dry_run env \<Longrightarrow> tests_run (fst (match_and_run_group env arg g)) =
     concat (map (\<lambda>g. map tname (filter (enabled env) (all_tests g))) (filter (\<lambda>g. matches arg (gname g)) (all_groups g)))"
  "snd (match_and_run_group env arg g) \<longleftrightarrow> (\<exists>h \<in> set (all_groups g). matches arg (gname h))"
proof (induction g)
  case (Group nm ts gs)
  {
    case 1
    have "concat (map (\<lambda>g. tests_run (fst (match_and_run_group env arg g))) gs) =
        concat (map (\<lambda>g. concat (map (\<lambda>g. map tname (filter (enabled env) (all_tests g)))
          (filter (\<lambda>g. matches arg (gname g)) (all_groups g)))) gs)"
      using Group(1) 1 by (intro arg_cong [where f = concat] map_cong) auto
    moreover have "tests_run (fst (match_and_run_group env arg (Group nm ts gs))) =
        (if matches arg nm then tests_run (run_all_group env (Group nm ts gs)) else []) @
        concat (map (\<lambda>g. tests_run (fst (match_and_run_group env arg g))) gs)"
      by (simp add: Let_def comp_def del: run_all_group.simps)
    ultimately show ?case using ran_all_group [OF 1, of "Group nm ts gs"]
      by (simp add: filter_concat map_concat concat_flat comp_def del: run_all_group.simps match_and_run_group.simps all_tests.simps)
  next
    case 2
    then show ?case using Group(2) by (auto simp: Let_def)
  }
qed

lemma dry_nothing:
  assumes "dry_run env"
  shows "tests_run (fst (match_and_run env grp arg)) = []"
proof -
  have a: "tests_run (run_all_group env g) = []" for g
    by (induction g) (auto simp: comp_def ran_test_fn assms)
  have t: "tests_run (fst (match_and_run_test env arg g)) = []" for g
    by (induction g) (auto simp: comp_def ran_test_fn assms Let_def)
  have g: "tests_run (fst (match_and_run_group env arg g)) = []" for g
    by (induction g) (auto simp: comp_def a Let_def simp del: run_all_group.simps)
  show ?thesis using t [of grp] g [of grp] by (auto simp: match_and_run_def Let_def split: prod.splits)
qed

definition any_match :: "string \<Rightarrow> litmus_test_group \<Rightarrow> bool" where
  "any_match arg grp \<longleftrightarrow> (\<exists>t \<in> set (all_tests grp). matches arg (tname t)) \<or> (\<exists>h \<in> set (all_groups grp). matches arg (gname h))"

lemma alive_iff: "snd (match_and_run env grp arg) \<longleftrightarrow> any_match arg grp"
  using run_test_match(2) [of env arg grp] run_group_match(2) [of env arg grp]
  by (auto simp: match_and_run_def any_match_def Let_def split: prod.splits)

lemma run_args_alive: "snd (run_args env grp args) \<longleftrightarrow> (\<forall>a \<in> set args. any_match a grp)"
  by (induction args) (auto simp: Let_def split: prod.splits simp flip: alive_iff [of env])

lemma run_args_dry: "dry_run env \<Longrightarrow> tests_run (fst (run_args env grp args)) = []"
proof (induction args)
  case (Cons a args)
  then show ?case using dry_nothing [of env grp a] by (auto simp: Let_def split: prod.splits)
qed simp

text \<open>
  C20: what a pattern runs. If the name of some test matches, the tests whose names match and whose
  requirements are met are run, in the order of the tree; otherwise all such tests of each group whose
  name matches, once for every matching group; and if nothing matches, nothing is run and the machine stops.
\<close>

theorem match_and_run_tests:
  assumes "\<not> dry_run env"
  shows "tests_run (fst (match_and_run env grp arg)) =
      (if \<exists>t \<in> set (all_tests grp). matches arg (tname t)
       then map tname (filter (\<lambda>t. matches arg (tname t) \<and> enabled env t) (all_tests grp))
       else concat (map (\<lambda>g. map tname (filter (enabled env) (all_tests g)))
              (filter (\<lambda>g. matches arg (gname g)) (all_groups grp))))
    \<and> snd (match_and_run env grp arg) = any_match arg grp"
proof -
  have "filter (\<lambda>t. matches arg (tname t) \<and> enabled env t) (all_tests grp) = []"
    if "\<not> (\<exists>t \<in> set (all_tests grp). matches arg (tname t))"
    using that by (auto simp: filter_empty_conv)
  then show ?thesis
    using run_test_match(1) [OF assms, of arg grp] run_test_match(2) [of env arg grp]
      run_group_match(1) [OF assms, of arg grp] alive_iff [of env grp arg]
    by (auto simp: match_and_run_def Let_def split: prod.splits)
qed

text \<open>
  C21: the arguments are validated before anything runs: when one of them matches no test and no group, the
  round ends in \<open>abort\<close> with no test run, even those of the arguments before it.
\<close>

theorem bad_argument_runs_nothing:
  assumes "arg \<in> set (collected_tests c)" "\<not> any_match arg grp"
  shows "tests_run (fst (main_round c lse grp)) = [] \<and> \<not> snd (main_round c lse grp)"
proof -
  let ?env = "\<lparr>fcfg = c, has_lse = lse, dry_run = True\<rparr>"
  have "collected_tests c \<noteq> []" using assms(1) by auto
  moreover have "\<not> snd (run_args ?env grp (collected_tests c))"
    using assms by (auto simp: run_args_alive)
  moreover have "tests_run (fst (run_args ?env grp (collected_tests c))) = []" by (rule run_args_dry) simp
  ultimately show ?thesis by (auto simp: main_round_def Let_def split: prod.splits)
qed

lemma matches_glob: "wilds (re_compile arg) \<le> 100 \<Longrightarrow> matches arg s = matched (re_compile arg) s"
  using re_run_glob [of "[]" "re_compile arg" 0 s] by (simp add: matches_def re_matches_def)

text \<open>Two groups with three tests, one of which needs page tables.\<close>

definition grp1 :: litmus_test_group where
  "grp1 = Group ''@all'' []
     [Group ''@data'' [\<lparr>tname = ''MP'', requires = {}\<rparr>, \<lparr>tname = ''SB'', requires = {}\<rparr>] [],
      Group ''@pgtable'' [\<lparr>tname = ''CoWT'', requires = {REQUIRES_PGTABLE}\<rparr>] []]"

definition env1 :: front_env where
  "env1 = \<lparr>fcfg = default_config\<lparr>ENABLE_PGTABLE := False\<rparr>, has_lse = False, dry_run = False\<rparr>"

theorem match_and_run_tests_witness:
  "tests_run (fst (match_and_run env1 grp1 ''@*a*'')) = [''MP'', ''SB'', ''MP'', ''SB''] \<and>
   tests_run (fst (match_and_run env1 grp1 ''S*'')) = [''SB'']"
proof -
  have w: "wilds (re_compile ''@*a*'') \<le> 100" "wilds (re_compile ''S*'') \<le> 100" by code_simp+
  have g: "matched (re_compile ''@*a*'') ''MP'' = False" "matched (re_compile ''@*a*'') ''SB'' = False"
    "matched (re_compile ''@*a*'') ''CoWT'' = False" "matched (re_compile ''@*a*'') ''@all'' = True"
    "matched (re_compile ''@*a*'') ''@data'' = True" "matched (re_compile ''@*a*'') ''@pgtable'' = True"
    "matched (re_compile ''S*'') ''MP'' = False" "matched (re_compile ''S*'') ''SB'' = True" "matched (re_compile ''S*'') ''CoWT'' = False"
    by code_simp+
  have "\<not> dry_run env1" by (simp add: env1_def)
  from match_and_run_tests [OF this, of grp1 "''@*a*''"] match_and_run_tests [OF this, of grp1 "''S*''"]
  show ?thesis
    by (simp add: grp1_def matches_glob w g enabled_def missing_prereq_def env1_def default_config_def
        del: matched.simps)
qed

theorem bad_argument_runs_nothing_witness:
  "tests_run (fst (main_round (default_config\<lparr>collected_tests := [''MP'', ''WRC'']\<rparr>) False grp1)) = []"
proof -
  have w: "wilds (re_compile ''WRC'') \<le> 100" by code_simp
  have g: "matched (re_compile ''WRC'') ''MP'' = False" "matched (re_compile ''WRC'') ''SB'' = False"
    "matched (re_compile ''WRC'') ''CoWT'' = False" "matched (re_compile ''WRC'') ''@all'' = False"
    "matched (re_compile ''WRC'') ''@data'' = False" "matched (re_compile ''WRC'') ''@pgtable'' = False"
    by code_simp+
  have "\<not> any_match ''WRC'' grp1"
    by (simp add: any_match_def grp1_def matches_glob w g del: matched.simps)
  then show ?thesis
    using bad_argument_runs_nothing [of "''WRC''" "default_config\<lparr>collected_tests := [''MP'', ''WRC'']\<rparr>" grp1 False]
    by simp
qed

end
