(* ===== verification/VarInfo.thy ===== *)
theory VarInfo
  imports TestDef
begin

text \<open>
  Reading the initial state of a test into a description of each variable
  (\<open>inc/litmus/litmus_var_info.h\<close>, \<open>lib/litmus_test/litmus_test_var_info.c\<close>). A \<open>has_x\<close> flag with the
  value it guards is an option, and the union that \<open>ty\<close> tags is a datatype. The array of infos is a
  list; the pointers into it are indices, and reading it past its end is an error of its own.
\<close>

section \<open>The data\<close>

record var_info_attrs_t =
  attridx :: "u64 option"
  ap :: "u64 option"
  region_offset :: "(nat \<times> rel_offset_t) option"

record var_info_backing_t =
  bval :: u64
  is_identity_mapped :: bool

datatype var_kind = VAR_NOTSET | VAR_HEAP var_info_backing_t own_level_t | VAR_ALIAS nat
  | VAR_PINNED var_info_backing_t nat pin_level_t | VAR_FIXED u64 | VAR_UNMAPPED

record var_info_t =
  varidx :: nat
  vname :: string
  init_attrs :: var_info_attrs_t
  ty :: var_kind
  vvalues :: "u64 list"

record init_system_state_t =
  mair_attr7 :: "u64 option"

datatype var_err = VarFail string | OutOfBounds string

fun is_backed_var :: "var_kind \<Rightarrow> bool" where
  "is_backed_var (VAR_HEAP b l) = True"
| "is_backed_var (VAR_PINNED b v l) = True"
| "is_backed_var _ = False"

fun var_owns_region :: "var_kind \<Rightarrow> bool" where
  "var_owns_region (VAR_HEAP b l) = True"
| "var_owns_region VAR_UNMAPPED = True"
| "var_owns_region (VAR_FIXED p) = True"
| "var_owns_region (VAR_ALIAS a) = True"
| "var_owns_region _ = False"

fun var_owns_phys_region :: "var_kind \<Rightarrow> bool" where
  "var_owns_phys_region (VAR_HEAP b l) = True"
| "var_owns_phys_region (VAR_FIXED p) = True"
| "var_owns_phys_region _ = False"

definition var_owned_region_size :: "var_info_t \<Rightarrow> var_err + own_level_t" where
  "var_owned_region_size v =
     (if \<not> var_owns_region (ty v) then Inl (VarFail ''cannot get owned region size'')
      else Inr (case ty v of VAR_HEAP _ l \<Rightarrow> l | _ \<Rightarrow> REGION_OWN_PAGE))"

fun var_backing :: "var_kind \<Rightarrow> var_err + var_info_backing_t" where
  "var_backing (VAR_HEAP b l) = Inr b"
| "var_backing (VAR_PINNED b v l) = Inr b"
| "var_backing _ = Inl (VarFail ''can't get backing of unbacked var'')"

fun set_backing :: "var_info_backing_t \<Rightarrow> var_kind \<Rightarrow> var_kind" where
  "set_backing b (VAR_HEAP _ l) = VAR_HEAP b l"
| "set_backing b (VAR_PINNED _ v l) = VAR_PINNED b v l"
| "set_backing b k = k"

section \<open>Looking variables up\<close>

text \<open>The number of variables, one past the last index, when there is no variable of that name.\<close>

definition idx_from_varname_infos :: "var_info_t list \<Rightarrow> string \<Rightarrow> nat" where
  "idx_from_varname_infos infos nm = length (takeWhile (\<lambda>v. \<not> strcmp (vname v) nm) infos)"

text \<open>Every use takes the element at the index without a check.\<close>

definition info_at :: "var_info_t list \<Rightarrow> string \<Rightarrow> var_err + nat \<times> var_info_t" where
  "info_at infos nm =
     (let idx = idx_from_varname_infos infos nm
      in if idx < length infos then Inr (idx, infos ! idx) else Inl (OutOfBounds nm))"

definition reset_var_info :: "nat \<Rightarrow> string \<Rightarrow> u64 list \<Rightarrow> var_info_t" where
  "reset_var_info idx nm vs =
     \<lparr>varidx = idx, vname = nm, init_attrs = \<lparr>attridx = None, ap = None, region_offset = None\<rparr>,
      ty = VAR_NOTSET, vvalues = vs\<rparr>"

section \<open>One initial state at a time\<close>

type_synonym read_st = "var_info_t list \<times> init_system_state_t"

definition read_init_mair :: "init_system_state_t \<Rightarrow> u64 \<Rightarrow> init_system_state_t" where
  "read_init_mair st v = st\<lparr>mair_attr7 := Some v\<rparr>"

definition read_init_unmapped :: "var_info_t list \<Rightarrow> string \<Rightarrow> var_err + var_info_t list" where
  "read_init_unmapped infos nm =
     rbind (info_at infos nm) (\<lambda>(idx, v).
       rbind (guard (ty v = VAR_NOTSET) (VarFail ''cannot unmap: it is already set'')) (\<lambda>_.
         Inr (infos[idx := v\<lparr>ty := VAR_UNMAPPED\<rparr>])))"

definition read_init_idmap :: "var_info_t list \<Rightarrow> string \<Rightarrow> var_err + var_info_t list" where
  "read_init_idmap infos nm =
     rbind (info_at infos nm) (\<lambda>(idx, v).
       rbind (guard (is_backed_var (ty v)) (VarFail ''can only idmap a heap or pin variable.'')) (\<lambda>_.
         rbind (var_backing (ty v)) (\<lambda>b.
           Inr (infos[idx := v\<lparr>ty := set_backing (b\<lparr>is_identity_mapped := True\<rparr>) (ty v)\<rparr>]))))"

definition read_init_region_offs ::
  "var_info_t list \<Rightarrow> string \<Rightarrow> string \<Rightarrow> rel_offset_t \<Rightarrow> var_err + var_info_t list" where
  "read_init_region_offs infos nm offsnm offs =
     rbind (info_at infos nm) (\<lambda>(idx, v).
     rbind (info_at infos offsnm) (\<lambda>(offsidx, offsv).
       rbind (guard (ty v \<noteq> VAR_NOTSET) (VarFail ''cannot modify a variable that is unset'')) (\<lambda>_.
       rbind (guard (is_backed_var (ty offsv)) (VarFail ''can only be offset from heap or pin variable.'')) (\<lambda>_.
         Inr (infos[idx := v\<lparr>init_attrs := (init_attrs v)\<lparr>region_offset := Some (offsidx, offs)\<rparr>\<rparr>])))))"

definition read_init_region_own :: "var_info_t list \<Rightarrow> string \<Rightarrow> own_level_t \<Rightarrow> var_err + var_info_t list" where
  "read_init_region_own infos nm region =
     rbind (info_at infos nm) (\<lambda>(idx, v).
       rbind (guard (ty v \<noteq> VAR_NOTSET) (VarFail ''cannot modify a variable that is unset'')) (\<lambda>_.
         (case ty v of
            VAR_HEAP b _ \<Rightarrow> Inr (infos[idx := v\<lparr>ty := VAR_HEAP b region\<rparr>])
          | _ \<Rightarrow> Inl (VarFail ''can only set owned region for a heap variable.''))))"

text \<open>The variable it is pinned to may become a pinned variable itself later on.\<close>

definition read_init_region_pin ::
  "var_info_t list \<Rightarrow> string \<Rightarrow> string \<Rightarrow> pin_level_t \<Rightarrow> var_err + var_info_t list" where
  "read_init_region_pin infos nm pinnednm pin_level =
     rbind (info_at infos nm) (\<lambda>(idx, v).
     rbind (info_at infos pinnednm) (\<lambda>(pinnedidx, pinnedv).
       rbind (guard (ty v \<noteq> VAR_NOTSET) (VarFail ''cannot modify a variable that is unset'')) (\<lambda>_.
         (case (ty v, ty pinnedv) of
            (VAR_HEAP b _, VAR_HEAP _ _) \<Rightarrow> Inr (infos[idx := v\<lparr>ty := VAR_PINNED b pinnedidx pin_level\<rparr>])
          | (VAR_HEAP _ _, _) \<Rightarrow> Inl (VarFail ''can only pinned to a heap variable.'')
          | _ \<Rightarrow> Inl (VarFail ''can only set pinned region for a heap variable.'')))))"

definition read_init_alias :: "var_info_t list \<Rightarrow> string \<Rightarrow> string \<Rightarrow> var_err + var_info_t list" where
  "read_init_alias infos nm aliasnm =
     rbind (info_at infos nm) (\<lambda>(idx, v).
     rbind (info_at infos aliasnm) (\<lambda>(aliasidx, aliasv).
       rbind (guard (ty v = VAR_NOTSET) (VarFail ''can only alias an unset variable'')) (\<lambda>_.
       rbind (guard (is_backed_var (ty aliasv)) (VarFail ''can only alias to a heap variable.'')) (\<lambda>_.
         Inr (infos[idx := v\<lparr>ty := VAR_ALIAS aliasidx\<rparr>])))))"

definition read_init_ap :: "var_info_t list \<Rightarrow> string \<Rightarrow> prot_type_t \<Rightarrow> u64 \<Rightarrow> var_err + var_info_t list" where
  "read_init_ap infos nm prot_type attr =
     rbind (info_at infos nm) (\<lambda>(idx, v).
       Inr (infos[idx := v\<lparr>init_attrs :=
         (case prot_type of PROT_AP \<Rightarrow> (init_attrs v)\<lparr>ap := Some attr\<rparr>
          | PROT_ATTRIDX \<Rightarrow> (init_attrs v)\<lparr>attridx := Some attr\<rparr>)\<rparr>]))"

definition read_init_pte :: "var_info_t list \<Rightarrow> string \<Rightarrow> u64 \<Rightarrow> var_err + var_info_t list" where
  "read_init_pte infos nm desc = Inl (VarFail ''INIT_PTE unsupported, use INIT_UNMAPPED or INIT_AP'')"

definition read_init_fix :: "var_info_t list \<Rightarrow> string \<Rightarrow> u64 \<Rightarrow> var_err + var_info_t list" where
  "read_init_fix infos nm pa =
     rbind (info_at infos nm) (\<lambda>(idx, v).
       rbind (guard (ty v = VAR_NOTSET) (VarFail ''can only fix an unset variable'')) (\<lambda>_.
         Inr (infos[idx := v\<lparr>ty := VAR_FIXED pa\<rparr>])))"

definition read_init_heap :: "var_info_t list \<Rightarrow> string \<Rightarrow> u64 \<Rightarrow> var_err + var_info_t list" where
  "read_init_heap infos nm v0 =
     rbind (info_at infos nm) (\<lambda>(idx, v).
       rbind (guard (ty v = VAR_NOTSET) (VarFail ''can only set an unset variable'')) (\<lambda>_.
         Inr (infos[idx := v\<lparr>ty := VAR_HEAP \<lparr>bval = v0, is_identity_mapped = False\<rparr> REGION_OWN_PAGE\<rparr>])))"

definition read_init_state :: "init_varstate_t \<Rightarrow> read_st \<Rightarrow> var_err + read_st" where
  "read_init_state iv = (\<lambda>(infos, sys).
     let nm = varname iv; keep = (\<lambda>r. rbind r (\<lambda>infos. Inr (infos, sys)))
     in case itype iv of
          TYPE_HEAP v \<Rightarrow> keep (read_init_heap infos nm v)
        | TYPE_PTE v \<Rightarrow> keep (read_init_pte infos nm v)
        | TYPE_FIX v \<Rightarrow> keep (read_init_fix infos nm v)
        | TYPE_UNMAPPED \<Rightarrow> keep (read_init_unmapped infos nm)
        | TYPE_IDENTITY_MAP \<Rightarrow> keep (read_init_idmap infos nm)
        | TYPE_ALIAS a \<Rightarrow> keep (read_init_alias infos nm a)
        | TYPE_ATTRS p v \<Rightarrow> keep (read_init_ap infos nm p v)
        | TYPE_MAIR v \<Rightarrow> Inr (infos, read_init_mair sys v)
        | TYPE_REGION_PIN n l \<Rightarrow> keep (read_init_region_pin infos nm n l)
        | TYPE_REGION_OWN l \<Rightarrow> keep (read_init_region_own infos nm l)
        | TYPE_REGION_OFFSET n l \<Rightarrow> keep (read_init_region_offs infos nm n l))"

section \<open>All of them\<close>

definition has_offset :: "var_info_t \<Rightarrow> bool" where
  "has_offset v \<longleftrightarrow> region_offset (init_attrs v) \<noteq> None"

definition is_root :: "var_info_t \<Rightarrow> bool" where
  "is_root v \<longleftrightarrow> (var_owns_region (ty v) \<and> \<not> has_offset v) \<or> (ty v = VAR_NOTSET \<and> \<not> has_offset v)"

definition offset_by :: "nat \<Rightarrow> var_info_t \<Rightarrow> var_info_t" where
  "offset_by w v = v\<lparr>init_attrs := (init_attrs v)\<lparr>region_offset := Some (w, REGION_SAME_PAGE_OFFSET)\<rparr>\<rparr>"

fun is_alias :: "var_kind \<Rightarrow> bool" where
  "is_alias (VAR_ALIAS a) = True"
| "is_alias _ = False"

text \<open>The loop that attaches owning variables to the first, and the one over the aliases.\<close>

definition attach_owned :: "nat \<Rightarrow> var_info_t \<Rightarrow> var_info_t" where
  "attach_owned first v =
     (if varidx v = first \<or> \<not> var_owns_region (ty v) \<or> is_alias (ty v) \<or> has_offset v then v else offset_by first v)"

definition attach_alias :: "nat \<Rightarrow> var_info_t \<Rightarrow> var_err + var_info_t" where
  "attach_alias first v =
     (if varidx v = first then Inr v
      else case ty v of
             VAR_ALIAS a \<Rightarrow> if has_offset v then Inl (VarFail ''alias variable already has an offset'') else Inr (offset_by a v)
           | _ \<Rightarrow> Inr v)"

fun rmap :: "('x \<Rightarrow> 'e + 'y) \<Rightarrow> 'x list \<Rightarrow> 'e + 'y list" where
  "rmap f [] = Inr []"
| "rmap f (x # xs) = rbind (f x) (\<lambda>y. rbind (rmap f xs) (\<lambda>ys. Inr (y # ys)))"

definition reset_infos :: "string list \<Rightarrow> u64 list \<Rightarrow> var_info_t list" where
  "reset_infos nms vs = map (\<lambda>(i, nm). reset_var_info i nm vs) (enumerate 0 nms)"

text \<open>The \<open>values\<close> arrays were allocated by the caller and are not touched; each holds a cell per run.\<close>

definition read_var_infos :: "litmus_test_t \<Rightarrow> u64 list \<Rightarrow> init_system_state_t \<Rightarrow> var_err + read_st" where
  "read_var_infos c vs sys =
     rbind (rfold read_init_state (init_states c) (reset_infos (heap_var_names c) vs, sys)) (\<lambda>(infos, sys).
       case find is_root infos of
         None \<Rightarrow> if infos = [] then Inr (infos, sys)
                 else Inl (VarFail ''! read_var_infos: no owned variables to root to'')
       | Some first \<Rightarrow>
           rbind (rmap (attach_alias (varidx first)) (map (attach_owned (varidx first)) infos)) (\<lambda>infos.
             Inr (infos, sys)))"

section \<open>What reading keeps\<close>

definition targets_ok :: "var_info_t list \<Rightarrow> var_kind \<Rightarrow> bool" where
  "targets_ok infos k =
     (case k of VAR_ALIAS a \<Rightarrow> a < length infos \<and> is_backed_var (ty (infos ! a))
      | VAR_PINNED _ w _ \<Rightarrow> w < length infos \<and> is_backed_var (ty (infos ! w))
      | _ \<Rightarrow> True)"

definition offset_ok :: "var_info_t list \<Rightarrow> (nat \<times> rel_offset_t) option \<Rightarrow> bool" where
  "offset_ok infos r = (case r of None \<Rightarrow> True | Some (w, _) \<Rightarrow> w < length infos)"

definition infos_ok :: "string list \<Rightarrow> var_info_t list \<Rightarrow> bool" where
  "infos_ok nms infos \<longleftrightarrow> map vname infos = nms \<and> map varidx infos = [0..<length infos] \<and>
     (\<forall>v \<in> set infos. targets_ok infos (ty v) \<and> offset_ok infos (region_offset (init_attrs v)))"

lemma infos_ok_length: "infos_ok nms infos \<Longrightarrow> length infos = length nms"
  by (auto simp: infos_ok_def)

lemma infos_ok_varidx: "infos_ok nms infos \<Longrightarrow> i < length infos \<Longrightarrow> varidx (infos ! i) = i"
  unfolding infos_ok_def by (metis add_0 nth_map nth_upt)

lemma infos_ok_nth: "infos_ok nms infos \<Longrightarrow> i < length infos \<Longrightarrow>
    targets_ok infos (ty (infos ! i)) \<and> offset_ok infos (region_offset (init_attrs (infos ! i)))"
  by (simp add: infos_ok_def)

lemma infos_ok_reset: "infos_ok nms (reset_infos nms vs)"
proof -
  have "map varidx (reset_infos nms vs) = [0..<length nms]"
    by (simp add: reset_infos_def reset_var_info_def comp_def case_prod_unfold enumerate_eq_zip)
  moreover have "map vname (reset_infos nms vs) = nms"
    by (simp add: reset_infos_def reset_var_info_def comp_def case_prod_unfold enumerate_eq_zip)
  moreover have "length (reset_infos nms vs) = length nms" by (simp add: reset_infos_def)
  ultimately show ?thesis
    by (auto simp: infos_ok_def reset_infos_def reset_var_info_def targets_ok_def offset_ok_def)
qed

text \<open>An update of one element that keeps its name, its index and whether it is backed.\<close>

lemma targets_ok_update:
  assumes "idx < length infos" "is_backed_var (ty (infos ! idx)) \<Longrightarrow> is_backed_var (ty v')"
  shows "targets_ok infos k \<Longrightarrow> targets_ok (infos[idx := v']) k"
  using assms by (auto simp: targets_ok_def nth_list_update split: var_kind.splits)

lemma offset_ok_update [simp]: "offset_ok (infos[idx := v']) r = offset_ok infos r"
  by (cases r) (auto simp: offset_ok_def)

lemma infos_ok_update:
  assumes "infos_ok nms infos" "idx < length infos" "vname v' = vname (infos ! idx)" "varidx v' = varidx (infos ! idx)"
    and "is_backed_var (ty (infos ! idx)) \<Longrightarrow> is_backed_var (ty v')"
    and "targets_ok infos (ty v')" "offset_ok infos (region_offset (init_attrs v'))"
  shows "infos_ok nms (infos[idx := v'])"
proof -
  have "map vname (infos[idx := v']) = map vname infos" "map varidx (infos[idx := v']) = map varidx infos"
    using assms(3,4) by (metis list_update_id map_update)+
  moreover have "targets_ok (infos[idx := v']) (ty v) \<and> offset_ok (infos[idx := v']) (region_offset (init_attrs v))"
    if "v \<in> set (infos[idx := v'])" for v
  proof -
    have "v \<in> set infos \<or> v = v'" using that set_update_subset_insert by fastforce
    then show ?thesis
      using assms targets_ok_update [OF assms(2,5)] by (auto simp: infos_ok_def)
  qed
  ultimately show ?thesis using assms(1,3,4) by (simp add: infos_ok_def)
qed

lemma info_at_Inr: "info_at infos nm = Inr (idx, v) \<longleftrightarrow>
    idx = idx_from_varname_infos infos nm \<and> idx < length infos \<and> v = infos ! idx"
  by (auto simp: info_at_def Let_def)

lemma var_backing_kind: "var_backing k = Inr b \<Longrightarrow> is_backed_var (set_backing b' k)"
  by (cases k) auto

lemma targets_set_backing: "targets_ok infos (set_backing b k) = targets_ok infos k"
  by (cases k) (auto simp: targets_ok_def)

lemmas read_init_defs = read_init_heap_def read_init_pte_def read_init_fix_def read_init_unmapped_def
  read_init_idmap_def read_init_alias_def read_init_ap_def read_init_region_pin_def read_init_region_own_def
  read_init_region_offs_def

definition good_update :: "var_info_t list \<Rightarrow> var_info_t list \<Rightarrow> bool" where
  "good_update infos infos' \<longleftrightarrow> (\<exists>idx v'. infos' = infos[idx := v'] \<and> idx < length infos \<and>
     vname v' = vname (infos ! idx) \<and> varidx v' = varidx (infos ! idx) \<and>
     (is_backed_var (ty (infos ! idx)) \<longrightarrow> is_backed_var (ty v')) \<and>
     targets_ok infos (ty v') \<and> offset_ok infos (region_offset (init_attrs v')))"

lemma good_updateI:
  assumes "infos' = infos[idx := v']" "idx < length infos" "vname v' = vname (infos ! idx)" "varidx v' = varidx (infos ! idx)"
    and "is_backed_var (ty (infos ! idx)) \<Longrightarrow> is_backed_var (ty v')"
    and "targets_ok infos (ty v')" "offset_ok infos (region_offset (init_attrs v'))"
  shows "good_update infos infos'"
  unfolding good_update_def using assms by blast

lemma good_update_ok: "good_update infos infos' \<Longrightarrow> infos_ok nms infos \<Longrightarrow> infos_ok nms infos'"
  by (auto simp: good_update_def intro: infos_ok_update)

lemma read_init_good:
  assumes ok: "infos_ok nms infos"
  shows "read_init_heap infos nm v = Inr infos' \<Longrightarrow> good_update infos infos'"
    and "read_init_pte infos nm v = Inr infos' \<Longrightarrow> good_update infos infos'"
    and "read_init_fix infos nm v = Inr infos' \<Longrightarrow> good_update infos infos'"
    and "read_init_unmapped infos nm = Inr infos' \<Longrightarrow> good_update infos infos'"
    and "read_init_idmap infos nm = Inr infos' \<Longrightarrow> good_update infos infos'"
    and "read_init_alias infos nm a = Inr infos' \<Longrightarrow> good_update infos infos'"
    and "read_init_ap infos nm p v = Inr infos' \<Longrightarrow> good_update infos infos'"
    and "read_init_region_pin infos nm a pl = Inr infos' \<Longrightarrow> good_update infos infos'"
    and "read_init_region_own infos nm ol = Inr infos' \<Longrightarrow> good_update infos infos'"
    and "read_init_region_offs infos nm a rl = Inr infos' \<Longrightarrow> good_update infos infos'"
proof -
  note at = infos_ok_nth [OF ok]
  note simps = info_at_Inr targets_ok_def
  show "read_init_heap infos nm v = Inr infos' \<Longrightarrow> good_update infos infos'"
    by (auto simp: read_init_heap_def simps at intro!: good_updateI split: if_splits)
  show "read_init_pte infos nm v = Inr infos' \<Longrightarrow> good_update infos infos'"
    by (simp add: read_init_pte_def)
  show "read_init_fix infos nm v = Inr infos' \<Longrightarrow> good_update infos infos'"
    by (auto simp: read_init_fix_def simps at intro!: good_updateI split: if_splits)
  show "read_init_unmapped infos nm = Inr infos' \<Longrightarrow> good_update infos infos'"
    by (auto simp: read_init_unmapped_def simps at intro!: good_updateI split: if_splits)
  show "read_init_idmap infos nm = Inr infos' \<Longrightarrow> good_update infos infos'"
    by (auto simp: read_init_idmap_def info_at_Inr targets_set_backing at intro!: good_updateI dest: var_backing_kind split: if_splits)
  show "read_init_alias infos nm a = Inr infos' \<Longrightarrow> good_update infos infos'"
    by (auto simp: read_init_alias_def simps at intro!: good_updateI split: if_splits)
  show "read_init_ap infos nm p v = Inr infos' \<Longrightarrow> good_update infos infos'"
    by (auto simp: read_init_ap_def info_at_Inr at intro!: good_updateI split: prot_type_t.splits)
  show "read_init_region_pin infos nm a pl = Inr infos' \<Longrightarrow> good_update infos infos'"
    by (auto simp: read_init_region_pin_def simps at intro!: good_updateI split: if_splits var_kind.splits)
  show "read_init_region_own infos nm ol = Inr infos' \<Longrightarrow> good_update infos infos'"
    by (auto simp: read_init_region_own_def simps at intro!: good_updateI split: if_splits var_kind.splits)
  show "read_init_region_offs infos nm a rl = Inr infos' \<Longrightarrow> good_update infos infos'"
    by (auto simp: read_init_region_offs_def info_at_Inr offset_ok_def at intro!: good_updateI split: if_splits)
qed

lemma read_init_state_ok:
  assumes "infos_ok nms infos" and "read_init_state iv (infos, sys) = Inr (infos', sys')"
  shows "infos_ok nms infos'"
proof -
  have "good_update infos infos' \<or> infos' = infos"
    using assms(2) by (cases "itype iv") (auto simp: read_init_state_def read_init_good [OF assms(1)])
  then show ?thesis using assms(1) good_update_ok by blast
qed

lemma rmap_Inr: "rmap f xs = Inr ys \<Longrightarrow> length ys = length xs \<and> (\<forall>i < length xs. f (xs ! i) = Inr (ys ! i))"
proof (induction xs arbitrary: ys)
  case (Cons x xs)
  then show ?case by (auto simp: nth_Cons split: nat.splits)
qed simp

text \<open>The two passes change nothing but the offset of a variable.\<close>

definition same_but_offset :: "var_info_t \<Rightarrow> var_info_t \<Rightarrow> bool" where
  "same_but_offset v w \<longleftrightarrow> vname w = vname v \<and> varidx w = varidx v \<and> ty w = ty v"

lemma attach_spec:
  assumes "attach_alias r (attach_owned r v) = Inr w"
  shows "same_but_offset v w \<and>
    region_offset (init_attrs w) =
      (if varidx v = r then region_offset (init_attrs v)
       else case ty v of VAR_ALIAS a \<Rightarrow> Some (a, REGION_SAME_PAGE_OFFSET)
            | _ \<Rightarrow> if var_owns_region (ty v) \<and> \<not> has_offset v then Some (r, REGION_SAME_PAGE_OFFSET)
                   else region_offset (init_attrs v))"
proof (cases "varidx v = r")
  case True
  with assms show ?thesis by (simp add: attach_alias_def attach_owned_def same_but_offset_def)
next
  case False
  show ?thesis
  proof (cases "has_offset v")
    case True
    with assms False show ?thesis
      by (cases "ty v") (simp_all add: attach_alias_def attach_owned_def same_but_offset_def)
  next
    case no: False
    with assms False show ?thesis
      by (cases "ty v") (simp_all add: attach_alias_def attach_owned_def offset_by_def same_but_offset_def, auto)
  qed
qed

lemma rfold_read_ok:
  assumes "rfold read_init_state ivs (infos, sys) = Inr (infos', sys')" "infos_ok nms infos"
  shows "infos_ok nms infos'"
proof -
  have "infos_ok nms (fst (infos', sys'))"
    using assms(1) by (rule rfold_invariant [where P = "\<lambda>s. infos_ok nms (fst s)"])
      (use assms(2) read_init_state_ok in auto)
  then show ?thesis by simp
qed

definition rooted :: "var_info_t list \<Rightarrow> bool" where
  "rooted infos \<longleftrightarrow> infos = [] \<or> (\<exists>r < length infos. is_root (infos ! r) \<and>
     (\<forall>i < length infos. i \<noteq> r \<longrightarrow> var_owns_region (ty (infos ! i)) \<longrightarrow> has_offset (infos ! i) \<and>
        (\<forall>a. ty (infos ! i) = VAR_ALIAS a \<longrightarrow> region_offset (init_attrs (infos ! i)) = Some (a, REGION_SAME_PAGE_OFFSET))))"

lemma attached_ok:
  assumes ok: "infos_ok nms infos" and r: "r < length infos" "is_root (infos ! r)"
    and at: "rmap (attach_alias r) (map (attach_owned r) infos) = Inr infos'"
  shows "infos_ok nms infos' \<and> rooted infos'"
proof -
  have len: "length infos' = length infos" using rmap_Inr [OF at] by simp
  have sp: "same_but_offset (infos ! i) (infos' ! i) \<and> region_offset (init_attrs (infos' ! i)) =
      (if i = r then region_offset (init_attrs (infos ! i))
       else case ty (infos ! i) of VAR_ALIAS a \<Rightarrow> Some (a, REGION_SAME_PAGE_OFFSET)
            | _ \<Rightarrow> if var_owns_region (ty (infos ! i)) \<and> \<not> has_offset (infos ! i) then Some (r, REGION_SAME_PAGE_OFFSET)
                   else region_offset (init_attrs (infos ! i)))" if "i < length infos" for i
  proof -
    have "attach_alias r (attach_owned r (infos ! i)) = Inr (infos' ! i)"
      using rmap_Inr [OF at] that by simp
    from attach_spec [OF this] infos_ok_varidx [OF ok that] show ?thesis by simp
  qed
  have eq: "map vname infos' = map vname infos" "map varidx infos' = map varidx infos" "map ty infos' = map ty infos"
    using sp len by (auto intro!: nth_equalityI simp: same_but_offset_def)
  have tt: "targets_ok infos' k = targets_ok infos k" for k
    using eq(3) len by (auto simp: targets_ok_def list_eq_iff_nth_eq split: var_kind.splits)
  have "targets_ok infos' (ty (infos' ! i)) \<and> offset_ok infos' (region_offset (init_attrs (infos' ! i)))"
    if "i < length infos" for i
  proof -
    have oo: "offset_ok infos' x = offset_ok infos x" for x by (cases x) (auto simp: offset_ok_def len)
    note at = infos_ok_nth [OF ok that]
    have "ty (infos' ! i) = ty (infos ! i)" using sp [OF that] by (simp add: same_but_offset_def)
    moreover have "offset_ok infos (region_offset (init_attrs (infos' ! i)))"
      using sp [OF that] at r(1) by (cases "ty (infos ! i)") (auto simp: offset_ok_def targets_ok_def)
    ultimately show ?thesis using at by (simp add: tt oo)
  qed
  then have "infos_ok nms infos'"
    using ok eq len by (auto simp: infos_ok_def all_set_conv_all_nth)
  moreover have "rooted infos'"
    unfolding rooted_def
  proof (intro disjI2 exI [of _ r] conjI allI impI)
    show "r < length infos'" using r len by simp
    show "is_root (infos' ! r)" using sp [OF r(1)] r(2) by (auto simp: is_root_def has_offset_def same_but_offset_def)
  next
    fix i assume i: "i < length infos'" "i \<noteq> r" "var_owns_region (ty (infos' ! i))"
    then show "has_offset (infos' ! i)"
      using sp [of i] len by (auto simp: has_offset_def same_but_offset_def split: var_kind.splits)
    fix a assume "ty (infos' ! i) = VAR_ALIAS a"
    then have "ty (infos ! i) = VAR_ALIAS a" using sp [of i] len i by (simp add: same_but_offset_def)
    then show "region_offset (init_attrs (infos' ! i)) = Some (a, REGION_SAME_PAGE_OFFSET)"
      using sp [of i] len i by simp
  qed
  ultimately show ?thesis by simp
qed

lemma read_var_infos_spec:
  assumes "read_var_infos c vs sys = Inr (infos, sys')"
  shows "infos_ok (heap_var_names c) infos \<and> rooted infos"
proof -
  obtain infos1 where 1: "rfold read_init_state (init_states c) (reset_infos (heap_var_names c) vs, sys) = Inr (infos1, sys')"
    and 2: "(case find is_root infos1 of
         None \<Rightarrow> if infos1 = [] then Inr (infos1, sys')
                 else Inl (VarFail ''! read_var_infos: no owned variables to root to'')
       | Some first \<Rightarrow>
           rbind (rmap (attach_alias (varidx first)) (map (attach_owned (varidx first)) infos1)) (\<lambda>infos.
             Inr (infos, sys'))) = Inr (infos, sys')"
    using assms by (auto simp: read_var_infos_def split: option.splits if_splits)
  have ok: "infos_ok (heap_var_names c) infos1" using rfold_read_ok [OF 1 infos_ok_reset] .
  show ?thesis
  proof (cases "find is_root infos1")
    case None
    with 2 ok show ?thesis by (auto simp: rooted_def split: if_splits)
  next
    case (Some v)
    then obtain r where r: "r < length infos1" "is_root (infos1 ! r)" "v = infos1 ! r" by (auto simp: find_Some_iff)
    with 2 Some infos_ok_varidx [OF ok r(1)] have "rmap (attach_alias r) (map (attach_owned r) infos1) = Inr infos" by simp
    from attached_ok [OF ok r(1,2) this] show ?thesis .
  qed
qed

section \<open>Names that no variable has\<close>

fun names_of_type :: "init_type \<Rightarrow> string list" where
  "names_of_type (TYPE_ALIAS a) = [a]"
| "names_of_type (TYPE_REGION_PIN n l) = [n]"
| "names_of_type (TYPE_REGION_OFFSET n l) = [n]"
| "names_of_type _ = []"

definition names_of :: "init_varstate_t \<Rightarrow> string list" where
  "names_of iv = (case itype iv of TYPE_MAIR v \<Rightarrow> [] | TYPE_PTE v \<Rightarrow> [] | t \<Rightarrow> varname iv # names_of_type t)"

lemma idx_from_varname_infos_bound: "idx_from_varname_infos infos nm < length infos \<longleftrightarrow> nm \<in> vname ` set infos"
  by (induction infos) (auto simp: idx_from_varname_infos_def)

lemma info_at_Inl: "info_at infos nm = Inl e \<longleftrightarrow> e = OutOfBounds nm \<and> nm \<notin> vname ` set infos"
  by (auto simp: info_at_def Let_def idx_from_varname_infos_bound split: if_splits)

lemma info_at_eq: "info_at infos nm = (if nm \<in> vname ` set infos then Inr (idx_from_varname_infos infos nm, infos ! idx_from_varname_infos infos nm)
    else Inl (OutOfBounds nm))"
  by (simp add: info_at_def Let_def idx_from_varname_infos_bound)

lemma var_backing_oob: "var_backing k \<noteq> Inl (OutOfBounds nm)"
  by (cases k) simp_all

lemma read_init_region_pin_oob:
  "read_init_region_pin infos n a l = Inl (OutOfBounds nm) \<longleftrightarrow> find (\<lambda>n. n \<notin> vname ` set infos) [n, a] = Some nm"
proof (cases "n \<in> vname ` set infos \<and> a \<in> vname ` set infos")
  case True
  then obtain v w where "info_at infos n = Inr (idx_from_varname_infos infos n, v)" "info_at infos a = Inr (idx_from_varname_infos infos a, w)"
    by (simp add: info_at_eq)
  then show ?thesis using True by (cases "ty v"; cases "ty w") (simp_all add: read_init_region_pin_def guard_def)
qed (auto simp: read_init_region_pin_def info_at_eq split: if_splits)

text \<open>An initial state reads past the end exactly at the first of its names that no variable has.\<close>

lemma read_init_state_oob:
  "read_init_state iv (infos, sys) = Inl (OutOfBounds nm) \<longleftrightarrow> find (\<lambda>n. n \<notin> vname ` set infos) (names_of iv) = Some nm"
proof (cases "itype iv")
  case (TYPE_REGION_PIN n l)
  then show ?thesis
    by (simp add: read_init_state_def rbind_Inl_iff read_init_region_pin_oob names_of_def del: find.simps)
next
  case TYPE_IDENTITY_MAP
  then show ?thesis
    by (auto simp: Let_def read_init_state_def read_init_idmap_def names_of_def rbind_Inl_iff info_at_eq guard_def var_backing_oob
        split: if_splits)
next
  case (TYPE_REGION_OWN l)
  then show ?thesis
    by (auto simp: Let_def read_init_state_def read_init_region_own_def names_of_def rbind_Inl_iff info_at_eq guard_def
        split: if_splits var_kind.splits)
qed (auto simp: Let_def read_init_state_def read_init_defs names_of_def rbind_Inl_iff info_at_eq guard_def split: if_splits)

lemma rfold_Inl_iff:
  "rfold f xs s = Inl e \<longleftrightarrow> (\<exists>pre x post t. xs = pre @ x # post \<and> rfold f pre s = Inr t \<and> f x t = Inl e)"
proof (induction xs arbitrary: s)
  case (Cons y ys)
  show ?case
  proof (cases "f y s")
    case (Inl d)
    have "(\<exists>pre x post t. y # ys = pre @ x # post \<and> rfold f pre s = Inr t \<and> f x t = Inl e) \<longleftrightarrow> d = e"
    proof
      assume "\<exists>pre x post t. y # ys = pre @ x # post \<and> rfold f pre s = Inr t \<and> f x t = Inl e"
      then obtain pre x post t where "y # ys = pre @ x # post" "rfold f pre s = Inr t" "f x t = Inl e" by blast
      then show "d = e" using Inl by (cases pre) auto
    next
      assume "d = e"
      then show "\<exists>pre x post t. y # ys = pre @ x # post \<and> rfold f pre s = Inr t \<and> f x t = Inl e"
        using Inl by (intro exI [of _ "[]"]) simp
    qed
    then show ?thesis using Inl by simp
  next
    case (Inr s1)
    have "rfold f (y # ys) s = Inl e \<longleftrightarrow> (\<exists>pre x post t. ys = pre @ x # post \<and> rfold f pre s1 = Inr t \<and> f x t = Inl e)"
      using Inr Cons.IH by simp
    also have "\<dots> \<longleftrightarrow> (\<exists>pre x post t. y # ys = pre @ x # post \<and> rfold f pre s = Inr t \<and> f x t = Inl e)"
    proof
      assume "\<exists>pre x post t. ys = pre @ x # post \<and> rfold f pre s1 = Inr t \<and> f x t = Inl e"
      then obtain pre x post t where "ys = pre @ x # post" "rfold f pre s1 = Inr t" "f x t = Inl e" by blast
      then show "\<exists>pre x post t. y # ys = pre @ x # post \<and> rfold f pre s = Inr t \<and> f x t = Inl e"
        using Inr by (intro exI [of _ "y # pre"]) simp
    next
      assume "\<exists>pre x post t. y # ys = pre @ x # post \<and> rfold f pre s = Inr t \<and> f x t = Inl e"
      then obtain pre x post t where p: "y # ys = pre @ x # post" "rfold f pre s = Inr t" "f x t = Inl e" by blast
      then obtain pre' where "pre = y # pre'" using Inr by (cases pre) auto
      then show "\<exists>pre x post t. ys = pre @ x # post \<and> rfold f pre s1 = Inr t \<and> f x t = Inl e" using p Inr by auto
    qed
    finally show ?thesis .
  qed
qed simp

lemma rmap_attach_oob: "rmap (attach_alias r) xs \<noteq> Inl (OutOfBounds nm)"
  by (induction xs) (auto simp: rbind_Inl_iff attach_alias_def split: if_splits var_kind.splits)

section \<open>The properties\<close>

text \<open>
  C28: what \<open>read_var_infos\<close> accepts is well formed: the variables keep their names and indices; every
  alias and pin points at a variable backed by memory and every offset at a variable of the test; and
  there is a root, a variable that owns a region (or is still unset) and has no offset, to which every
  other owning variable is tied by an offset, an alias always at the page offset of its target.
\<close>

theorem read_var_infos_wf:
  assumes "read_var_infos c vs sys = Inr (infos, sys')"
  shows "infos_ok (heap_var_names c) infos \<and> rooted infos"
  by (rule read_var_infos_spec [OF assms])


definition test_xyz :: "init_varstate_t list \<Rightarrow> litmus_test_t" where
  "test_xyz ivs = \<lparr>tname = ''t'', requires = {}, no_threads = 2, heap_var_names = [''x'', ''y'', ''z''], reg_names = [],
     interesting_result = None, interesting_results = None, no_sc_results = 0, init_states = ivs,
     start_els = None, sync_handlers = None\<rparr>"

definition ivs_alias :: "init_varstate_t list" where
  "ivs_alias = [\<lparr>varname = ''x'', itype = TYPE_HEAP 1\<rparr>, \<lparr>varname = ''y'', itype = TYPE_ALIAS ''x''\<rparr>,
     \<lparr>varname = ''z'', itype = TYPE_UNMAPPED\<rparr>]"

lemmas read_eval = read_var_infos_def test_xyz_def reset_infos_def reset_var_info_def enumerate_eq_zip upt_rec
  read_init_state_def read_init_defs info_at_def idx_from_varname_infos_def strcmp_eq is_root_def has_offset_def
  attach_owned_def attach_alias_def offset_by_def

theorem read_var_infos_wf_witness:
  "\<exists>infos sys'. read_var_infos (test_xyz ivs_alias) [0] \<lparr>mair_attr7 = None\<rparr> = Inr (infos, sys') \<and>
     map ty infos = [VAR_HEAP \<lparr>bval = 1, is_identity_mapped = False\<rparr> REGION_OWN_PAGE, VAR_ALIAS 0, VAR_UNMAPPED] \<and>
     infos_ok [''x'', ''y'', ''z''] infos \<and> rooted infos"
proof -
  obtain infos sys' where i: "read_var_infos (test_xyz ivs_alias) [0] \<lparr>mair_attr7 = None\<rparr> = Inr (infos, sys')"
    and t: "map ty infos = [VAR_HEAP \<lparr>bval = 1, is_identity_mapped = False\<rparr> REGION_OWN_PAGE, VAR_ALIAS 0, VAR_UNMAPPED]"
    by (simp add: read_eval ivs_alias_def)
  from read_var_infos_wf [OF i] i t show ?thesis by (auto simp: test_xyz_def)
qed


end
