(* ===== verification/TestCtx.thy ===== *)
theory TestCtx
  imports VarInfo Config Rand VmmTables
begin

text \<open>
  The dynamic state of a test (\<open>inc/litmus/litmus_test_ctx.h\<close>, \<open>lib/litmus_test/litmus_test_ctx.c\<close>):
  the context that \<open>init_test_ctx\<close> builds from a test, the shuffled order of its runs, and the ASID
  and the page table of each run. The arrays are lists; \<open>alloc\<close> gives zeroed memory. The barriers are
  not part of the record.
\<close>

section \<open>The harness around a test\<close>

record harness =
  hcfg :: config
  hlay :: layout
  hvm :: vm_env

record test_result_t =
  is_relaxed :: bool
  counter :: u64
  rvalues :: "u64 list"

text \<open>
  The histogram: the results allocated so far (\<open>allocated\<close> is their number), the bound on them, and
  the lookup table, whose pointers are indices into the results.
\<close>

record test_hist_t =
  results :: "test_result_t list"
  limit :: nat
  lut :: "nat option list"

record test_ctx_t =
  start_clock :: u64
  no_runs :: nat
  batch_size :: nat
  heap_memory :: "u64 list"
  heap_vars :: "var_info_t list"
  system_state :: init_system_state_t
  out_regs :: "u64 list list"
  shuffled_ixs :: "nat list"
  shuffled_ixs_inverse :: "nat list"
  affinity :: "nat list"
  hist :: test_hist_t
  ptables :: "u64 list"
  valloc_ptable_chkpnt :: u64
  tcfg :: litmus_test_t

definition MAX_ASID :: u64 where "MAX_ASID = BITMASK 8"

section \<open>init_test_ctx\<close>

definition sanity_check_test :: "litmus_test_t \<Rightarrow> nat \<Rightarrow> var_err + unit" where
  "sanity_check_test c runs_in_batch =
     guard (\<not> (REQUIRES_PGTABLE \<in> requires c \<and> runs_in_batch > 1 + unat MAX_ASID))
       (VarFail ''cannot have more than the number of possible ASIDs as runs in a batch with --pgtable.'')"

definition rev_lookup :: "nat list \<Rightarrow> nat list" where
  "rev_lookup shuffled = fold (\<lambda>i l. l[shuffled ! i := i]) [0..<length shuffled] (replicate (length shuffled) 0)"

definition init_test_ctx :: "u64 \<Rightarrow> litmus_test_t \<Rightarrow> nat \<Rightarrow> nat \<Rightarrow> u64 \<Rightarrow> u64 \<Rightarrow> var_err + test_ctx_t \<times> u64" where
  "init_test_ctx no_cpus c n_runs runs_in_batch clk seed =
     rbind (sanity_check_test c runs_in_batch) (\<lambda>_.
     rbind (read_var_infos c (replicate n_runs 0) \<lparr>mair_attr7 = None\<rparr>) (\<lambda>(infos, sys).
       let (shuffled, seed) = shuffle [0..<n_runs] seed
       in Inr (\<lparr>start_clock = clk, no_runs = n_runs, batch_size = runs_in_batch, heap_memory = replicate 16 0,
                heap_vars = infos, system_state = sys,
                out_regs = replicate (length (reg_names c)) (replicate n_runs 0),
                shuffled_ixs = shuffled, shuffled_ixs_inverse = rev_lookup shuffled,
                affinity = [0..<unat no_cpus],
                hist = \<lparr>results = [], limit = 200, lut = replicate 200 None\<rparr>,
                ptables = replicate (1 + runs_in_batch) 0, valloc_ptable_chkpnt = 0, tcfg = c\<rparr>, seed)))"

section \<open>Names\<close>

definition varname_from_idx :: "test_ctx_t \<Rightarrow> nat \<Rightarrow> var_err + string" where
  "varname_from_idx ctx idx =
     (if idx < length (heap_var_names (tcfg ctx)) then Inr (heap_var_names (tcfg ctx) ! idx)
      else Inl (VarFail ''! err: no such variable with index''))"

definition regname_from_idx :: "test_ctx_t \<Rightarrow> nat \<Rightarrow> var_err + string" where
  "regname_from_idx ctx idx =
     (if idx < length (reg_names (tcfg ctx)) then Inr (reg_names (tcfg ctx) ! idx)
      else Inl (VarFail ''! err: no such register with index''))"

definition idx_from_varname :: "test_ctx_t \<Rightarrow> string \<Rightarrow> var_err + nat" where
  "idx_from_varname ctx nm =
     (let i = length (takeWhile (\<lambda>v. \<not> strcmp (vname v) nm) (heap_vars ctx))
      in if i < length (heap_vars ctx) then Inr i else Inl (VarFail ''! err: no such variable''))"

definition idx_from_regname :: "test_ctx_t \<Rightarrow> string \<Rightarrow> var_err + nat" where
  "idx_from_regname ctx nm =
     (let i = length (takeWhile (\<lambda>r. \<not> strcmp r nm) (reg_names (tcfg ctx)))
      in if i < length (reg_names (tcfg ctx)) then Inr i else Inl (VarFail ''! err: no such register''))"

section \<open>Runs, their ASIDs and their tables\<close>

definition count_to_run_index :: "harness \<Rightarrow> test_ctx_t \<Rightarrow> nat \<Rightarrow> nat" where
  "count_to_run_index h ctx r =
     (case LITMUS_SHUFFLE_TYPE (hcfg h) of SHUF_NONE \<Rightarrow> r | SHUF_RAND \<Rightarrow> shuffled_ixs ctx ! r)"

definition run_count_from_idx :: "harness \<Rightarrow> test_ctx_t \<Rightarrow> nat \<Rightarrow> nat" where
  "run_count_from_idx h ctx i =
     (case LITMUS_SHUFFLE_TYPE (hcfg h) of SHUF_NONE \<Rightarrow> i | SHUF_RAND \<Rightarrow> shuffled_ixs_inverse ctx ! i)"

definition ctx_heap_var_va :: "test_ctx_t \<Rightarrow> nat \<Rightarrow> nat \<Rightarrow> u64" where
  "ctx_heap_var_va ctx v i = vvalues (heap_vars ctx ! v) ! i"

definition ctx_initial_heap_value :: "test_ctx_t \<Rightarrow> nat \<Rightarrow> var_err + u64" where
  "ctx_initial_heap_value ctx idx = rbind (var_backing (ty (heap_vars ctx ! idx))) (\<lambda>b. Inr (bval b))"

definition asid_from_run_count :: "test_ctx_t \<Rightarrow> nat \<Rightarrow> nat" where
  "asid_from_run_count ctx r =
     (if REQUIRES_PGTABLE \<in> requires (tcfg ctx) then 1 + r mod batch_size ctx else 1)"

definition asid_from_run :: "harness \<Rightarrow> test_ctx_t \<Rightarrow> nat \<Rightarrow> nat" where
  "asid_from_run h ctx i = asid_from_run_count ctx (run_count_from_idx h ctx i)"

definition ptable_from_run :: "harness \<Rightarrow> test_ctx_t \<Rightarrow> nat \<Rightarrow> u64" where
  "ptable_from_run h ctx i = ptables ctx ! asid_from_run_count ctx (run_count_from_idx h ctx i)"

definition ctx_pa :: "harness \<Rightarrow> test_ctx_t \<Rightarrow> pt_mem \<Rightarrow> nat \<Rightarrow> u64 \<Rightarrow> u64" where
  "ctx_pa h ctx m run va = vmm_pa m (ptable_from_run h ctx run) va"

definition ctx_pte :: "harness \<Rightarrow> test_ctx_t \<Rightarrow> nat \<Rightarrow> u64 \<Rightarrow> vm_st \<Rightarrow> vmm_err + u64 \<times> vm_st" where
  "ctx_pte h ctx run va s = vmm_pte (hvm h) (ptable_from_run h ctx run) va s"

section \<open>The order of the runs is a bijection\<close>

lemma fold_inverse:
  fixes l :: "nat list"
  assumes "distinct (map f is)" "\<forall>i \<in> set is. f i < length l" "i \<in> set is"
  shows "fold (\<lambda>i l. l[f i := i]) is l ! f i = i"
  using assms
proof (induction "is" arbitrary: l)
  case (Cons j js)
  have keep: "fold (\<lambda>i l. l[f i := i]) js m ! k = m ! k" if "k \<notin> f ` set js" for k and m :: "nat list"
    using that by (induction js arbitrary: m) auto
  show ?case
  proof (cases "i \<in> set js")
    case True
    with Cons show ?thesis by simp
  next
    case False
    with Cons.prems(3) have "i = j" by simp
    with Cons.prems(1,2) keep [of "f j" "l[f j := j]"] show ?thesis by simp
  qed
qed simp

lemma rev_lookup_inverse:
  assumes "mset xs = mset [0..<n]" "r < n"
  shows "xs ! r < n" "rev_lookup xs ! (xs ! r) = r"
proof -
  have len: "length xs = n" using mset_eq_length [OF assms(1)] by simp
  have d: "distinct xs" using assms(1) by (metis distinct_upt mset_eq_imp_distinct_iff)
  have "set xs = {0..<n}" using mset_eq_setD [OF assms(1)] by simp
  then have lt: "xs ! i < n" if "i < n" for i using that len by (metis atLeastLessThan_iff nth_mem)
  then show "xs ! r < n" using assms(2) by simp
  have "distinct (map ((!) xs) [0..<n])" using d len map_nth [of xs] by simp
  then show "rev_lookup xs ! (xs ! r) = r"
    unfolding rev_lookup_def len using fold_inverse [of "(!) xs" "[0..<n]" "replicate n 0" r] lt assms(2)
    by (simp add: atLeast0LessThan)
qed

lemma length_rev_lookup [simp]: "length (rev_lookup xs) = length xs"
proof -
  have "length (fold (\<lambda>i l. l[f i := i]) is m) = length m" for f "is" and m :: "nat list"
    by (induction "is" arbitrary: m) auto
  then show ?thesis by (simp add: rev_lookup_def)
qed

lemma length_fold_set: "length (fold (\<lambda>i l. l[f i := i]) is m) = length m"
  by (induction "is" arbitrary: m) auto

lemma init_test_ctx_fields:
  assumes "init_test_ctx cpus c n b clk seed = Inr (ctx, seed')"
  shows "no_runs ctx = n" "batch_size ctx = b" "tcfg ctx = c" "shuffled_ixs ctx = fst (shuffle [0..<n] seed)"
    "shuffled_ixs_inverse ctx = rev_lookup (shuffled_ixs ctx)" "sanity_check_test c b = Inr ()"
    "\<exists>sys. read_var_infos c (replicate n 0) \<lparr>mair_attr7 = None\<rparr> = Inr (heap_vars ctx, sys)"
    "ptables ctx = replicate (1 + b) 0"
    "hist ctx = \<lparr>results = [], limit = 200, lut = replicate 200 None\<rparr>"
    "out_regs ctx = replicate (length (reg_names c)) (replicate n 0)"
  using assms by (auto simp: init_test_ctx_def Let_def case_prod_unfold)

lemma order_bijective:
  assumes "init_test_ctx cpus c n b clk seed = Inr (ctx, seed')" "n < 2 ^ 64"
  shows "r < n \<Longrightarrow> count_to_run_index h ctx r < n"
    and "r < n \<Longrightarrow> run_count_from_idx h ctx (count_to_run_index h ctx r) = r"
    and "i < n \<Longrightarrow> run_count_from_idx h ctx i < n"
    and "i < n \<Longrightarrow> count_to_run_index h ctx (run_count_from_idx h ctx i) = i"
proof -
  note f = init_test_ctx_fields [OF assms(1)]
  have m: "mset (shuffled_ixs ctx) = mset [0..<n]"
    using shuffle_mset [of "[0..<n]" seed] assms(2) f(4) by simp
  note inv = rev_lookup_inverse [OF m]
  show "r < n \<Longrightarrow> count_to_run_index h ctx r < n" and "r < n \<Longrightarrow> run_count_from_idx h ctx (count_to_run_index h ctx r) = r" for r
    using inv f(5) by (auto simp: count_to_run_index_def run_count_from_idx_def split: shuffle_type.splits)
  assume "i < n"
  then have "i \<in> set (shuffled_ixs ctx)" using mset_eq_setD [OF m] by simp
  moreover have "length (shuffled_ixs ctx) = n" using mset_eq_length [OF m] by simp
  ultimately obtain r where r: "r < n" "shuffled_ixs ctx ! r = i" by (metis in_set_conv_nth)
  with inv [of r] f(5) \<open>i < n\<close> show "run_count_from_idx h ctx i < n" "count_to_run_index h ctx (run_count_from_idx h ctx i) = i"
    by (auto simp: count_to_run_index_def run_count_from_idx_def split: shuffle_type.splits)
qed

text \<open>
  C30: with or without shuffling, the order of the runs is a permutation: \<open>count_to_run_index\<close> maps the
  run counts below \<open>no_runs\<close> one to one onto the run indices below it, and \<open>run_count_from_idx\<close> is its
  inverse.
\<close>

theorem run_order_bijective:
  assumes "init_test_ctx cpus c n b clk seed = Inr (ctx, seed')" and "n < 2 ^ 64"
  shows "bij_betw (count_to_run_index h ctx) {..<n} {..<n} \<and>
    (\<forall>i < n. run_count_from_idx h ctx i < n \<and> count_to_run_index h ctx (run_count_from_idx h ctx i) = i)"
  using order_bijective [OF assms, of _ h]
  by (auto intro!: bij_betw_byWitness [where f' = "run_count_from_idx h ctx"])

text \<open>
  C31: the runs of one batch get pairwise different ASIDs, between 1 and the size of the batch. But the
  sanity check lets a batch have 256 runs, one more than there are ASIDs beside the harness's own: in the
  eight bits that the TLB maintenance looks at, one of the test's \<open>n\<close> runs has the harness's ASID 0 exactly
  when batches have 256 runs and there are enough runs to fill one.
\<close>

theorem batch_asids:
  assumes "init_test_ctx cpus c n b clk seed = Inr (ctx, seed')" and "REQUIRES_PGTABLE \<in> requires c" and "0 < b"
  shows "(\<forall>r r'. r div b = r' div b \<longrightarrow> asid_from_run_count ctx r = asid_from_run_count ctx r' \<longrightarrow> r = r')
    \<and> (\<forall>r. 1 \<le> asid_from_run_count ctx r \<and> asid_from_run_count ctx r \<le> b) \<and> b \<le> 256
    \<and> ((\<exists>r < n. (of_nat (asid_from_run_count ctx r) :: u64) AND 0xff = 0) \<longleftrightarrow> b = 256 \<and> 256 \<le> n)"
proof -
  note f = init_test_ctx_fields [OF assms(1)]
  have b: "b \<le> 256"
    using f(6) assms(2) by (simp add: sanity_check_test_def guard_def MAX_ASID_def BITMASK_def split: if_splits)
  have asid: "asid_from_run_count ctx r = 1 + r mod b" for r
    using assms(2) f(2,3) by (simp add: asid_from_run_count_def)
  have low: "(of_nat k :: u64) AND 0xff = 0 \<longleftrightarrow> k mod 256 = 0" for k
  proof -
    have "(of_nat k :: u64) AND 0xff = take_bit 8 (of_nat k)" by (simp add: take_bit_eq_mask mask_eq_exp_minus_1)
    also have "\<dots> = of_nat (k mod 256)" by (simp only: take_bit_of_nat) (simp add: take_bit_eq_mod)
    also have "(of_nat (k mod 256) :: u64) = 0 \<longleftrightarrow> k mod 256 = 0"
    proof -
      have "unat (of_nat (k mod 256) :: u64) = k mod 256"
        by (simp add: unat_of_nat)
      then show ?thesis by (metis unat_0 unat_eq_zero)
    qed
    finally show ?thesis .
  qed
  have "(\<exists>r < n. (1 + r mod b) mod 256 = 0) \<longleftrightarrow> b = 256 \<and> 256 \<le> n"
  proof
    assume "\<exists>r < n. (1 + r mod b) mod 256 = 0"
    then obtain r where r: "r < n" "(1 + r mod b) mod 256 = 0" by (elim exE conjE)
    have m: "r mod b < b" using assms(3) by simp
    have "1 + r mod b \<ge> 256"
    proof (rule ccontr)
      assume "\<not> ?thesis"
      then show False using r(2) by (simp only: not_le mod_less)
    qed
    then have "b = 256" "255 \<le> r mod b" using m b by linarith+
    moreover have "r mod b \<le> r" by simp
    ultimately show "b = 256 \<and> 256 \<le> n" using r(1) by linarith
  next
    assume "b = 256 \<and> 256 \<le> n" then show "\<exists>r < n. (1 + r mod b) mod 256 = 0" by (intro exI [of _ 255]) simp
  qed
  then have 3: "(\<exists>r < n. (of_nat (asid_from_run_count ctx r) :: u64) AND 0xff = 0) \<longleftrightarrow> b = 256 \<and> 256 \<le> n"
    by (simp only: asid low)
  have 1: "r = r'" if "r div b = r' div b" "asid_from_run_count ctx r = asid_from_run_count ctx r'" for r r'
  proof -
    have "r mod b = r' mod b" using that(2) by (simp only: asid)
    with that(1) show ?thesis by (metis div_mult_mod_eq)
  qed
  have 2: "1 \<le> asid_from_run_count ctx r \<and> asid_from_run_count ctx r \<le> b" for r
    using assms(3) by (simp add: asid Suc_le_eq)
  show ?thesis using 1 2 3 b by blast
qed

definition test_pg :: litmus_test_t where
  "test_pg = (test_xyz ivs_alias)\<lparr>requires := {REQUIRES_PGTABLE}\<rparr>"

lemma init_test_pg:
  assumes "b \<le> 256"
  shows "\<exists>ctx seed'. init_test_ctx 4 test_pg n b 0 7 = Inr (ctx, seed')"
  using assms
  by (simp add: init_test_ctx_def sanity_check_test_def MAX_ASID_def BITMASK_def read_eval test_pg_def ivs_alias_def
      case_prod_unfold Let_def)

theorem run_order_bijective_witness:
  "\<forall>h. \<exists>ctx seed'. init_test_ctx 4 test_pg 10 4 0 7 = Inr (ctx, seed') \<and>
     bij_betw (count_to_run_index h ctx) {..<10} {..<10}"
  using init_test_pg [of 4 10] run_order_bijective [of 4 test_pg 10 4 0 7] by fastforce

theorem batch_asids_witness:
  "\<exists>ctx seed'. init_test_ctx 4 test_pg 300 256 0 7 = Inr (ctx, seed') \<and>
     (\<exists>r < 300. (of_nat (asid_from_run_count ctx r) :: u64) AND 0xff = 0)"
  using init_test_pg [of 256 300] batch_asids [of 4 test_pg 300 256 0 7] by (fastforce simp: test_pg_def)

end
