(* ===== verification/Regions.thy ===== *)
theory Regions
  imports TestCtx
begin

text \<open>
  The regions of test data (\<open>inc/litmus/litmus_regions.h\<close>, \<open>lib/litmus_test/litmus_regions.c\<close>,
  \<open>concretization/region_checks.c\<close>, \<open>pins.c\<close> and \<open>region_tracker.c\<close>): the size of each level, indices
  into the sixteen regions and the addresses they stand for.
\<close>

section \<open>Levels\<close>

definition LEVEL_SIZES :: "layout \<Rightarrow> u64 list" where
  "LEVEL_SIZES L = [0x1, cache_line_size L, PAGE_SIZE, PAGE_SIZE * 512, PAGE_SIZE * 512 * 512, PAGE_SIZE * 512 * 512 * 512]"

definition LEVEL_SHIFTS :: "layout \<Rightarrow> nat list" where
  "LEVEL_SHIFTS L = [0x1, cache_line_shift L, PAGE_SHIFT, PMD_SHIFT, 30, 39]"

definition in_same_region :: "layout \<Rightarrow> u64 \<Rightarrow> u64 \<Rightarrow> own_level_t \<Rightarrow> bool" where
  "in_same_region L va1 va2 sz \<longleftrightarrow>
     (va1 AND NOT (BITMASK (LEVEL_SHIFTS L ! own_ix sz))) = (va2 AND NOT (BITMASK (LEVEL_SHIFTS L ! own_ix sz)))"

section \<open>Indices into the regions\<close>

record region_idx_t =
  reg_ix :: u64
  reg_offs :: u64

definition NR_DIRS_PER_REGION :: u64 where "NR_DIRS_PER_REGION = 4"
definition DIR_SIZE :: u64 where "DIR_SIZE = 512 * PAGE_SIZE"

definition initialize_regions :: "harness \<Rightarrow> u64 list" where
  "initialize_regions h =
     map (\<lambda>i. if ENABLE_PGTABLE (hcfg h) then TESTDATA_MMAP_8M_VA_FROM_INDEX (hlay h) (of_nat i)
              else TESTDATA_MMAP_8M_PA_FROM_INDEX (hlay h) (of_nat i)) [0..<NR_REGIONS]"

definition align_down_region_idx :: "layout \<Rightarrow> region_idx_t \<Rightarrow> pin_level_t \<Rightarrow> region_idx_t" where
  "align_down_region_idx L idx alignment =
     \<lparr>reg_ix = reg_ix idx, reg_offs = ALIGN_TO (reg_offs idx) (LEVEL_SHIFTS L ! pin_ix alignment)\<rparr>"

text \<open>The shift itself, not the size, is what the offset is aligned up to here.\<close>

definition align_up_region_idx :: "layout \<Rightarrow> region_idx_t \<Rightarrow> pin_level_t \<Rightarrow> region_idx_t" where
  "align_up_region_idx L idx alignment =
     \<lparr>reg_ix = reg_ix idx,
      reg_offs = MINu (ALIGN_UP_TO (reg_offs idx) (of_nat (LEVEL_SHIFTS L ! pin_ix alignment))) (NR_DIRS_PER_REGION * DIR_SIZE)\<rparr>"

definition va_from_region_idx :: "harness \<Rightarrow> test_ctx_t \<Rightarrow> var_kind \<Rightarrow> region_idx_t \<Rightarrow> u64" where
  "va_from_region_idx h ctx k idx =
     (let va = heap_memory ctx ! unat (reg_ix idx) + reg_offs idx
      in if ENABLE_PGTABLE (hcfg h) \<and> is_backed_var k \<and> (case var_backing k of Inr b \<Rightarrow> is_identity_mapped b | _ \<Rightarrow> False)
         then TESTDATA_MMAP_VIRT_TO_PHYS (hlay h) va else va)"

definition region_idx_bottom :: region_idx_t where
  "region_idx_bottom = \<lparr>reg_ix = 0, reg_offs = 0\<rparr>"

definition region_idx_top :: region_idx_t where
  "region_idx_top = \<lparr>reg_ix = of_nat NR_REGIONS - 1, reg_offs = BITMASK REGION_SHIFT\<rparr>"

section \<open>pins.c and region_tracker.c\<close>

text \<open>The variables pinned to \<open>v\<close> at a level, in order; their number is the length of the list.\<close>

definition count_pinned_to :: "var_info_t list \<Rightarrow> nat \<Rightarrow> nat \<Rightarrow> nat list" where
  "count_pinned_to infos v lvl =
     filter (\<lambda>w. v \<noteq> w \<and> (case ty (infos ! w) of VAR_PINNED _ p l \<Rightarrow> p = v \<and> pin_ix l = lvl | _ \<Rightarrow> False)) [0..<length infos]"

text \<open>The path to a tracker: region, directory, page and cache line, from the address of the regions.\<close>

definition region_offset_of :: "u64 \<Rightarrow> u64 \<Rightarrow> u64" where
  "region_offset_of regions va = BIT_SLICE va 38 30 - BIT_SLICE regions 38 30"

definition dir_offset_of :: "u64 \<Rightarrow> u64 \<Rightarrow> u64" where
  "dir_offset_of regions va = BIT_SLICE va 29 21 - BIT_SLICE regions 29 21"

definition page_offset_of :: "u64 \<Rightarrow> u64" where
  "page_offset_of va = BIT_SLICE va 20 12"

definition cache_line_offset_of :: "layout \<Rightarrow> u64 \<Rightarrow> u64" where
  "cache_line_offset_of L va = BIT_SLICE va 11 (cache_line_shift L)"

definition tracker_cache_line :: "layout \<Rightarrow> u64 \<Rightarrow> u64 \<Rightarrow> u64 \<times> u64 \<times> u64 \<times> u64" where
  "tracker_cache_line L regions va =
     (region_offset_of regions va, dir_offset_of regions va, page_offset_of va, cache_line_offset_of L va)"

section \<open>Addresses of indices\<close>

definition addr_ok :: "layout \<Rightarrow> bool" where
  "addr_ok L \<longleftrightarrow> TESTDATA_MMAP_BASE L = 128 * GiB \<and> IS_ALIGNED (BOT_OF_TESTDATA L) 21 \<and> unat (BOT_OF_TESTDATA L) \<le> 2 ^ 48 \<and>
     cache_line_size L = push_bit (cache_line_shift L) 1 \<and> 2 \<le> cache_line_shift L \<and> cache_line_shift L \<le> 17"

definition idx_ok :: "region_idx_t \<Rightarrow> bool" where
  "idx_ok idx \<longleftrightarrow> reg_ix idx < 15 \<and> reg_offs idx < 0x800000 \<and> take_bit 4 (reg_offs idx) = 0"

lemma log2_loop_push: "k < 64 \<Longrightarrow> log2_loop (push_bit k 1) j = k + j"
proof (induction k arbitrary: j)
  case 0
  then show ?case by (simp add: log2_loop.simps)
next
  case (Suc k)
  have u: "unat (push_bit (Suc k) 1 :: u64) = 2 ^ Suc k" using Suc.prems by (intro unat_push_bit_one) simp
  have "\<not> push_bit (Suc k) (1 :: u64) \<le> 1" unfolding word_le_nat_alt u unat_1
    using one_less_power [of "2::nat" "Suc k"] by simp
  moreover have "drop_bit 1 (push_bit (Suc k) (1 :: u64)) = push_bit k 1"
  proof (rule bit_eqI)
    fix n show "bit (drop_bit 1 (push_bit (Suc k) (1 :: u64))) n = bit (push_bit k (1 :: u64)) n"
      using Suc.prems by (cases "n = k") (auto simp: bit_simps bit_1_iff simp del: bit_0)
  qed
  ultimately have "log2_loop (push_bit (Suc k) 1) j = log2_loop (push_bit k 1) (Suc j)"
    by (subst log2_loop.simps) (simp only: if_False)
  then show ?case using Suc by simp
qed

lemma addr_ok_init_device:
  assumes "unat (ld_end_sections ld) + 2 ^ 28 \<le> unat (top mem_region)" "unat (top mem_region) \<le> 2 ^ 48"
  shows "addr_ok (init_device ld ids mem_region io_region)" (is "addr_ok ?L")
proof -
  have "layout_order ?L" by (rule init_device_layout(1) [OF assms])
  then have al: "IS_ALIGNED (BOT_OF_TESTDATA ?L) 21" "unat (BOT_OF_TESTDATA ?L) \<le> unat (TOP_OF_TESTDATA ?L)"
    by (simp_all add: layout_order_def word_le_nat_alt)
  moreover have "TOP_OF_TESTDATA ?L = top mem_region" by (simp add: init_device_def Let_def)
  moreover define d where "d = unat (drop_bit 16 (ctr_el0 ids) AND 0xf)"
  have d: "d \<le> 15"
  proof -
    have "drop_bit 16 (ctr_el0 ids) AND 0xf \<le> 0xf" by (rule word_and_le1)
    then show ?thesis by (simp add: d_def word_le_nat_alt)
  qed
  have line: "4 * push_bit d 1 = (push_bit (d + 2) 1 :: u64)"
    by (simp add: push_bit_eq_mult power_add)
  have "cache_line_size ?L = 4 * push_bit d 1" by (simp add: init_device_def Let_def d_def)
  moreover have "cache_line_shift ?L = log2 (4 * push_bit d 1)" by (simp add: init_device_def Let_def d_def)
  moreover have "log2 (push_bit (d + 2) 1) = d + 2"
  proof -
    have "unat (push_bit (d + 2) 1 :: u64) = 2 ^ (d + 2)" using d by (intro unat_push_bit_one) simp
    then have "push_bit (d + 2) (1 :: u64) \<noteq> 0" unfolding unat_eq_zero [symmetric] by simp
    then show ?thesis unfolding log2_def using log2_loop_push [of "d + 2" 0] d by (simp only: if_False add_0_right)
  qed
  moreover have "TESTDATA_MMAP_BASE ?L = 128 * GiB" by (simp add: init_device_def Let_def)
  ultimately have "cache_line_size ?L = push_bit (d + 2) 1" "cache_line_shift ?L = d + 2" by (simp_all only: line)
  then show ?thesis using d assms(2) al \<open>TOP_OF_TESTDATA ?L = top mem_region\<close> \<open>TESTDATA_MMAP_BASE ?L = 128 * GiB\<close>
    by (simp only: addr_ok_def) simp
qed

end
