(* ===== verification/Concretize.thy ===== *)
theory Concretize
  imports Regions
begin

text \<open>
  Choosing the address of each variable for each run: \<open>concretization/litmus_test_random_concretization.c\<close>,
  \<open>litmus_test_fixed_concretization.c\<close>, \<open>litmus_test_linear_concretization.c\<close>, the checks of
  \<open>litmus_test_concretization_checker.c\<close>, and the dispatch of \<open>litmus_test_concretization.c\<close>. One attempt
  of the random algorithm is a function; the loop that repeats it until the choice is valid is a partial
  function, \<open>None\<close> being a loop that never ends.
\<close>

section \<open>The state\<close>

record var_st_t =
  picked_region :: bool
  picked_offset :: bool
  partial_va :: region_idx_t
  sva :: u64
  pins :: "nat list list"

type_synonym conc_st = "var_st_t list"

definition concretize_random_init :: "test_ctx_t \<Rightarrow> conc_st" where
  "concretize_random_init ctx =
     map (\<lambda>v. \<lparr>picked_region = False, picked_offset = False, partial_va = region_idx_bottom, sva = 0,
              pins = map (\<lambda>lvl. if lvl < pin_ix REGION_SAME_PGD then count_pinned_to (heap_vars ctx) v lvl else []) [0..<6]\<rparr>)
       [0..<length (heap_vars ctx)]"

definition reset_st :: "conc_st \<Rightarrow> conc_st" where
  "reset_st st = map (\<lambda>s. s\<lparr>picked_region := False, picked_offset := False\<rparr>) st"

section \<open>Validity of a choice\<close>

definition overlaps_owned_regions :: "layout \<Rightarrow> var_info_t list \<Rightarrow> conc_st \<Rightarrow> nat \<Rightarrow> nat \<Rightarrow> bool" where
  "overlaps_owned_regions L infos st var wth =
     (if \<not> var_owns_region (ty (infos ! var)) \<or> \<not> var_owns_region (ty (infos ! wth)) then False
      else case var_owned_region_size (infos ! wth) of
             Inl e \<Rightarrow> False
           | Inr with_region \<Rightarrow>
               (let va = sva (st ! var); otherva = sva (st ! wth);
                    lo = otherva AND NOT (BITMASK (LEVEL_SHIFTS L ! own_ix with_region));
                    hi = lo + LEVEL_SIZES L ! own_ix with_region
                in lo \<le> va \<and> va < hi))"

definition has_same_va :: "conc_st \<Rightarrow> nat \<Rightarrow> nat \<Rightarrow> bool" where
  "has_same_va st var wth \<longleftrightarrow> sva (st ! var) = sva (st ! wth)"

definition can_virtually_alias_with :: "var_info_t list \<Rightarrow> nat \<Rightarrow> nat \<Rightarrow> bool" where
  "can_virtually_alias_with infos var wth \<longleftrightarrow>
     (case ty (infos ! var) of VAR_PINNED _ p l \<Rightarrow> p = wth \<and> l = REGION_SAME_VAR | _ \<Rightarrow> False)"

definition can_virtually_alias :: "var_info_t list \<Rightarrow> nat \<Rightarrow> nat \<Rightarrow> bool" where
  "can_virtually_alias infos var wth \<longleftrightarrow> can_virtually_alias_with infos var wth \<or> can_virtually_alias_with infos wth var"

definition validate_selection :: "layout \<Rightarrow> var_info_t list \<Rightarrow> conc_st \<Rightarrow> nat \<Rightarrow> bool" where
  "validate_selection L infos st thisvar \<longleftrightarrow>
     (\<forall>var \<in> set [0..<length infos]. var \<noteq> thisvar \<longrightarrow>
        \<not> (has_same_va st thisvar var \<and> \<not> can_virtually_alias infos thisvar var \<or> overlaps_owned_regions L infos st thisvar var))"

section \<open>Picking\<close>

definition lift_rand :: "string + 'a \<Rightarrow> var_err + 'a" where
  "lift_rand r = (case r of Inl m \<Rightarrow> Inl (VarFail m) | Inr x \<Rightarrow> Inr x)"

definition rand_idx :: "region_idx_t \<Rightarrow> region_idx_t \<Rightarrow> u64 \<Rightarrow> var_err + region_idx_t \<times> u64" where
  "rand_idx from till seed =
     rbind (lift_rand (randrange (reg_ix from) (reg_ix till) seed)) (\<lambda>(reg, seed).
     rbind (lift_rand (randrange (reg_offs from) (MINu (reg_offs till) (NR_DIRS_PER_REGION * DIR_SIZE)) seed)) (\<lambda>(offs, seed).
       Inr (\<lparr>reg_ix = reg, reg_offs = ALIGN_TO offs 4\<rparr>, seed)))"

definition pick_pin_region ::
  "layout \<Rightarrow> var_info_t list \<Rightarrow> region_idx_t \<Rightarrow> nat \<Rightarrow> conc_st \<times> u64 \<Rightarrow> var_err + conc_st \<times> u64" where
  "pick_pin_region L infos rootidx pinned = (\<lambda>(st, seed).
     let lvl = (case ty (infos ! pinned) of VAR_PINNED _ _ l \<Rightarrow> l | _ \<Rightarrow> REGION_SAME_VAR)
     in rbind (rand_idx (align_down_region_idx L rootidx lvl) (align_up_region_idx L rootidx lvl) seed) (\<lambda>(ix, seed).
          Inr (st[pinned := (st ! pinned)\<lparr>partial_va := ix, picked_region := True\<rparr>], seed)))"

definition pick_one_region ::
  "layout \<Rightarrow> var_info_t list \<Rightarrow> nat \<Rightarrow> conc_st \<times> u64 \<Rightarrow> var_err + conc_st \<times> u64" where
  "pick_one_region L infos var = (\<lambda>(st, seed).
     rbind (rand_idx region_idx_bottom region_idx_top seed) (\<lambda>(ix, seed).
       let st = st[var := (st ! var)\<lparr>partial_va := ix, picked_region := True\<rparr>]
       in rfold (pick_pin_region L infos ix) (concat (take (pin_ix REGION_SAME_PGD) (pins (st ! var)))) (st, seed)))"

text \<open>Whether the offset of a variable can be picked now, and the state with it picked.\<close>

definition offset_ready :: "var_info_t list \<Rightarrow> conc_st \<Rightarrow> nat \<Rightarrow> bool" where
  "offset_ready infos st v \<longleftrightarrow>
     (case region_offset (init_attrs (infos ! v)) of None \<Rightarrow> True | Some (w, _) \<Rightarrow> picked_offset (st ! w))"

definition offset_idx :: "layout \<Rightarrow> var_info_t list \<Rightarrow> conc_st \<Rightarrow> nat \<Rightarrow> region_idx_t" where
  "offset_idx L infos st v =
     (let ix = partial_va (st ! v)
      in case region_offset (init_attrs (infos ! v)) of
           None \<Rightarrow> ix
         | Some (w, lvl) \<Rightarrow>
             (let othershift = LEVEL_SHIFTS L ! offs_ix lvl; otherva = sva (st ! w)
              in ix\<lparr>reg_offs := (reg_offs ix AND NOT (BITMASK othershift)) OR (otherva AND BITMASK othershift)\<rparr>))"

definition try_pick_one_offset :: "harness \<Rightarrow> test_ctx_t \<Rightarrow> conc_st \<Rightarrow> nat \<Rightarrow> conc_st option" where
  "try_pick_one_offset h ctx st v =
     (if offset_ready (heap_vars ctx) st v then
        (let ix = offset_idx (hlay h) (heap_vars ctx) st v
         in Some (st[v := (st ! v)\<lparr>partial_va := ix, sva := va_from_region_idx h ctx (ty (heap_vars ctx ! v)) ix,
                                    picked_offset := True\<rparr>]))
      else None)"

text \<open>
  One round of the loop over the offsets picks the first variable that can be picked; the loop ends when
  there is none. The states are as long as the list of variables.
\<close>

definition pick_offset_round :: "harness \<Rightarrow> test_ctx_t \<Rightarrow> conc_st \<Rightarrow> conc_st option" where
  "pick_offset_round h ctx st =
     (case find (\<lambda>v. \<not> picked_offset (st ! v) \<and> try_pick_one_offset h ctx st v \<noteq> None) [0..<length st] of
        None \<Rightarrow> None | Some v \<Rightarrow> try_pick_one_offset h ctx st v)"

definition unpicked :: "conc_st \<Rightarrow> nat" where
  "unpicked st = length (filter (\<lambda>s. \<not> picked_offset s) st)"

lemma unpicked_update: "v < length st \<Longrightarrow> \<not> picked_offset (st ! v) \<Longrightarrow> picked_offset s \<Longrightarrow> unpicked (st[v := s]) < unpicked st"
  by (induction st arbitrary: v) (auto simp: unpicked_def nth_Cons split: nat.splits)

lemma pick_offset_round_Some:
  assumes "pick_offset_round h ctx st = Some st'"
  obtains v where "v < length st" "\<not> picked_offset (st ! v)" "try_pick_one_offset h ctx st v = Some st'"
  using assms by (auto simp: pick_offset_round_def find_Some_iff split: option.splits)

lemma pick_offset_round_less: "pick_offset_round h ctx st = Some st' \<Longrightarrow> unpicked st' < unpicked st"
  by (elim pick_offset_round_Some) (auto simp: try_pick_one_offset_def Let_def intro!: unpicked_update split: if_splits)

function pick_offsets :: "harness \<Rightarrow> test_ctx_t \<Rightarrow> conc_st \<Rightarrow> conc_st" where
  "pick_offsets h ctx st =
     (case pick_offset_round h ctx st of None \<Rightarrow> st | Some st' \<Rightarrow> pick_offsets h ctx st')"
  by pat_completeness auto
termination by (relation "measure (\<lambda>(h, ctx, st). unpicked st)") (auto dest: pick_offset_round_less)

declare pick_offsets.simps [simp del]

text \<open>One attempt: the state, the new seed, and whether every variable was validated.\<close>

definition concretize_attempt :: "harness \<Rightarrow> test_ctx_t \<Rightarrow> conc_st \<Rightarrow> u64 \<Rightarrow> var_err + conc_st \<times> u64 \<times> bool" where
  "concretize_attempt h ctx st seed =
     (let infos = heap_vars ctx; L = hlay h; vs = [0..<length infos]; st = reset_st st
      in rbind (rfold (pick_one_region L infos) (filter (\<lambda>v. var_owns_region (ty (infos ! v)) \<and> \<not> has_offset (infos ! v)) vs) (st, seed)) (\<lambda>s.
         rbind (rfold (pick_one_region L infos) (filter (\<lambda>v. var_owns_region (ty (infos ! v)) \<and> has_offset (infos ! v)) vs) s) (\<lambda>(st, seed).
         rbind (guard (\<forall>v \<in> set vs. picked_region (st ! v)) (VarFail ''failed to pick a VA (region)'')) (\<lambda>_.
         let st = pick_offsets h ctx st
         in rbind (guard (\<forall>v \<in> set vs. picked_offset (st ! v)) (VarFail ''failed to pick a VA (offset)'')) (\<lambda>_.
              Inr (st, seed, \<forall>v \<in> set vs. validate_selection L infos st v))))))"

partial_function (option) concretize_until ::
  "harness \<Rightarrow> test_ctx_t \<Rightarrow> conc_st \<Rightarrow> u64 \<Rightarrow> (var_err + conc_st \<times> u64) option" where
  "concretize_until h ctx st seed =
     (case concretize_attempt h ctx st seed of
        Inl e \<Rightarrow> Some (Inl e)
      | Inr (st, seed, ok) \<Rightarrow> if ok then Some (Inr (st, seed)) else concretize_until h ctx st seed)"

definition var_testdata_pa :: "harness \<Rightarrow> var_kind \<Rightarrow> u64 \<Rightarrow> var_err + u64" where
  "var_testdata_pa h k va =
     rbind (guard (var_owns_phys_region k)
       (VarFail ''cannot get the physical address of a location that does not own some physical memory'')) (\<lambda>_.
     let pg = (case k of VAR_FIXED phys \<Rightarrow> phys AND NOT (BITMASK PAGE_SHIFT)
               | _ \<Rightarrow> if ENABLE_PGTABLE (hcfg h) then SAFE_TESTDATA_PA (hlay h) va AND NOT (BITMASK PAGE_SHIFT)
                      else va AND NOT (BITMASK PAGE_SHIFT))
     in Inr (pg OR (va AND BITMASK PAGE_SHIFT)))"

definition set_value :: "nat \<Rightarrow> nat \<Rightarrow> u64 \<Rightarrow> var_info_t list \<Rightarrow> var_info_t list" where
  "set_value v run a infos = infos[v := (infos ! v)\<lparr>vvalues := (vvalues (infos ! v))[run := a]\<rparr>]"

definition assign_value :: "harness \<Rightarrow> nat \<Rightarrow> nat \<Rightarrow> conc_st \<times> var_info_t list \<Rightarrow> var_err + conc_st \<times> var_info_t list" where
  "assign_value h run v = (\<lambda>(st, infos).
     if ENABLE_PGTABLE (hcfg h) then Inr (st, set_value v run (sva (st ! v)) infos)
     else rbind (var_testdata_pa h (ty (infos ! v)) (sva (st ! v))) (\<lambda>pa.
            Inr (st[v := (st ! v)\<lparr>sva := pa\<rparr>], set_value v run pa infos)))"

definition concretize_random_one ::
  "harness \<Rightarrow> test_ctx_t \<Rightarrow> conc_st \<Rightarrow> nat \<Rightarrow> u64 \<Rightarrow> (var_err + test_ctx_t \<times> conc_st \<times> u64) option" where
  "concretize_random_one h ctx st run seed =
     (case concretize_until h ctx st seed of
        None \<Rightarrow> None
      | Some r \<Rightarrow> Some (rbind r (\<lambda>(st, seed).
          rbind (rfold (assign_value h run) [0..<length (heap_vars ctx)] (st, heap_vars ctx)) (\<lambda>(st, infos).
            Inr (ctx\<lparr>heap_vars := infos\<rparr>, st, seed)))))"

section \<open>The checks\<close>

definition concretization_precheck :: "var_info_t list \<Rightarrow> var_err + unit" where
  "concretization_precheck infos =
     guard (\<forall>v \<in> set infos. ty v \<noteq> VAR_NOTSET) (VarFail ''cannot concretize a NOTSET variable'')"

definition postcheck_no_overlap_owned :: "layout \<Rightarrow> var_info_t list \<Rightarrow> nat \<Rightarrow> bool" where
  "postcheck_no_overlap_owned L infos run \<longleftrightarrow>
     (\<forall>v \<in> set [0..<length infos]. case ty (infos ! v) of
        VAR_HEAP _ own \<Rightarrow>
          (\<forall>w \<in> set [0..<length infos]. w \<noteq> v \<longrightarrow>
             \<not> (in_same_region L (vvalues (infos ! v) ! run) (vvalues (infos ! w) ! run) own \<and>
                (case ty (infos ! w) of VAR_PINNED _ p _ \<Rightarrow> p \<noteq> v | _ \<Rightarrow> True)))
      | _ \<Rightarrow> True)"

definition postcheck_related_same_bits :: "layout \<Rightarrow> var_info_t list \<Rightarrow> nat \<Rightarrow> bool" where
  "postcheck_related_same_bits L infos run \<longleftrightarrow>
     (\<forall>v \<in> set [0..<length infos]. case region_offset (init_attrs (infos ! v)) of
        None \<Rightarrow> True
      | Some (w, l) \<Rightarrow> (let lvl = LEVEL_SHIFTS L ! offs_ix l
                       in (vvalues (infos ! v) ! run AND BITMASK lvl) = (vvalues (infos ! w) ! run AND BITMASK lvl)))"

definition postcheck_aligned :: "var_info_t list \<Rightarrow> nat \<Rightarrow> bool" where
  "postcheck_aligned infos run \<longleftrightarrow> (\<forall>v \<in> set infos. (vvalues v ! run AND BITMASK 3) = 0)"

definition concretization_postcheck :: "layout \<Rightarrow> var_info_t list \<Rightarrow> nat \<Rightarrow> var_err + unit" where
  "concretization_postcheck L infos run =
     rbind (guard (postcheck_no_overlap_owned L infos run) (VarFail ''overlap but one is not pinned to the other'')) (\<lambda>_.
     rbind (guard (postcheck_related_same_bits L infos run) (VarFail ''supposed to have the same bits but do not'')) (\<lambda>_.
       guard (postcheck_aligned infos run) (VarFail ''supposed to be 64-bit aligned but is not.'')))"

end
