(* ===== verification/ConcretizeProps.thy ===== *)
theory ConcretizeProps
  imports Concretize
begin

text \<open>
  The random concretization against the checks that run after it: for a test without pinned variables,
  what it chooses passes \<open>concretization_postcheck\<close>; an attempt never fails when no offsets are cyclic;
  and the loop ends exactly when some attempt is valid.
\<close>

section \<open>Addresses\<close>

lemma randrange_lt: "randrange lo hi seed = Inr (x, seed') \<Longrightarrow> lo < hi \<Longrightarrow> lo \<le> x \<and> x < hi"
  using randrange_bounds [of lo hi seed x seed'] by simp

lemma NR_bytes: "NR_DIRS_PER_REGION * DIR_SIZE = 0x800000"
  by (simp add: NR_DIRS_PER_REGION_def DIR_SIZE_def PAGE_SIZE_def)

lemma region_top: "reg_ix region_idx_top = 15" "reg_offs region_idx_top = 0x7fffff"
  by (simp_all add: region_idx_top_def NR_REGIONS_def BITMASK_def REGION_SHIFT_def PMD_SHIFT_def)

lemma ALIGN_TO_4: "take_bit 4 (ALIGN_TO x 4) = 0" "ALIGN_TO x 4 \<le> x"
proof -
  show "take_bit 4 (ALIGN_TO x 4) = 0" using ALIGN_TO_aligned [of x 4] by (simp add: IS_ALIGNED_take_bit)
  show "ALIGN_TO x 4 \<le> x" by (simp add: ALIGN_TO_def word_and_le2)
qed

lemma rand_idx_ok:
  "\<exists>ix seed'. rand_idx region_idx_bottom region_idx_top seed = Inr (ix, seed') \<and> idx_ok ix"
proof -
  have m: "MINu 0x7fffff 0x800000 = (0x7fffff :: u64)" by (simp add: MINu_def)
  obtain r s1 where 1: "randrange 0 15 seed = Inr (r, s1)" "r < 15"
    using randrange_total [of 0 15 seed] randrange_lt [of 0 15 seed] by fastforce
  obtain offs s2 where 2: "randrange 0 0x7fffff s1 = Inr (offs, s2)" "offs < 0x7fffff"
    using randrange_total [of 0 "0x7fffff" s1] randrange_lt [of 0 "0x7fffff" s1] by fastforce
  have "ALIGN_TO offs 4 < 0x800000"
    using ALIGN_TO_4(2) [of offs] 2(2) by (simp add: word_le_nat_alt word_less_nat_alt)
  then show ?thesis
    using 1 2 ALIGN_TO_4(1)
    by (simp add: rand_idx_def region_idx_bottom_def region_top NR_bytes m lift_rand_def idx_ok_def)
qed

lemma take_bit_add_aligned:
  assumes "take_bit n (a :: u64) = 0" "n \<le> 64"
  shows "take_bit n (a + b) = take_bit n b"
proof -
  have d: "(2 :: nat) ^ n dvd 2 ^ 64" using assms(2) by (rule le_imp_power_dvd)
  have "unat a mod 2 ^ n = 0" using assms(1) by (metis unat_0 unat_take_bit)
  then have "unat (a + b) mod 2 ^ n = unat b mod 2 ^ n"
  proof -
    assume a: "unat a mod 2 ^ n = 0"
    have "unat (a + b) = (unat a + unat b) mod 2 ^ 64" by (simp add: unat_word_ariths)
    then have "unat (a + b) mod 2 ^ n = (unat a + unat b) mod 2 ^ n" by (simp only: mod_mod_cancel [OF d])
    also have "\<dots> = (unat a mod 2 ^ n + unat b) mod 2 ^ n" by (simp only: mod_add_left_eq)
    finally show ?thesis using a by (simp only: add_0)
  qed
  then show ?thesis by (simp add: word_unat_eq_iff unat_take_bit)
qed

lemma heap_memory_nth:
  assumes "heap_memory ctx = initialize_regions h" "ENABLE_PGTABLE (hcfg h)" "addr_ok (hlay h)" "i < 15"
  shows "heap_memory ctx ! unat i = 128 * GiB + push_bit 32 i"
proof -
  have i: "unat i < 15" using assms(4) by (simp add: word_less_nat_alt)
  then have "heap_memory ctx ! unat i = TESTDATA_MMAP_8M_VA_FROM_INDEX (hlay h) (of_nat (unat i))"
    using assms(1,2) by (simp add: initialize_regions_def NR_REGIONS_def)
  also have "\<dots> = 128 * GiB + i * push_bit 32 1"
    using assms(3) by (simp add: TESTDATA_MMAP_8M_VA_FROM_INDEX_def TESTDATA_MMAP_GAP_SHIFT_def
        TESTDATA_MMAP_SIZE_SHIFT_def addr_ok_def)
  finally show ?thesis by (simp add: push_bit_eq_mult mult.commute)
qed

lemma take_bit_push [simp]: "n \<le> k \<Longrightarrow> take_bit n (push_bit k (x :: u64)) = 0"
  by (rule bit_eqI) (auto simp: bit_simps)

definition low_ok :: "u64 \<Rightarrow> u64 \<Rightarrow> bool" where
  "low_ok a offs \<longleftrightarrow> take_bit 21 a = take_bit 21 offs \<and> unat a \<le> 2 ^ 50"

lemma va_low:
  assumes "heap_memory ctx = initialize_regions h" "ENABLE_PGTABLE (hcfg h)" "addr_ok (hlay h)" "idx_ok ix"
  shows "low_ok (va_from_region_idx h ctx k ix) (reg_offs ix)"
proof -
  let ?v = "heap_memory ctx ! unat (reg_ix ix) + reg_offs ix"
  have i: "reg_ix ix < 15" and o: "reg_offs ix < 0x800000" using assms(4) by (simp_all add: idx_ok_def)
  have base: "heap_memory ctx ! unat (reg_ix ix) = 128 * GiB + push_bit 32 (reg_ix ix)"
    by (rule heap_memory_nth [OF assms(1-3) i])
  have un: "unat (push_bit 32 (reg_ix ix)) = unat (reg_ix ix) * 2 ^ 32"
  proof -
    have "unat (reg_ix ix) * unat (4294967296 :: u64) < 2 ^ LENGTH(64)" using i by (simp add: word_less_nat_alt)
    then have "unat (reg_ix ix * 4294967296) = unat (reg_ix ix) * unat (4294967296 :: u64)"
      by (rule unat_mult_lem [THEN iffD1])
    moreover have "push_bit 32 (reg_ix ix) = reg_ix ix * 4294967296" by (simp add: push_bit_eq_mult)
    moreover have "unat (4294967296 :: u64) = 2 ^ 32" by simp
    ultimately show ?thesis by (simp only:)
  qed
  have d: "unat (push_bit 32 (reg_ix ix) + reg_offs ix) < 2 ^ 36"
    using i o un by (subst unat_add_no_wrap) (simp_all add: word_less_nat_alt)
  have "take_bit 21 (128 * GiB) = (0 :: u64)" by (simp add: GiB_def)
  then have b0: "take_bit 21 (128 * GiB + push_bit 32 (reg_ix ix)) = 0"
    by (simp add: take_bit_add_aligned)
  show ?thesis
  proof (cases "ENABLE_PGTABLE (hcfg h) \<and> is_backed_var k \<and> (case var_backing k of Inr b \<Rightarrow> is_identity_mapped b | _ \<Rightarrow> False)")
    case False
    then have e: "va_from_region_idx h ctx k ix = 128 * GiB + (push_bit 32 (reg_ix ix) + reg_offs ix)"
      unfolding va_from_region_idx_def Let_def base if_not_P [OF False] by (simp add: add.assoc)
    have "unat (128 * GiB) = 137438953472" by (simp add: GiB_def)
    with d have "unat (128 * GiB + (push_bit 32 (reg_ix ix) + reg_offs ix)) \<le> 2 ^ 50"
      by (subst unat_add_no_wrap) simp_all
    moreover have "take_bit 21 (128 * GiB + (push_bit 32 (reg_ix ix) + reg_offs ix)) = take_bit 21 (reg_offs ix)"
      using b0 by (simp add: take_bit_add_aligned flip: add.assoc)
    ultimately show ?thesis unfolding low_ok_def e by simp
  next
    case True
    define e where "e = push_bit 32 (reg_ix ix) + reg_offs ix"
    have "va_from_region_idx h ctx k ix = BOT_OF_TESTDATA (hlay h) + gather e"
      using True assms(3) by (simp add: va_from_region_idx_def Let_def virt_to_phys_gather base addr_ok_def e_def)
    moreover have "take_bit 21 (BOT_OF_TESTDATA (hlay h)) = 0" using assms(3) by (simp add: addr_ok_def IS_ALIGNED_take_bit)
    moreover have "take_bit 21 (gather e) = take_bit 21 (reg_offs ix)"
    proof -
      have "take_bit 21 (gather e) = take_bit 21 e"
        by (rule bit_eqI) (auto simp: gather_def bit_simps)
      then show ?thesis by (simp add: e_def take_bit_add_aligned)
    qed
    moreover have "unat (gather e) < 2 ^ 36"
    proof (rule bits_lt)
      fix j assume "bit (gather e) j"
      then show "j < 36" using lt_bits [OF d [folded e_def]] by (fastforce simp: gather_def bit_simps)
    qed simp
    moreover have "unat (BOT_OF_TESTDATA (hlay h)) \<le> 2 ^ 48" using assms(3) by (simp add: addr_ok_def)
    ultimately show ?thesis unfolding low_ok_def
      by (simp add: take_bit_add_aligned unat_add_small)
  qed
qed

section \<open>Picking the regions\<close>

definition all_own :: "var_info_t list \<Rightarrow> bool" where
  "all_own infos \<longleftrightarrow> (\<forall>v \<in> set infos. var_owns_region (ty v))"

lemma all_own_nth: "all_own infos \<Longrightarrow> v < length infos \<Longrightarrow> var_owns_region (ty (infos ! v))"
  by (simp add: all_own_def)

definition no_pins :: "conc_st \<Rightarrow> bool" where
  "no_pins st \<longleftrightarrow> (\<forall>s \<in> set st. concat (take 5 (pins s)) = [])"

lemma no_pins_update: "no_pins st \<Longrightarrow> v < length st \<Longrightarrow> pins s = pins (st ! v) \<Longrightarrow> no_pins (st[v := s])"
  unfolding no_pins_def by (metis (no_types, lifting) in_set_conv_nth length_list_update nth_list_update_eq nth_list_update_neq nth_mem)

lemma no_pins_init:
  assumes "all_own (heap_vars ctx)"
  shows "no_pins (concretize_random_init ctx)"
proof -
  have "count_pinned_to (heap_vars ctx) v l = []" for v l
  proof -
    have "\<not> (case ty (heap_vars ctx ! w) of VAR_PINNED _ p k \<Rightarrow> p = v \<and> pin_ix k = l | _ \<Rightarrow> False)" if "w < length (heap_vars ctx)" for w
      using all_own_nth [OF assms that] by (auto split: var_kind.splits)
    then show ?thesis by (auto simp: count_pinned_to_def filter_empty_conv)
  qed
  then show ?thesis by (auto simp: no_pins_def concretize_random_init_def set_conv_nth concat_eq_Nil_conv)
qed

definition picked :: "conc_st \<Rightarrow> nat \<Rightarrow> bool" where
  "picked st v \<longleftrightarrow> picked_region (st ! v) \<and> idx_ok (partial_va (st ! v))"

lemma pick_one_region_ok:
  assumes "v < length st" "no_pins st"
  obtains st' seed' where "pick_one_region L infos v (st, seed) = Inr (st', seed')" "length st' = length st" "no_pins st'"
    "\<And>w. picked st' w \<longleftrightarrow> w = v \<or> picked st w" "map picked_offset st' = map picked_offset st"
proof -
  obtain ix seed' where r: "rand_idx region_idx_bottom region_idx_top seed = Inr (ix, seed')" "idx_ok ix"
    using rand_idx_ok by blast
  define st' where "st' = st[v := (st ! v)\<lparr>partial_va := ix, picked_region := True\<rparr>]"
  have np: "no_pins st'" unfolding st'_def using assms by (intro no_pins_update) simp_all
  have "st' ! v \<in> set st'" using assms(1) by (simp add: st'_def set_update_memI)
  then have "concat (take 5 (pins (st' ! v))) = []" using np by (simp only: no_pins_def)
  then have "pick_one_region L infos v (st, seed) = Inr (st', seed')"
    by (simp add: pick_one_region_def r st'_def [symmetric] Let_def del: concat_eq_Nil_conv)
  moreover have "picked st' w \<longleftrightarrow> w = v \<or> picked st w" for w
    using assms(1) r(2) by (auto simp: picked_def st'_def nth_list_update)
  moreover have "map picked_offset st' = map picked_offset st"
    using assms(1) by (simp add: st'_def map_update list_update_same_conv)
  ultimately show thesis using that np by (simp add: st'_def)
qed

lemma pick_regions_ok:
  assumes "\<forall>v \<in> set vs. v < length st" "no_pins st"
  shows "\<exists>st' seed'. rfold (pick_one_region L infos) vs (st, seed) = Inr (st', seed') \<and> length st' = length st \<and> no_pins st' \<and>
    (\<forall>w. picked st' w \<longleftrightarrow> w \<in> set vs \<or> picked st w) \<and> map picked_offset st' = map picked_offset st"
  using assms
proof (induction vs arbitrary: st seed)
  case (Cons v vs)
  then have v: "v < length st" "no_pins st" by simp_all
  obtain st1 seed1 where 1: "pick_one_region L infos v (st, seed) = Inr (st1, seed1)" "length st1 = length st" "no_pins st1"
    "\<And>w. picked st1 w \<longleftrightarrow> w = v \<or> picked st w" "map picked_offset st1 = map picked_offset st"
    by (rule pick_one_region_ok [OF v]) blast
  from Cons.IH [of st1 seed1] Cons.prems 1 show ?case by auto
qed simp

section \<open>Picking the offsets\<close>

definition levels_ok :: "var_info_t list \<Rightarrow> bool" where
  "levels_ok infos \<longleftrightarrow> (\<forall>v \<in> set infos. case region_offset (init_attrs v) of None \<Rightarrow> True
     | Some (w, l) \<Rightarrow> w < length infos \<and> l \<notin> {REGION_SAME_PUD_OFFSET, REGION_SAME_PGD_OFFSET})"

lemma levels_shift:
  assumes "levels_ok infos" "addr_ok L" "v < length infos" "region_offset (init_attrs (infos ! v)) = Some (w, l)"
  shows "w < length infos" "LEVEL_SHIFTS L ! offs_ix l \<le> 21"
proof -
  have "w < length infos \<and> l \<notin> {REGION_SAME_PUD_OFFSET, REGION_SAME_PGD_OFFSET}"
    using assms(1,3,4) unfolding levels_ok_def by (metis (mono_tags, lifting) nth_mem option.simps(5) old.prod.case)
  then show "w < length infos" "LEVEL_SHIFTS L ! offs_ix l \<le> 21"
    using assms(2) by (cases l; simp add: LEVEL_SHIFTS_def PAGE_SHIFT_def PMD_SHIFT_def addr_ok_def)+
qed

text \<open>What holds of a variable whose offset is picked.\<close>

definition placed :: "harness \<Rightarrow> test_ctx_t \<Rightarrow> conc_st \<Rightarrow> nat \<Rightarrow> bool" where
  "placed h ctx st v \<longleftrightarrow> take_bit 4 (sva (st ! v)) = 0 \<and> unat (sva (st ! v)) \<le> 2 ^ 50 \<and>
     (case region_offset (init_attrs (heap_vars ctx ! v)) of None \<Rightarrow> True
      | Some (w, l) \<Rightarrow> picked_offset (st ! w) \<and>
          (sva (st ! v) AND BITMASK (LEVEL_SHIFTS (hlay h) ! offs_ix l)) = (sva (st ! w) AND BITMASK (LEVEL_SHIFTS (hlay h) ! offs_ix l)))"

definition place_inv :: "harness \<Rightarrow> test_ctx_t \<Rightarrow> conc_st \<Rightarrow> bool" where
  "place_inv h ctx st \<longleftrightarrow> length st = length (heap_vars ctx) \<and>
     (\<forall>v < length st. (picked_offset (st ! v) \<longrightarrow> placed h ctx st v) \<and> (\<not> picked_offset (st ! v) \<longrightarrow> idx_ok (partial_va (st ! v))))"

lemma take_bit_zero_bit: "take_bit n (a :: u64) = 0 \<Longrightarrow> k < n \<Longrightarrow> \<not> bit a k"
proof -
  assume "take_bit n a = 0" "k < n"
  moreover have "bit (take_bit n a) k = (k < n \<and> bit a k)" by (rule bit_take_bit_iff)
  ultimately show ?thesis by simp
qed

lemma merge_low:
  assumes "idx_ok ix" "take_bit 4 a = 0" "k \<le> 21"
  shows "idx_ok (ix\<lparr>reg_offs := (reg_offs ix AND NOT (BITMASK k)) OR (a AND BITMASK k)\<rparr>)"
    and "take_bit k ((reg_offs ix AND NOT (BITMASK k)) OR (a AND BITMASK k)) = take_bit k a"
proof -
  let ?o = "(reg_offs ix AND NOT (BITMASK k)) OR (a AND BITMASK k)"
  have b4: "\<not> bit (reg_offs ix) n \<and> \<not> bit a n" if "n < 4" for n
    using assms(1,2) that by (auto simp: idx_ok_def dest: take_bit_zero_bit)
  have b23: "n < 23" if "bit (reg_offs ix) n" for n
  proof -
    have "unat (reg_offs ix) < 2 ^ 23" using assms(1) by (simp add: idx_ok_def word_less_nat_alt)
    from lt_bits [OF this that] show ?thesis .
  qed
  have "unat ?o < 2 ^ 23"
  proof (rule bits_lt)
    fix n assume "bit ?o n"
    then show "n < 23" using b23 assms(3) by (auto simp: BITMASK_mask bit_simps)
  qed simp
  moreover have "take_bit 4 ?o = 0"
    by (rule bit_eqI) (auto simp: BITMASK_mask bit_simps b4)
  ultimately show "idx_ok (ix\<lparr>reg_offs := ?o\<rparr>)" using assms(1) by (simp add: idx_ok_def word_less_nat_alt)
  show "take_bit k ?o = take_bit k a"
    by (rule bit_eqI) (auto simp: BITMASK_mask bit_simps)
qed

lemma low_ok_take: "low_ok a b \<Longrightarrow> k \<le> 21 \<Longrightarrow> take_bit k a = take_bit k b"
proof -
  assume a: "low_ok a b" "k \<le> 21"
  have "take_bit k (take_bit 21 x) = take_bit k x" for x :: u64 using a(2) by (simp add: min_absorb1)
  then show ?thesis using a(1) unfolding low_ok_def by metis
qed


lemma mask_eq_take: "(a AND BITMASK k) = take_bit k (a :: u64)"
  by (simp add: BITMASK_mask take_bit_eq_mask)

lemma try_pick_keeps:
  assumes env: "heap_memory ctx = initialize_regions h" "ENABLE_PGTABLE (hcfg h)" "addr_ok (hlay h)"
    and lev: "levels_ok (heap_vars ctx)" and inv: "place_inv h ctx st"
    and v: "v < length st" "\<not> picked_offset (st ! v)"
    and t: "try_pick_one_offset h ctx st v = Some st'"
  shows "place_inv h ctx st'"
proof -
  let ?infos = "heap_vars ctx" and ?L = "hlay h"
  define ix where "ix = offset_idx ?L ?infos st v"
  define a where "a = va_from_region_idx h ctx (ty (?infos ! v)) ix"
  have rdy: "offset_ready ?infos st v" and st': "st' = st[v := (st ! v)\<lparr>partial_va := ix, sva := a, picked_offset := True\<rparr>]"
    using t by (auto simp: try_pick_one_offset_def Let_def ix_def a_def split: if_splits)
  have len: "length st = length ?infos" using inv by (simp add: place_inv_def)
  have ok: "idx_ok (partial_va (st ! v))" using inv v by (simp add: place_inv_def)
  have "idx_ok ix \<and> (case region_offset (init_attrs (?infos ! v)) of None \<Rightarrow> True
      | Some (w, l) \<Rightarrow> take_bit (LEVEL_SHIFTS ?L ! offs_ix l) (reg_offs ix) = take_bit (LEVEL_SHIFTS ?L ! offs_ix l) (sva (st ! w)))"
  proof (cases "region_offset (init_attrs (?infos ! v))")
    case None
    with ok show ?thesis by (simp add: ix_def offset_idx_def)
  next
    case (Some wl)
    obtain w l where wl: "wl = (w, l)" by (cases wl)
    note s = levels_shift [OF lev env(3) v(1) [unfolded len] Some [unfolded wl]]
    have "picked_offset (st ! w)" using rdy Some wl by (simp add: offset_ready_def)
    then have "take_bit 4 (sva (st ! w)) = 0" using inv s(1) len by (simp add: place_inv_def placed_def)
    from merge_low [OF ok this s(2)] Some wl show ?thesis by (simp add: ix_def offset_idx_def Let_def)
  qed
  then have ixok: "idx_ok ix" and low: "\<And>w l. region_offset (init_attrs (?infos ! v)) = Some (w, l) \<Longrightarrow>
      take_bit (LEVEL_SHIFTS ?L ! offs_ix l) (reg_offs ix) = take_bit (LEVEL_SHIFTS ?L ! offs_ix l) (sva (st ! w))"
    by auto
  have la: "low_ok a (reg_offs ix)" unfolding a_def by (rule va_low [OF env ixok])
  have a4: "take_bit 4 a = 0" using low_ok_take [OF la, of 4] ixok by (simp add: idx_ok_def)
  have other: "st' ! w = st ! w" if "w \<noteq> v" for w using that by (simp add: st')
  have new: "st' ! v = (st ! v)\<lparr>partial_va := ix, sva := a, picked_offset := True\<rparr>" using v by (simp add: st')
  have "placed h ctx st' v"
  proof (cases "region_offset (init_attrs (?infos ! v))")
    case None
    with a4 la new show ?thesis by (simp add: placed_def low_ok_def)
  next
    case (Some wl)
    obtain w l where wl: "wl = (w, l)" by (cases wl)
    note s = levels_shift [OF lev env(3) v(1) [unfolded len] Some [unfolded wl]]
    have pw: "picked_offset (st ! w)" using rdy Some wl by (simp add: offset_ready_def)
    with v(2) have "w \<noteq> v" by auto
    moreover have "take_bit (LEVEL_SHIFTS ?L ! offs_ix l) a = take_bit (LEVEL_SHIFTS ?L ! offs_ix l) (sva (st ! w))"
      using low_ok_take [OF la s(2)] low [OF Some [unfolded wl]] by simp
    ultimately show ?thesis using a4 la new pw Some wl other [of w] by (simp add: placed_def low_ok_def mask_eq_take)
  qed
  moreover have keep: "placed h ctx st' u" if "u < length st" "u \<noteq> v" "placed h ctx st u" for u
  proof -
    have "picked_offset (st' ! w) \<and> sva (st' ! w) = sva (st ! w)" if "picked_offset (st ! w)" for w
      using that v(2) other [of w] by (cases "w = v") auto
    then show ?thesis using that other [of u] by (auto simp: placed_def split: option.splits)
  qed
  ultimately have at_v: "(picked_offset (st' ! v) \<longrightarrow> placed h ctx st' v) \<and> (\<not> picked_offset (st' ! v) \<longrightarrow> idx_ok (partial_va (st' ! v)))"
    using new by simp
  have "(picked_offset (st' ! u) \<longrightarrow> placed h ctx st' u) \<and> (\<not> picked_offset (st' ! u) \<longrightarrow> idx_ok (partial_va (st' ! u)))"
    if "u < length st" for u
  proof (cases "u = v")
    case True
    then show ?thesis using at_v by simp
  next
    case False
    with other [OF this] keep [OF that this] inv that show ?thesis by (simp add: place_inv_def)
  qed
  moreover have "length st' = length st" by (simp add: st')
  ultimately show ?thesis using len by (simp add: place_inv_def)
qed


lemma pick_offsets_inv:
  assumes env: "heap_memory ctx = initialize_regions h" "ENABLE_PGTABLE (hcfg h)" "addr_ok (hlay h)"
    and lev: "levels_ok (heap_vars ctx)" and inv: "place_inv h ctx st"
  shows "place_inv h ctx (pick_offsets h ctx st)"
  using assms
proof (induction h ctx st rule: pick_offsets.induct)
  case (1 h ctx st)
  show ?case
  proof (cases "pick_offset_round h ctx st")
    case None
    then show ?thesis using 1 by (subst pick_offsets.simps) simp
  next
    case (Some st')
    then obtain v where v: "v < length st" "\<not> picked_offset (st ! v)" "try_pick_one_offset h ctx st v = Some st'"
      by (rule pick_offset_round_Some)
    have "place_inv h ctx st'" by (rule try_pick_keeps [OF 1(2-6) v])
    with 1(1) [OF Some 1(2-5)] Some show ?thesis by (subst pick_offsets.simps) simp
  qed
qed

text \<open>At the end no variable that is left could be picked.\<close>

lemma pick_offsets_stuck: "pick_offset_round h ctx (pick_offsets h ctx st) = None"
proof (induction h ctx st rule: pick_offsets.induct)
  case (1 h ctx st)
  then show ?case by (cases "pick_offset_round h ctx st") (subst pick_offsets.simps, simp)+
qed

lemma pick_offsets_all:
  assumes stuck: "pick_offset_round h ctx st = None" and len: "length st = length (heap_vars ctx)"
    and rank: "\<And>v w l. v < length st \<Longrightarrow> region_offset (init_attrs (heap_vars ctx ! v)) = Some (w, l) \<Longrightarrow> w < length st \<and> rank w < (rank v :: nat)"
  shows "\<forall>v < length st. picked_offset (st ! v)"
proof (intro allI)
  have no: "\<not> offset_ready (heap_vars ctx) st v" if "v < length st" "\<not> picked_offset (st ! v)" for v
  proof -
    have "\<not> (\<not> picked_offset (st ! v) \<and> try_pick_one_offset h ctx st v \<noteq> None)"
    proof (cases "find (\<lambda>v. \<not> picked_offset (st ! v) \<and> try_pick_one_offset h ctx st v \<noteq> None) [0..<length st]")
      case None
      with that(1) show ?thesis by (auto simp: find_None_iff)
    next
      case (Some u)
      then have "try_pick_one_offset h ctx st u \<noteq> None" by (auto simp: find_Some_iff)
      moreover have "pick_offset_round h ctx st = try_pick_one_offset h ctx st u"
        unfolding pick_offset_round_def Some by simp
      ultimately show ?thesis using stuck by simp
    qed
    with that(2) show ?thesis by (auto simp: try_pick_one_offset_def Let_def)
  qed
  fix v show "v < length st \<longrightarrow> picked_offset (st ! v)"
  proof (induction "rank v" arbitrary: v rule: less_induct)
    case less
    show ?case
    proof (intro impI, rule ccontr)
      assume v: "v < length st" "\<not> picked_offset (st ! v)"
      then obtain w l where "region_offset (init_attrs (heap_vars ctx ! v)) = Some (w, l)" "\<not> picked_offset (st ! w)"
        using no [OF v] by (auto simp: offset_ready_def split: option.splits)
      with rank [OF v(1)] less show False by blast
    qed
  qed
qed

section \<open>One attempt\<close>

lemma reset_st_props: "length (reset_st st) = length st" "no_pins (reset_st st) = no_pins st"
  "v < length st \<Longrightarrow> \<not> picked_offset (reset_st st ! v)"
  by (auto simp: reset_st_def no_pins_def)

lemma attempt_regions:
  assumes own: "all_own infos" and len: "length st = length infos" and np: "no_pins st"
  obtains st2 seed2 where
    "rbind (rfold (pick_one_region L infos) (filter (\<lambda>v. var_owns_region (ty (infos ! v)) \<and> \<not> has_offset (infos ! v)) [0..<length infos]) (reset_st st, seed))
       (rfold (pick_one_region L infos) (filter (\<lambda>v. var_owns_region (ty (infos ! v)) \<and> has_offset (infos ! v)) [0..<length infos])) = Inr (st2, seed2)"
    "length st2 = length infos" "no_pins st2" "\<forall>v < length infos. picked st2 v \<and> \<not> picked_offset (st2 ! v)"
proof -
  let ?vs1 = "filter (\<lambda>v. var_owns_region (ty (infos ! v)) \<and> \<not> has_offset (infos ! v)) [0..<length infos]"
  let ?vs2 = "filter (\<lambda>v. var_owns_region (ty (infos ! v)) \<and> has_offset (infos ! v)) [0..<length infos]"
  obtain st1 seed1 where 1: "rfold (pick_one_region L infos) ?vs1 (reset_st st, seed) = Inr (st1, seed1)"
    "length st1 = length infos" "no_pins st1" "\<forall>w. picked st1 w \<longleftrightarrow> w \<in> set ?vs1 \<or> picked (reset_st st) w"
    "map picked_offset st1 = map picked_offset (reset_st st)"
    using pick_regions_ok [of ?vs1 "reset_st st" L infos seed] len np by (auto simp: reset_st_props)
  obtain st2 seed2 where 2: "rfold (pick_one_region L infos) ?vs2 (st1, seed1) = Inr (st2, seed2)"
    "length st2 = length infos" "no_pins st2" "\<forall>w. picked st2 w \<longleftrightarrow> w \<in> set ?vs2 \<or> picked st1 w"
    "map picked_offset st2 = map picked_offset st1"
    using pick_regions_ok [of ?vs2 st1 L infos seed1] 1 by auto
  have "picked st2 v \<and> \<not> picked_offset (st2 ! v)" if v: "v < length infos" for v
  proof -
    have "picked_offset (st2 ! v) = picked_offset (reset_st st ! v)"
      using 1(2,5) 2(2,5) v len by (metis nth_map reset_st_props(1))
    with reset_st_props(3) [of v st] v len 1(4) 2(4) all_own_nth [OF own v] show ?thesis by auto
  qed
  with that 1 2 show thesis by simp
qed

text \<open>An attempt that does not fail, and the state it leaves when it succeeds.\<close>

lemma attempt_cases:
  assumes env: "heap_memory ctx = initialize_regions h" "ENABLE_PGTABLE (hcfg h)" "addr_ok (hlay h)"
    and lev: "levels_ok (heap_vars ctx)" and own: "all_own (heap_vars ctx)"
    and len: "length st = length (heap_vars ctx)" and np: "no_pins st"
  obtains st' seed' where "place_inv h ctx st'" "no_pins st'" "pick_offset_round h ctx st' = None"
    "concretize_attempt h ctx st seed =
       rbind (guard (\<forall>v \<in> set [0..<length (heap_vars ctx)]. picked_offset (st' ! v)) (VarFail ''failed to pick a VA (offset)'')) (\<lambda>_.
         Inr (st', seed', \<forall>v \<in> set [0..<length (heap_vars ctx)]. validate_selection (hlay h) (heap_vars ctx) st' v))"
proof -
  let ?infos = "heap_vars ctx"
  obtain st2 seed2 where 2:
    "rbind (rfold (pick_one_region (hlay h) ?infos) (filter (\<lambda>v. var_owns_region (ty (?infos ! v)) \<and> \<not> has_offset (?infos ! v)) [0..<length ?infos]) (reset_st st, seed))
       (rfold (pick_one_region (hlay h) ?infos) (filter (\<lambda>v. var_owns_region (ty (?infos ! v)) \<and> has_offset (?infos ! v)) [0..<length ?infos])) = Inr (st2, seed2)"
    "length st2 = length ?infos" "no_pins st2" "\<forall>v < length ?infos. picked st2 v \<and> \<not> picked_offset (st2 ! v)"
    by (rule attempt_regions [OF own len np])
  have "place_inv h ctx st2" using 2(2,4) by (auto simp: place_inv_def picked_def)
  then have inv: "place_inv h ctx (pick_offsets h ctx st2)" by (rule pick_offsets_inv [OF env lev])
  have npp: "no_pins (pick_offsets h ctx st2)" using 2(3)
  proof (induction h ctx st2 rule: pick_offsets.induct)
    case (1 h ctx st)
    show ?case
    proof (cases "pick_offset_round h ctx st")
      case None
      then show ?thesis using 1(2) by (subst pick_offsets.simps) simp
    next
      case (Some st')
      then obtain v where v: "v < length st" "try_pick_one_offset h ctx st v = Some st'" by (rule pick_offset_round_Some)
      then have "no_pins st'" using 1(2)
        by (auto simp: try_pick_one_offset_def Let_def split: if_splits intro!: no_pins_update)
      with 1(1) [OF Some] Some show ?thesis by (subst pick_offsets.simps) simp
    qed
  qed
  have "\<forall>v \<in> set [0..<length ?infos]. picked_region (st2 ! v)" using 2(4) by (auto simp: picked_def)
  with 2(1) have "concretize_attempt h ctx st seed =
       rbind (guard (\<forall>v \<in> set [0..<length ?infos]. picked_offset (pick_offsets h ctx st2 ! v)) (VarFail ''failed to pick a VA (offset)'')) (\<lambda>_.
         Inr (pick_offsets h ctx st2, seed2, \<forall>v \<in> set [0..<length ?infos]. validate_selection (hlay h) ?infos (pick_offsets h ctx st2) v))"
    unfolding concretize_attempt_def Let_def
    by (simp only: rbind_assoc [symmetric]) simp
  with that [OF inv npp pick_offsets_stuck] show thesis by blast
qed

section \<open>A valid choice passes the checks\<close>

lemma level_size:
  assumes "addr_ok L"
  shows "LEVEL_SHIFTS L ! own_ix l \<le> 39"
    and "l \<noteq> REGION_OWN_VAR \<Longrightarrow> LEVEL_SIZES L ! own_ix l = push_bit (LEVEL_SHIFTS L ! own_ix l) 1"
  using assms by (cases l; simp add: LEVEL_SHIFTS_def LEVEL_SIZES_def addr_ok_def PAGE_SHIFT_def PMD_SHIFT_def PAGE_SIZE_def)+

lemma same_region_overlaps:
  assumes L: "addr_ok L" and same: "in_same_region L a b l" and al: "take_bit 4 b = 0" and small: "unat b \<le> 2 ^ 50"
  shows "(a AND NOT (BITMASK (LEVEL_SHIFTS L ! own_ix l))) \<le> b
    \<and> b < (a AND NOT (BITMASK (LEVEL_SHIFTS L ! own_ix l))) + LEVEL_SIZES L ! own_ix l"
proof -
  let ?k = "LEVEL_SHIFTS L ! own_ix l"
  define lo where "lo = b AND NOT (BITMASK ?k)"
  have lo: "(a AND NOT (BITMASK ?k)) = lo" using same by (simp add: in_same_region_def lo_def)
  have le: "lo \<le> b" by (simp add: lo_def word_and_le2)
  have "unat lo = unat b div 2 ^ ?k * 2 ^ ?k"
    using unat_ALIGN_TO [of b ?k] by (simp add: lo_def ALIGN_TO_def BITMASK_def)
  then have lt: "unat b < unat lo + 2 ^ ?k" using div_bounds [of "2 ^ ?k" "unat b"] by simp
  have "b < lo + LEVEL_SIZES L ! own_ix l"
  proof (cases "l = REGION_OWN_VAR")
    case True
    have "\<not> bit b 0" using take_bit_zero_bit [OF al, of 0] by simp
    then have "bit lo n = bit b n" for n
      using True bit_imp_le_length [of b n]
      by (cases "n = 0") (auto simp: lo_def BITMASK_mask bit_simps LEVEL_SHIFTS_def simp del: bit_0)
    then have "lo = b" by (intro bit_eqI)
    moreover have "unat (b + 1) = unat b + 1" using small by (subst unat_add_no_wrap) simp_all
    ultimately show ?thesis using True by (simp add: LEVEL_SIZES_def word_less_nat_alt)
  next
    case False
    have k: "?k \<le> 39" by (rule level_size(1) [OF L])
    then have "(2 :: nat) ^ ?k \<le> 2 ^ 39" by (intro power_increasing) simp_all
    moreover have p: "unat (push_bit ?k 1 :: u64) = 2 ^ ?k" using k by (intro unat_push_bit_one) simp
    moreover have "unat lo \<le> 2 ^ 50" using le small by (simp add: word_le_nat_alt)
    ultimately have "unat (lo + push_bit ?k 1) = unat lo + 2 ^ ?k"
      unfolding p [symmetric] by (intro unat_add_no_wrap) (simp add: p)
    then show ?thesis using lt level_size(2) [OF L False] by (simp add: word_less_nat_alt)
  qed
  then show ?thesis using le by (simp add: lo)
qed

definition valued :: "nat \<Rightarrow> conc_st \<Rightarrow> var_info_t list \<Rightarrow> var_info_t list \<Rightarrow> bool" where
  "valued run st infos infos' \<longleftrightarrow> length infos' = length infos \<and>
     (\<forall>v < length infos. infos' ! v = (infos ! v)\<lparr>vvalues := (vvalues (infos ! v))[run := sva (st ! v)]\<rparr>)"

lemma assign_values:
  assumes "ENABLE_PGTABLE (hcfg h)"
  shows "\<exists>infos'. rfold (assign_value h run) [0..<length infos] (st, infos) = Inr (st, infos') \<and> valued run st infos infos'"
proof -
  have "\<exists>infos'. rfold (assign_value h run) vs (st, infos) = Inr (st, infos') \<and> length infos' = length infos \<and>
      (\<forall>v < length infos. infos' ! v = (if v \<in> set vs then (infos ! v)\<lparr>vvalues := (vvalues (infos ! v))[run := sva (st ! v)]\<rparr> else infos ! v))"
    if "\<forall>v \<in> set vs. v < length infos" for vs infos
    using that
  proof (induction vs arbitrary: infos)
    case (Cons u us)
    let ?i = "set_value u run (sva (st ! u)) infos"
    have "\<forall>v \<in> set us. v < length ?i" using Cons.prems by (simp add: set_value_def)
    from Cons.IH [OF this] obtain infos' where
      i: "rfold (assign_value h run) us (st, ?i) = Inr (st, infos')" "length infos' = length ?i"
      "\<forall>v < length ?i. infos' ! v = (if v \<in> set us then (?i ! v)\<lparr>vvalues := (vvalues (?i ! v))[run := sva (st ! v)]\<rparr> else ?i ! v)"
      by blast
    have "infos' ! v = (if v \<in> set (u # us) then (infos ! v)\<lparr>vvalues := (vvalues (infos ! v))[run := sva (st ! v)]\<rparr> else infos ! v)"
      if v: "v < length infos" for v
      using i(3) v Cons.prems by (cases "v = u") (auto simp: set_value_def)
    moreover have "length infos' = length infos" using i(2) by (simp add: set_value_def)
    moreover have "assign_value h run u (st, infos) = Inr (st, ?i)" using assms by (simp add: assign_value_def)
    ultimately show ?case using i(1) by (intro exI [of _ infos']) simp
  qed simp
  from this [of "[0..<length infos]" infos] show ?thesis by (auto simp: valued_def)
qed

lemma postcheck_ok:
  assumes L: "addr_ok (hlay h)" and own: "all_own (heap_vars ctx)" and lev: "levels_ok (heap_vars ctx)"
    and inv: "place_inv h ctx st" and all: "\<forall>v < length (heap_vars ctx). picked_offset (st ! v)"
    and valid: "\<forall>v < length (heap_vars ctx). validate_selection (hlay h) (heap_vars ctx) st v"
    and runs: "\<forall>v \<in> set (heap_vars ctx). run < length (vvalues v)" and val: "valued run st (heap_vars ctx) infos'"
  shows "concretization_postcheck (hlay h) infos' run = Inr ()"
proof -
  let ?infos = "heap_vars ctx"
  have len: "length infos' = length ?infos" "length st = length ?infos" using val inv by (simp_all add: valued_def place_inv_def)
  have pl: "placed h ctx st v" if "v < length ?infos" for v using inv all that by (simp add: place_inv_def)
  have at: "vvalues (infos' ! v) ! run = sva (st ! v)" "ty (infos' ! v) = ty (?infos ! v)" "init_attrs (infos' ! v) = init_attrs (?infos ! v)"
    if "v < length ?infos" for v
    using val runs that by (simp_all add: valued_def)
  have "postcheck_no_overlap_owned (hlay h) infos' run"
    unfolding postcheck_no_overlap_owned_def
  proof (intro ballI)
    fix v assume "v \<in> set [0..<length infos']"
    then have v: "v < length ?infos" using len by simp
    have "\<not> in_same_region (hlay h) (sva (st ! v)) (sva (st ! w)) l" if w: "w < length ?infos" "w \<noteq> v" and l: "ty (?infos ! v) = VAR_HEAP b l" for w b l
    proof
      assume "in_same_region (hlay h) (sva (st ! v)) (sva (st ! w)) l"
      from same_region_overlaps [OF L this] pl [OF w(1)]
      have "overlaps_owned_regions (hlay h) ?infos st w v"
        using all_own_nth [OF own w(1)] l by (simp add: overlaps_owned_regions_def var_owned_region_size_def Let_def placed_def)
      with valid w v show False by (auto simp: validate_selection_def)
    qed
    then show "case ty (infos' ! v) of VAR_HEAP _ own \<Rightarrow> (\<forall>w \<in> set [0..<length infos']. w \<noteq> v \<longrightarrow>
             \<not> (in_same_region (hlay h) (vvalues (infos' ! v) ! run) (vvalues (infos' ! w) ! run) own \<and>
                (case ty (infos' ! w) of VAR_PINNED _ p _ \<Rightarrow> p \<noteq> v | _ \<Rightarrow> True)))
      | _ \<Rightarrow> True"
      using at len v by (auto split: var_kind.split)
  qed
  moreover have "postcheck_related_same_bits (hlay h) infos' run"
    unfolding postcheck_related_same_bits_def
  proof (intro ballI)
    fix v assume "v \<in> set [0..<length infos']"
    then have v: "v < length ?infos" using len by simp
    show "case region_offset (init_attrs (infos' ! v)) of None \<Rightarrow> True
      | Some (w, l) \<Rightarrow> (let lvl = LEVEL_SHIFTS (hlay h) ! offs_ix l
                       in (vvalues (infos' ! v) ! run AND BITMASK lvl) = (vvalues (infos' ! w) ! run AND BITMASK lvl))"
    proof (cases "region_offset (init_attrs (?infos ! v))")
      case None
      then show ?thesis using at(3) [OF v] by simp
    next
      case (Some wl)
      obtain w l where wl: "wl = (w, l)" by (cases wl)
      have w: "w < length ?infos" using levels_shift(1) [OF lev L v] Some wl by simp
      show ?thesis using pl [OF v] Some wl at(1,3) [OF v] at(1) [OF w] by (simp add: placed_def Let_def)
    qed
  qed
  moreover have "postcheck_aligned infos' run"
    unfolding postcheck_aligned_def
  proof
    fix x assume "x \<in> set infos'"
    then obtain v where v: "v < length ?infos" "x = infos' ! v" using len by (auto simp: in_set_conv_nth)
    have t: "take_bit 4 (sva (st ! v)) = 0" using pl [OF v(1)] by (simp add: placed_def)
    have "take_bit 3 (sva (st ! v)) = 0"
      by (intro bit_eqI) (use take_bit_zero_bit [OF t] in \<open>auto simp: bit_simps\<close>)
    then show "(vvalues x ! run AND BITMASK 3) = 0" using at(1) [OF v(1)] v(2) by (simp add: mask_eq_take)
  qed
  ultimately show ?thesis by (simp add: concretization_postcheck_def guard_def)
qed

section \<open>The loop\<close>

text \<open>The attempts the loop would make one after the other if it never stopped.\<close>

fun nth_attempt :: "harness \<Rightarrow> test_ctx_t \<Rightarrow> conc_st \<Rightarrow> u64 \<Rightarrow> nat \<Rightarrow> var_err + conc_st \<times> u64 \<times> bool" where
  "nth_attempt h ctx st seed 0 = concretize_attempt h ctx st seed"
| "nth_attempt h ctx st seed (Suc n) =
     rbind (concretize_attempt h ctx st seed) (\<lambda>(st, seed, _). nth_attempt h ctx st seed n)"

text \<open>What the concretizer needs of a test: every variable owns a region, and offsets at most at the 2M level without cycles.\<close>

definition random_ready :: "harness \<Rightarrow> test_ctx_t \<Rightarrow> (nat \<Rightarrow> nat) \<Rightarrow> bool" where
  "random_ready h ctx rank \<longleftrightarrow> heap_memory ctx = initialize_regions h \<and> ENABLE_PGTABLE (hcfg h) \<and> addr_ok (hlay h) \<and>
     levels_ok (heap_vars ctx) \<and> all_own (heap_vars ctx) \<and>
     (\<forall>v < length (heap_vars ctx). case region_offset (init_attrs (heap_vars ctx ! v)) of None \<Rightarrow> True | Some (w, l) \<Rightarrow> rank w < rank v)"

lemma attempt_ready:
  assumes "random_ready h ctx rank" "length st = length (heap_vars ctx)" "no_pins st"
  obtains st' seed' where "length st' = length (heap_vars ctx)" "no_pins st'" "place_inv h ctx st'"
    "\<forall>v < length (heap_vars ctx). picked_offset (st' ! v)"
    "concretize_attempt h ctx st seed = Inr (st', seed', \<forall>v < length (heap_vars ctx). validate_selection (hlay h) (heap_vars ctx) st' v)"
proof -
  from assms(1) have env: "heap_memory ctx = initialize_regions h" "ENABLE_PGTABLE (hcfg h)" "addr_ok (hlay h)"
    and lev: "levels_ok (heap_vars ctx)" and own: "all_own (heap_vars ctx)" by (simp_all add: random_ready_def)
  obtain st' seed' where 1: "place_inv h ctx st'" "no_pins st'" "pick_offset_round h ctx st' = None"
    "concretize_attempt h ctx st seed =
       rbind (guard (\<forall>v \<in> set [0..<length (heap_vars ctx)]. picked_offset (st' ! v)) (VarFail ''failed to pick a VA (offset)'')) (\<lambda>_.
         Inr (st', seed', \<forall>v \<in> set [0..<length (heap_vars ctx)]. validate_selection (hlay h) (heap_vars ctx) st' v))"
    by (rule attempt_cases [OF env lev own assms(2,3)])
  have len: "length st' = length (heap_vars ctx)" using 1(1) by (simp add: place_inv_def)
  have "\<forall>v < length st'. picked_offset (st' ! v)"
  proof (rule pick_offsets_all [OF 1(3) len, where rank = rank])
    fix v w l assume v: "v < length st'" and o: "region_offset (init_attrs (heap_vars ctx ! v)) = Some (w, l)"
    then show "w < length st' \<and> rank w < rank v"
      using assms(1) levels_shift(1) [OF lev env(3) _ o] len by (fastforce simp: random_ready_def)
  qed
  with 1 len that [of st' seed'] show thesis by (simp add: Ball_def)
qed

lemma until_Some:
  assumes "\<forall>m < n. \<exists>st' seed'. nth_attempt h ctx st seed m = Inr (st', seed', False)"
    and "nth_attempt h ctx st seed n = Inr (st', seed', True)"
  shows "concretize_until h ctx st seed = Some (Inr (st', seed'))"
  using assms
proof (induction n arbitrary: st seed)
  case 0
  then show ?case by (subst concretize_until.simps) simp
next
  case (Suc n)
  obtain st1 seed1 where 1: "concretize_attempt h ctx st seed = Inr (st1, seed1, False)"
    using Suc.prems(1) [rule_format, of 0] by auto
  have "\<forall>m < n. \<exists>st' seed'. nth_attempt h ctx st1 seed1 m = Inr (st', seed', False)"
  proof (intro allI impI)
    fix m assume "m < n"
    with Suc.prems(1) have "\<exists>st' seed'. nth_attempt h ctx st seed (Suc m) = Inr (st', seed', False)" by blast
    with 1 show "\<exists>st' seed'. nth_attempt h ctx st1 seed1 m = Inr (st', seed', False)" by simp
  qed
  moreover have "nth_attempt h ctx st1 seed1 n = Inr (st', seed', True)" using Suc.prems(2) 1 by simp
  ultimately show ?case using Suc.IH 1 by (subst concretize_until.simps) simp
qed

lemma until_accepted:
  assumes "concretize_until h ctx st seed = Some r"
  shows "random_ready h ctx rank \<longrightarrow> length st = length (heap_vars ctx) \<longrightarrow> no_pins st \<longrightarrow>
    (\<exists>st' seed'. r = Inr (st', seed') \<and> length st' = length (heap_vars ctx) \<and> no_pins st' \<and> place_inv h ctx st' \<and>
    (\<forall>v < length (heap_vars ctx). picked_offset (st' ! v) \<and> validate_selection (hlay h) (heap_vars ctx) st' v))"
proof (induction rule: concretize_until.raw_induct)
  case (1 until h ctx st seed r)
  show ?case
  proof (intro impI)
    assume a: "random_ready h ctx rank" "length st = length (heap_vars ctx)" "no_pins st"
    obtain st' seed' where b: "length st' = length (heap_vars ctx)" "no_pins st'" "place_inv h ctx st'"
      "\<forall>v < length (heap_vars ctx). picked_offset (st' ! v)"
      "concretize_attempt h ctx st seed = Inr (st', seed', \<forall>v < length (heap_vars ctx). validate_selection (hlay h) (heap_vars ctx) st' v)"
      by (rule attempt_ready [OF a])
    show "\<exists>st' seed'. r = Inr (st', seed') \<and> length st' = length (heap_vars ctx) \<and> no_pins st' \<and> place_inv h ctx st' \<and>
      (\<forall>v < length (heap_vars ctx). picked_offset (st' ! v) \<and> validate_selection (hlay h) (heap_vars ctx) st' v)"
    proof (cases "\<forall>v < length (heap_vars ctx). validate_selection (hlay h) (heap_vars ctx) st' v")
      case True
      with 1(2) b show ?thesis by auto
    next
      case False
      with 1(2) b(5) have "until h ctx st' seed' = Some r" by (simp split: if_splits)
      from 1(1) [OF this] a(1) b(1,2) show ?thesis by blast
    qed
  qed
qed (rule assms)

lemma until_None:
  assumes "concretize_until h ctx st seed = None" "random_ready h ctx rank" "length st = length (heap_vars ctx)" "no_pins st"
  shows "\<exists>st' seed'. nth_attempt h ctx st seed n = Inr (st', seed', False)"
  using assms
proof (induction n arbitrary: st seed)
  case 0
  obtain st' seed' where "concretize_attempt h ctx st seed = Inr (st', seed', \<forall>v < length (heap_vars ctx). validate_selection (hlay h) (heap_vars ctx) st' v)"
    by (rule attempt_ready [OF 0(2-4)])
  with 0(1) show ?case by (subst (asm) concretize_until.simps) (auto split: if_splits)
next
  case (Suc n)
  obtain st1 seed1 where 1: "length st1 = length (heap_vars ctx)" "no_pins st1" "place_inv h ctx st1"
    "\<forall>v < length (heap_vars ctx). picked_offset (st1 ! v)"
    "concretize_attempt h ctx st seed = Inr (st1, seed1, \<forall>v < length (heap_vars ctx). validate_selection (hlay h) (heap_vars ctx) st1 v)"
    by (rule attempt_ready [OF Suc(3-5)])
  with Suc(2) have "concretize_until h ctx st1 seed1 = None"
    by (subst (asm) concretize_until.simps) (auto split: if_splits)
  from Suc.IH [OF this Suc(3) 1(1,2)] 1(5) show ?case by simp
qed

lemma random_init_ready: "all_own (heap_vars ctx) \<Longrightarrow>
    length (concretize_random_init ctx) = length (heap_vars ctx) \<and> no_pins (concretize_random_init ctx)"
  by (simp add: no_pins_init) (simp add: concretize_random_init_def)

lemma random_one_result:
  assumes "random_ready h ctx rank" "length st = length (heap_vars ctx)" "no_pins st"
    and "\<forall>v \<in> set (heap_vars ctx). run < length (vvalues v)" and "concretize_random_one h ctx st run seed = Some r"
  shows "\<exists>infos' st' seed'. r = Inr (ctx\<lparr>heap_vars := infos'\<rparr>, st', seed') \<and> valued run st' (heap_vars ctx) infos' \<and>
    length st' = length (heap_vars ctx) \<and> no_pins st' \<and> concretization_postcheck (hlay h) infos' run = Inr ()"
proof -
  from assms(5) obtain r' where Some: "concretize_until h ctx st seed = Some r'"
    by (auto simp: concretize_random_one_def split: option.splits)
  from until_accepted [OF Some, of rank] assms(1-3) obtain st' seed' where u: "r' = Inr (st', seed')" "place_inv h ctx st'"
    "length st' = length (heap_vars ctx)" "no_pins st'"
    "\<forall>v < length (heap_vars ctx). picked_offset (st' ! v) \<and> validate_selection (hlay h) (heap_vars ctx) st' v" by blast
  have pg: "ENABLE_PGTABLE (hcfg h)" "addr_ok (hlay h)" "all_own (heap_vars ctx)" "levels_ok (heap_vars ctx)"
    using assms(1) by (simp_all add: random_ready_def)
  obtain infos' where i: "rfold (assign_value h run) [0..<length (heap_vars ctx)] (st', heap_vars ctx) = Inr (st', infos')"
    "valued run st' (heap_vars ctx) infos'" using assign_values [OF pg(1)] by blast
  have "concretization_postcheck (hlay h) infos' run = Inr ()"
    by (rule postcheck_ok [OF pg(2-4) u(2) _ _ assms(4) i(2)]) (use u(5) in auto)
  moreover have "r = Inr (ctx\<lparr>heap_vars := infos'\<rparr>, st', seed')"
    using assms(5) Some u(1) i(1) by (simp add: concretize_random_one_def)
  ultimately show ?thesis using u(3,4) i(2) by blast
qed

text \<open>
  C22: the random concretizer, on a test whose variables all own their region and whose offsets are not
  cyclic: either every attempt it makes picks an address for each variable but is rejected by
  \<open>validate_selection\<close>, and then the loop does not end; or it returns, without failing, and what it
  returns passes the check \<open>concretization_postcheck\<close> that runs after it, for any state left by earlier
  runs and any seed.
\<close>

theorem concretize_random_one_valid:
  assumes "random_ready h ctx rank" and "length st = length (heap_vars ctx)" and "no_pins st"
    and "\<forall>v \<in> set (heap_vars ctx). run < length (vvalues v)"
  shows "case concretize_random_one h ctx st run seed of
      None \<Rightarrow> \<forall>n. \<exists>st' seed'. nth_attempt h ctx st seed n = Inr (st', seed', False)
    | Some r \<Rightarrow> \<exists>ctx' st' seed'. r = Inr (ctx', st', seed') \<and> concretization_postcheck (hlay h) (heap_vars ctx') run = Inr ()"
proof (cases "concretize_random_one h ctx st run seed")
  case None
  then have "concretize_until h ctx st seed = None" by (simp add: concretize_random_one_def split: option.splits)
  from until_None [OF this assms(1-3)] None show ?thesis by simp
next
  case (Some r)
  from random_one_result [OF assms Some] Some show ?thesis by auto
qed

lemma single_variable_returns:
  assumes "random_ready h ctx rank" "length st = 1" "length (heap_vars ctx) = 1" "no_pins st"
  shows "concretize_random_one h ctx st run seed \<noteq> None"
proof -
  have len: "length st = length (heap_vars ctx)" using assms(2,3) by simp
  have "validate_selection L (heap_vars ctx) st' v" if "v < length (heap_vars ctx)" for L st' v
    using that assms(3) by (auto simp: validate_selection_def)
  moreover obtain st' seed' where
    "concretize_attempt h ctx st seed = Inr (st', seed', \<forall>v < length (heap_vars ctx). validate_selection (hlay h) (heap_vars ctx) st' v)"
    by (rule attempt_ready [OF assms(1) len assms(4)])
  ultimately have "concretize_attempt h ctx st seed = Inr (st', seed', True)" by simp
  then have "concretize_until h ctx st seed = Some (Inr (st', seed'))" by (subst concretize_until.simps) simp
  then show ?thesis by (simp add: concretize_random_one_def)
qed

definition conc_harness :: harness where
  "conc_harness = \<lparr>hcfg = default_config, hlay = qemu_layout, hvm = \<lparr>top_of_ptables = 0x47800000, repeat_tlbi = False, isb_after_pte_st = False\<rparr>\<rparr>"

definition conc_ctx :: "var_info_t list \<Rightarrow> test_ctx_t" where
  "conc_ctx infos = \<lparr>start_clock = 0, no_runs = 1, batch_size = 1, heap_memory = initialize_regions conc_harness,
     heap_vars = infos, system_state = \<lparr>mair_attr7 = None\<rparr>, out_regs = [], shuffled_ixs = [0], shuffled_ixs_inverse = [0],
     affinity = [0, 1, 2, 3], hist = \<lparr>results = [], limit = 200, lut = replicate 200 None\<rparr>, ptables = [0, 0],
     valloc_ptable_chkpnt = 0, tcfg = test_pg\<rparr>"

lemma conc_addr_ok: "addr_ok qemu_layout"
  unfolding qemu_layout_def by (rule addr_ok_init_device) (simp_all add: qemu_linker_def qemu_memory_def)

theorem concretize_random_one_valid_witness:
  "(\<forall>seed. \<exists>ctx' st' seed'. concretize_random_one conc_harness (conc_ctx [(reset_var_info 0 ''x'' [0])\<lparr>ty := VAR_HEAP \<lparr>bval = 1, is_identity_mapped = False\<rparr> REGION_OWN_PAGE\<rparr>])
      (concretize_random_init (conc_ctx [(reset_var_info 0 ''x'' [0])\<lparr>ty := VAR_HEAP \<lparr>bval = 1, is_identity_mapped = False\<rparr> REGION_OWN_PAGE\<rparr>])) 0 seed = Some (Inr (ctx', st', seed')) \<and>
      concretization_postcheck qemu_layout (heap_vars ctx') 0 = Inr ())
   \<and> (\<exists>infos sys'. read_var_infos test_pg [0] \<lparr>mair_attr7 = None\<rparr> = Inr (infos, sys') \<and> length infos = 3 \<and>
        random_ready conc_harness (conc_ctx infos) id)"
proof
  let ?c = "conc_ctx [(reset_var_info 0 ''x'' [0])\<lparr>ty := VAR_HEAP \<lparr>bval = 1, is_identity_mapped = False\<rparr> REGION_OWN_PAGE\<rparr>]"
  have rdy: "random_ready conc_harness ?c id"
    by (simp add: random_ready_def conc_ctx_def conc_harness_def conc_addr_ok default_config_def levels_ok_def all_own_def reset_var_info_def)
  have own: "all_own (heap_vars ?c)" using rdy by (simp add: random_ready_def)
  note i = random_init_ready [OF own]
  have l: "length (concretize_random_init ?c) = 1" "length (heap_vars ?c) = 1" using i by (simp_all add: conc_ctx_def)
  have runs: "\<forall>v \<in> set (heap_vars ?c). 0 < length (vvalues v)" by (simp add: conc_ctx_def reset_var_info_def)
  show "\<forall>seed. \<exists>ctx' st' seed'. concretize_random_one conc_harness ?c (concretize_random_init ?c) 0 seed = Some (Inr (ctx', st', seed')) \<and>
      concretization_postcheck qemu_layout (heap_vars ctx') 0 = Inr ()"
  proof
    fix seed
    have "concretize_random_one conc_harness ?c (concretize_random_init ?c) 0 seed \<noteq> None"
      by (rule single_variable_returns [OF rdy l]) (use i in simp)
    then obtain r where "concretize_random_one conc_harness ?c (concretize_random_init ?c) 0 seed = Some r" by blast
    with concretize_random_one_valid [OF rdy _ _ runs, of "concretize_random_init ?c" seed] i
    show "\<exists>ctx' st' seed'. concretize_random_one conc_harness ?c (concretize_random_init ?c) 0 seed = Some (Inr (ctx', st', seed')) \<and>
      concretization_postcheck qemu_layout (heap_vars ctx') 0 = Inr ()"
      by (auto simp: conc_harness_def)
  qed
  show "\<exists>infos sys'. read_var_infos test_pg [0] \<lparr>mair_attr7 = None\<rparr> = Inr (infos, sys') \<and> length infos = 3 \<and>
        random_ready conc_harness (conc_ctx infos) id"
    by (simp add: read_eval test_pg_def ivs_alias_def random_ready_def conc_ctx_def conc_harness_def conc_addr_ok
        default_config_def levels_ok_def all_own_def All_less_Suc2 numeral_3_eq_3)
qed

end
