(* ===== verification/ConcBatch.thy ===== *)
theory ConcBatch
  imports ConcretizeProps
begin

text \<open>
  Concretization by type, for one run, for all runs and for a batch
  (\<open>lib/litmus_test/litmus_test_concretization.c\<close>), with the fixed type and its command line
  (\<open>concretization/litmus_test_fixed_concretization.c\<close>) and the linear type, which does nothing yet.
  The loops that repeat until the addresses fit are partial functions.
\<close>

section \<open>The fixed type\<close>

definition set_var :: "test_ctx_t \<Rightarrow> string \<Rightarrow> string \<Rightarrow> var_err + test_ctx_t" where
  "set_var ctx var val =
     (if strcmp var '''' \<or> strcmp val '''' then Inr ctx
      else rbind (lift_rand (atoi val)) (\<lambda>a. rbind (idx_from_varname ctx var) (\<lambda>v.
             Inr (ctx\<lparr>heap_vars := set_value v 0 a (heap_vars ctx)\<rparr>))))"

text \<open>
  The parser's two buffers of 1024 bytes and which of them the sink points into. A comma resets the
  name but not the value, and the value is uninitialised before the first one.
\<close>

record argv_st =
  cur_var :: string
  cur_val :: string
  sink_val :: bool

definition put_char :: "char \<Rightarrow> argv_st \<Rightarrow> var_err + argv_st" where
  "put_char c s =
     (if sink_val s then rbind (guard (length (cur_val s) < 1023) (OutOfBounds ''curVal'')) (\<lambda>_. Inr (s\<lparr>cur_val := cur_val s @ [c]\<rparr>))
      else rbind (guard (length (cur_var s) < 1023) (OutOfBounds ''curVar'')) (\<lambda>_. Inr (s\<lparr>cur_var := cur_var s @ [c]\<rparr>)))"

fun read_from_argv :: "test_ctx_t \<Rightarrow> string \<Rightarrow> argv_st \<Rightarrow> var_err + test_ctx_t" where
  "read_from_argv ctx [] s = set_var ctx (cur_var s) (cur_val s)"
| "read_from_argv ctx (c # cs) s =
     (if c = CHR ''='' then read_from_argv ctx cs (s\<lparr>cur_val := [], sink_val := True\<rparr>)
      else if c = CHR '','' then
        rbind (set_var ctx (cur_var s) (cur_val s)) (\<lambda>ctx. read_from_argv ctx cs (s\<lparr>cur_var := [], sink_val := False\<rparr>))
      else rbind (put_char c s) (\<lambda>s. read_from_argv ctx cs s))"

text \<open>The last argument is what the value's buffer holds before anything is written to it.\<close>

definition concretized_fixed_init :: "harness \<Rightarrow> test_ctx_t \<Rightarrow> u64 \<Rightarrow> string \<Rightarrow> (var_err + test_ctx_t \<times> u64) option" where
  "concretized_fixed_init h ctx seed junk =
     (if strcmp (LITMUS_CONCRETIZATION_CFG (hcfg h)) '''' then
        (case concretize_random_one h ctx (concretize_random_init ctx) 0 seed of
           None \<Rightarrow> None | Some r \<Rightarrow> Some (rbind r (\<lambda>(ctx, st, seed). Inr (ctx, seed))))
      else Some (
        rbind (read_from_argv ctx (LITMUS_CONCRETIZATION_CFG (hcfg h)) \<lparr>cur_var = [], cur_val = junk, sink_val = False\<rparr>) (\<lambda>ctx.
        rbind (guard (\<forall>v \<in> set (heap_vars ctx). vvalues v ! 0 \<noteq> 0) (VarFail ''! concretized_fixed_init: missing value for variable'')) (\<lambda>_.
          Inr (ctx, seed)))))"

definition concretize_fixed_one :: "test_ctx_t \<Rightarrow> nat \<Rightarrow> test_ctx_t" where
  "concretize_fixed_one ctx run =
     ctx\<lparr>heap_vars := map (\<lambda>v. v\<lparr>vvalues := (vvalues v)[run := vvalues v ! 0]\<rparr>) (heap_vars ctx)\<rparr>"

definition concretize_fixed_all :: "harness \<Rightarrow> test_ctx_t \<Rightarrow> u64 \<Rightarrow> string \<Rightarrow> (var_err + test_ctx_t \<times> u64) option" where
  "concretize_fixed_all h ctx seed junk =
     map_option (\<lambda>r. rbind r (\<lambda>(ctx, seed). Inr (fold (\<lambda>i ctx. concretize_fixed_one ctx i) [0..<no_runs ctx] ctx, seed)))
       (concretized_fixed_init h ctx seed junk)"

section \<open>The linear type\<close>

definition concretize_linear_all :: "test_ctx_t \<Rightarrow> nat \<Rightarrow> test_ctx_t" where
  "concretize_linear_all ctx n = ctx"

section \<open>By type\<close>

definition concretize_one ::
  "harness \<Rightarrow> test_ctx_t \<Rightarrow> conc_st \<Rightarrow> nat \<Rightarrow> u64 \<Rightarrow> (var_err + test_ctx_t \<times> conc_st \<times> u64) option" where
  "concretize_one h ctx st run seed =
     (case concretization_precheck (heap_vars ctx) of
        Inl e \<Rightarrow> Some (Inl e)
      | Inr _ \<Rightarrow>
          (case LITMUS_CONCRETIZATION_TYPE (hcfg h) of
             CONCRETE_LINEAR \<Rightarrow> Some (Inl (VarFail ''! concretize: cannot concretize_one with concretization=linear''))
           | CONCRETE_RANDOM \<Rightarrow> concretize_random_one h ctx st run seed
           | CONCRETE_FIXED \<Rightarrow> Some (Inr (concretize_fixed_one ctx run, st, seed))))"

fun concretize_random_all ::
  "harness \<Rightarrow> nat list \<Rightarrow> test_ctx_t \<Rightarrow> conc_st \<Rightarrow> u64 \<Rightarrow> (var_err + test_ctx_t \<times> conc_st \<times> u64) option" where
  "concretize_random_all h [] ctx st seed = Some (Inr (ctx, st, seed))"
| "concretize_random_all h (i # is) ctx st seed =
     (case concretize_random_one h ctx st i seed of
        None \<Rightarrow> None | Some (Inl e) \<Rightarrow> Some (Inl e)
      | Some (Inr (ctx, st, seed)) \<Rightarrow> concretize_random_all h is ctx st seed)"

definition concretize ::
  "harness \<Rightarrow> test_ctx_t \<Rightarrow> conc_st \<Rightarrow> u64 \<Rightarrow> string \<Rightarrow> (var_err + test_ctx_t \<times> conc_st \<times> u64) option" where
  "concretize h ctx st seed junk =
     (case concretization_precheck (heap_vars ctx) of
        Inl e \<Rightarrow> Some (Inl e)
      | Inr _ \<Rightarrow>
          (case LITMUS_CONCRETIZATION_TYPE (hcfg h) of
             CONCRETE_LINEAR \<Rightarrow> Some (Inr (concretize_linear_all ctx (no_runs ctx), st, seed))
           | CONCRETE_RANDOM \<Rightarrow> concretize_random_all h [0..<no_runs ctx] ctx st seed
           | CONCRETE_FIXED \<Rightarrow> map_option (\<lambda>r. rbind r (\<lambda>(ctx, seed). Inr (ctx, st, seed))) (concretize_fixed_all h ctx seed junk)))"

definition concretize_init :: "harness \<Rightarrow> test_ctx_t \<Rightarrow> u64 \<Rightarrow> string \<Rightarrow> (var_err + test_ctx_t \<times> conc_st \<times> u64) option" where
  "concretize_init h ctx seed junk =
     (case LITMUS_CONCRETIZATION_TYPE (hcfg h) of
        CONCRETE_LINEAR \<Rightarrow> Some (Inr (ctx, [], seed))
      | CONCRETE_RANDOM \<Rightarrow> Some (Inr (ctx, concretize_random_init ctx, seed))
      | CONCRETE_FIXED \<Rightarrow> map_option (\<lambda>r. rbind r (\<lambda>(ctx, seed). Inr (ctx, [], seed))) (concretized_fixed_init h ctx seed junk))"

section \<open>A batch\<close>

text \<open>Whether a variable of run \<open>i\<close> and one of run \<open>i0\<close> have the same physical address.\<close>

definition runs_overlap :: "layout \<Rightarrow> test_ctx_t \<Rightarrow> nat \<Rightarrow> nat \<Rightarrow> bool" where
  "runs_overlap L ctx i i0 \<longleftrightarrow>
     (\<exists>v1 \<in> set [0..<length (heap_vars ctx)]. \<exists>v2 \<in> set [0..<length (heap_vars ctx)].
        SAFE_TESTDATA_PA L (ctx_heap_var_va ctx v1 i) = SAFE_TESTDATA_PA L (ctx_heap_var_va ctx v2 i0))"

text \<open>The run is concretized until it overlaps with no earlier run of the batch.\<close>

partial_function (option) concretize_run ::
  "harness \<Rightarrow> nat list \<Rightarrow> nat \<Rightarrow> test_ctx_t \<Rightarrow> conc_st \<Rightarrow> u64 \<Rightarrow> (var_err + test_ctx_t \<times> conc_st \<times> u64) option" where
  "concretize_run h earlier i ctx st seed =
     (case concretize_one h ctx st i seed of
        None \<Rightarrow> None
      | Some r \<Rightarrow>
          (case r of
             Inl e \<Rightarrow> Some (Inl e)
           | Inr (ctx, st, seed) \<Rightarrow>
               if \<exists>i0 \<in> set earlier. runs_overlap (hlay h) ctx i i0 then concretize_run h earlier i ctx st seed
               else Some (Inr (ctx, st, seed))))"

text \<open>The runs still to do, and those before them in the batch, as indices.\<close>

fun batch_loop ::
  "harness \<Rightarrow> nat list \<Rightarrow> nat list \<Rightarrow> test_ctx_t \<Rightarrow> conc_st \<Rightarrow> u64 \<Rightarrow> (var_err + test_ctx_t \<times> conc_st \<times> u64) option" where
  "batch_loop h earlier [] ctx st seed = Some (Inr (ctx, st, seed))"
| "batch_loop h earlier (i # is) ctx st seed =
     (case concretize_run h earlier i ctx st seed of
        None \<Rightarrow> None | Some (Inl e) \<Rightarrow> Some (Inl e)
      | Some (Inr (ctx, st, seed)) \<Rightarrow> batch_loop h (earlier @ [i]) is ctx st seed)"

definition concretize_batch ::
  "harness \<Rightarrow> test_ctx_t \<Rightarrow> conc_st \<Rightarrow> nat \<Rightarrow> nat \<Rightarrow> u64 \<Rightarrow> (var_err + test_ctx_t \<times> conc_st \<times> u64) option" where
  "concretize_batch h ctx st batch_start_idx batch_end_idx seed =
     batch_loop h [] (map (count_to_run_index h ctx) [batch_start_idx..<batch_end_idx]) ctx st seed"

section \<open>A batch with fixed addresses never ends\<close>

lemma fixed_one_overlaps:
  assumes "heap_vars ctx \<noteq> []" "\<forall>v \<in> set (heap_vars ctx). i < length (vvalues v) \<and> vvalues v ! i0 = vvalues v ! 0" "i \<noteq> i0"
  shows "runs_overlap L (concretize_fixed_one ctx i) i i0"
proof -
  have v: "heap_vars ctx ! 0 \<in> set (heap_vars ctx)" using assms(1) by simp
  show ?thesis
    unfolding runs_overlap_def
    by (intro bexI [of _ 0]) (use assms v in \<open>auto simp: concretize_fixed_one_def ctx_heap_var_va_def nth_list_update\<close>)
qed

lemma fixed_run_never:
  assumes "concretize_run h earlier i ctx st seed = Some r"
  shows "LITMUS_CONCRETIZATION_TYPE (hcfg h) = CONCRETE_FIXED \<longrightarrow> concretization_precheck (heap_vars ctx) = Inr () \<longrightarrow>
    heap_vars ctx \<noteq> [] \<longrightarrow> i0 \<in> set earlier \<longrightarrow> i \<noteq> i0 \<longrightarrow>
    (\<forall>v \<in> set (heap_vars ctx). i < length (vvalues v) \<and> vvalues v ! i0 = vvalues v ! 0) \<longrightarrow> False"
proof (induction h earlier i ctx st seed r rule: concretize_run.raw_induct)
  case (1 run h earlier i ctx st seed r)
  show ?case
  proof (intro impI)
    assume a: "LITMUS_CONCRETIZATION_TYPE (hcfg h) = CONCRETE_FIXED" "concretization_precheck (heap_vars ctx) = Inr ()"
      "heap_vars ctx \<noteq> []" "i0 \<in> set earlier" "i \<noteq> i0"
      "\<forall>v \<in> set (heap_vars ctx). i < length (vvalues v) \<and> vvalues v ! i0 = vvalues v ! 0"
    let ?c = "concretize_fixed_one ctx i"
    have "\<exists>i0 \<in> set earlier. runs_overlap (hlay h) ?c i i0" using fixed_one_overlaps a by blast
    with 1(2) a(1,2) have "run h earlier i ?c st seed = Some r" by (simp add: concretize_one_def)
    moreover have "concretization_precheck (heap_vars ?c) = Inr ()"
      using a(2) by (auto simp: concretization_precheck_def concretize_fixed_one_def guard_def split: if_splits)
    moreover have "heap_vars ?c \<noteq> []" using a(3) by (simp add: concretize_fixed_one_def)
    moreover have "\<forall>v \<in> set (heap_vars ?c). i < length (vvalues v) \<and> vvalues v ! i0 = vvalues v ! 0"
      using a(5,6) by (auto simp: concretize_fixed_one_def nth_list_update)
    ultimately show False using 1(1) a(1,4,5) by blast
  qed
qed (rule assms)

text \<open>
  C24: with \<open>--concretization=fixed\<close>, a batch of two runs or more of a test with a variable is never
  concretized: every run has the addresses of run 0, so the second one always overlaps with the first
  and the loop repeats for ever.
\<close>

theorem fixed_batch_never_ends:
  assumes "LITMUS_CONCRETIZATION_TYPE (hcfg h) = CONCRETE_FIXED" and "concretization_precheck (heap_vars ctx) = Inr ()"
    and "heap_vars ctx \<noteq> []" and "b + 1 < e" and "count_to_run_index h ctx b \<noteq> count_to_run_index h ctx (b + 1)"
    and "\<forall>v \<in> set (heap_vars ctx). count_to_run_index h ctx b < length (vvalues v) \<and> count_to_run_index h ctx (b + 1) < length (vvalues v)"
  shows "concretize_batch h ctx st b e seed = None"
proof -
  let ?old = "count_to_run_index h ctx b" and ?new = "count_to_run_index h ctx (b + 1)" and ?c = "concretize_fixed_one ctx (count_to_run_index h ctx b)"
  have "[b..<e] = b # [b + 1..<e]" using assms(4) upt_conv_Cons [of b e] by simp
  moreover have "[b + 1..<e] = (b + 1) # [b + 2..<e]" using assms(4) upt_conv_Cons [of "b + 1" e] by simp
  ultimately have "[b..<e] = b # (b + 1) # [b + 2..<e]" by simp
  then have idx: "map (count_to_run_index h ctx) [b..<e] = ?old # ?new # map (count_to_run_index h ctx) [b + 2..<e]" by (simp only: list.map)
  have first: "concretize_run h [] ?old ctx st seed = Some (Inr (?c, st, seed))"
    using assms(1,2) by (subst concretize_run.simps) (simp add: concretize_one_def)
  have "concretize_run h [?old] ?new ?c st seed = None"
  proof (rule ccontr)
    assume "concretize_run h [?old] ?new ?c st seed \<noteq> None"
    then obtain r where "concretize_run h [?old] ?new ?c st seed = Some r" by blast
    moreover have "concretization_precheck (heap_vars ?c) = Inr ()"
      using assms(2) by (auto simp: concretization_precheck_def concretize_fixed_one_def guard_def split: if_splits)
    moreover have "heap_vars ?c \<noteq> []" using assms(3) by (simp add: concretize_fixed_one_def)
    moreover have "\<forall>v \<in> set (heap_vars ?c). ?new < length (vvalues v) \<and> vvalues v ! ?old = vvalues v ! 0"
      using assms(5,6) by (auto simp: concretize_fixed_one_def nth_list_update)
    ultimately show False using fixed_run_never [of h "[?old]" ?new ?c st seed r ?old] assms(1,5) by simp
  qed
  then show ?thesis unfolding concretize_batch_def idx using first by simp
qed

section \<open>A batch with random addresses\<close>

definition differs_at :: "nat \<Rightarrow> var_info_t list \<Rightarrow> var_info_t list \<Rightarrow> bool" where
  "differs_at i infos infos' \<longleftrightarrow> length infos' = length infos \<and>
     (\<forall>v < length infos. \<exists>a. infos' ! v = (infos ! v)\<lparr>vvalues := (vvalues (infos ! v))[i := a]\<rparr>)"

lemma valued_differs: "valued i st infos infos' \<Longrightarrow> differs_at i infos infos'"
  by (auto simp: valued_def differs_at_def)

lemma differs_at_trans:
  assumes "differs_at i a b" "differs_at i b c"
  shows "differs_at i a c"
  unfolding differs_at_def
proof (intro conjI allI impI)
  show "length c = length a" using assms by (simp add: differs_at_def)
  fix v assume v: "v < length a"
  with assms(1) obtain x where x: "b ! v = (a ! v)\<lparr>vvalues := (vvalues (a ! v))[i := x]\<rparr>" by (auto simp: differs_at_def)
  have "v < length b" using v assms(1) by (simp add: differs_at_def)
  with assms(2) obtain y where "c ! v = (b ! v)\<lparr>vvalues := (vvalues (b ! v))[i := y]\<rparr>" by (auto simp: differs_at_def)
  with x have "c ! v = (a ! v)\<lparr>vvalues := (vvalues (a ! v))[i := y]\<rparr>" by simp
  then show "\<exists>x. c ! v = (a ! v)\<lparr>vvalues := (vvalues (a ! v))[i := x]\<rparr>" by blast
qed

lemma differs_at_same:
  assumes "differs_at i infos infos'" "v < length infos"
  shows "ty (infos' ! v) = ty (infos ! v)" "init_attrs (infos' ! v) = init_attrs (infos ! v)"
    "length (vvalues (infos' ! v)) = length (vvalues (infos ! v))"
    "j \<noteq> i \<Longrightarrow> vvalues (infos' ! v) ! j = vvalues (infos ! v) ! j"
  using assms by (fastforce simp: differs_at_def)+

lemma differs_at_ready:
  assumes "random_ready h ctx rank" "differs_at i (heap_vars ctx) infos'"
  shows "random_ready h (ctx\<lparr>heap_vars := infos'\<rparr>) rank"
proof -
  have len: "length infos' = length (heap_vars ctx)" using assms(2) by (simp add: differs_at_def)
  note same = differs_at_same [OF assms(2)]
  have "levels_ok infos'" using assms(1) same(2)
    unfolding random_ready_def levels_ok_def all_set_conv_all_nth len by simp
  moreover have "all_own infos'" using assms(1) len same(1)
    unfolding random_ready_def all_own_def all_set_conv_all_nth by simp
  ultimately show ?thesis using assms(1) len same(2) by (simp add: random_ready_def)
qed

lemma differs_at_runs:
  assumes "\<forall>v \<in> set (heap_vars ctx). k < length (vvalues v)" "differs_at i (heap_vars ctx) infos'"
  shows "\<forall>v \<in> set infos'. k < length (vvalues v)"
  using assms differs_at_same(3) [OF assms(2)] unfolding all_set_conv_all_nth by (simp add: differs_at_def)

lemma differs_at_postcheck:
  assumes "differs_at i infos infos'" "j \<noteq> i" "levels_ok infos"
  shows "concretization_postcheck L infos' j = concretization_postcheck L infos j"
proof -
  have len: "length infos' = length infos" using assms(1) by (simp add: differs_at_def)
  note same = differs_at_same [OF assms(1)]
  have w: "w < length infos" if "v < length infos" "region_offset (init_attrs (infos ! v)) = Some (w, l)" for v w l
    using assms(3) that unfolding levels_ok_def all_set_conv_all_nth by fastforce
  have "postcheck_no_overlap_owned L infos' j = postcheck_no_overlap_owned L infos j"
    unfolding postcheck_no_overlap_owned_def
    by (intro ball_cong) (simp_all add: len same assms(2) split: var_kind.split)
  moreover have "postcheck_related_same_bits L infos' j = postcheck_related_same_bits L infos j"
    unfolding postcheck_related_same_bits_def
    by (intro ball_cong) (auto simp: len same assms(2) w Let_def split: option.split)
  moreover have "postcheck_aligned infos' j = postcheck_aligned infos j"
    unfolding postcheck_aligned_def all_set_conv_all_nth by (simp add: len same assms(2))
  ultimately show ?thesis by (simp add: concretization_postcheck_def)
qed

lemma differs_at_overlap:
  assumes "differs_at i (heap_vars ctx) infos'" "j \<noteq> i" "k \<noteq> i"
  shows "runs_overlap L (ctx\<lparr>heap_vars := infos'\<rparr>) j k = runs_overlap L ctx j k"
proof -
  have len: "length infos' = length (heap_vars ctx)" using assms(1) by (simp add: differs_at_def)
  show ?thesis unfolding runs_overlap_def
    by (intro bex_cong) (auto simp: len ctx_heap_var_va_def differs_at_same(4) [OF assms(1)] assms(2,3))
qed

lemma random_run_result:
  assumes "concretize_run h earlier i ctx st seed = Some r"
  shows "LITMUS_CONCRETIZATION_TYPE (hcfg h) = CONCRETE_RANDOM \<longrightarrow> random_ready h ctx rank \<longrightarrow> length st = length (heap_vars ctx) \<longrightarrow>
    no_pins st \<longrightarrow> (\<forall>v \<in> set (heap_vars ctx). i < length (vvalues v)) \<longrightarrow>
    (\<exists>infos' st' seed'. r = Inr (ctx\<lparr>heap_vars := infos'\<rparr>, st', seed') \<and> differs_at i (heap_vars ctx) infos' \<and>
       length st' = length (heap_vars ctx) \<and> no_pins st' \<and> concretization_postcheck (hlay h) infos' i = Inr () \<and>
       (\<forall>i0 \<in> set earlier. \<not> runs_overlap (hlay h) (ctx\<lparr>heap_vars := infos'\<rparr>) i i0))"
proof (induction h earlier i ctx st seed r rule: concretize_run.raw_induct)
  case (1 run h earlier i ctx st seed r)
  show ?case
  proof (intro impI)
    assume a: "LITMUS_CONCRETIZATION_TYPE (hcfg h) = CONCRETE_RANDOM" "random_ready h ctx rank" "length st = length (heap_vars ctx)"
      "no_pins st" "\<forall>v \<in> set (heap_vars ctx). i < length (vvalues v)"
    have pre: "concretization_precheck (heap_vars ctx) = Inr ()"
      using a(2) by (force simp: concretization_precheck_def guard_def random_ready_def all_own_def)
    then have one: "concretize_one h ctx st i seed = concretize_random_one h ctx st i seed" using a(1) by (simp add: concretize_one_def)
    with 1(2) obtain r1 where r1: "concretize_random_one h ctx st i seed = Some r1" by (auto split: option.splits)
    from random_one_result [OF a(2-5) r1] obtain infos' st' seed' where
      b: "r1 = Inr (ctx\<lparr>heap_vars := infos'\<rparr>, st', seed')" "valued i st' (heap_vars ctx) infos'"
      "length st' = length (heap_vars ctx)" "no_pins st'" "concretization_postcheck (hlay h) infos' i = Inr ()" by blast
    have d: "differs_at i (heap_vars ctx) infos'" by (rule valued_differs [OF b(2)])
    let ?c = "ctx\<lparr>heap_vars := infos'\<rparr>"
    show "\<exists>infos' st' seed'. r = Inr (ctx\<lparr>heap_vars := infos'\<rparr>, st', seed') \<and> differs_at i (heap_vars ctx) infos' \<and>
       length st' = length (heap_vars ctx) \<and> no_pins st' \<and> concretization_postcheck (hlay h) infos' i = Inr () \<and>
       (\<forall>i0 \<in> set earlier. \<not> runs_overlap (hlay h) (ctx\<lparr>heap_vars := infos'\<rparr>) i i0)"
    proof (cases "\<exists>i0 \<in> set earlier. runs_overlap (hlay h) ?c i i0")
      case True
      with 1(2) one r1 b(1) have run: "run h earlier i ?c st' seed' = Some r" by simp
      have "length st' = length (heap_vars ?c)" using b(3) d by (simp add: differs_at_def)
      from 1(1) [OF run, rule_format, OF a(1) differs_at_ready [OF a(2) d] this b(4)] differs_at_runs [OF a(5) d]
      obtain infos2 st2 seed2 where c: "r = Inr (?c\<lparr>heap_vars := infos2\<rparr>, st2, seed2)" "differs_at i infos' infos2"
        "length st2 = length infos'" "no_pins st2" "concretization_postcheck (hlay h) infos2 i = Inr ()"
        "\<forall>i0 \<in> set earlier. \<not> runs_overlap (hlay h) (?c\<lparr>heap_vars := infos2\<rparr>) i i0" by auto
      have "length st2 = length (heap_vars ctx)" using c(3) d by (simp add: differs_at_def)
      with c differs_at_trans [OF d c(2)] show ?thesis by auto
    next
      case False
      with 1(2) one r1 b(1) have "r = Inr (?c, st', seed')" by simp
      with b(3-5) d False show ?thesis by blast
    qed
  qed
qed (rule assms)

lemma batch_result:
  assumes "LITMUS_CONCRETIZATION_TYPE (hcfg h) = CONCRETE_RANDOM" "batch_loop h earlier is ctx st seed = Some r"
    and "random_ready h ctx rank" "length st = length (heap_vars ctx)" "no_pins st" "distinct (earlier @ is)"
    and "\<forall>i \<in> set (earlier @ is). \<forall>v \<in> set (heap_vars ctx). i < length (vvalues v)"
    and "\<forall>i \<in> set earlier. concretization_postcheck (hlay h) (heap_vars ctx) i = Inr ()"
    and "\<forall>i \<in> set earlier. \<forall>j \<in> set earlier. i \<noteq> j \<longrightarrow> \<not> runs_overlap (hlay h) ctx i j"
  shows "\<exists>ctx' st' seed'. r = Inr (ctx', st', seed') \<and>
    (\<forall>i \<in> set (earlier @ is). concretization_postcheck (hlay h) (heap_vars ctx') i = Inr ()) \<and>
    (\<forall>i \<in> set (earlier @ is). \<forall>j \<in> set (earlier @ is). i \<noteq> j \<longrightarrow> \<not> runs_overlap (hlay h) ctx' i j)"
  using assms(2-)
proof (induction "is" arbitrary: earlier ctx st seed)
  case Nil
  then show ?case by auto
next
  case (Cons i "is")
  from Cons.prems(1) obtain r1 where r1: "concretize_run h earlier i ctx st seed = Some r1" by (auto split: option.splits)
  have "\<forall>v \<in> set (heap_vars ctx). i < length (vvalues v)" using Cons.prems(6) by simp
  with random_run_result [OF r1, of rank] assms(1) Cons.prems(2-4) obtain infos' st' seed' where
    b: "r1 = Inr (ctx\<lparr>heap_vars := infos'\<rparr>, st', seed')" "differs_at i (heap_vars ctx) infos'"
    "length st' = length (heap_vars ctx)" "no_pins st'" "concretization_postcheck (hlay h) infos' i = Inr ()"
    "\<forall>i0 \<in> set earlier. \<not> runs_overlap (hlay h) (ctx\<lparr>heap_vars := infos'\<rparr>) i i0" by blast
  let ?c = "ctx\<lparr>heap_vars := infos'\<rparr>"
  have lev: "levels_ok (heap_vars ctx)" using Cons.prems(2) by (simp add: random_ready_def)
  have ne: "j \<noteq> i" if "j \<in> set earlier" for j using Cons.prems(5) that by auto
  have post: "\<forall>j \<in> set (earlier @ [i]). concretization_postcheck (hlay h) (heap_vars ?c) j = Inr ()"
    using Cons.prems(7) b(5) differs_at_postcheck [OF b(2) ne lev] by auto
  have sym: "runs_overlap L c j k = runs_overlap L c k j" for L c j k
    unfolding runs_overlap_def by metis
  have disj: "\<forall>j \<in> set (earlier @ [i]). \<forall>k \<in> set (earlier @ [i]). j \<noteq> k \<longrightarrow> \<not> runs_overlap (hlay h) ?c j k"
  proof (intro ballI impI)
    fix j k assume "j \<in> set (earlier @ [i])" "k \<in> set (earlier @ [i])" "j \<noteq> k"
    then consider "j = i" "k \<in> set earlier" | "k = i" "j \<in> set earlier" | "j \<in> set earlier" "k \<in> set earlier" by auto
    then show "\<not> runs_overlap (hlay h) ?c j k"
      using b(6) Cons.prems(8) \<open>j \<noteq> k\<close> differs_at_overlap [OF b(2) ne ne] sym [of "hlay h" ?c j k] by cases auto
  qed
  have "batch_loop h (earlier @ [i]) is ?c st' seed' = Some r" using Cons.prems(1) r1 b(1) by simp
  moreover have "length st' = length (heap_vars ?c)" using b(2,3) by (simp add: differs_at_def)
  moreover have "\<forall>k \<in> set ((earlier @ [i]) @ is). \<forall>v \<in> set (heap_vars ?c). k < length (vvalues v)"
    using Cons.prems(6) differs_at_runs [OF _ b(2)] by auto
  ultimately show ?case
    using Cons.IH [of "earlier @ [i]" ?c st' seed'] differs_at_ready [OF Cons.prems(2) b(2)] b(4) Cons.prems(5) post disj by simp
qed


text \<open>The choices the loop for a run makes one after the other, and what it means that it does not return.\<close>

fun nth_choice ::
  "harness \<Rightarrow> nat \<Rightarrow> nat \<Rightarrow> test_ctx_t \<times> conc_st \<times> u64 \<Rightarrow> (var_err + test_ctx_t \<times> conc_st \<times> u64) option" where
  "nth_choice h i 0 (ctx, st, seed) = concretize_one h ctx st i seed"
| "nth_choice h i (Suc n) (ctx, st, seed) =
     (case concretize_one h ctx st i seed of Some (Inr c) \<Rightarrow> nth_choice h i n c | r \<Rightarrow> r)"

definition never_fits :: "harness \<Rightarrow> nat list \<Rightarrow> nat \<Rightarrow> test_ctx_t \<times> conc_st \<times> u64 \<Rightarrow> bool" where
  "never_fits h earlier i c \<longleftrightarrow>
     (\<forall>n. case nth_choice h i n c of
            None \<Rightarrow> True | Some (Inl e) \<Rightarrow> False
          | Some (Inr (ctx, st, seed)) \<Rightarrow> \<exists>i0 \<in> set earlier. runs_overlap (hlay h) ctx i i0)"

lemma run_None: "concretize_run h earlier i ctx st seed = None \<Longrightarrow> never_fits h earlier i (ctx, st, seed)"
  unfolding never_fits_def
proof
  fix n
  show "concretize_run h earlier i ctx st seed = None \<Longrightarrow>
    case nth_choice h i n (ctx, st, seed) of
            None \<Rightarrow> True | Some (Inl e) \<Rightarrow> False
          | Some (Inr (ctx, st, seed)) \<Rightarrow> \<exists>i0 \<in> set earlier. runs_overlap (hlay h) ctx i i0"
  proof (induction n arbitrary: ctx st seed)
    case 0
    then show ?case by (subst (asm) concretize_run.simps) (auto split: option.splits sum.splits if_splits)
  next
    case (Suc n)
    show ?case
    proof (cases "concretize_one h ctx st i seed")
      case (Some r)
      with Suc.prems obtain c where r: "r = Inr c"
        by (subst (asm) concretize_run.simps) (auto split: sum.splits)
      obtain ctx' st' seed' where c: "c = (ctx', st', seed')" by (cases c)
      have "concretize_run h earlier i ctx' st' seed' = None"
        using Suc.prems Some r c by (subst (asm) concretize_run.simps) (auto split: if_splits)
      from Suc.IH [OF this] show ?thesis by (simp add: Some r c)
    qed simp
  qed
qed

lemma batch_None:
  assumes "batch_loop h earlier is ctx st seed = None"
  shows "\<exists>k < length is. \<exists>c. batch_loop h earlier (take k is) ctx st seed = Some (Inr c) \<and> never_fits h (earlier @ take k is) (is ! k) c"
  using assms
proof (induction "is" arbitrary: earlier ctx st seed)
  case (Cons i "is")
  show ?case
  proof (cases "concretize_run h earlier i ctx st seed")
    case None
    then show ?thesis using run_None [OF None] by (intro exI [of _ 0]) simp
  next
    case (Some r)
    then obtain ctx' st' seed' where r: "r = Inr (ctx', st', seed')" "batch_loop h (earlier @ [i]) is ctx' st' seed' = None"
      using Cons.prems by (auto split: sum.splits prod.splits)
    from Cons.IH [OF r(2)] obtain k c where "k < length is"
      "batch_loop h (earlier @ [i]) (take k is) ctx' st' seed' = Some (Inr c)" "never_fits h (earlier @ i # take k is) (is ! k) c" by auto
    then show ?thesis using Some r(1) by (intro exI [of _ "Suc k"]) auto
  qed
qed simp

text \<open>
  C23: with \<open>--concretization=random\<close>, for a test whose variables own their regions, a batch never fails. If
  it returns, no two of its runs share a physical address, and every run of it still passes the check that
  ran right after it was concretized: the runs that come later do not change its addresses. If it does not
  return, then for some run of the batch, the ones before it being done, every choice the loop makes overlaps
  with one of them, or the choice for the run alone never ends.
\<close>

theorem batch_addresses_disjoint:
  assumes "LITMUS_CONCRETIZATION_TYPE (hcfg h) = CONCRETE_RANDOM" and "random_ready h ctx rank"
    and "length st = length (heap_vars ctx)" and "no_pins st" and "inj_on (count_to_run_index h ctx) {b..<e}"
    and "\<forall>r \<in> {b..<e}. \<forall>v \<in> set (heap_vars ctx). count_to_run_index h ctx r < length (vvalues v)"
  shows "case concretize_batch h ctx st b e seed of
      Some res \<Rightarrow> \<exists>ctx' st' seed'. res = Inr (ctx', st', seed') \<and>
        (\<forall>r \<in> {b..<e}. concretization_postcheck (hlay h) (heap_vars ctx') (count_to_run_index h ctx r) = Inr ()) \<and>
        (\<forall>r \<in> {b..<e}. \<forall>r' \<in> {b..<e}. r \<noteq> r' \<longrightarrow>
           \<not> runs_overlap (hlay h) ctx' (count_to_run_index h ctx r) (count_to_run_index h ctx r'))
    | None \<Rightarrow> \<exists>k \<in> {b..<e}. \<exists>c. concretize_batch h ctx st b k seed = Some (Inr c) \<and>
        never_fits h (map (count_to_run_index h ctx) [b..<k]) (count_to_run_index h ctx k) c"
proof (cases "concretize_batch h ctx st b e seed")
  case None
  let ?is = "map (count_to_run_index h ctx) [b..<e]"
  from batch_None [of h "[]" ?is ctx st seed] None obtain k c where k: "k < e - b"
    "batch_loop h [] (take k ?is) ctx st seed = Some (Inr c)" "never_fits h (take k ?is) (?is ! k) c"
    by (auto simp: concretize_batch_def)
  have t: "take k ?is = map (count_to_run_index h ctx) [b..<b + k]" using k(1) by (simp add: take_map take_upt)
  have bk: "b + k \<in> {b..<e}" "?is ! k = count_to_run_index h ctx (b + k)" using k(1) by auto
  then have "concretize_batch h ctx st b (b + k) seed = Some (Inr c)"
    "never_fits h (map (count_to_run_index h ctx) [b..<b + k]) (count_to_run_index h ctx (b + k)) c"
    using k(2,3) unfolding t concretize_batch_def by simp_all
  then show ?thesis unfolding None using bk(1) by (simp only: option.case) blast
next
  case (Some res)
  let ?is = "map (count_to_run_index h ctx) [b..<e]"
  have loop: "batch_loop h [] ?is ctx st seed = Some res" using Some by (simp add: concretize_batch_def)
  have dist: "distinct ([] @ ?is)" using assms(5) by (simp add: distinct_map)
  have runs: "\<forall>i \<in> set ([] @ ?is). \<forall>v \<in> set (heap_vars ctx). i < length (vvalues v)" using assms(6) by simp
  from batch_result [OF assms(1) loop assms(2-4) dist runs] obtain ctx' st' seed' where r: "res = Inr (ctx', st', seed')"
    "\<forall>i \<in> set ?is. concretization_postcheck (hlay h) (heap_vars ctx') i = Inr ()"
    "\<forall>i \<in> set ?is. \<forall>j \<in> set ?is. i \<noteq> j \<longrightarrow> \<not> runs_overlap (hlay h) ctx' i j" by auto
  have "\<not> runs_overlap (hlay h) ctx' (count_to_run_index h ctx x) (count_to_run_index h ctx y)"
    if "x \<in> {b..<e}" "y \<in> {b..<e}" "x \<noteq> y" for x y
  proof -
    have "count_to_run_index h ctx x \<noteq> count_to_run_index h ctx y" using that inj_onD [OF assms(5), of x y] by blast
    then show ?thesis using r(3) that by simp
  qed
  with r(1,2) Some show ?thesis by auto
qed

section \<open>Witnesses\<close>

definition one_var :: var_info_t where
  "one_var = (reset_var_info 0 ''x'' [0, 0])\<lparr>ty := VAR_HEAP \<lparr>bval = 1, is_identity_mapped = False\<rparr> REGION_OWN_PAGE\<rparr>"

theorem fixed_batch_never_ends_witness:
  "concretize_batch (conc_harness\<lparr>hcfg := default_config\<lparr>LITMUS_CONCRETIZATION_TYPE := CONCRETE_FIXED, LITMUS_SHUFFLE_TYPE := SHUF_NONE\<rparr>\<rparr>)
     (conc_ctx [one_var]) [] 0 2 7 = None"
  by (rule fixed_batch_never_ends)
    (simp_all add: conc_ctx_def one_var_def reset_var_info_def concretization_precheck_def count_to_run_index_def guard_def)

text \<open>
  A batch of two runs, in the shuffled order, with a seed for which the first choice for the second run is the
  address the first run got, so that the loop has to choose again.
\<close>

definition two_runs :: test_ctx_t where
  "two_runs = (conc_ctx [one_var])\<lparr>no_runs := 2, batch_size := 2, shuffled_ixs := [1, 0], shuffled_ixs_inverse := [1, 0]\<rparr>"

definition values_of :: "(var_err + test_ctx_t \<times> conc_st \<times> u64) option \<Rightarrow> u64 list list option" where
  "values_of r = (case r of Some (Inr (ctx, st, seed)) \<Rightarrow> Some (map vvalues (heap_vars ctx)) | _ \<Rightarrow> None)"

declare concretize_run.simps [code] concretize_until.simps [code]

lemma two_runs_eval:
  "values_of (concretize_batch conc_harness two_runs (concretize_random_init two_runs) 0 2 20971517) = Some [[0x21007ffff0, 0x24007ffff0]]"
  "(case concretize_run conc_harness [] 1 two_runs (concretize_random_init two_runs) 20971517 of
     Some (Inr (ctx, st, seed)) \<Rightarrow> values_of (concretize_one conc_harness ctx st 0 seed) | _ \<Rightarrow> None) = Some [[0x24007ffff0, 0x24007ffff0]]"
  by code_simp+

lemma two_runs_values: "\<forall>v \<in> set (heap_vars two_runs). length (vvalues v) = 2"
  by (simp add: two_runs_def conc_ctx_def one_var_def reset_var_info_def)

theorem batch_addresses_disjoint_witness:
  "(case concretize_run conc_harness [] 1 two_runs (concretize_random_init two_runs) 20971517 of
     Some (Inr (ctx, st, seed)) \<Rightarrow> values_of (concretize_one conc_harness ctx st 0 seed) | _ \<Rightarrow> None) = Some [[0x24007ffff0, 0x24007ffff0]] \<and>
   (\<exists>ctx' st' seed'. concretize_batch conc_harness two_runs (concretize_random_init two_runs) 0 2 20971517 = Some (Inr (ctx', st', seed')) \<and>
     map vvalues (heap_vars ctx') = [[0x21007ffff0, 0x24007ffff0]] \<and> \<not> runs_overlap qemu_layout ctx' 0 1)"
proof -
  let ?st = "concretize_random_init two_runs"
  have rdy: "random_ready conc_harness two_runs id"
    by (simp add: two_runs_def random_ready_def conc_ctx_def conc_harness_def conc_addr_ok default_config_def levels_ok_def
        all_own_def one_var_def reset_var_info_def)
  then have i: "length ?st = length (heap_vars two_runs)" "no_pins ?st"
    using random_init_ready [of two_runs] by (simp_all add: random_ready_def)
  have cfg: "LITMUS_CONCRETIZATION_TYPE (hcfg conc_harness) = CONCRETE_RANDOM" "hlay conc_harness = qemu_layout"
    and ix: "count_to_run_index conc_harness two_runs 0 = 1" "count_to_run_index conc_harness two_runs 1 = 0"
    by (simp_all add: conc_harness_def default_config_def count_to_run_index_def two_runs_def conc_ctx_def)
  have b: "{0..<2} = {0, 1 :: nat}" by auto
  have inj: "inj_on (count_to_run_index conc_harness two_runs) {0..<2}" unfolding b by (simp add: ix [unfolded One_nat_def])
  have v: "\<forall>r \<in> {0..<2}. \<forall>v \<in> set (heap_vars two_runs). count_to_run_index conc_harness two_runs r < length (vvalues v)"
    unfolding b using two_runs_values by (simp add: ix [unfolded One_nat_def])
  obtain ctx' st' seed' where r: "concretize_batch conc_harness two_runs ?st 0 2 20971517 = Some (Inr (ctx', st', seed'))"
    "map vvalues (heap_vars ctx') = [[0x21007ffff0, 0x24007ffff0]]"
    using two_runs_eval(1) by (auto simp: values_of_def split: option.splits sum.splits)
  then have "\<not> runs_overlap qemu_layout ctx' 0 1"
    using batch_addresses_disjoint [OF cfg(1) rdy i inj v, of 20971517] unfolding b by (simp add: ix [unfolded One_nat_def] cfg(2))
  with r show ?thesis by (intro conjI exI [of _ ctx'] exI [of _ st'] exI [of _ seed'] two_runs_eval(2))
qed

end
