(* ===== verification/InitState.thy ===== *)
theory InitState
  imports ConcBatch VmmProps
begin

text \<open>
  Setting up the memory of a run (\<open>set_init_pte\<close>, \<open>set_init_var\<close>, \<open>write_init_state\<close> of
  \<open>lib/litmus_test/litmus_test_concretization.c\<close>): the page of each variable gets the last-level
  descriptor its initial state asks for, and each backed variable its initial value. The table entries
  are the memory of \<open>vm_st\<close>; the 64-bit cells of data are a map of their own, from the address the
  harness writes them at.
\<close>

section \<open>The descriptor of a variable\<close>

definition PROT_DEFAULT_HEAP :: u64 where
  "PROT_DEFAULT_HEAP = PROT_MEMTYPE_NORMAL OR PROT_RW_RWX"

fun with_attrs :: "(attrs_t \<Rightarrow> attrs_t) \<Rightarrow> desc \<Rightarrow> desc" where
  "with_attrs f (Invalid l) = Invalid l"
| "with_attrs f (Table l a at) = Table l a (f at)"
| "with_attrs f (Block l a at) = Block l a (f at)"

fun with_oa :: "u64 \<Rightarrow> desc \<Rightarrow> desc" where
  "with_oa oa (Invalid l) = Invalid l"
| "with_oa oa (Table l a at) = Table l oa at"
| "with_oa oa (Block l a at) = Block l oa at"

text \<open>The attributes of an invalid descriptor are not set; reading them gives whatever was there.\<close>

fun desc_AP :: "2 word \<Rightarrow> desc \<Rightarrow> 2 word" where
  "desc_AP junk (Invalid l) = junk"
| "desc_AP junk (Table l a at) = AP at"
| "desc_AP junk (Block l a at) = AP at"

definition var_va :: "test_ctx_t \<Rightarrow> nat \<Rightarrow> nat \<Rightarrow> u64" where
  "var_va ctx run v = vvalues (heap_vars ctx ! v) ! run"

definition default_page :: "layout \<Rightarrow> var_kind \<Rightarrow> u64 \<Rightarrow> u64" where
  "default_page L k va =
     (case k of VAR_FIXED phys \<Rightarrow> phys AND NOT (BITMASK PAGE_SHIFT)
      | _ \<Rightarrow> SAFE_TESTDATA_PA L va AND NOT (BITMASK PAGE_SHIFT))"

definition set_ap :: "u64 option \<Rightarrow> attrs_t \<Rightarrow> attrs_t" where
  "set_ap a at = (case a of None \<Rightarrow> at | Some x \<Rightarrow> at\<lparr>AP := ucast x\<rparr>)"

definition set_attridx :: "u64 option \<Rightarrow> attrs_t \<Rightarrow> attrs_t" where
  "set_attridx a at = (case a of None \<Rightarrow> at | Some x \<Rightarrow> at\<lparr>attr := ucast x\<rparr>)"

definition init_desc :: "layout \<Rightarrow> test_ctx_t \<Rightarrow> nat \<Rightarrow> nat \<Rightarrow> desc" where
  "init_desc L ctx v run =
     (let info = heap_vars ctx ! v; va = var_va ctx run v;
          d = (if ty info = VAR_UNMAPPED then read_desc 0 3
               else (let default_desc = vmm_make_desc (default_page L (ty info) va) PROT_DEFAULT_HEAP 3;
                         d = read_desc default_desc 3;
                         d = with_attrs (set_ap (ap (init_attrs info))) d
                     in with_attrs (set_attridx (attridx (init_attrs info))) d))
      in case ty info of
           VAR_ALIAS otheridx \<Rightarrow>
             with_oa (push_bit PAGE_SHIFT (drop_bit PAGE_SHIFT (TESTDATA_MMAP_VIRT_TO_PHYS L (var_va ctx run otheridx)))) d
         | _ \<Rightarrow> d)"

section \<open>Writing the state of a run\<close>

record init_st =
  ivm :: vm_st
  idata :: "u64 \<Rightarrow> u64"
  icleaned :: "u64 list"

datatype init_err = InitVmm vmm_err | InitVar var_err

definition vmm_lift :: "vmm_err + 'a \<Rightarrow> init_err + 'a" where
  "vmm_lift r = (case r of Inl e \<Rightarrow> Inl (InitVmm e) | Inr x \<Rightarrow> Inr x)"

definition var_lift :: "var_err + 'a \<Rightarrow> init_err + 'a" where
  "var_lift r = (case r of Inl e \<Rightarrow> Inl (InitVar e) | Inr x \<Rightarrow> Inr x)"

definition sync_arg :: "sync_type \<Rightarrow> nat \<Rightarrow> u64 \<Rightarrow> u64" where
  "sync_arg k asid va = (if k = SYNC_ASID then of_nat asid else if k = SYNC_VA then va else 0)"

definition set_init_pte :: "harness \<Rightarrow> test_ctx_t \<Rightarrow> 2 word \<Rightarrow> nat \<Rightarrow> nat \<Rightarrow> init_st \<Rightarrow> init_err + init_st" where
  "set_init_pte h ctx junk v run st =
     (if \<not> ENABLE_PGTABLE (hcfg h) then Inr st
      else
        (let va = var_va ctx run v; kind = LITMUS_SYNC_TYPE (hcfg h); asid = asid_from_run h ctx run
         in rbind (vmm_lift (vmm_pte (hvm h) (ptable_from_run h ctx run) va (ivm st))) (\<lambda>(pte, s).
            let desc = init_desc (hlay h) ctx v run;
                s = vmm_update_pte (hvm h) pte (write_desc desc) kind (sync_arg kind asid va) False s
            in if desc_AP junk desc = PROT_AP_RW_RWX \<and> kind \<noteq> SYNC_ASID
               then Inr (st\<lparr>ivm := emit Dsb s, icleaned := icleaned st @ [va]\<rparr>)
               else Inr (st\<lparr>ivm := s\<rparr>))))"

definition set_init_var :: "harness \<Rightarrow> test_ctx_t \<Rightarrow> 2 word \<Rightarrow> nat \<Rightarrow> nat \<Rightarrow> init_st \<Rightarrow> init_err + init_st" where
  "set_init_var h ctx junk run v st =
     rbind (set_init_pte h ctx junk v run st) (\<lambda>st.
       let va = var_va ctx run v; k = ty (heap_vars ctx ! v)
       in if is_backed_var k
          then rbind (var_lift (var_backing k)) (\<lambda>b.
                 Inr (st\<lparr>idata := (idata st)((if ENABLE_PGTABLE (hcfg h) then SAFE_TESTDATA_VA (hlay h) va else va) := bval b)\<rparr>))
          else Inr st)"

definition write_init_state :: "harness \<Rightarrow> test_ctx_t \<Rightarrow> 2 word \<Rightarrow> nat \<Rightarrow> init_st \<Rightarrow> init_err + init_st" where
  "write_init_state h ctx junk run st =
     rbind (rfold (set_init_var h ctx junk run) [0..<length (heap_vars ctx)] st) (\<lambda>st.
     rbind (var_lift (concretization_postcheck (hlay h) (heap_vars ctx) run)) (\<lambda>_. Inr st))"

definition write_init_states :: "harness \<Rightarrow> test_ctx_t \<Rightarrow> 2 word \<Rightarrow> nat \<Rightarrow> init_st \<Rightarrow> init_err + init_st" where
  "write_init_states h ctx junk n st = rfold (write_init_state h ctx junk) [0..<n] st"

section \<open>A last-level entry of its own\<close>

text \<open>The addresses whose entry can be written without splitting a block.\<close>

definition own_leaf :: "pt_mem \<Rightarrow> u64 \<Rightarrow> u64 \<Rightarrow> bool" where
  "own_leaf m r x \<longleftrightarrow> fst (leaf m r x) = 3 \<or> \<not> bit (snd (leaf m r x)) 0"

lemma ensure_tables:
  "j \<le> fst (leaf (mem s) r va) \<Longrightarrow>
   \<exists>t. rfold (ensure_step env va) [0..<j] (r, s) = Inr (t, s) \<and> tbl (mem s) r va j = Some t"
proof (induction j)
  case (Suc j)
  then obtain t where t: "rfold (ensure_step env va) [0..<j] (r, s) = Inr (t, s)" "tbl (mem s) r va j = Some t" by auto
  obtain a where "ensure_step env va j (t, s) = Inr (a, s)" "tbl (mem s) r va (Suc j) = Some a"
    using ensure_step_table [OF t(2)] Suc.prems by auto
  then show ?case using t(1) by (simp add: rfold_snoc)
qed simp

lemma ensure_level_own:
  assumes inv: "vm_inv env r s" "va_ok va" and own: "own_leaf (mem s) r va"
    and pages: "unat (pt_bot s) + 4096 * 3 \<le> unat (top_of_ptables env)"
  obtains s' where "vmm_ensure_level env r 3 va s = Inr s'" "vm_inv env r s'"
    "unat (pt_bot s') \<le> unat (pt_bot s) + 4096 * 3" "fst (leaf (mem s') r va) = 3"
    "\<And>x. va_ok x \<Longrightarrow> translate (mem s') r x = translate (mem s) r x"
    "\<And>x. va_ok x \<Longrightarrow> own_leaf (mem s) r x \<Longrightarrow> own_leaf (mem s') r x"
proof (cases "fst (leaf (mem s) r va) = 3")
  case True
  then obtain t where "rfold (ensure_step env va) [0..<3] (r, s) = Inr (t, s)"
    using ensure_tables [of 3 s r va env] by auto
  then have "vmm_ensure_level env r 3 va s = Inr s" by (simp add: vmm_ensure_level_def)
  then show thesis using inv True by (intro that [of s]) simp_all
next
  case False
  obtain k0 w0 where lf: "leaf (mem s) r va = (k0, w0)" by fastforce
  have w0: "\<not> bit w0 0" using own False lf by (simp add: own_leaf_def)
  have k0: "k0 < 3" using leaf_level [of "mem s" r va] False lf by simp
  have "unat (pt_bot s) + 4096 * (3 - k0) \<le> unat (top_of_ptables env)" using pages by simp
  from ensure_level_unmapped [OF inv lf w0 order_refl this] obtain s' where s':
    "vmm_ensure_level env r 3 va s = Inr s'" "vm_inv env r s'" "unat (pt_bot s') = unat (pt_bot s) + 4096 * (3 - k0)"
    and L: "\<And>x. va_ok x \<Longrightarrow> leaf (mem s') r x = (if blk k0 x = blk k0 va then (shared 3 va x, 0) else leaf (mem s) r x)"
    using k0 by auto
  have z: "translate (mem s) r x = None" if "va_ok x" "blk k0 x = blk k0 va" for x
    using leaf_blk [OF inv(2) that lf] w0 by (simp add: translate_def leaf_out_unset)
  show thesis
  proof (rule that [OF s'(1,2)])
    show "unat (pt_bot s') \<le> unat (pt_bot s) + 4096 * 3" using s'(3) by simp
    show "fst (leaf (mem s') r va) = 3" using L [OF inv(2)] shared_all [of 3 va va] by simp
    show "translate (mem s') r x = translate (mem s) r x" if "va_ok x" for x
      using L [OF that] z [OF that] by (auto simp: translate_def leaf_out_unset)
    show "own_leaf (mem s') r x" if "va_ok x" "own_leaf (mem s) r x" for x
      using L [OF that(1)] that(2) by (auto simp: own_leaf_def)
  qed
qed

text \<open>Writing the entry \<open>vmm_pte\<close> gives sets the translation of one page and changes no other.\<close>

lemma pte_written:
  assumes inv: "vm_inv env r s" and va: "va_ok va" and own: "own_leaf (mem s) r va"
    and pages: "unat (pt_bot s) + 4096 * 3 \<le> unat (top_of_ptables env)"
  obtains p s' where "vmm_pte env r va s = Inr (p, s')"
    "\<And>s''. mem s'' = (mem s')(p := w) \<Longrightarrow> pt_bot s'' = pt_bot s' \<Longrightarrow> vm_inv env r s'' \<and>
       unat (pt_bot s'') \<le> unat (pt_bot s) + 4096 * 3 \<and>
       (\<forall>x. va_ok x \<longrightarrow> own_leaf (mem s) r x \<longrightarrow> own_leaf (mem s'') r x) \<and>
       (\<forall>x. va_ok x \<longrightarrow> translate (mem s'') r x =
          (if blk 3 x = blk 3 va then leaf_out x (3, w) else translate (mem s) r x))"
proof -
  obtain s' where s': "vmm_ensure_level env r 3 va s = Inr s'" "vm_inv env r s'"
      "unat (pt_bot s') \<le> unat (pt_bot s) + 4096 * 3" "fst (leaf (mem s') r va) = 3"
    and tr: "\<And>x. va_ok x \<Longrightarrow> translate (mem s') r x = translate (mem s) r x"
    and ow: "\<And>x. va_ok x \<Longrightarrow> own_leaf (mem s) r x \<Longrightarrow> own_leaf (mem s') r x"
    using ensure_level_own [OF assms] by blast
  obtain t ps w1 where W: "vmm_translation_walk (mem s') r va = (read_desc w1 3, entry_addr t va 3, ps)"
    "tbl (mem s') r va 3 = Some t" "leaf (mem s') r va = (3, w1)"
    using s'(4) walk_leaf [of "mem s'" r va] by (metis fst_conv)
  have T: "tree_ok (mem s') r (pt_bot s')" using s'(2) by (simp add: vm_inv_def)
  have old: "\<not> is_Table (read_desc (mem s' (entry_addr t va 3)) 3)" by (rule read_desc_3)
  have L: "leaf ((mem s')(entry_addr t va 3 := w)) r x = (if blk 3 x = blk 3 va then (3, w) else leaf (mem s') r x)"
    if "va_ok x" for x
    by (rule leaf_update [OF T va W(3,2) read_desc_3 that])
  have T': "tree_ok ((mem s')(entry_addr t va 3 := w)) r (pt_bot s')"
    by (rule tree_ok_update [OF T va order_refl W(2) old read_desc_3])
  show thesis
  proof (rule that)
    show "vmm_pte env r va s = Inr (entry_addr t va 3, s')"
      using W(1) by (simp add: vmm_pte_def vmm_pte_at_level_def vmm_desc_at_level_def s'(1) vmm_translation_walk_def)
    fix s'' :: vm_st
    assume m: "mem s'' = (mem s')(entry_addr t va 3 := w)" "pt_bot s'' = pt_bot s'"
    have "vm_inv env r s''" using s'(2) T' by (simp add: vm_inv_def m)
    moreover have "own_leaf (mem s'') r x" if "va_ok x" "own_leaf (mem s) r x" for x
      using L [OF that(1)] ow [OF that] by (simp add: m own_leaf_def)
    moreover have "translate (mem s'') r x = (if blk 3 x = blk 3 va then leaf_out x (3, w) else translate (mem s) r x)"
      if "va_ok x" for x
      using L [OF that] tr [OF that] by (simp add: m translate_def)
    ultimately show "vm_inv env r s'' \<and> unat (pt_bot s'') \<le> unat (pt_bot s) + 4096 * 3 \<and>
       (\<forall>x. va_ok x \<longrightarrow> own_leaf (mem s) r x \<longrightarrow> own_leaf (mem s'') r x) \<and>
       (\<forall>x. va_ok x \<longrightarrow> translate (mem s'') r x =
          (if blk 3 x = blk 3 va then leaf_out x (3, w) else translate (mem s) r x))"
      using s'(3) by (simp add: m(2))
  qed
qed

section \<open>The last writer wins\<close>

definition init_val :: "test_ctx_t \<Rightarrow> nat \<Rightarrow> u64" where
  "init_val ctx v = (case var_backing (ty (heap_vars ctx ! v)) of Inl e \<Rightarrow> 0 | Inr b \<Rightarrow> bval b)"

definition same_page :: "u64 \<Rightarrow> u64 \<Rightarrow> bool" where
  "same_page x y \<longleftrightarrow> drop_bit 12 x = drop_bit 12 y"

definition last_of :: "(nat \<Rightarrow> bool) \<Rightarrow> nat \<Rightarrow> nat option" where
  "last_of P n = find P (rev [0..<n])"

lemma last_of_0 [simp]: "last_of P 0 = None"
  by (simp add: last_of_def)

lemma last_of_Suc: "last_of P (Suc n) = (if P n then Some n else last_of P n)"
  by (simp add: last_of_def)

lemma last_of_SomeD: "last_of P n = Some v \<Longrightarrow> v < n \<and> P v"
  by (induction n) (auto simp: last_of_Suc split: if_splits)

lemma last_of_None: "last_of P n = None \<longleftrightarrow> (\<forall>v < n. \<not> P v)"
  by (induction n) (auto simp: last_of_Suc less_Suc_eq)

lemma last_of_only:
  assumes "v < n" "P v" "\<And>u. u < n \<Longrightarrow> P u \<Longrightarrow> u = v"
  shows "last_of P n = Some v"
proof (cases "last_of P n")
  case None
  then show ?thesis using assms(1,2) by (simp add: last_of_None)
next
  case (Some u)
  then show ?thesis using last_of_SomeD [OF Some] assms(3) by simp
qed

definition state_after :: "harness \<Rightarrow> test_ctx_t \<Rightarrow> nat \<Rightarrow> init_st \<Rightarrow> nat \<Rightarrow> init_st \<Rightarrow> bool" where
  "state_after h ctx run st0 n st \<longleftrightarrow>
     (let r = ptable_from_run h ctx run; L = hlay h
      in vm_inv (hvm h) r (ivm st) \<and> unat (pt_bot (ivm st)) \<le> unat (pt_bot (ivm st0)) + 4096 * 3 * n \<and>
         (\<forall>x. va_ok x \<longrightarrow> own_leaf (mem (ivm st0)) r x \<longrightarrow> own_leaf (mem (ivm st)) r x) \<and>
         (\<forall>x. va_ok x \<longrightarrow> translate (mem (ivm st)) r x =
            (case last_of (\<lambda>v. same_page x (var_va ctx run v)) n of
               Some v \<Rightarrow> leaf_out x (3, write_desc (init_desc L ctx v run))
             | None \<Rightarrow> translate (mem (ivm st0)) r x)) \<and>
         (\<forall>a. idata st a =
            (case last_of (\<lambda>v. is_backed_var (ty (heap_vars ctx ! v)) \<and> SAFE_TESTDATA_VA L (var_va ctx run v) = a) n of
               Some v \<Rightarrow> init_val ctx v | None \<Rightarrow> idata st0 a)))"

lemma state_after_step:
  assumes pt: "ENABLE_PGTABLE (hcfg h)" and S: "state_after h ctx run st0 n st"
    and va: "va_ok (var_va ctx run n)" "own_leaf (mem (ivm st0)) (ptable_from_run h ctx run) (var_va ctx run n)"
    and pages: "unat (pt_bot (ivm st0)) + 4096 * 3 * Suc n \<le> unat (top_of_ptables (hvm h))"
  obtains st' where "set_init_var h ctx junk run n st = Inr st'" "state_after h ctx run st0 (Suc n) st'"
proof -
  let ?r = "ptable_from_run h ctx run" and ?va = "var_va ctx run n" and ?w = "write_desc (init_desc (hlay h) ctx n run)"
    and ?k = "LITMUS_SYNC_TYPE (hcfg h)"
  from S have inv: "vm_inv (hvm h) ?r (ivm st)" and bot: "unat (pt_bot (ivm st)) \<le> unat (pt_bot (ivm st0)) + 4096 * 3 * n"
    and own: "\<And>x. va_ok x \<Longrightarrow> own_leaf (mem (ivm st0)) ?r x \<Longrightarrow> own_leaf (mem (ivm st)) ?r x"
    and tr: "\<And>x. va_ok x \<Longrightarrow> translate (mem (ivm st)) ?r x =
            (case last_of (\<lambda>v. same_page x (var_va ctx run v)) n of
               Some v \<Rightarrow> leaf_out x (3, write_desc (init_desc (hlay h) ctx v run))
             | None \<Rightarrow> translate (mem (ivm st0)) ?r x)"
    and dat: "\<And>a. idata st a =
            (case last_of (\<lambda>v. is_backed_var (ty (heap_vars ctx ! v)) \<and> SAFE_TESTDATA_VA (hlay h) (var_va ctx run v) = a) n of
               Some v \<Rightarrow> init_val ctx v | None \<Rightarrow> idata st0 a)"
    by (simp_all add: state_after_def Let_def)
  have "unat (pt_bot (ivm st)) + 4096 * 3 \<le> unat (top_of_ptables (hvm h))" using bot pages by simp
  from pte_written [OF inv va(1) own [OF va] this, of ?w] obtain p s' where
    p: "vmm_pte (hvm h) ?r ?va (ivm st) = Inr (p, s')"
    and W: "\<And>s''. mem s'' = (mem s')(p := ?w) \<Longrightarrow> pt_bot s'' = pt_bot s' \<Longrightarrow> vm_inv (hvm h) ?r s'' \<and>
       unat (pt_bot s'') \<le> unat (pt_bot (ivm st)) + 4096 * 3 \<and>
       (\<forall>x. va_ok x \<longrightarrow> own_leaf (mem (ivm st)) ?r x \<longrightarrow> own_leaf (mem s'') ?r x) \<and>
       (\<forall>x. va_ok x \<longrightarrow> translate (mem s'') ?r x =
          (if blk 3 x = blk 3 ?va then leaf_out x (3, ?w) else translate (mem (ivm st)) ?r x))" by blast
  have "\<exists>st1. set_init_pte h ctx junk n run st = Inr st1 \<and> idata st1 = idata st \<and>
      mem (ivm st1) = (mem s')(p := ?w) \<and> pt_bot (ivm st1) = pt_bot s'"
    using pt p by (simp add: set_init_pte_def Let_def vmm_lift_def vm_st_simps)
  then obtain st1 where st1: "set_init_pte h ctx junk n run st = Inr st1" "idata st1 = idata st"
      "mem (ivm st1) = (mem s')(p := ?w)" "pt_bot (ivm st1) = pt_bot s'" by blast
  define st' where "st' = (if is_backed_var (ty (heap_vars ctx ! n))
    then st1\<lparr>idata := (idata st1)(SAFE_TESTDATA_VA (hlay h) ?va := init_val ctx n)\<rparr> else st1)"
  have iv: "ivm st' = ivm st1" by (simp add: st'_def)
  have run: "set_init_var h ctx junk run n st = Inr st'"
    using pt st1(1) by (cases "ty (heap_vars ctx ! n)") (simp_all add: set_init_var_def Let_def st'_def init_val_def var_lift_def)
  note W' = W [of "ivm st'", unfolded iv, OF st1(3,4)]
  have "state_after h ctx run st0 (Suc n) st'"
    unfolding state_after_def Let_def iv
  proof (intro conjI allI impI)
    show "vm_inv (hvm h) ?r (ivm st1)" using W' by blast
    show "unat (pt_bot (ivm st1)) \<le> unat (pt_bot (ivm st0)) + 4096 * 3 * Suc n" using W' bot by simp
    show "own_leaf (mem (ivm st1)) ?r x" if "va_ok x" "own_leaf (mem (ivm st0)) ?r x" for x
      using W' own that by blast
    show "translate (mem (ivm st1)) ?r x =
        (case last_of (\<lambda>v. same_page x (var_va ctx run v)) (Suc n) of
           Some v \<Rightarrow> leaf_out x (3, write_desc (init_desc (hlay h) ctx v run))
         | None \<Rightarrow> translate (mem (ivm st0)) ?r x)" if "va_ok x" for x
    proof -
      have "translate (mem (ivm st1)) ?r x = (if blk 3 x = blk 3 ?va then leaf_out x (3, ?w) else translate (mem (ivm st)) ?r x)"
        using W' that by blast
      then show ?thesis using tr [OF that] by (simp add: last_of_Suc same_page_def blk_def del: write_desc.simps)
    qed
    show "idata st' a =
        (case last_of (\<lambda>v. is_backed_var (ty (heap_vars ctx ! v)) \<and> SAFE_TESTDATA_VA (hlay h) (var_va ctx run v) = a) (Suc n) of
           Some v \<Rightarrow> init_val ctx v | None \<Rightarrow> idata st0 a)" for a
      using dat [of a] by (simp add: st'_def st1(2) last_of_Suc)
  qed
  with run show thesis by (rule that)
qed

lemma state_after_all:
  assumes pt: "ENABLE_PGTABLE (hcfg h)" and inv: "vm_inv (hvm h) (ptable_from_run h ctx run) (ivm st0)"
    and va: "\<And>v. v < n \<Longrightarrow> va_ok (var_va ctx run v) \<and> own_leaf (mem (ivm st0)) (ptable_from_run h ctx run) (var_va ctx run v)"
    and pages: "unat (pt_bot (ivm st0)) + 4096 * 3 * n \<le> unat (top_of_ptables (hvm h))"
  shows "\<exists>st. rfold (set_init_var h ctx junk run) [0..<n] st0 = Inr st \<and> state_after h ctx run st0 n st"
  using va pages
proof (induction n)
  case 0
  then show ?case using inv by (simp add: state_after_def Let_def)
next
  case (Suc n)
  then obtain st where st: "rfold (set_init_var h ctx junk run) [0..<n] st0 = Inr st" "state_after h ctx run st0 n st"
    by fastforce
  obtain st' where "set_init_var h ctx junk run n st = Inr st'" "state_after h ctx run st0 (Suc n) st'"
    using state_after_step [OF pt st(2), of junk] Suc.prems by blast
  then show ?case using st(1) by (auto simp: rfold_snoc simp del: upt_Suc simp: upt_Suc_append)
qed

section \<open>What the page of a variable translates to\<close>

lemma page_desc_out:
  assumes a: "VmmEntries.addr_ok 12 a" and OA: "OA at = 0"
  shows "leaf_out x (3, write_desc (Block 3 a at)) =
    Some ((a OR push_bit 16 (ucast (nT at))) OR take_bit 12 x, at\<lparr>nT := 0\<rparr>)"
proof -
  let ?a = "a OR push_bit 16 (ucast (nT at)) :: u64" and ?at = "at\<lparr>nT := ucast (BIT (a OR push_bit 16 (ucast (nT at))) 16)\<rparr>"
  have b: "bit ?a n \<longleftrightarrow> bit a n \<or> n = 16 \<and> bit (nT at) 0" for n
    by (auto simp: bit_or_iff bit_flag simp del: bit_0)
  have nt: "bit (nT ?at) 0 \<longleftrightarrow> bit ?a 16" by (simp add: bit_ucast_BIT del: bit_0)
  have same: "write_desc (Block 3 a at) = write_desc (Block 3 ?a ?at)"
  proof (rule bit_eqI)
    fix n
    show "bit (write_desc (Block 3 a at)) n = bit (write_desc (Block 3 ?a ?at)) n"
      unfolding bit_write_desc_block bit_write_attrs_nT b
      using nt [simplified] by (auto simp: b bit_ucast_BIT nT_write simp del: bit_0)
  qed
  have "VmmEntries.addr_ok 12 ?a" using a unfolding addr_ok_bit b by auto
  then have "wf_desc 3 (Block 3 ?a ?at)" using OA by simp
  then have "read_desc (write_desc (Block 3 a at)) 3 = Block 3 ?a ?at"
    unfolding same by (rule read_write_desc) simp
  then show ?thesis by (simp add: leaf_out_def)
qed

definition var_page :: "layout \<Rightarrow> test_ctx_t \<Rightarrow> nat \<Rightarrow> nat \<Rightarrow> u64" where
  "var_page L ctx run v =
     (let info = heap_vars ctx ! v; own = default_page L (ty info) (var_va ctx run v)
      in case ty info of
           VAR_ALIAS w \<Rightarrow> push_bit 12 (drop_bit 12 (TESTDATA_MMAP_VIRT_TO_PHYS L (var_va ctx run w))) OR push_bit 16 (BIT own 16)
         | _ \<Rightarrow> own)"

definition var_attrs :: "test_ctx_t \<Rightarrow> nat \<Rightarrow> attrs_t" where
  "var_attrs ctx v =
     (let ia = init_attrs (heap_vars ctx ! v) in set_attridx (attridx ia) (set_ap (ap ia) (final_attrs PROT_DEFAULT_HEAP)))"

text \<open>Where a variable's page is in the range of physical addresses.\<close>

definition var_page_ok :: "layout \<Rightarrow> test_ctx_t \<Rightarrow> nat \<Rightarrow> nat \<Rightarrow> bool" where
  "var_page_ok L ctx run v \<longleftrightarrow>
     unat (default_page L (ty (heap_vars ctx ! v)) (var_va ctx run v)) < 2 ^ 48 \<and>
     (case ty (heap_vars ctx ! v) of
        VAR_ALIAS w \<Rightarrow> unat (TESTDATA_MMAP_VIRT_TO_PHYS L (var_va ctx run w)) < 2 ^ 48 | _ \<Rightarrow> True)"

definition var_translation :: "layout \<Rightarrow> test_ctx_t \<Rightarrow> nat \<Rightarrow> nat \<Rightarrow> u64 \<Rightarrow> (u64 \<times> attrs_t) option" where
  "var_translation L ctx run v x =
     (if ty (heap_vars ctx ! v) = VAR_UNMAPPED then None
      else Some (var_page L ctx run v OR take_bit 12 x, var_attrs ctx v))"

lemma page_mask: "(a :: u64) AND NOT (BITMASK PAGE_SHIFT) = push_bit 12 (drop_bit 12 a)"
  by (rule bit_eqI) (auto simp: BITMASK_mask PAGE_SHIFT_def bit_simps)

lemma default_page_frame: "\<exists>a. default_page L k va = push_bit 12 (drop_bit 12 a)"
  by (cases k) (auto simp: default_page_def page_mask)

lemma frame_ok: "unat (push_bit 12 (drop_bit 12 a) :: u64) < 2 ^ 48 \<Longrightarrow> VmmEntries.addr_ok 12 (push_bit 12 (drop_bit 12 a) :: u64)"
  unfolding addr_ok_bit using va_ok_unat [of "push_bit 12 (drop_bit 12 a)"] va_ok_bit [of "push_bit 12 (drop_bit 12 a)"]
  by (auto simp: bit_push_bit_iff)

lemma frame_le: "unat (push_bit 12 (drop_bit 12 a) :: u64) \<le> unat a"
  by (metis page_mask word_and_le2 word_le_nat_alt)

lemma prot_default_bit16: "\<not> bit PROT_DEFAULT_HEAP 16"
  unfolding PROT_DEFAULT_HEAP_def PROT_MEMTYPE_NORMAL_def PROT_RW_RWX_def prot_bit16
  by (simp add: attrs0_def)

lemma attr_setters:
  "nT (set_ap a at) = nT at" "OA (set_ap a at) = OA at" "nT (set_attridx i at) = nT at" "OA (set_attridx i at) = OA at"
  "(set_ap a at)\<lparr>nT := x\<rparr> = set_ap a (at\<lparr>nT := x\<rparr>)" "(set_attridx i at)\<lparr>nT := x\<rparr> = set_attridx i (at\<lparr>nT := x\<rparr>)"
  by (cases a; cases i; simp add: set_ap_def set_attridx_def)+

lemma init_desc_out:
  assumes "var_page_ok L ctx run v"
  shows "leaf_out x (3, write_desc (init_desc L ctx v run)) = var_translation L ctx run v x"
proof (cases "ty (heap_vars ctx ! v) = VAR_UNMAPPED")
  case True
  then show ?thesis by (simp add: init_desc_def Let_def var_translation_def unset_read_desc leaf_out_unset)
next
  case False
  let ?own = "default_page L (ty (heap_vars ctx ! v)) (var_va ctx run v)" and ?ia = "init_attrs (heap_vars ctx ! v)"
  obtain a0 where a0: "?own = push_bit 12 (drop_bit 12 a0)" using default_page_frame by blast
  have own: "VmmEntries.addr_ok 12 ?own" using assms frame_ok [of a0] unfolding a0 var_page_ok_def by simp
  obtain at where at: "read_desc (vmm_make_desc ?own PROT_DEFAULT_HEAP 3) 3 = Block 3 ?own at"
    "at\<lparr>nT := 0\<rparr> = final_attrs PROT_DEFAULT_HEAP"
    using make_desc_read [of 3 ?own, OF _ _ _ prot_default_bit16] own by auto
  have "wf_desc 3 (Block 3 ?own at)" using wf_read_desc [of 3 "vmm_make_desc ?own PROT_DEFAULT_HEAP 3"] at(1) by simp
  then have wf: "OA at = 0" "nT at = ucast (BIT ?own 16)" by simp_all
  let ?at = "set_attridx (attridx ?ia) (set_ap (ap ?ia) at)"
  have at': "?at\<lparr>nT := 0\<rparr> = var_attrs ctx v" "OA ?at = 0" "nT ?at = ucast (BIT ?own 16)"
    using wf at(2) by (simp_all add: attr_setters var_attrs_def Let_def)
  have u: "ucast (ucast (BIT ?own 16) :: 1 word) = BIT ?own 16"
    by (rule bit_eqI) (auto simp: bit_ucast_iff BIT_def bit_and_iff bit_drop_bit_eq bit_1_iff)
  note out = page_desc_out [OF _ at'(2), unfolded at'(1,3) u]
  show ?thesis
  proof (cases "\<exists>w. ty (heap_vars ctx ! v) = VAR_ALIAS w")
    case True
    then obtain w where w: "ty (heap_vars ctx ! v) = VAR_ALIAS w" by blast
    let ?b = "TESTDATA_MMAP_VIRT_TO_PHYS L (var_va ctx run w)"
    have "unat ?b < 2 ^ 48" using assms w by (simp add: var_page_ok_def)
    then have "VmmEntries.addr_ok 12 (push_bit 12 (drop_bit 12 ?b))" using frame_le [of ?b] by (intro frame_ok) linarith
    moreover have "init_desc L ctx v run = Block 3 (push_bit 12 (drop_bit 12 ?b)) ?at"
      using w at(1) by (simp add: init_desc_def Let_def PAGE_SHIFT_def)
    ultimately show ?thesis using out w by (simp add: var_translation_def var_page_def Let_def del: write_desc.simps)
  next
    case no: False
    have "init_desc L ctx v run = Block 3 ?own ?at"
      using no False at(1) by (cases "ty (heap_vars ctx ! v)") (simp_all add: init_desc_def Let_def)
    moreover have "?own OR push_bit 16 (BIT ?own 16) = ?own"
      by (rule bit_eqI) (auto simp: BIT_def bit_simps)
    moreover have "var_page L ctx run v = ?own"
      using no by (cases "ty (heap_vars ctx ! v)") (simp_all add: var_page_def Let_def)
    ultimately show ?thesis using out [OF own] False by (simp add: var_translation_def del: write_desc.simps)
  qed
qed

section \<open>Pages of test data\<close>

lemma same_page_frame: "same_page x y \<longleftrightarrow> x - take_bit 12 x = y - take_bit 12 y"
proof -
  have f: "push_bit 12 (drop_bit 12 z) = z - take_bit 12 z" for z :: u64
    using bits_ident [of 12 z] by (simp add: eq_diff_eq)
  have "drop_bit 12 (push_bit 12 (drop_bit 12 z)) = drop_bit 12 z" for z :: u64
    by (rule bit_eqI) (use bit_imp_le_length in \<open>fastforce simp: bit_simps\<close>)
  then show ?thesis unfolding same_page_def f [symmetric] by metis
qed

lemma same_page_add: "take_bit 12 b = 0 \<Longrightarrow> same_page (b + x) (b + y) \<longleftrightarrow> same_page x y"
  by (simp add: same_page_frame take_bit_add_aligned algebra_simps)

lemma same_page_sub: "take_bit 12 b = 0 \<Longrightarrow> same_page (x - b) (y - b) \<longleftrightarrow> same_page x y"
  using same_page_add [of b "x - b" "y - b"] by simp

lemma bit_gather: "bit (gather e) n \<longleftrightarrow> (if n < 23 then bit e n else n < 64 \<and> bit e (n + 9))"
  by (auto simp: gather_def bit_simps add.commute)

lemma same_page_gather: "same_page x y \<Longrightarrow> same_page (gather x) (gather y)"
proof -
  assume "same_page x y"
  then have "bit (drop_bit 12 x) n = bit (drop_bit 12 y) n" for n by (simp add: same_page_def)
  then have d: "bit x (12 + n) = bit y (12 + n)" for n by (simp only: bit_drop_bit_eq comp_apply)
  have b: "bit x n = bit y n" if "12 \<le> n" for n using d [of "n - 12"] that by (simp only: le_add_diff_inverse)
  show ?thesis unfolding same_page_def
  proof (rule bit_eqI)
    fix n
    show "bit (drop_bit 12 (gather x)) n = bit (drop_bit 12 (gather y)) n"
      using b [of "12 + n"] b [of "12 + n + 9"] by (simp only: bit_drop_bit_eq comp_apply bit_gather le_add1)
  qed
qed

definition testdata_aligned :: "layout \<Rightarrow> bool" where
  "testdata_aligned L \<longleftrightarrow> take_bit 12 (BOT_OF_TESTDATA L) = 0 \<and> TESTDATA_MMAP_BASE L = 128 * GiB"

lemma same_page_phys:
  assumes "testdata_aligned L" "same_page x y"
  shows "same_page (TESTDATA_MMAP_VIRT_TO_PHYS L x) (TESTDATA_MMAP_VIRT_TO_PHYS L y)"
proof -
  have "take_bit 12 (TESTDATA_MMAP_BASE L) = 0" using assms(1) by (simp add: testdata_aligned_def GiB_def)
  then have "same_page (gather (x - TESTDATA_MMAP_BASE L)) (gather (y - TESTDATA_MMAP_BASE L))"
    using assms(2) by (intro same_page_gather) (simp add: same_page_sub)
  then show ?thesis using assms(1) by (simp add: virt_to_phys_gather same_page_add testdata_aligned_def)
qed

lemma phys_offset:
  assumes "testdata_aligned L"
  shows "take_bit 12 (TESTDATA_MMAP_VIRT_TO_PHYS L x) = take_bit 12 x"
proof -
  have b: "take_bit 12 (TESTDATA_MMAP_BASE L) = 0" using assms(1) by (simp add: testdata_aligned_def GiB_def)
  have "take_bit 12 (gather e) = take_bit 12 e" for e by (rule bit_eqI) (auto simp: gather_def bit_simps)
  moreover have "take_bit 12 (x - TESTDATA_MMAP_BASE L) = take_bit 12 x"
    using take_bit_add_aligned [OF b, of "x - TESTDATA_MMAP_BASE L"] by simp
  ultimately show ?thesis using assms by (simp add: virt_to_phys_gather take_bit_add_aligned testdata_aligned_def)
qed

lemma page_nat: "same_page x y \<longleftrightarrow> unat x div 4096 = unat y div 4096"
  by (simp only: same_page_def word_unat_eq_iff unat_drop_bit_eq) (simp add: drop_bit_eq_div)

lemma range_same_page: "testdata_aligned L \<Longrightarrow> same_page x y \<Longrightarrow> IN_TESTDATA_RANGE L x \<longleftrightarrow> IN_TESTDATA_RANGE L y"
proof -
  assume L: "testdata_aligned L" and s: "same_page x y"
  have "(137438953472 :: nat) \<le> n \<longleftrightarrow> 33554432 \<le> n div 4096" "n < 206158430208 \<longleftrightarrow> n div 4096 < 50331648" for n :: nat
    by linarith+
  then show ?thesis using L s
    by (simp add: IN_TESTDATA_RANGE_def testdata_aligned_def word_le_nat_alt word_less_nat_alt GiB_def TESTDATA_MMAP_SIZE_def page_nat)
qed

lemma safe_pa_page:
  assumes "testdata_aligned L"
  shows "same_page x y \<Longrightarrow> same_page (SAFE_TESTDATA_PA L x) (SAFE_TESTDATA_PA L y)"
    and "take_bit 12 (SAFE_TESTDATA_PA L x) = take_bit 12 x"
  using range_same_page [OF assms, of x y] same_page_phys [OF assms] phys_offset [OF assms]
  by (auto simp: SAFE_TESTDATA_PA_def)

lemma frame_or: "push_bit 12 (drop_bit 12 a) OR take_bit 12 a = (a :: u64)"
  by (rule bit_eqI) (auto simp: bit_simps)

lemma bit_BIT: "bit (BIT a i :: u64) k \<longleftrightarrow> k = 0 \<and> bit a i"
  unfolding BIT_def bit_and_iff bit_1_iff bit_drop_bit_eq comp_apply by auto

section \<open>The initial state of a run\<close>

definition init_ready :: "harness \<Rightarrow> test_ctx_t \<Rightarrow> nat \<Rightarrow> init_st \<Rightarrow> bool" where
  "init_ready h ctx run st \<longleftrightarrow>
     ENABLE_PGTABLE (hcfg h) \<and> vm_inv (hvm h) (ptable_from_run h ctx run) (ivm st) \<and>
     (\<forall>v < length (heap_vars ctx). va_ok (var_va ctx run v) \<and> var_page_ok (hlay h) ctx run v \<and>
        own_leaf (mem (ivm st)) (ptable_from_run h ctx run) (var_va ctx run v)) \<and>
     unat (pt_bot (ivm st)) + 4096 * 3 * length (heap_vars ctx) \<le> unat (top_of_ptables (hvm h)) \<and>
     concretization_postcheck (hlay h) (heap_vars ctx) run = Inr ()"

lemma write_init_state_result:
  assumes "init_ready h ctx run st"
  obtains st' where "write_init_state h ctx junk run st = Inr st'"
    "vm_inv (hvm h) (ptable_from_run h ctx run) (ivm st')"
    "\<And>x. va_ok x \<Longrightarrow> translate (mem (ivm st')) (ptable_from_run h ctx run) x =
       (case last_of (\<lambda>v. same_page x (var_va ctx run v)) (length (heap_vars ctx)) of
          Some v \<Rightarrow> var_translation (hlay h) ctx run v x
        | None \<Rightarrow> translate (mem (ivm st)) (ptable_from_run h ctx run) x)"
    "\<And>a. idata st' a =
       (case last_of (\<lambda>v. is_backed_var (ty (heap_vars ctx ! v)) \<and> SAFE_TESTDATA_VA (hlay h) (var_va ctx run v) = a)
          (length (heap_vars ctx)) of
          Some v \<Rightarrow> init_val ctx v | None \<Rightarrow> idata st a)"
proof -
  let ?n = "length (heap_vars ctx)" and ?r = "ptable_from_run h ctx run"
  from assms have pt: "ENABLE_PGTABLE (hcfg h)" "vm_inv (hvm h) ?r (ivm st)"
    and v: "\<And>v. v < ?n \<Longrightarrow> va_ok (var_va ctx run v) \<and> own_leaf (mem (ivm st)) ?r (var_va ctx run v)"
    and ok: "\<And>v. v < ?n \<Longrightarrow> var_page_ok (hlay h) ctx run v"
    and pages: "unat (pt_bot (ivm st)) + 4096 * 3 * ?n \<le> unat (top_of_ptables (hvm h))"
    and post: "concretization_postcheck (hlay h) (heap_vars ctx) run = Inr ()"
    unfolding init_ready_def by blast+
  obtain st' where st': "rfold (set_init_var h ctx junk run) [0..<?n] st = Inr st'" "state_after h ctx run st ?n st'"
    using state_after_all [OF pt v pages] by blast
  show thesis
  proof (rule that)
    show "write_init_state h ctx junk run st = Inr st'"
      using st'(1) post by (simp add: write_init_state_def var_lift_def)
    show "vm_inv (hvm h) ?r (ivm st')" using st'(2) by (simp add: state_after_def Let_def)
    fix x assume x: "va_ok x"
    have "translate (mem (ivm st')) ?r x =
       (case last_of (\<lambda>v. same_page x (var_va ctx run v)) ?n of
          Some v \<Rightarrow> leaf_out x (3, write_desc (init_desc (hlay h) ctx v run)) | None \<Rightarrow> translate (mem (ivm st)) ?r x)"
      using st'(2) x by (simp add: state_after_def Let_def)
    then show "translate (mem (ivm st')) ?r x =
       (case last_of (\<lambda>v. same_page x (var_va ctx run v)) ?n of
          Some v \<Rightarrow> var_translation (hlay h) ctx run v x | None \<Rightarrow> translate (mem (ivm st)) ?r x)"
      using init_desc_out [OF ok] last_of_SomeD by (fastforce split: option.split)
  next
    fix a
    show "idata st' a = (case last_of (\<lambda>v. is_backed_var (ty (heap_vars ctx ! v)) \<and> SAFE_TESTDATA_VA (hlay h) (var_va ctx run v) = a) ?n of
          Some v \<Rightarrow> init_val ctx v | None \<Rightarrow> idata st a)"
      using st'(2) by (simp add: state_after_def Let_def)
  qed
qed

text \<open>
  C25: writing the initial state of a run succeeds and makes every translation of the run's table that of
  the last variable on its page (the default or requested attributes, the variable's own physical page,
  the aliased one for an alias, none for an unmapped variable), and leaves every other page as it was;
  each cell of data gets the initial value of the last backed variable there, and no other cell changes.
\<close>

theorem write_init_state_correct:
  assumes "init_ready h ctx run st"
  shows "\<exists>st'. write_init_state h ctx junk run st = Inr st' \<and> vm_inv (hvm h) (ptable_from_run h ctx run) (ivm st') \<and>
    (\<forall>x. va_ok x \<longrightarrow> translate (mem (ivm st')) (ptable_from_run h ctx run) x =
       (case last_of (\<lambda>v. same_page x (var_va ctx run v)) (length (heap_vars ctx)) of
          Some v \<Rightarrow> var_translation (hlay h) ctx run v x
        | None \<Rightarrow> translate (mem (ivm st)) (ptable_from_run h ctx run) x)) \<and>
    (\<forall>a. idata st' a =
       (case last_of (\<lambda>v. is_backed_var (ty (heap_vars ctx ! v)) \<and> SAFE_TESTDATA_VA (hlay h) (var_va ctx run v) = a)
          (length (heap_vars ctx)) of
          Some v \<Rightarrow> init_val ctx v | None \<Rightarrow> idata st a))"
  by (rule write_init_state_result [OF assms]) blast

text \<open>
  C26: a variable is readable: when no variable that is unmapped, fixed or an alias is on its page and no
  other backed variable has its address, its address translates through the run's table to the physical
  address whose alias in the harness's map holds the variable's initial value.
\<close>

theorem initial_value_readable:
  assumes "init_ready h ctx run st" "testdata_aligned (hlay h)" and v: "v < length (heap_vars ctx)" "is_backed_var (ty (heap_vars ctx ! v))"
    and page: "\<forall>u < length (heap_vars ctx). same_page (var_va ctx run u) (var_va ctx run v) \<longrightarrow> is_backed_var (ty (heap_vars ctx ! u))"
    and cell: "\<forall>u < length (heap_vars ctx). is_backed_var (ty (heap_vars ctx ! u)) \<and>
      SAFE_TESTDATA_VA (hlay h) (var_va ctx run u) = SAFE_TESTDATA_VA (hlay h) (var_va ctx run v) \<longrightarrow> u = v"
  shows "\<exists>st' pa at. write_init_state h ctx junk run st = Inr st' \<and>
    translate (mem (ivm st')) (ptable_from_run h ctx run) (var_va ctx run v) = Some (pa, at) \<and>
    idata st' (HARNESS_MMAP_PHYS_TO_VIRT (hlay h) pa) = init_val ctx v"
proof -
  let ?n = "length (heap_vars ctx)" and ?r = "ptable_from_run h ctx run" and ?L = "hlay h"
  obtain st' where st': "write_init_state h ctx junk run st = Inr st'"
    and tr: "\<And>x. va_ok x \<Longrightarrow> translate (mem (ivm st')) ?r x =
       (case last_of (\<lambda>v. same_page x (var_va ctx run v)) ?n of
          Some v \<Rightarrow> var_translation ?L ctx run v x | None \<Rightarrow> translate (mem (ivm st)) ?r x)"
    and dat: "\<And>a. idata st' a =
       (case last_of (\<lambda>v. is_backed_var (ty (heap_vars ctx ! v)) \<and> SAFE_TESTDATA_VA ?L (var_va ctx run v) = a) ?n of
          Some v \<Rightarrow> init_val ctx v | None \<Rightarrow> idata st a)"
    using write_init_state_result [OF assms(1)] by blast
  let ?va = "var_va ctx run v"
  have ok: "va_ok ?va" using assms(1) v(1) by (simp add: init_ready_def)
  have "last_of (\<lambda>u. same_page ?va (var_va ctx run u)) ?n \<noteq> None"
    using v(1) by (auto simp: last_of_None same_page_def)
  then obtain u where u: "last_of (\<lambda>u. same_page ?va (var_va ctx run u)) ?n = Some u" by blast
  from last_of_SomeD [OF u] have un: "u < ?n" "same_page (var_va ctx run u) ?va" by (simp_all add: same_page_def)
  then have b: "is_backed_var (ty (heap_vars ctx ! u))" using page by blast
  have "var_page ?L ctx run u = push_bit 12 (drop_bit 12 (SAFE_TESTDATA_PA ?L (var_va ctx run u)))"
    using b by (cases "ty (heap_vars ctx ! u)") (simp_all add: var_page_def default_page_def page_mask Let_def)
  also have "\<dots> = push_bit 12 (drop_bit 12 (SAFE_TESTDATA_PA ?L ?va))"
    using safe_pa_page(1) [OF assms(2) un(2)] by (simp add: same_page_def)
  finally have "var_page ?L ctx run u OR take_bit 12 ?va = SAFE_TESTDATA_PA ?L ?va"
    using frame_or [of "SAFE_TESTDATA_PA ?L ?va"] by (simp add: safe_pa_page(2) [OF assms(2)])
  then have t: "translate (mem (ivm st')) ?r ?va = Some (SAFE_TESTDATA_PA ?L ?va, var_attrs ctx u)"
    using tr [OF ok] u b by (auto simp: var_translation_def)
  have "last_of (\<lambda>u. is_backed_var (ty (heap_vars ctx ! u)) \<and> SAFE_TESTDATA_VA ?L (var_va ctx run u) = SAFE_TESTDATA_VA ?L ?va) ?n = Some v"
    using v cell by (intro last_of_only) auto
  then have "idata st' (SAFE_TESTDATA_VA ?L ?va) = init_val ctx v" by (simp add: dat)
  moreover have "SAFE_TESTDATA_VA ?L ?va = HARNESS_MMAP_PHYS_TO_VIRT ?L (SAFE_TESTDATA_PA ?L ?va)"
    by (simp add: SAFE_TESTDATA_VA_def SAFE_TESTDATA_PA_def)
  ultimately show ?thesis using st' t by auto
qed

text \<open>
  C27: the page of an alias is that of the variable it aliases exactly when bit 16 of its own default
  physical address is clear or set in the other's too: the bit is read back as an attribute, which the
  alias keeps.
\<close>

theorem alias_page_correct_iff:
  assumes "init_ready h ctx run st" "testdata_aligned (hlay h)"
    and a: "a < length (heap_vars ctx)" "ty (heap_vars ctx ! a) = VAR_ALIAS w"
    and w: "w < length (heap_vars ctx)" "is_backed_var (ty (heap_vars ctx ! w))" "IN_TESTDATA_RANGE (hlay h) (var_va ctx run w)"
    and own: "\<forall>u < length (heap_vars ctx). \<forall>v \<in> {a, w}. same_page (var_va ctx run u) (var_va ctx run v) \<longrightarrow> u = v"
  shows "\<exists>st' pa at pw aw. write_init_state h ctx junk run st = Inr st' \<and>
    translate (mem (ivm st')) (ptable_from_run h ctx run) (var_va ctx run a) = Some (pa, at) \<and>
    translate (mem (ivm st')) (ptable_from_run h ctx run) (var_va ctx run w) = Some (pw, aw) \<and>
    (same_page pa pw \<longleftrightarrow>
      (bit (SAFE_TESTDATA_PA (hlay h) (var_va ctx run a)) 16 \<longrightarrow> bit (SAFE_TESTDATA_PA (hlay h) (var_va ctx run w)) 16))"
proof -
  let ?n = "length (heap_vars ctx)" and ?r = "ptable_from_run h ctx run" and ?L = "hlay h"
    and ?va = "var_va ctx run a" and ?vw = "var_va ctx run w"
  obtain st' where st': "write_init_state h ctx junk run st = Inr st'"
    and tr: "\<And>x. va_ok x \<Longrightarrow> translate (mem (ivm st')) ?r x =
       (case last_of (\<lambda>v. same_page x (var_va ctx run v)) ?n of
          Some v \<Rightarrow> var_translation ?L ctx run v x | None \<Rightarrow> translate (mem (ivm st)) ?r x)"
    using write_init_state_result [OF assms(1)] by blast
  have own_tr: "translate (mem (ivm st')) ?r (var_va ctx run v) = var_translation ?L ctx run v (var_va ctx run v)"
    if "v \<in> {a, w}" "v < ?n" for v
  proof -
    have o: "u = v" if "u < ?n" "same_page (var_va ctx run v) (var_va ctx run u)" for u
    proof -
      have "same_page (var_va ctx run u) (var_va ctx run v)" using that(2) by (simp only: same_page_def)
      then show ?thesis using own that(1) \<open>v \<in> {a, w}\<close> by blast
    qed
    have "last_of (\<lambda>u. same_page (var_va ctx run v) (var_va ctx run u)) ?n = Some v"
      by (rule last_of_only [OF that(2) _ o]) (simp_all only: same_page_def)
    moreover have "va_ok (var_va ctx run v)" using assms(1) that(2) by (simp add: init_ready_def)
    ultimately show ?thesis using tr by simp
  qed
  let ?Pa = "SAFE_TESTDATA_PA ?L ?va" and ?Pw = "SAFE_TESTDATA_PA ?L ?vw"
  let ?pa = "(push_bit 12 (drop_bit 12 ?Pw) OR push_bit 16 (BIT ?Pa 16)) OR take_bit 12 ?va"
  have Ta: "translate (mem (ivm st')) ?r ?va = Some (?pa, var_attrs ctx a)"
  proof -
    have "BIT (push_bit 12 (drop_bit 12 ?Pa)) 16 = BIT ?Pa 16"
      by (rule bit_eqI) (auto simp: BIT_def bit_simps)
    then have "var_page ?L ctx run a = push_bit 12 (drop_bit 12 ?Pw) OR push_bit 16 (BIT ?Pa 16)"
      using a(2) w(3) by (simp add: var_page_def default_page_def page_mask Let_def SAFE_TESTDATA_PA_def)
    then show ?thesis using own_tr [of a] a by (simp add: var_translation_def)
  qed
  have "var_page ?L ctx run w = push_bit 12 (drop_bit 12 ?Pw)"
    using w(2) by (cases "ty (heap_vars ctx ! w)") (simp_all add: var_page_def default_page_def page_mask Let_def)
  then have Tw: "translate (mem (ivm st')) ?r ?vw = Some (?Pw, var_attrs ctx w)"
    using own_tr [of w] w(1,2) frame_or [of ?Pw] by (auto simp: var_translation_def safe_pa_page(2) [OF assms(2)])
  have bits: "bit ?pa (12 + n) \<longleftrightarrow> bit ?Pw (12 + n) \<or> (n = 4 \<and> bit ?Pa 16)" for n
    using bit_imp_le_length [of ?Pw "12 + n"]
    by (auto simp: bit_or_iff bit_BIT bit_push_bit_iff bit_drop_bit_eq bit_take_bit_iff simp del: bit_0)
  have "same_page x y \<longleftrightarrow> (\<forall>n. bit x (12 + n) = bit y (12 + n))" for x y
    unfolding same_page_def
    by (metis (no_types, lifting) bit_drop_bit_eq bit_eqI comp_apply)
  then have "same_page ?pa ?Pw \<longleftrightarrow> (\<forall>n. bit ?pa (12 + n) = bit ?Pw (12 + n))" by blast
  also have "\<dots> \<longleftrightarrow> (bit ?Pa 16 \<longrightarrow> bit ?Pw 16)" unfolding bits by (auto dest: spec [of _ 4])
  finally show ?thesis using st' Ta Tw by blast
qed

section \<open>Witnesses\<close>

text \<open>A variable at the start of the test data and an alias of it 64K above.\<close>

definition alias_ctx :: test_ctx_t where
  "alias_ctx = (conc_ctx
     [(reset_var_info 0 ''x'' [0x2000000000])\<lparr>ty := VAR_HEAP \<lparr>bval = 1, is_identity_mapped = False\<rparr> REGION_OWN_PAGE\<rparr>,
      (reset_var_info 1 ''y'' [0x2000010000])\<lparr>ty := VAR_ALIAS 0\<rparr>])\<lparr>ptables := [0, 0x45800000]\<rparr>"

definition alias_st :: init_st where
  "alias_st = \<lparr>ivm = \<lparr>mem = \<lambda>_. 0, pt_bot = 0x45801000, trace = []\<rparr>, idata = \<lambda>_. 0, icleaned = []\<rparr>"

lemma alias_vars:
  "length (heap_vars alias_ctx) = 2" "heap_vars alias_ctx ! 0 = (reset_var_info 0 ''x'' [0x2000000000])\<lparr>ty := VAR_HEAP \<lparr>bval = 1, is_identity_mapped = False\<rparr> REGION_OWN_PAGE\<rparr>"
  "heap_vars alias_ctx ! 1 = (reset_var_info 1 ''y'' [0x2000010000])\<lparr>ty := VAR_ALIAS 0\<rparr>"
  by (simp_all add: alias_ctx_def conc_ctx_def)

lemma alias_vas: "var_va alias_ctx 0 0 = 0x2000000000" "var_va alias_ctx 0 1 = 0x2000010000"
  unfolding var_va_def alias_vars by (simp_all add: reset_var_info_def)

lemma alias_phys:
  "TESTDATA_MMAP_VIRT_TO_PHYS qemu_layout 0x2000000000 = 0x47800000" "TESTDATA_MMAP_VIRT_TO_PHYS qemu_layout 0x2000010000 = 0x47810000"
  "SAFE_TESTDATA_PA qemu_layout 0x2000000000 = 0x47800000" "SAFE_TESTDATA_PA qemu_layout 0x2000010000 = 0x47810000"
  by (simp_all add: SAFE_TESTDATA_PA_def IN_TESTDATA_RANGE_def TESTDATA_MMAP_SIZE_def GiB_def virt_to_phys_gather qemu_values gather_def
      take_bit_eq_mask mask_eq_exp_minus_1)

lemma alias_post: "concretization_postcheck qemu_layout (heap_vars alias_ctx) 0 = Inr ()"
  by (simp add: concretization_postcheck_def guard_def alias_ctx_def conc_ctx_def reset_var_info_def
      postcheck_no_overlap_owned_def postcheck_related_same_bits_def postcheck_aligned_def upt_rec
      in_same_region_def Let_def BITMASK_def LEVEL_SHIFTS_def PAGE_SHIFT_def)

lemma alias_table: "ptable_from_run conc_harness alias_ctx 0 = 0x45800000"
  by (simp add: ptable_from_run_def asid_from_run_count_def run_count_from_idx_def alias_ctx_def conc_ctx_def
      conc_harness_def default_config_def split: shuffle_type.split)

lemma all_two: "(\<forall>v < (2 :: nat). P v) \<longleftrightarrow> P 0 \<and> P 1"
  by (auto simp: less_2_cases_iff)

lemma alias_ready: "init_ready conc_harness alias_ctx 0 alias_st"
proof -
  have h: "hlay conc_harness = qemu_layout" "ENABLE_PGTABLE (hcfg conc_harness)"
    "hvm conc_harness = \<lparr>top_of_ptables = 0x47800000, repeat_tlbi = False, isb_after_pte_st = False\<rparr>"
    by (simp_all add: conc_harness_def default_config_def)
  have "vm_inv (hvm conc_harness) 0x45800000 (ivm alias_st)"
    by (auto simp: h vm_inv_def alias_st_def tree_ok_def tbl_zero IS_ALIGNED_dvd va_ok_unat split: if_splits)
  moreover have "own_leaf (mem (ivm alias_st)) r x" for r x
    by (simp add: own_leaf_def alias_st_def leaf_zero)
  moreover have "va_ok 0x2000000000" "va_ok 0x2000010000" by (simp_all add: va_ok_unat)
  moreover have "var_page_ok qemu_layout alias_ctx 0 0" "var_page_ok qemu_layout alias_ctx 0 1"
    unfolding var_page_ok_def alias_vas alias_vars
    by (simp_all add: default_page_def alias_phys alias_vas reset_var_info_def BITMASK_def PAGE_SHIFT_def)
  ultimately show ?thesis unfolding init_ready_def h alias_table
    alias_vars(1) all_two alias_vas
    using alias_post by (simp add: h alias_st_def)
qed

lemma alias_last: "last_of P (length (heap_vars alias_ctx)) = (if P 1 then Some 1 else if P 0 then Some 0 else None)"
  by (simp add: alias_vars(1) numeral_2_eq_2 last_of_Suc)

lemma x_backed: "is_backed_var (ty (heap_vars alias_ctx ! 0))" "init_val alias_ctx 0 = 1" "\<not> is_backed_var (ty (heap_vars alias_ctx ! 1))"
  unfolding init_val_def alias_vars by simp_all

lemma x_attrs: "var_attrs alias_ctx 0 = final_attrs PROT_DEFAULT_HEAP" "var_page qemu_layout alias_ctx 0 0 = 0x47800000"
  by (simp_all add: var_attrs_def var_page_def alias_vars alias_vas default_page_def alias_phys
      reset_var_info_def set_ap_def set_attridx_def BITMASK_def PAGE_SHIFT_def)

lemma alias_harness: "hlay conc_harness = qemu_layout" by (simp add: conc_harness_def)

lemma alias_aligned: "testdata_aligned qemu_layout"
  by (simp add: testdata_aligned_def qemu_values GiB_def take_bit_eq_mask mask_eq_exp_minus_1)

theorem write_init_state_correct_witness:
  "\<exists>st'. write_init_state conc_harness alias_ctx 0 0 alias_st = Inr st' \<and>
     translate (mem (ivm st')) 0x45800000 0x2000000008 = Some (0x47800008, final_attrs PROT_DEFAULT_HEAP) \<and>
     translate (mem (ivm st')) 0x45800000 0x2000001000 = None \<and> idata st' 0x1007800000 = 1"
proof -
  have v: "va_ok 0x2000000008" "va_ok 0x2000001000" by (simp_all add: va_ok_unat)
  have t: "take_bit 12 0x2000000008 = (8 :: u64)" by (simp add: take_bit_eq_mask mask_eq_exp_minus_1)
  have x: "var_translation qemu_layout alias_ctx 0 0 0x2000000008 = Some (0x47800008, final_attrs PROT_DEFAULT_HEAP)"
    by (simp add: var_translation_def x_attrs t) (simp add: alias_vars)
  have a: "SAFE_TESTDATA_VA qemu_layout 0x2000000000 = 0x1007800000"
    by (simp add: SAFE_TESTDATA_VA_def IN_TESTDATA_RANGE_def TESTDATA_MMAP_SIZE_def GiB_def alias_phys qemu_values HARNESS_MMAP_PHYS_TO_VIRT_def)
  have p: "same_page 0x2000000008 0x2000000000" "\<not> same_page 0x2000000008 0x2000010000"
    "\<not> same_page 0x2000001000 0x2000000000" "\<not> same_page 0x2000001000 0x2000010000"
    by (simp_all add: page_nat)
  have z: "translate (mem (ivm alias_st)) r y = None" for r y by (simp add: alias_st_def translate_zero)
  show ?thesis
    using write_init_state_correct [OF alias_ready, of 0, unfolded alias_table alias_harness alias_last alias_vas] v x
    by (auto simp: p z x_backed a simp del: One_nat_def)
qed

theorem initial_value_readable_witness:
  "\<exists>st' pa at. write_init_state conc_harness alias_ctx 0 0 alias_st = Inr st' \<and>
    translate (mem (ivm st')) 0x45800000 0x2000000000 = Some (pa, at) \<and>
    idata st' (HARNESS_MMAP_PHYS_TO_VIRT qemu_layout pa) = 1"
proof -
  have p: "\<not> same_page 0x2000010000 0x2000000000" by (simp add: page_nat)
  show ?thesis
    using initial_value_readable [OF alias_ready, unfolded alias_harness alias_table alias_vars(1) all_two alias_vas,
        OF alias_aligned, of 0, unfolded alias_vas x_backed(2)] x_backed p by (simp del: One_nat_def)
qed

theorem alias_page_correct_iff_witness:
  "\<exists>st' pa at pw aw. write_init_state conc_harness alias_ctx 0 0 alias_st = Inr st' \<and>
    translate (mem (ivm st')) 0x45800000 0x2000010000 = Some (pa, at) \<and>
    translate (mem (ivm st')) 0x45800000 0x2000000000 = Some (pw, aw) \<and> \<not> same_page pa pw"
proof -
  have p: "\<not> same_page 0x2000010000 0x2000000000" "\<not> same_page 0x2000000000 0x2000010000" by (simp_all add: page_nat)
  have t: "ty (heap_vars alias_ctx ! 1) = VAR_ALIAS 0" "IN_TESTDATA_RANGE qemu_layout 0x2000000000"
    unfolding alias_vars by (simp_all add: IN_TESTDATA_RANGE_def TESTDATA_MMAP_SIZE_def GiB_def qemu_values)
  have b: "bit (0x47810000 :: u64) 16" "\<not> bit (0x47800000 :: u64) 16" by simp_all
  show ?thesis
    using alias_page_correct_iff [OF alias_ready, unfolded alias_harness alias_table alias_vars(1) all_two,
        OF alias_aligned _ t(1)] x_backed(1) t(2) p b
    by (simp add: alias_vas alias_phys del: One_nat_def)
qed

end
