(* ===== verification/Dll.thy ===== *)
theory Dll
  imports Prelude
begin

text \<open>
  Doubly linked lists as the two allocator lists have them (\<open>lib/valloc/valloc_freelist.c\<close>,
  \<open>lib/valloc/valloc_alloclist.c\<close>): two maps of links, with \<open>None\<close> for \<open>NULL\<close>, and a head. What
  unlinking a node and pushing one in front do, in terms of the list of the nodes, and the walk along
  \<open>next\<close> that every loop over such a list makes.
\<close>

section \<open>Links\<close>

text \<open>\<open>SET\<close> of \<open>inc/valloc/valloc.h\<close>: assign through a pointer unless it is \<open>NULL\<close>.\<close>

definition SET :: "'p option \<Rightarrow> 'v \<Rightarrow> ('p \<Rightarrow> 'v) \<Rightarrow> 'p \<Rightarrow> 'v" where
  "SET a v f = (case a of None \<Rightarrow> f | Some p \<Rightarrow> f(p := v))"

lemma SET_simps [simp]: "SET None v f = f" "SET (Some p) v f = f(p := v)"
  by (simp_all add: SET_def)

text \<open>A segment: the nodes from \<open>h\<close> up to \<open>e\<close>, after \<open>b\<close>; the last one is \<open>l\<close>.\<close>

fun dseg :: "('p \<Rightarrow> 'p option) \<Rightarrow> ('p \<Rightarrow> 'p option) \<Rightarrow> 'p option \<Rightarrow> 'p option \<Rightarrow> 'p list \<Rightarrow> 'p option \<Rightarrow> 'p option \<Rightarrow> bool" where
  "dseg nx pv b h [] e l \<longleftrightarrow> h = e \<and> b = l"
| "dseg nx pv b h (x # xs) e l \<longleftrightarrow> h = Some x \<and> pv x = b \<and> dseg nx pv (Some x) (nx x) xs e l"

definition dll :: "('p \<Rightarrow> 'p option) \<Rightarrow> ('p \<Rightarrow> 'p option) \<Rightarrow> 'p option \<Rightarrow> 'p list \<Rightarrow> bool" where
  "dll nx pv h xs \<longleftrightarrow> distinct xs \<and> (\<exists>l. dseg nx pv None h xs None l)"

lemma dseg_append: "dseg nx pv b h (xs @ ys) e l \<longleftrightarrow> (\<exists>m k. dseg nx pv b h xs m k \<and> dseg nx pv k m ys e l)"
  by (induction xs arbitrary: b h) auto

lemma dseg_frame:
  "(\<And>x. x \<in> set xs \<Longrightarrow> nx' x = nx x \<and> pv' x = pv x) \<Longrightarrow> dseg nx' pv' b h xs e l = dseg nx pv b h xs e l"
  by (induction xs arbitrary: b h) auto

lemma dll_frame:
  "(\<And>x. x \<in> set xs \<Longrightarrow> nx' x = nx x \<and> pv' x = pv x) \<Longrightarrow> dll nx' pv' h xs = dll nx pv h xs"
  unfolding dll_def using dseg_frame [of xs nx' nx pv' pv] by blast

lemma dll_Nil [simp]: "dll nx pv h [] \<longleftrightarrow> h = None"
  by (auto simp: dll_def)

lemma dll_head: "dll nx pv h xs \<Longrightarrow> h = (case xs of [] \<Rightarrow> None | x # _ \<Rightarrow> Some x)"
  by (cases xs) (auto simp: dll_def)

lemma dll_distinct: "dll nx pv h xs \<Longrightarrow> distinct xs"
  by (simp add: dll_def)

section \<open>The walk\<close>

text \<open>The nodes from a pointer on, with fuel: \<open>None\<close> when there are more.\<close>

fun nodes_from :: "nat \<Rightarrow> ('p \<Rightarrow> 'p option) \<Rightarrow> 'p option \<Rightarrow> 'p list option" where
  "nodes_from n nx None = Some []"
| "nodes_from 0 nx (Some x) = None"
| "nodes_from (Suc n) nx (Some x) = map_option (Cons x) (nodes_from n nx (nx x))"

lemma nodes_from_dseg: "dseg nx pv b h xs None l \<Longrightarrow> length xs \<le> n \<Longrightarrow> nodes_from n nx h = Some xs"
proof (induction xs arbitrary: b h n)
  case (Cons x xs)
  then obtain m where "n = Suc m" by (cases n) auto
  with Cons show ?case by auto
qed simp

lemma nodes_from_dll: "dll nx pv h xs \<Longrightarrow> length xs \<le> n \<Longrightarrow> nodes_from n nx h = Some xs"
  by (auto simp: dll_def intro: nodes_from_dseg)

section \<open>Unlinking and pushing\<close>

text \<open>The links after a node is taken out: \<open>SET(prev, next, next)\<close> and \<open>SET(next, prev, prev)\<close>.\<close>

definition unlink_next :: "('p \<Rightarrow> 'p option) \<Rightarrow> ('p \<Rightarrow> 'p option) \<Rightarrow> 'p \<Rightarrow> 'p \<Rightarrow> 'p option" where
  "unlink_next nx pv x = SET (pv x) (nx x) nx"

definition unlink_prev :: "('p \<Rightarrow> 'p option) \<Rightarrow> ('p \<Rightarrow> 'p option) \<Rightarrow> 'p \<Rightarrow> 'p \<Rightarrow> 'p option" where
  "unlink_prev nx pv x = SET (nx x) (pv x) pv"

definition unlink_head :: "('p \<Rightarrow> 'p option) \<Rightarrow> ('p \<Rightarrow> 'p option) \<Rightarrow> 'p \<Rightarrow> 'p option \<Rightarrow> 'p option" where
  "unlink_head nx pv x h = (case pv x of None \<Rightarrow> nx x | Some _ \<Rightarrow> h)"

lemma dseg_last: "dseg nx pv b h xs e l \<Longrightarrow> l = (if xs = [] then b else Some (last xs))"
  by (induction xs arbitrary: b h) (auto split: if_splits)

lemma dseg_snoc: "dseg nx pv b h (xs @ [p]) e l \<longleftrightarrow>
    (\<exists>k. dseg nx pv b h xs (Some p) k \<and> pv p = k) \<and> nx p = e \<and> l = Some p"
  by (auto simp: dseg_append)

lemma dseg_after:
  assumes "dseg nx pv (Some x) (nx x) bs None l" "x \<notin> set bs" "distinct bs"
  shows "dseg nx (SET (nx x) k pv) k (nx x) bs None (if bs = [] then k else l)"
proof (cases bs)
  case (Cons c cs)
  with assms have c: "nx x = Some c" "pv c = Some x" "dseg nx pv (Some c) (nx c) cs None l" "c \<notin> set cs" by auto
  have "dseg nx (pv(c := k)) (Some c) (nx c) cs None l"
    using c(3,4) by (subst dseg_frame [of cs _ nx _ pv]) auto
  with c Cons show ?thesis by simp
qed (use assms in auto)

lemma dll_unlink:
  assumes "dll nx pv h xs" "x \<in> set xs"
  shows "dll (unlink_next nx pv x) (unlink_prev nx pv x) (unlink_head nx pv x h) (remove1 x xs)"
    and "y \<notin> set xs \<Longrightarrow> unlink_next nx pv x y = nx y \<and> unlink_prev nx pv x y = pv y"
proof -
  obtain as bs where xs: "xs = as @ x # bs" using assms(2) by (meson split_list)
  from assms(1) obtain l where d: "distinct xs" and seg: "dseg nx pv None h xs None l" by (auto simp: dll_def)
  from seg xs have as: "dseg nx pv None h as (Some x) (pv x)" and bs: "dseg nx pv (Some x) (nx x) bs None l"
    by (auto simp: dseg_append)
  have dd: "x \<notin> set as" "x \<notin> set bs" "distinct as" "distinct bs" "set as \<inter> set bs = {}" using d xs by auto
  have rem: "remove1 x xs = as @ bs" using xs dd(1) by (simp add: remove1_append)
  have p: "pv x = (if as = [] then None else Some (last as))" using dseg_last [OF as] by simp
  have n: "nx x = Some c \<Longrightarrow> c \<in> set bs" for c using bs by (cases bs) auto
  have after: "dseg nx (unlink_prev nx pv x) (pv x) (nx x) bs None (if bs = [] then pv x else l)"
    using dseg_after [OF bs dd(2,4), of "pv x"] by (simp add: unlink_prev_def)
  have nx_bs: "unlink_next nx pv x z = nx z" if "z \<notin> set as" for z
    using that p by (auto simp: unlink_next_def SET_def)
  have pv_as: "unlink_prev nx pv x z = pv z" if "z \<notin> set bs" for z
    using that n by (cases "nx x") (auto simp: unlink_prev_def)
  have bs': "dseg (unlink_next nx pv x) (unlink_prev nx pv x) (pv x) (nx x) bs None (if bs = [] then pv x else l)"
    using after by (subst dseg_frame [of bs _ nx _ "unlink_prev nx pv x"]) (use nx_bs dd(5) in auto)
  have as': "dseg (unlink_next nx pv x) (unlink_prev nx pv x) None (unlink_head nx pv x h) as (nx x) (pv x)"
  proof (cases as rule: rev_cases)
    case Nil
    with as p show ?thesis by (simp add: unlink_head_def)
  next
    case (snoc cs q)
    with p have q: "pv x = Some q" by simp
    have "dseg nx pv None h cs (Some q) (pv q)" using as snoc by (simp add: dseg_snoc)
    then have "dseg (unlink_next nx pv x) (unlink_prev nx pv x) None h cs (Some q) (pv q)"
      by (subst dseg_frame [of cs _ nx _ pv]) (use q snoc dd pv_as in \<open>auto simp: unlink_next_def\<close>)
    moreover have "unlink_prev nx pv x q = pv q" using pv_as dd snoc by auto
    ultimately show ?thesis using q snoc by (auto simp: dseg_snoc unlink_head_def unlink_next_def)
  qed
  show "dll (unlink_next nx pv x) (unlink_prev nx pv x) (unlink_head nx pv x h) (remove1 x xs)"
    using as' bs' dd by (auto simp: dll_def rem dseg_append)
  show "y \<notin> set xs \<Longrightarrow> unlink_next nx pv x y = nx y \<and> unlink_prev nx pv x y = pv y"
    using nx_bs pv_as xs by simp
qed

lemma dll_push:
  assumes "dll nx pv h xs" "x \<notin> set xs"
  shows "dll (nx(x := h)) ((SET h (Some x) pv)(x := None)) (Some x) (x # xs)"
proof (cases xs)
  case Nil
  with assms show ?thesis by (simp add: dll_def)
next
  case (Cons c cs)
  with assms obtain l where d: "h = Some c" "dseg nx pv (Some c) (nx c) cs None l" "distinct (c # cs)" by (auto simp: dll_def)
  have "dseg (nx(x := h)) ((SET h (Some x) pv)(x := None)) (Some c) (nx c) cs None l"
    using d assms(2) Cons by (subst dseg_frame [of cs _ nx _ pv]) auto
  with d assms(2) Cons show ?thesis by (auto simp: dll_def)
qed

end
