(* ===== verification/Valloc.thy ===== *)
theory Valloc
  imports Dll Bits
begin

text \<open>
  The heap (\<open>lib/valloc/valloc.c\<close>, \<open>valloc_freelist.c\<close>, \<open>valloc_alloclist.c\<close>): memory is taken from a
  bar that moves down from \<open>TOP_OF_HEAP\<close> or from the free chunks, which are linked through their own
  first bytes; the live allocations are a list threaded through a fixed array of records. The links are
  maps from the address, or the index in the array, of a record. The bytes of the heap are a separate
  map: the header of a free chunk is in \<open>fsize\<close>, \<open>fprev\<close> and \<open>fnext\<close>, and that these 24 bytes belong to no
  live allocation is part of what is proved of the pool. The lock around every operation is in
  \<open>Sync\<close>.
\<close>

section \<open>The pool\<close>

record valloc_mempool =
  vtop :: u64
  freelist :: "u64 option"
  fsize :: "u64 \<Rightarrow> u64"
  fprev :: "u64 \<Rightarrow> u64 option"
  fnext :: "u64 \<Rightarrow> u64 option"
  cstart :: "nat \<Rightarrow> u64"
  csize :: "nat \<Rightarrow> u64"
  cprev :: "nat \<Rightarrow> nat option"
  cnext :: "nat \<Rightarrow> nat option"
  chunk_alloc_list :: "nat option"
  chunk_unalloc_list :: "nat option"
  hbytes :: mem8

text \<open>The bounds of the heap, from the memory layout.\<close>

record heap_env =
  bot_of_heap :: u64
  top_of_heap :: u64

definition NUM_ALLOC_CHUNKS :: nat where
  "NUM_ALLOC_CHUNKS = 1024"

text \<open>\<open>sizeof(valloc_free_chunk)\<close> and \<open>sizeof(valloc_alloc_chunk)\<close>, without debugging metadata.\<close>

definition SIZEOF_FREE_CHUNK :: u64 where
  "SIZEOF_FREE_CHUNK = 24"

definition SIZEOF_ALLOC_CHUNK :: u64 where
  "SIZEOF_ALLOC_CHUNK = 32"

datatype valloc_err = VallocFail string | VallocAbort | VallocCyclic

definition init_valloc :: "heap_env \<Rightarrow> mem8 \<Rightarrow> valloc_mempool" where
  "init_valloc env m =
     \<lparr>vtop = top_of_heap env, freelist = None, fsize = (\<lambda>_. 0), fprev = (\<lambda>_. None), fnext = (\<lambda>_. None),
      cstart = (\<lambda>_. 0), csize = (\<lambda>_. 0),
      cprev = (\<lambda>i. if i = 0 then None else Some (i - 1)),
      cnext = (\<lambda>i. if i = NUM_ALLOC_CHUNKS - 1 then None else Some (i + 1)),
      chunk_alloc_list = None, chunk_unalloc_list = Some 0, hbytes = m\<rparr>"

section \<open>The list of allocations\<close>

text \<open>A walk longer than there are records never ends.\<close>

definition alloc_nodes :: "valloc_mempool \<Rightarrow> valloc_err + nat list" where
  "alloc_nodes p =
     (case nodes_from NUM_ALLOC_CHUNKS (cnext p) (chunk_alloc_list p) of None \<Rightarrow> Inl VallocCyclic | Some cs \<Rightarrow> Inr cs)"

definition in_chunk :: "valloc_mempool \<Rightarrow> u64 \<Rightarrow> nat \<Rightarrow> bool" where
  "in_chunk p addr c \<longleftrightarrow> cstart p c \<le> addr \<and> addr < cstart p c + csize p c"

definition valloc_alloclist_find_alloc_chunk :: "valloc_mempool \<Rightarrow> u64 \<Rightarrow> valloc_err + nat option" where
  "valloc_alloclist_find_alloc_chunk p addr = rbind (alloc_nodes p) (\<lambda>cs. Inr (find (in_chunk p addr) cs))"

definition move_to_alloc :: "nat \<Rightarrow> valloc_mempool \<Rightarrow> valloc_mempool" where
  "move_to_alloc c p =
     (let nx = unlink_next (cnext p) (cprev p) c; pv = unlink_prev (cnext p) (cprev p) c
      in p\<lparr>chunk_unalloc_list := unlink_head (cnext p) (cprev p) c (chunk_unalloc_list p),
           cnext := nx(c := chunk_alloc_list p),
           cprev := (SET (chunk_alloc_list p) (Some c) pv)(c := None),
           chunk_alloc_list := Some c\<rparr>)"

definition move_to_dealloc :: "nat \<Rightarrow> valloc_mempool \<Rightarrow> valloc_mempool" where
  "move_to_dealloc c p =
     (let nx = unlink_next (cnext p) (cprev p) c; pv = unlink_prev (cnext p) (cprev p) c
      in p\<lparr>chunk_alloc_list := unlink_head (cnext p) (cprev p) c (chunk_alloc_list p),
           cnext := nx(c := chunk_unalloc_list p),
           cprev := (SET (chunk_unalloc_list p) (Some c) pv)(c := None),
           chunk_unalloc_list := Some c\<rparr>)"

definition valloc_alloclist_dealloc :: "u64 \<Rightarrow> valloc_mempool \<Rightarrow> valloc_err + valloc_mempool" where
  "valloc_alloclist_dealloc addr p =
     rbind (valloc_alloclist_find_alloc_chunk p addr) (\<lambda>r.
       case r of
         None \<Rightarrow> Inl (VallocFail ''! err: valloc_alloclist_dealloc no alloc (double free?)'')
       | Some c \<Rightarrow> Inr (move_to_dealloc c p))"

definition valloc_alloclist_alloc :: "u64 \<Rightarrow> u64 \<Rightarrow> valloc_mempool \<Rightarrow> valloc_err + valloc_mempool" where
  "valloc_alloclist_alloc addr sz p =
     (case chunk_unalloc_list p of
        None \<Rightarrow> Inl (VallocFail ''! err: cannot alloc any more chunks'')
      | Some c \<Rightarrow> Inr (move_to_alloc c (p\<lparr>cstart := (cstart p)(c := addr), csize := (csize p)(c := sz)\<rparr>)))"

text \<open>Whether an allocation starts in the region; both ends are included.\<close>

definition valloc_is_region_allocated :: "u64 \<Rightarrow> u64 \<Rightarrow> valloc_mempool \<Rightarrow> valloc_err + bool" where
  "valloc_is_region_allocated a b p = rbind (alloc_nodes p) (\<lambda>cs. Inr (\<exists>c \<in> set cs. a \<le> cstart p c \<and> cstart p c \<le> b))"

section \<open>The free list\<close>

text \<open>No list of distinct 64-bit addresses is longer than the fuel.\<close>

definition free_nodes :: "valloc_mempool \<Rightarrow> valloc_err + u64 list" where
  "free_nodes p =
     (case nodes_from (2 ^ 64) (fnext p) (freelist p) of None \<Rightarrow> Inl VallocCyclic | Some xs \<Rightarrow> Inr xs)"

definition valloc_freelist_allocate_free_chunk :: "u64 \<Rightarrow> u64 \<Rightarrow> valloc_mempool \<Rightarrow> valloc_mempool" where
  "valloc_freelist_allocate_free_chunk addr sz p =
     p\<lparr>fsize := (fsize p)(addr := sz),
       fprev := (SET (freelist p) (Some addr) (fprev p))(addr := None),
       fnext := (fnext p)(addr := freelist p),
       freelist := Some addr\<rparr>"

definition valloc_freelist_remove_chunk :: "u64 \<Rightarrow> valloc_mempool \<Rightarrow> valloc_mempool" where
  "valloc_freelist_remove_chunk x p =
     p\<lparr>freelist := unlink_head (fnext p) (fprev p) x (freelist p),
       fnext := unlink_next (fnext p) (fprev p) x,
       fprev := unlink_prev (fnext p) (fprev p) x\<rparr>"

definition fits :: "valloc_mempool \<Rightarrow> u64 \<Rightarrow> u64 \<Rightarrow> u64 \<Rightarrow> bool" where
  "fits p sz alignment x \<longleftrightarrow> fsize p x > sz + (ALIGN_UP_TO x alignment - x)"

text \<open>The smallest of the chunks that fit, the first of them in the list; the bound starts at \<open>~0\<close>.\<close>

fun best_of :: "valloc_mempool \<Rightarrow> u64 \<Rightarrow> u64 \<Rightarrow> u64 list \<Rightarrow> u64 \<Rightarrow> u64 option \<Rightarrow> u64 option" where
  "best_of p sz alignment [] smallest best = best"
| "best_of p sz alignment (x # xs) smallest best =
     (if fits p sz alignment x \<and> fsize p x < smallest then best_of p sz alignment xs (fsize p x) (Some x)
      else best_of p sz alignment xs smallest best)"

definition valloc_freelist_find_best :: "u64 \<Rightarrow> u64 \<Rightarrow> valloc_mempool \<Rightarrow> valloc_err + u64 option" where
  "valloc_freelist_find_best sz alignment p =
     rbind (free_nodes p) (\<lambda>xs. Inr (best_of p sz alignment xs (- 1) None))"

definition valloc_freelist_split_alignment ::
  "u64 \<Rightarrow> u64 \<Rightarrow> u64 \<Rightarrow> valloc_mempool \<Rightarrow> valloc_err + u64 \<times> valloc_mempool" where
  "valloc_freelist_split_alignment x sz alignment p =
     (let chunk1_size = ALIGN_UP_TO x alignment - x
      in if fsize p x < sz + chunk1_size then
           Inl (VallocFail ''! valloc_freelist_split_alignment: cannot split a chunk that is not big enough'')
         else
           (let p = valloc_freelist_remove_chunk x p;
                chunk3_size = fsize p x - chunk1_size - sz;
                p = valloc_freelist_allocate_free_chunk (x + chunk1_size) sz p;
                p = (if chunk1_size > SIZEOF_FREE_CHUNK then valloc_freelist_allocate_free_chunk x chunk1_size p else p);
                p = (if chunk3_size > SIZEOF_FREE_CHUNK
                     then valloc_freelist_allocate_free_chunk (x + chunk1_size + sz) chunk3_size p else p)
            in Inr (x + chunk1_size, p)))"

subsection \<open>Compaction\<close>

text \<open>
  Whether two chunks can be combined, \<open>c1\<close> below \<open>c2\<close>: they touch, or no allocation starts between them.
  Combining adds the space between them, which is zero when they touch.
\<close>

definition can_combine :: "u64 \<Rightarrow> u64 \<Rightarrow> valloc_mempool \<Rightarrow> valloc_err + bool" where
  "can_combine c1 c2 p =
     (if c1 + fsize p c1 = c2 then Inr True
      else rbind (valloc_is_region_allocated (c1 + fsize p c1) c2 p) (\<lambda>b. Inr (\<not> b)))"

definition combine :: "u64 \<Rightarrow> u64 \<Rightarrow> valloc_mempool \<Rightarrow> valloc_mempool" where
  "combine c1 c2 p =
     valloc_freelist_remove_chunk c2
       (p\<lparr>fsize := (fsize p)(c1 := fsize p c1 +
          (if c1 + fsize p c1 = c2 then fsize p c2 else (c2 - (c1 + fsize p c1)) + fsize p c2))\<rparr>)"

text \<open>The first chunk of the list that the given one combines with, the lower of the two first.\<close>

fun find_partner :: "u64 \<Rightarrow> u64 list \<Rightarrow> valloc_mempool \<Rightarrow> valloc_err + (u64 \<times> u64) option" where
  "find_partner x [] p = Inr None"
| "find_partner x (cur # xs) p =
     (if x < cur then rbind (can_combine x cur p) (\<lambda>b. if b then Inr (Some (x, cur)) else find_partner x xs p)
      else if x \<noteq> cur then rbind (can_combine cur x p) (\<lambda>b. if b then Inr (Some (cur, x)) else find_partner x xs p)
      else find_partner x xs p)"

text \<open>Every round takes one chunk off the list, so the fuel is the number of chunks.\<close>

fun compact_together :: "nat \<Rightarrow> u64 \<Rightarrow> valloc_mempool \<Rightarrow> valloc_err + valloc_mempool" where
  "compact_together n x p =
     rbind (free_nodes p) (\<lambda>xs. rbind (find_partner x xs p) (\<lambda>r.
       case r of
         None \<Rightarrow> Inr p
       | Some (c1, c2) \<Rightarrow> (case n of 0 \<Rightarrow> Inl VallocCyclic | Suc m \<Rightarrow> compact_together m c1 (combine c1 c2 p))))"

declare compact_together.simps [simp del]

text \<open>The chunk with the lowest address.\<close>

fun lowest_of :: "u64 list \<Rightarrow> u64 option \<Rightarrow> u64 option" where
  "lowest_of [] best = best"
| "lowest_of (cur # xs) best =
     lowest_of xs (case best of None \<Rightarrow> Some cur | Some b \<Rightarrow> if b > cur then Some cur else Some b)"

fun shift_top :: "nat \<Rightarrow> valloc_mempool \<Rightarrow> valloc_err + valloc_mempool" where
  "shift_top n p =
     rbind (free_nodes p) (\<lambda>xs.
       case lowest_of xs None of
         None \<Rightarrow> Inr p
       | Some x \<Rightarrow> rbind (valloc_is_region_allocated (vtop p) x p) (\<lambda>b.
           if b then Inr p
           else (case n of
                   0 \<Rightarrow> Inl VallocCyclic
                 | Suc m \<Rightarrow> shift_top m (valloc_freelist_remove_chunk x (p\<lparr>vtop := x + fsize p x\<rparr>)))))"

declare shift_top.simps [simp del]

definition valloc_freelist_compact_chunk :: "u64 \<Rightarrow> valloc_mempool \<Rightarrow> valloc_err + valloc_mempool" where
  "valloc_freelist_compact_chunk x p = rbind (compact_together (2 ^ 64) x p) (shift_top (2 ^ 64))"

section \<open>Allocation\<close>

text \<open>The loop ends since it halves; a value with an odd half is a power of two only when that half is 1.\<close>

function is_pow2 :: "u64 \<Rightarrow> bool" where
  "is_pow2 i = (if i > 0 then if i mod 2 = 1 then i = 1 else is_pow2 (drop_bit 1 i) else False)"
  by pat_completeness auto
termination
  by (relation "measure unat") (auto simp: word_less_nat_alt unat_shift_right_1)

declare is_pow2.simps [simp del]

function pow2_hi :: "u64 \<Rightarrow> nat" where
  "pow2_hi i = (if i > 0 then Suc (pow2_hi (drop_bit 1 i)) else 0)"
  by pat_completeness auto
termination
  by (relation "measure unat") (auto simp: word_less_nat_alt unat_shift_right_1)

declare pow2_hi.simps [simp del]

text \<open>Shifting by 64, which a value from \<open>2 ^ 63\<close> on asks for, is undefined in C; here it gives 0.\<close>

definition next_largest_pow2 :: "u64 \<Rightarrow> u64" where
  "next_largest_pow2 i = push_bit (pow2_hi i) 1"

definition valloc_memset :: "u64 \<Rightarrow> u8 \<Rightarrow> u64 \<Rightarrow> mem8 \<Rightarrow> mem8" where
  "valloc_memset ptr v sz m = (\<lambda>a. if ptr \<le> a \<and> a < ptr + sz then v else m a)"

definition valloc_memcpy :: "u64 \<Rightarrow> u64 \<Rightarrow> u64 \<Rightarrow> mem8 \<Rightarrow> mem8" where
  "valloc_memcpy dest src sz m = fold (\<lambda>i m. m(dest + of_nat i := m (src + of_nat i))) [0..<unat sz] m"

definition alloc_aligned :: "heap_env \<Rightarrow> u64 \<Rightarrow> u64 \<Rightarrow> valloc_mempool \<Rightarrow> valloc_err + u64 \<times> valloc_mempool" where
  "alloc_aligned env sz alignment p =
     rbind (valloc_freelist_find_best sz alignment p) (\<lambda>r.
       case r of
         Some x \<Rightarrow>
           rbind (valloc_freelist_split_alignment x sz alignment p) (\<lambda>(x, p).
           rbind (valloc_alloclist_alloc x sz p) (\<lambda>p.
             Inr (x, valloc_freelist_remove_chunk x p)))
       | None \<Rightarrow>
           if sz > vtop p - bot_of_heap env then Inl (VallocFail ''! error: cannot allocate'')
           else
             (let new_top = ALIGN_POW2 (vtop p - sz) alignment
              in if new_top < bot_of_heap env then Inl VallocAbort
                 else rbind (valloc_alloclist_alloc new_top (vtop p - new_top) (p\<lparr>vtop := new_top\<rparr>)) (\<lambda>p. Inr (new_top, p))))"

definition zeroed :: "u64 \<Rightarrow> u64 \<times> valloc_mempool \<Rightarrow> u64 \<times> valloc_mempool" where
  "zeroed sz = (\<lambda>(ptr, p). (ptr, p\<lparr>hbytes := valloc_memset ptr 0 sz (hbytes p)\<rparr>))"

definition alloc_with_alignment :: "heap_env \<Rightarrow> u64 \<Rightarrow> u64 \<Rightarrow> valloc_mempool \<Rightarrow> valloc_err + u64 \<times> valloc_mempool" where
  "alloc_with_alignment env sz alignment p =
     (let (sz, alignment) = (if sz < SIZEOF_FREE_CHUNK then (next_largest_pow2 SIZEOF_FREE_CHUNK, 8) else (sz, alignment));
          alignment = (if alignment < SIZEOF_ALLOC_CHUNK then next_largest_pow2 SIZEOF_ALLOC_CHUNK else alignment)
      in rbind (alloc_aligned env sz alignment p) (\<lambda>r. Inr (zeroed sz r)))"

definition alloc :: "heap_env \<Rightarrow> u64 \<Rightarrow> valloc_mempool \<Rightarrow> valloc_err + u64 \<times> valloc_mempool" where
  "alloc env sz p =
     (let sz = (if is_pow2 sz then sz else next_largest_pow2 sz);
          alignment = (if sz \<le> 8 then sz else 8);
          (sz, alignment) = (if sz < SIZEOF_FREE_CHUNK then (next_largest_pow2 SIZEOF_FREE_CHUNK, 8) else (sz, alignment))
      in rbind (alloc_aligned env sz alignment p) (\<lambda>r. Inr (zeroed sz r)))"

definition free :: "u64 \<Rightarrow> valloc_mempool \<Rightarrow> valloc_err + valloc_mempool" where
  "free ptr p =
     rbind (valloc_alloclist_find_alloc_chunk p ptr) (\<lambda>r.
       case r of
         None \<Rightarrow> Inl (VallocFail ''! err: free (double free?)'')
       | Some c \<Rightarrow>
           (let sz = csize p c
            in rbind (valloc_alloclist_dealloc ptr p) (\<lambda>p.
               let p = valloc_freelist_allocate_free_chunk ptr sz p
               in valloc_freelist_compact_chunk ptr p)))"

definition free_all :: "heap_env \<Rightarrow> valloc_mempool \<Rightarrow> valloc_mempool" where
  "free_all env p = init_valloc env (hbytes p)"

text \<open>The size copied is that of the old allocation, whatever the new size is.\<close>

definition realloc :: "heap_env \<Rightarrow> u64 \<Rightarrow> u64 \<Rightarrow> valloc_mempool \<Rightarrow> valloc_err + u64 \<times> valloc_mempool" where
  "realloc env ptr new_size p =
     rbind (alloc env new_size p) (\<lambda>(new_p, p).
     rbind (valloc_alloclist_find_alloc_chunk p ptr) (\<lambda>r.
       case r of
         None \<Rightarrow> Inl (VallocFail ''null pointer'')
       | Some c \<Rightarrow>
           (let p = p\<lparr>hbytes := valloc_memcpy new_p ptr (csize p c) (hbytes p)\<rparr>
            in rbind (free ptr p) (\<lambda>p. Inr (new_p, p)))))"

section \<open>Queries\<close>

definition valloc_is_free :: "u64 \<Rightarrow> valloc_mempool \<Rightarrow> valloc_err + bool" where
  "valloc_is_free va p =
     (if va < vtop p then Inr True
      else rbind (free_nodes p) (\<lambda>xs. Inr (\<exists>x \<in> set xs. x \<le> va \<and> va \<le> x + fsize p x)))"

definition valloc_free_size :: "heap_env \<Rightarrow> valloc_mempool \<Rightarrow> valloc_err + u64" where
  "valloc_free_size env p =
     rbind (alloc_nodes p) (\<lambda>cs. Inr (vtop p - bot_of_heap env - fold (\<lambda>c used. used + csize p c) cs 0))"

definition valloc_alloclist_count_chunks :: "valloc_mempool \<Rightarrow> valloc_err + nat" where
  "valloc_alloclist_count_chunks p = rbind (alloc_nodes p) (\<lambda>cs. Inr (length cs))"

end
