(* ===== verification/HeapSpec.thy ===== *)
theory HeapSpec
  imports Main
begin

text \<open>
  What a heap of free chunks and allocated blocks has to keep, for any naming of the two: the arithmetic
  behind the operations of \<open>lib/valloc\<close>. A chunk or block is its start and its end. The free chunks are
  told apart by the allocations: one starts between any two of them, and below each.
\<close>

type_synonym span = "nat \<times> nat"

definition apart :: "span \<Rightarrow> span \<Rightarrow> bool" where
  "apart a b \<longleftrightarrow> snd a \<le> fst b \<or> snd b \<le> fst a"

lemma apart_sym: "apart a b \<longleftrightarrow> apart b a"
  by (auto simp: apart_def)

definition within :: "nat \<Rightarrow> nat \<Rightarrow> span \<Rightarrow> bool" where
  "within t T b \<longleftrightarrow> t \<le> fst b \<and> fst b + 24 \<le> snd b \<and> snd b \<le> T"

definition heap_ok :: "nat \<Rightarrow> nat \<Rightarrow> nat \<Rightarrow> 'x set \<Rightarrow> ('x \<Rightarrow> span) \<Rightarrow> 'y set \<Rightarrow> ('y \<Rightarrow> span) \<Rightarrow> bool" where
  "heap_ok B T t X f Y g \<longleftrightarrow> B \<le> t \<and> t \<le> T \<and>
     (\<forall>x \<in> X. within t T (f x)) \<and> (\<forall>y \<in> Y. within t T (g y)) \<and>
     (\<forall>x \<in> X. \<forall>x' \<in> X. x \<noteq> x' \<longrightarrow> apart (f x) (f x')) \<and>
     (\<forall>y \<in> Y. \<forall>y' \<in> Y. y \<noteq> y' \<longrightarrow> apart (g y) (g y')) \<and>
     (\<forall>x \<in> X. \<forall>y \<in> Y. apart (f x) (g y))"

text \<open>The starts \<open>S\<close> tell the chunks apart when one lies in the gap between any two, and below each.\<close>

definition told_apart :: "nat set \<Rightarrow> 'x set \<Rightarrow> ('x \<Rightarrow> span) \<Rightarrow> bool" where
  "told_apart S X f \<longleftrightarrow> (\<forall>x \<in> X. \<forall>x' \<in> X. fst (f x) < fst (f x') \<longrightarrow> (\<exists>s \<in> S. snd (f x) \<le> s \<and> s \<le> fst (f x')))"

definition based :: "nat set \<Rightarrow> 'x set \<Rightarrow> ('x \<Rightarrow> span) \<Rightarrow> bool" where
  "based S X f \<longleftrightarrow> (\<forall>x \<in> X. \<exists>s \<in> S. s \<le> fst (f x))"

definition starts :: "'y set \<Rightarrow> ('y \<Rightarrow> span) \<Rightarrow> nat set" where
  "starts Y g = fst ` g ` Y"

lemma heap_okD:
  assumes "heap_ok B T t X f Y g"
  shows "B \<le> t" "t \<le> T" "x \<in> X \<Longrightarrow> within t T (f x)" "y \<in> Y \<Longrightarrow> within t T (g y)"
    "x \<in> X \<Longrightarrow> x' \<in> X \<Longrightarrow> x \<noteq> x' \<Longrightarrow> apart (f x) (f x')"
    "y \<in> Y \<Longrightarrow> y' \<in> Y \<Longrightarrow> y \<noteq> y' \<Longrightarrow> apart (g y) (g y')"
    "x \<in> X \<Longrightarrow> y \<in> Y \<Longrightarrow> apart (f x) (g y)"
  using assms by (auto simp: heap_ok_def)

lemma told_apartD: "told_apart S X f \<Longrightarrow> x \<in> X \<Longrightarrow> x' \<in> X \<Longrightarrow> fst (f x) < fst (f x') \<Longrightarrow> \<exists>s \<in> S. snd (f x) \<le> s \<and> s \<le> fst (f x')"
  by (auto simp: told_apart_def)

lemma apart_lt: "apart a b \<Longrightarrow> within t T a \<Longrightarrow> within t T b \<Longrightarrow> fst a < fst b \<longleftrightarrow> snd a \<le> fst b"
  by (auto simp: apart_def within_def)

lemma apart_neq: "apart a b \<Longrightarrow> within t T a \<Longrightarrow> within t T b \<Longrightarrow> fst a \<noteq> fst b"
  by (auto simp: apart_def within_def)

section \<open>The operations\<close>

lemma heap_ok_cong:
  "(\<And>x. x \<in> X \<Longrightarrow> f' x = f x) \<Longrightarrow> (\<And>y. y \<in> Y \<Longrightarrow> g' y = g y) \<Longrightarrow> heap_ok B T t X f' Y g' = heap_ok B T t X f Y g"
  by (simp add: heap_ok_def)

lemma told_apart_cong: "(\<And>x. x \<in> X \<Longrightarrow> f' x = f x) \<Longrightarrow> told_apart S X f' = told_apart S X f"
  by (simp add: told_apart_def)

lemma based_cong: "(\<And>x. x \<in> X \<Longrightarrow> f' x = f x) \<Longrightarrow> based S X f' = based S X f"
  by (simp add: based_def)

lemma told_apart_mono: "told_apart S X f \<Longrightarrow> S \<subseteq> S' \<Longrightarrow> X' \<subseteq> X \<Longrightarrow> told_apart S' X' f"
  unfolding told_apart_def by blast

lemma based_mono: "based S X f \<Longrightarrow> S \<subseteq> S' \<Longrightarrow> X' \<subseteq> X \<Longrightarrow> based S' X' f"
  unfolding based_def by blast

lemma heap_ok_mono: "heap_ok B T t X f Y g \<Longrightarrow> X' \<subseteq> X \<Longrightarrow> Y' \<subseteq> Y \<Longrightarrow> heap_ok B T t X' f Y' g"
  unfolding heap_ok_def by (intro conjI; blast)

text \<open>Adding a block, and moving the bar down for it.\<close>

lemma heap_ok_add_block:
  assumes "heap_ok B T t X f Y g" "within t T b" "\<And>x. x \<in> X \<Longrightarrow> apart (f x) b" "\<And>z. z \<in> Y \<Longrightarrow> apart (g z) b"
  shows "heap_ok B T t X f (insert y Y) (g(y := b))"
  using assms by (auto simp: heap_ok_def apart_sym [of b])

lemma heap_ok_add_chunk:
  assumes "heap_ok B T t X f Y g" "within t T b" "\<And>z. z \<in> X \<Longrightarrow> apart (f z) b" "\<And>y. y \<in> Y \<Longrightarrow> apart (g y) b"
  shows "heap_ok B T t (insert x X) (f(x := b)) Y g"
  using assms by (auto simp: heap_ok_def apart_sym [of b])

lemma heap_ok_lower: "heap_ok B T t X f Y g \<Longrightarrow> B \<le> t' \<Longrightarrow> t' \<le> t \<Longrightarrow> heap_ok B T t' X f Y g"
  by (auto simp: heap_ok_def within_def)

lemma heap_ok_alloc_top:
  assumes "heap_ok B T t X f Y g" "B \<le> t'" "t' + 24 \<le> t" "y \<notin> Y"
  shows "heap_ok B T t' X f (insert y Y) (g(y := (t', t)))"
proof (rule heap_ok_add_block)
  show "heap_ok B T t' X f Y g" by (rule heap_ok_lower [OF assms(1,2)]) (use assms(3) in simp)
  show "within t' T (t', t)" using assms(3) heap_okD(2) [OF assms(1)] by (simp add: within_def)
  show "apart (f x) (t', t)" if "x \<in> X" for x using heap_okD(3) [OF assms(1) that] by (simp add: apart_def within_def)
  show "apart (g z) (t', t)" if "z \<in> Y" for z using heap_okD(4) [OF assms(1) that] by (simp add: apart_def within_def)
qed

text \<open>The parts of a chunk are as far apart from the rest as the chunk was.\<close>

lemma apart_part: "apart w (a, e) \<Longrightarrow> a \<le> l \<Longrightarrow> h \<le> e \<Longrightarrow> l \<le> h \<Longrightarrow> apart w (l, h)"
  by (auto simp: apart_def)

lemma heap_ok_add_chunk_if:
  assumes "heap_ok B T t X f Y g" "x \<notin> X" "P \<Longrightarrow> within t T b" "\<And>z. z \<in> X \<Longrightarrow> apart (f z) b" "\<And>y. y \<in> Y \<Longrightarrow> apart (g y) b"
  shows "heap_ok B T t (if P then insert x X else X) (f(x := b)) Y g"
proof (cases P)
  case True
  then show ?thesis using heap_ok_add_chunk [OF assms(1) assms(3) assms(4,5)] by simp
next
  case False
  have "heap_ok B T t X (f(x := b)) Y g" using assms(1,2) by (subst heap_ok_cong [where f = f and g = g]) auto
  with False show ?thesis by simp
qed

text \<open>
  Splitting a chunk \<open>x\<close> into one below the new block, the block, and one above it; each of the two
  chunks is kept only when it is large enough.
\<close>

lemma heap_ok_split:
  assumes ok: "heap_ok B T t X f Y g" and x: "x \<in> X" "f x = (a, e)" and y: "y \<notin> Y"
    and b: "a \<le> b" "b + 24 \<le> c" "c \<le> e" and P: "P1 \<Longrightarrow> a + 24 \<le> b" "P3 \<Longrightarrow> c + 24 \<le> e"
    and fresh: "x1 \<notin> X - {x}" "x3 \<notin> X - {x}" "x1 \<noteq> x3"
  shows "heap_ok B T t ((X - {x}) \<union> (if P1 then {x1} else {}) \<union> (if P3 then {x3} else {})) (f(x1 := (a, b), x3 := (c, e)))
    (insert y Y) (g(y := (b, c)))"
proof -
  have rest: "heap_ok B T t (X - {x}) f Y g" using ok by (rule heap_ok_mono) auto
  have in_x: "within t T (a, e)" using heap_okD(3) [OF ok x(1)] x(2) by simp
  have px: "apart (f z) (a, e)" if "z \<in> X - {x}" for z using heap_okD(5) [OF ok _ x(1), of z] that x(2) by auto
  have py: "apart (g z) (a, e)" if "z \<in> Y" for z using heap_okD(7) [OF ok x(1) that] x(2) by (simp add: apart_sym)
  have 1: "heap_ok B T t (X - {x}) f (insert y Y) (g(y := (b, c)))"
  proof (rule heap_ok_add_block [OF rest])
    show "within t T (b, c)" using in_x b by (simp add: within_def)
    show "apart (f z) (b, c)" if "z \<in> X - {x}" for z by (rule apart_part [OF px [OF that]]) (use b in auto)
    show "apart (g z) (b, c)" if "z \<in> Y" for z by (rule apart_part [OF py [OF that]]) (use b in auto)
  qed
  have 2: "heap_ok B T t (if P1 then insert x1 (X - {x}) else X - {x}) (f(x1 := (a, b))) (insert y Y) (g(y := (b, c)))"
  proof (rule heap_ok_add_chunk_if [OF 1 fresh(1)])
    show "within t T (a, b)" if P1 using in_x b P(1) [OF that] by (simp add: within_def)
    show "apart (f z) (a, b)" if "z \<in> X - {x}" for z by (rule apart_part [OF px [OF that]]) (use b in auto)
    show "apart ((g(y := (b, c))) z) (a, b)" if "z \<in> insert y Y" for z
      using that py [of z] b apart_part [of "g z" a e a b] by (cases "z = y") (auto simp: apart_def [of "(b, c)"])
  qed
  have 3: "heap_ok B T t (if P3 then insert x3 (if P1 then insert x1 (X - {x}) else X - {x}) else (if P1 then insert x1 (X - {x}) else X - {x}))
      (f(x1 := (a, b), x3 := (c, e))) (insert y Y) (g(y := (b, c)))"
  proof (rule heap_ok_add_chunk_if [OF 2])
    show "x3 \<notin> (if P1 then insert x1 (X - {x}) else X - {x})" using fresh by simp
    show "within t T (c, e)" if P3 using in_x b P(2) [OF that] by (simp add: within_def)
    show "apart ((f(x1 := (a, b))) z) (c, e)" if "z \<in> (if P1 then insert x1 (X - {x}) else X - {x})" for z
      using that px [of z] b apart_part [of "f z" a e c e] by (cases "z = x1") (auto simp: apart_def [of "(a, b)"] split: if_splits)
    show "apart ((g(y := (b, c))) z) (c, e)" if "z \<in> insert y Y" for z
      using that py [of z] b apart_part [of "g z" a e c e] by (cases "z = y") (auto simp: apart_def [of "(b, c)"])
  qed
  have "(if P3 then insert x3 (if P1 then insert x1 (X - {x}) else X - {x}) else (if P1 then insert x1 (X - {x}) else X - {x})) =
      (X - {x}) \<union> (if P1 then {x1} else {}) \<union> (if P3 then {x3} else {})" by auto
  with 3 show ?thesis by simp
qed

lemma told_apart_split:
  assumes ok: "heap_ok B T t X f Y g" and told: "told_apart S X f" and x: "x \<in> X" "f x = (a, e)"
    and b: "a \<le> b" "b \<le> c" "c \<le> e" and fresh: "x1 \<notin> X - {x}" "x3 \<notin> X - {x}" "x1 \<noteq> x3"
  shows "told_apart (insert b S) ((X - {x}) \<union> (if P1 then {x1} else {}) \<union> (if P3 then {x3} else {})) (f(x1 := (a, b), x3 := (c, e)))"
proof -
  let ?f = "f(x1 := (a, b), x3 := (c, e))"
  have old: "?f z = f z" if "z \<in> X - {x}" for z using that fresh by auto
  have below: "snd (f z) \<le> a \<or> e \<le> fst (f z)" if "z \<in> X - {x}" for z
    using heap_okD(5) [OF ok _ x(1), of z] that x(2) by (auto simp: apart_def)
  have low: "\<exists>s \<in> S. snd (f z) \<le> s \<and> s \<le> a" if "z \<in> X - {x}" "fst (f z) < a" for z
    using told_apartD [OF told _ x(1), of z] that x(2) by auto
  have high: "\<exists>s \<in> S. e \<le> s \<and> s \<le> fst (f z)" if "z \<in> X - {x}" "a < fst (f z)" for z
    using told_apartD [OF told x(1), of z] that x(2) by auto
  have 1: "\<exists>s \<in> insert b S. snd (f z) \<le> s \<and> s \<le> fst (f w)" if "z \<in> X - {x}" "w \<in> X - {x}" "fst (f z) < fst (f w)" for z w
    using told_apartD [OF told, of z w] that by blast
  have 2: "\<exists>s \<in> insert b S. snd (f z) \<le> s \<and> s \<le> l" if z: "z \<in> X - {x}" and l: "fst (f z) < l" "a \<le> l" "l \<le> e" for z l
  proof (cases "fst (f z) < a")
    case True
    with low [OF z] l show ?thesis by (meson insert_iff order_trans)
  next
    case False
    have "within t T (f z)" using heap_okD(3) [OF ok, of z] z by simp
    with below [OF z] l False have False by (auto simp: within_def)
    then show ?thesis ..
  qed
  have 3: "\<exists>s \<in> insert b S. h \<le> s \<and> s \<le> fst (f z)" if z: "z \<in> X - {x}" and h: "a < fst (f z)" "h \<le> e" for z h
    using high [OF z h(1)] h(2) by (meson insert_iff order_trans)
  show ?thesis unfolding told_apart_def
  proof (intro ballI impI)
    fix z w assume z: "z \<in> (X - {x}) \<union> (if P1 then {x1} else {}) \<union> (if P3 then {x3} else {})"
      and w: "w \<in> (X - {x}) \<union> (if P1 then {x1} else {}) \<union> (if P3 then {x3} else {})" and lt: "fst (?f z) < fst (?f w)"
    have z': "z \<in> X - {x} \<or> z = x1 \<or> z = x3" and w': "w \<in> X - {x} \<or> w = x1 \<or> w = x3" using z w by (auto split: if_splits)
    show "\<exists>s \<in> insert b S. snd (?f z) \<le> s \<and> s \<le> fst (?f w)"
    proof (cases "z \<in> X - {x}"; cases "w \<in> X - {x}")
      assume "z \<in> X - {x}" "w \<in> X - {x}"
      with 1 lt old show ?thesis by simp
    next
      assume zz: "z \<in> X - {x}" "w \<notin> X - {x}"
      with w' have "?f w = (a, b) \<or> ?f w = (c, e)" using fresh(3) by auto
      then have "a \<le> fst (?f w)" "fst (?f w) \<le> e" using b by auto
      from 2 [OF zz(1) _ this] lt old [OF zz(1)] show ?thesis by simp
    next
      assume ww: "z \<notin> X - {x}" "w \<in> X - {x}"
      with z' have "?f z = (a, b) \<or> ?f z = (c, e)" using fresh(3) by auto
      then have "a \<le> fst (?f z)" "snd (?f z) \<le> e" using b by auto
      with 3 [OF ww(2), of "snd (?f z)"] lt old [OF ww(2)] show ?thesis by simp
    next
      assume "z \<notin> X - {x}" "w \<notin> X - {x}"
      with z' w' lt fresh(3) b show ?thesis by auto
    qed
  qed
qed

lemma based_split:
  assumes "based S X f" "x \<in> X" "f x = (a, e)" "a \<le> c" "x1 \<notin> X - {x}" "x3 \<notin> X - {x}" "x1 \<noteq> x3"
  shows "based (insert b S) ((X - {x}) \<union> (if P1 then {x1} else {}) \<union> (if P3 then {x3} else {})) (f(x1 := (a, b), x3 := (c, e)))"
proof -
  obtain s where s: "s \<in> S" "s \<le> a" using assms(1-3) by (force simp: based_def)
  show ?thesis unfolding based_def
  proof
    fix z assume z: "z \<in> (X - {x}) \<union> (if P1 then {x1} else {}) \<union> (if P3 then {x3} else {})"
    show "\<exists>s \<in> insert b S. s \<le> fst ((f(x1 := (a, b), x3 := (c, e))) z)"
    proof (cases "z \<in> X - {x}")
      case True
      then have "(f(x1 := (a, b), x3 := (c, e))) z = f z" using assms(5,6) by auto
      with True assms(1) show ?thesis by (force simp: based_def)
    next
      case False
      with z have "z = x1 \<or> z = x3" by (auto split: if_splits)
      then have "a \<le> fst ((f(x1 := (a, b), x3 := (c, e))) z)" using assms(4,7) by auto
      with s show ?thesis by (meson insert_iff order_trans)
    qed
  qed
qed

section \<open>Compaction\<close>

text \<open>
  While a chunk \<open>k\<close> is being combined with others, its start stands for the allocation that was freed.
  Two chunks can be combined when they touch or no allocation starts from the end of the lower to the
  start of the upper, which are included.
\<close>

definition combinable :: "nat set \<Rightarrow> span \<Rightarrow> span \<Rightarrow> bool" where
  "combinable S a b \<longleftrightarrow> snd a = fst b \<or> \<not> (\<exists>s \<in> S. snd a \<le> s \<and> s \<le> fst b)"

lemma none_between:
  assumes ok: "heap_ok B T t X f Y g" and told: "told_apart (insert (fst (f k)) S) (X - {k}) f"
    and c: "c1 \<in> X" "c2 \<in> X" "k = c1 \<or> k = c2" "fst (f c1) < fst (f c2)" "combinable S (f c1) (f c2)"
    and z: "z \<in> X" "z \<noteq> c1" "z \<noteq> c2"
  shows "snd (f z) \<le> fst (f c1) \<or> snd (f c2) \<le> fst (f z)"
proof (rule ccontr)
  assume not: "\<not> ?thesis"
  have ap: "apart (f z) (f c1)" "apart (f z) (f c2)" using heap_okD(5) [OF ok z(1)] c z by auto
  have w: "within t T (f z)" "within t T (f c1)" "within t T (f c2)" using heap_okD(3) [OF ok] c z by auto
  have bet: "snd (f c1) \<le> fst (f z)" "snd (f z) \<le> fst (f c2)" using ap not by (auto simp: apart_def)
  then have no: "\<not> (\<exists>s \<in> S. snd (f c1) \<le> s \<and> s \<le> fst (f c2))" using c(5) w(1) by (auto simp: combinable_def within_def)
  have ne: "c1 \<noteq> c2" using c(4) by auto
  from c(3) show False
  proof
    assume k: "k = c1"
    have "fst (f z) < fst (f c2)" using bet w by (simp add: within_def)
    moreover have "z \<in> X - {k}" "c2 \<in> X - {k}" using z c ne k by auto
    ultimately obtain s where "s \<in> insert (fst (f k)) S" "snd (f z) \<le> s" "s \<le> fst (f c2)" using told_apartD [OF told] by blast
    with k show False using no bet w by (auto simp: within_def)
  next
    assume k: "k = c2"
    have "fst (f c1) < fst (f z)" using bet w by (simp add: within_def)
    moreover have "z \<in> X - {k}" "c1 \<in> X - {k}" using z c ne k by auto
    ultimately obtain s where "s \<in> insert (fst (f k)) S" "snd (f c1) \<le> s" "s \<le> fst (f z)" using told_apartD [OF told] by blast
    with k show False using no bet w by (auto simp: within_def)
  qed
qed

lemma heap_ok_combine:
  assumes ok: "heap_ok B T t X f Y g" and told: "told_apart (insert (fst (f k)) S) (X - {k}) f" and S: "S = starts Y g"
    and c: "c1 \<in> X" "c2 \<in> X" "k = c1 \<or> k = c2" "fst (f c1) < fst (f c2)" "combinable S (f c1) (f c2)"
  shows "heap_ok B T t (X - {c2}) (f(c1 := (fst (f c1), snd (f c2)))) Y g"
    and "told_apart (insert (fst (f c1)) S) (X - {c2} - {c1}) (f(c1 := (fst (f c1), snd (f c2))))"
proof -
  note between = none_between [OF ok told c]
  have w: "within t T (f c1)" "within t T (f c2)" and ap: "apart (f c1) (f c2)" using heap_okD(3,5) [OF ok] c by auto
  have le: "snd (f c1) \<le> fst (f c2)" using apart_lt [OF ap w] c(4) by simp
  have "heap_ok B T t (X - {c1, c2}) f Y g" using ok by (rule heap_ok_mono) auto
  then have "heap_ok B T t (insert c1 (X - {c1, c2})) (f(c1 := (fst (f c1), snd (f c2)))) Y g"
  proof (rule heap_ok_add_chunk)
    show "within t T (fst (f c1), snd (f c2))" using w le by (auto simp: within_def)
    show "apart (f z) (fst (f c1), snd (f c2))" if "z \<in> X - {c1, c2}" for z
      using between [of z] that by (auto simp: apart_def)
    show "apart (g y) (fst (f c1), snd (f c2))" if y: "y \<in> Y" for y
    proof -
      have y': "apart (f c1) (g y)" "apart (f c2) (g y)" "within t T (g y)" using heap_okD(4,7) [OF ok] c y by auto
      have "fst (g y) \<in> S" using y S by (auto simp: starts_def)
      then have "\<not> (snd (f c1) \<le> fst (g y) \<and> fst (g y) \<le> fst (f c2)) \<or> snd (f c1) = fst (f c2)"
        using c(5) by (auto simp: combinable_def)
      with y' w le show ?thesis by (auto simp: apart_def within_def)
    qed
  qed
  moreover have "insert c1 (X - {c1, c2}) = X - {c2}" using c by auto
  ultimately show "heap_ok B T t (X - {c2}) (f(c1 := (fst (f c1), snd (f c2)))) Y g" by simp
  show "told_apart (insert (fst (f c1)) S) (X - {c2} - {c1}) (f(c1 := (fst (f c1), snd (f c2))))"
    unfolding told_apart_def
  proof (intro ballI impI)
    fix u v assume u: "u \<in> X - {c2} - {c1}" and v: "v \<in> X - {c2} - {c1}"
      and lt: "fst ((f(c1 := (fst (f c1), snd (f c2)))) u) < fst ((f(c1 := (fst (f c1), snd (f c2)))) v)"
    then obtain s where s: "s \<in> insert (fst (f k)) S" "snd (f u) \<le> s" "s \<le> fst (f v)"
      using told_apartD [OF told, of u v] c(3) by auto
    have "\<exists>s \<in> insert (fst (f c1)) S. snd (f u) \<le> s \<and> s \<le> fst (f v)"
    proof (cases "s \<in> S \<or> k = c1")
      case True
      with s show ?thesis by blast
    next
      case False
      with s c(3) have "s = fst (f c2)" by auto
      with s between [of u] u w(2) c(4) have "snd (f u) \<le> fst (f c1)" "fst (f c1) \<le> fst (f v)"
        using heap_okD(3) [OF ok, of u] by (auto simp: within_def)
      then show ?thesis by blast
    qed
    with u v show "\<exists>s \<in> insert (fst (f c1)) S. snd ((f(c1 := (fst (f c1), snd (f c2)))) u) \<le> s \<and>
        s \<le> fst ((f(c1 := (fst (f c1), snd (f c2)))) v)" by simp
  qed
qed

lemma told_apart_compact:
  assumes ok: "heap_ok B T t X f Y g" and told: "told_apart (insert (fst (f k)) S) (X - {k}) f" and k: "k \<in> X"
    and none: "\<And>z. z \<in> X \<Longrightarrow> fst (f k) < fst (f z) \<Longrightarrow> \<not> combinable S (f k) (f z)"
      "\<And>z. z \<in> X \<Longrightarrow> fst (f z) < fst (f k) \<Longrightarrow> \<not> combinable S (f z) (f k)"
  shows "told_apart S X f"
  unfolding told_apart_def
proof (intro ballI impI)
  fix u v assume u: "u \<in> X" and v: "v \<in> X" and lt: "fst (f u) < fst (f v)"
  show "\<exists>s \<in> S. snd (f u) \<le> s \<and> s \<le> fst (f v)"
  proof (cases "u = k \<or> v = k")
    case True
    with none u v lt show ?thesis by (auto simp: combinable_def)
  next
    case False
    with told_apartD [OF told, of u v] u v lt obtain s where s: "s \<in> insert (fst (f k)) S" "snd (f u) \<le> s" "s \<le> fst (f v)" by auto
    show ?thesis
    proof (cases "s \<in> S")
      case False
      with s have s': "snd (f u) \<le> fst (f k)" "fst (f k) \<le> fst (f v)" by auto
      have "fst (f u) < fst (f k)" using s'(1) heap_okD(3) [OF ok u] by (simp add: within_def)
      with none(2) [OF u] obtain r where "r \<in> S" "snd (f u) \<le> r" "r \<le> fst (f k)" by (auto simp: combinable_def)
      with s' show ?thesis by force
    qed (use s in blast)
  qed
qed

section \<open>The bar\<close>

lemma heap_ok_shift:
  assumes ok: "heap_ok B T t X f Y g" and S: "S = starts Y g" and x: "x \<in> X" "\<And>z. z \<in> X \<Longrightarrow> fst (f x) \<le> fst (f z)"
    and none: "\<not> (\<exists>s \<in> S. t \<le> s \<and> s \<le> fst (f x))"
  shows "heap_ok B T (snd (f x)) (X - {x}) f Y g"
proof -
  have wx: "within t T (f x)" using heap_okD(3) [OF ok x(1)] .
  have 1: "snd (f x) \<le> fst (f z)" if "z \<in> X - {x}" for z
    using heap_okD(3,5) [OF ok, of z] x that wx by (fastforce simp: within_def apart_def)
  have 2: "snd (f x) \<le> fst (g y)" if y: "y \<in> Y" for y
  proof -
    have "fst (g y) \<in> S" using y S by (auto simp: starts_def)
    with none heap_okD(4) [OF ok y] have "fst (f x) < fst (g y)" by (auto simp: within_def)
    with heap_okD(7) [OF ok x(1) y] heap_okD(4) [OF ok y] show ?thesis by (auto simp: apart_def within_def)
  qed
  have "heap_ok B T t (X - {x}) f Y g" using ok by (rule heap_ok_mono) auto
  with 1 2 wx show ?thesis by (auto simp: heap_ok_def within_def)
qed

lemma based_lowest:
  assumes told: "told_apart S X f" and ok: "heap_ok B T t X f Y g" and x: "x \<in> X" "\<And>z. z \<in> X \<Longrightarrow> fst (f x) \<le> fst (f z)"
    and s: "s \<in> S" "s \<le> fst (f x)"
  shows "based S X f"
  unfolding based_def using s x(2) by (meson order_trans)

section \<open>Fragmentation\<close>

lemma chunks_le_starts:
  assumes ok: "heap_ok B T t X f Y g" and told: "told_apart S X f" and "based S X f" and fin: "finite X" "finite S"
  shows "card X \<le> card S"
proof -
  have "\<exists>s \<in> S. s \<le> fst (f x) \<and> (\<forall>z \<in> X. fst (f z) < fst (f x) \<longrightarrow> snd (f z) \<le> s)" if x: "x \<in> X" for x
  proof (cases "\<exists>z \<in> X. fst (f z) < fst (f x)")
    case False
    with assms(3) x show ?thesis by (auto simp: based_def)
  next
    case True
    let ?L = "{z \<in> X. fst (f z) < fst (f x)}"
    have L: "finite ?L" "?L \<noteq> {}" using True fin by auto
    then have "Max ((\<lambda>z. fst (f z)) ` ?L) \<in> (\<lambda>z. fst (f z)) ` ?L" by (intro Max_in) auto
    then obtain m where m: "m \<in> ?L" "fst (f m) = Max ((\<lambda>z. fst (f z)) ` ?L)" by auto
    have max: "fst (f z) \<le> fst (f m)" if "z \<in> ?L" for z using L(1) that m(2) by (simp only:) (rule Max_ge, auto)
    from told_apartD [OF told _ x] m obtain s where s: "s \<in> S" "snd (f m) \<le> s" "s \<le> fst (f x)" by blast
    have "snd (f z) \<le> s" if z: "z \<in> X" "fst (f z) < fst (f x)" for z
    proof (cases "z = m")
      case False
      have "fst (f z) \<le> fst (f m)" using max z by blast
      with heap_okD(5) [OF ok z(1) _ False] m(1) heap_okD(3) [OF ok, of m] heap_okD(3) [OF ok z(1)] s(2)
      show ?thesis by (auto simp: apart_def within_def)
    qed (use s in simp)
    with s show ?thesis by blast
  qed
  then obtain h where h: "\<And>x. x \<in> X \<Longrightarrow> h x \<in> S \<and> h x \<le> fst (f x) \<and> (\<forall>z \<in> X. fst (f z) < fst (f x) \<longrightarrow> snd (f z) \<le> h x)" by metis
  have less: "h x < h z" if "x \<in> X" "z \<in> X" "fst (f x) < fst (f z)" for x z
  proof -
    have "h x \<le> fst (f x)" "snd (f x) \<le> h z" using h that by blast+
    then show ?thesis using heap_okD(3) [OF ok that(1)] by (simp add: within_def)
  qed
  have "inj_on h X"
  proof (rule inj_onI, rule ccontr)
    fix x z assume xz: "x \<in> X" "z \<in> X" "h x = h z" "x \<noteq> z"
    have "fst (f x) \<noteq> fst (f z)" by (rule apart_neq [OF heap_okD(5) [OF ok xz(1,2,4)] heap_okD(3) [OF ok xz(1)] heap_okD(3) [OF ok xz(2)]])
    then consider "fst (f x) < fst (f z)" | "fst (f z) < fst (f x)" by linarith
    then show False using less xz by cases force+
  qed
  then show ?thesis using h fin by (intro card_inj_on_le [of h]) auto
qed

end
