(* ===== verification/VallocProps.thy ===== *)
theory VallocProps
  imports Valloc HeapSpec
begin

text \<open>
  The heap of \<open>Valloc\<close> keeps the invariant of \<open>HeapSpec\<close>: its lists are well linked, its chunks and
  blocks do not overlap, and the allocations tell its free chunks apart.
\<close>

section \<open>The invariant\<close>

definition fspan :: "valloc_mempool \<Rightarrow> u64 \<Rightarrow> span" where
  "fspan p x = (unat x, unat x + unat (fsize p x))"

definition cspan :: "valloc_mempool \<Rightarrow> nat \<Rightarrow> span" where
  "cspan p c = (unat (cstart p c), unat (cstart p c) + unat (csize p c))"

definition pool_rep :: "valloc_mempool \<Rightarrow> u64 list \<Rightarrow> nat list \<Rightarrow> nat list \<Rightarrow> bool" where
  "pool_rep p xs ys us \<longleftrightarrow> dll (fnext p) (fprev p) (freelist p) xs \<and>
     dll (cnext p) (cprev p) (chunk_alloc_list p) ys \<and> dll (cnext p) (cprev p) (chunk_unalloc_list p) us \<and>
     set ys \<inter> set us = {} \<and> set ys \<union> set us = {..<NUM_ALLOC_CHUNKS}"

definition spans_ok :: "heap_env \<Rightarrow> valloc_mempool \<Rightarrow> u64 set \<Rightarrow> nat set \<Rightarrow> bool" where
  "spans_ok env p X Y \<longleftrightarrow>
     heap_ok (unat (bot_of_heap env)) (unat (top_of_heap env)) (unat (vtop p)) X (fspan p) Y (cspan p)"

definition pool_ok :: "heap_env \<Rightarrow> valloc_mempool \<Rightarrow> u64 list \<Rightarrow> nat list \<Rightarrow> nat list \<Rightarrow> bool" where
  "pool_ok env p xs ys us \<longleftrightarrow> pool_rep p xs ys us \<and> spans_ok env p (set xs) (set ys) \<and>
     told_apart (starts (set ys) (cspan p)) (set xs) (fspan p) \<and> based (starts (set ys) (cspan p)) (set xs) (fspan p)"

section \<open>Walks\<close>

lemma free_nodes_rep: "pool_rep p xs ys us \<Longrightarrow> free_nodes p = Inr xs"
proof -
  assume r: "pool_rep p xs ys us"
  then have "distinct xs" by (auto simp: pool_rep_def dest: dll_distinct)
  then have "length xs \<le> 2 ^ 64"
    using card_mono [of "UNIV :: u64 set" "set xs"] by (simp add: distinct_card card_word)
  with r nodes_from_dll show ?thesis by (fastforce simp: free_nodes_def pool_rep_def)
qed

lemma alloc_nodes_rep: "pool_rep p xs ys us \<Longrightarrow> alloc_nodes p = Inr ys"
proof -
  assume r: "pool_rep p xs ys us"
  then have "distinct ys" "set ys \<subseteq> {..<NUM_ALLOC_CHUNKS}" by (auto simp: pool_rep_def dest: dll_distinct)
  then have "length ys \<le> NUM_ALLOC_CHUNKS" using card_mono [of "{..<NUM_ALLOC_CHUNKS}" "set ys"] by (simp add: distinct_card)
  with r nodes_from_dll show ?thesis by (fastforce simp: alloc_nodes_def pool_rep_def)
qed

lemma rep_distinct: "pool_rep p xs ys us \<Longrightarrow> distinct xs \<and> distinct ys \<and> distinct us"
  by (auto simp: pool_rep_def dest: dll_distinct)

lemma region_allocated_rep:
  "pool_rep p xs ys us \<Longrightarrow> valloc_is_region_allocated a b p = Inr (\<exists>s \<in> starts (set ys) (cspan p). unat a \<le> s \<and> s \<le> unat b)"
  by (simp add: valloc_is_region_allocated_def alloc_nodes_rep starts_def cspan_def word_le_nat_alt)

section \<open>The list operations\<close>

lemma rep_push: "pool_rep p xs ys us \<Longrightarrow> a \<notin> set xs \<Longrightarrow> pool_rep (valloc_freelist_allocate_free_chunk a sz p) (a # xs) ys us"
  using dll_push [of "fnext p" "fprev p" "freelist p" xs a] by (simp add: pool_rep_def valloc_freelist_allocate_free_chunk_def)

lemma rep_remove: "pool_rep p xs ys us \<Longrightarrow> x \<in> set xs \<Longrightarrow> pool_rep (valloc_freelist_remove_chunk x p) (remove1 x xs) ys us"
  using dll_unlink(1) [of "fnext p" "fprev p" "freelist p" xs x] by (simp add: pool_rep_def valloc_freelist_remove_chunk_def)

lemma push_fields [simp]:
  "fsize (valloc_freelist_allocate_free_chunk a sz p) = (fsize p)(a := sz)"
  "vtop (valloc_freelist_allocate_free_chunk a sz p) = vtop p"
  "cstart (valloc_freelist_allocate_free_chunk a sz p) = cstart p"
  "csize (valloc_freelist_allocate_free_chunk a sz p) = csize p"
  "hbytes (valloc_freelist_allocate_free_chunk a sz p) = hbytes p"
  by (simp_all add: valloc_freelist_allocate_free_chunk_def)

lemma remove_fields [simp]:
  "fsize (valloc_freelist_remove_chunk x p) = fsize p" "vtop (valloc_freelist_remove_chunk x p) = vtop p"
  "cstart (valloc_freelist_remove_chunk x p) = cstart p" "csize (valloc_freelist_remove_chunk x p) = csize p"
  "hbytes (valloc_freelist_remove_chunk x p) = hbytes p"
  by (simp_all add: valloc_freelist_remove_chunk_def)

lemma move_fields [simp]:
  "fsize (move_to_alloc c p) = fsize p" "vtop (move_to_alloc c p) = vtop p" "cstart (move_to_alloc c p) = cstart p"
  "csize (move_to_alloc c p) = csize p" "hbytes (move_to_alloc c p) = hbytes p"
  "fsize (move_to_dealloc c p) = fsize p" "vtop (move_to_dealloc c p) = vtop p" "cstart (move_to_dealloc c p) = cstart p"
  "csize (move_to_dealloc c p) = csize p" "hbytes (move_to_dealloc c p) = hbytes p"
  by (simp_all add: move_to_alloc_def move_to_dealloc_def Let_def)

lemma spans_of_remove [simp]:
  "fspan (valloc_freelist_remove_chunk x p) = fspan p" "cspan (valloc_freelist_remove_chunk x p) = cspan p"
  by (simp_all add: fspan_def cspan_def fun_eq_iff)

lemma spans_of_push [simp]:
  "fspan (valloc_freelist_allocate_free_chunk a sz p) = (fspan p)(a := (unat a, unat a + unat sz))"
  "cspan (valloc_freelist_allocate_free_chunk a sz p) = cspan p"
  by (simp_all add: fspan_def cspan_def fun_eq_iff)

lemma spans_of_move [simp]:
  "fspan (move_to_alloc c p) = fspan p" "cspan (move_to_alloc c p) = cspan p"
  "fspan (move_to_dealloc c p) = fspan p" "cspan (move_to_dealloc c p) = cspan p"
  by (simp_all add: fspan_def cspan_def fun_eq_iff)

text \<open>Moving a record from one of two lists that share their links to the other.\<close>

lemma dll_swap:
  assumes "dll nx pv h1 xs" "dll nx pv h2 ys" "set xs \<inter> set ys = {}" "c \<in> set xs"
  shows "dll ((unlink_next nx pv c)(c := h2)) ((SET h2 (Some c) (unlink_prev nx pv c))(c := None)) (unlink_head nx pv c h1) (remove1 c xs)"
    and "dll ((unlink_next nx pv c)(c := h2)) ((SET h2 (Some c) (unlink_prev nx pv c))(c := None)) (Some c) (c # ys)"
proof -
  note u = dll_unlink [OF assms(1,4)]
  have d: "distinct xs" using dll_distinct [OF assms(1)] .
  have h2: "h2 = Some y \<Longrightarrow> y \<in> set ys" for y using dll_head [OF assms(2)] by (auto split: list.splits)
  have "dll (unlink_next nx pv c) (unlink_prev nx pv c) h2 ys"
    using assms(2,3) u(2) by (subst dll_frame [of ys _ nx _ pv]) auto
  then show "dll ((unlink_next nx pv c)(c := h2)) ((SET h2 (Some c) (unlink_prev nx pv c))(c := None)) (Some c) (c # ys)"
    by (rule dll_push) (use assms in auto)
  show "dll ((unlink_next nx pv c)(c := h2)) ((SET h2 (Some c) (unlink_prev nx pv c))(c := None)) (unlink_head nx pv c h1) (remove1 c xs)"
  proof (subst dll_frame [of _ _ "unlink_next nx pv c" _ "unlink_prev nx pv c"])
    fix z assume "z \<in> set (remove1 c xs)"
    then have "z \<in> set xs" "z \<noteq> c" using d by auto
    with h2 assms(3) show "((unlink_next nx pv c)(c := h2)) z = unlink_next nx pv c z \<and>
        ((SET h2 (Some c) (unlink_prev nx pv c))(c := None)) z = unlink_prev nx pv c z"
      by (cases h2) auto
  qed (rule u(1))
qed

lemma rep_alloc:
  assumes "pool_rep p xs ys (c # us)"
  shows "pool_rep (move_to_alloc c p) xs (c # ys) us"
proof -
  have "set (c # us) \<inter> set ys = {}" using assms by (auto simp: pool_rep_def)
  with dll_swap [of "cnext p" "cprev p" "chunk_unalloc_list p" "c # us" "chunk_alloc_list p" ys c] assms
  show ?thesis by (auto simp: pool_rep_def move_to_alloc_def Let_def dest: dll_distinct)
qed

lemma rep_dealloc:
  assumes "pool_rep p xs ys us" "c \<in> set ys"
  shows "pool_rep (move_to_dealloc c p) xs (remove1 c ys) (c # us)"
proof -
  have "distinct ys" using assms(1) rep_distinct by blast
  with dll_swap [of "cnext p" "cprev p" "chunk_alloc_list p" ys "chunk_unalloc_list p" us c] assms
  show ?thesis by (auto simp: pool_rep_def move_to_dealloc_def Let_def)
qed

lemma rep_update: "pool_rep (p\<lparr>cstart := f, csize := g\<rparr>) xs ys us = pool_rep p xs ys us"
  "pool_rep (p\<lparr>vtop := t\<rparr>) xs ys us = pool_rep p xs ys us" "pool_rep (p\<lparr>hbytes := m\<rparr>) xs ys us = pool_rep p xs ys us"
  "pool_rep (p\<lparr>fsize := h\<rparr>) xs ys us = pool_rep p xs ys us"
  by (simp_all add: pool_rep_def)

text \<open>Recording an allocation fails only when all the records are in use.\<close>

lemma alloclist_alloc_rep:
  assumes "pool_rep p xs ys us"
  shows "case valloc_alloclist_alloc a sz p of
      Inl e \<Rightarrow> us = [] \<and> (\<exists>m. e = VallocFail m)
    | Inr p' \<Rightarrow> \<exists>c us'. us = c # us' \<and> c \<notin> set ys \<and> pool_rep p' xs (c # ys) us' \<and>
        cspan p' = (cspan p)(c := (unat a, unat a + unat sz)) \<and> cstart p' c = a \<and> csize p' c = sz \<and>
        (\<forall>c'. c' \<noteq> c \<longrightarrow> cstart p' c' = cstart p c' \<and> csize p' c' = csize p c') \<and>
        fsize p' = fsize p \<and> vtop p' = vtop p \<and> hbytes p' = hbytes p"
proof (cases us)
  case Nil
  with assms have "chunk_unalloc_list p = None" by (simp add: pool_rep_def)
  with Nil show ?thesis by (simp add: valloc_alloclist_alloc_def)
next
  case (Cons c us')
  then have "chunk_unalloc_list p = Some c" using assms by (auto simp: pool_rep_def dest: dll_head)
  moreover have "c \<notin> set ys" using assms Cons by (auto simp: pool_rep_def)
  moreover have "pool_rep (move_to_alloc c (p\<lparr>cstart := (cstart p)(c := a), csize := (csize p)(c := sz)\<rparr>)) xs (c # ys) us'"
    by (rule rep_alloc) (use assms Cons in \<open>simp add: rep_update\<close>)
  ultimately show ?thesis using Cons
    by (simp add: valloc_alloclist_alloc_def) (simp add: cspan_def fun_eq_iff)
qed

lemma spans_of_update [simp]:
  "fspan (p\<lparr>vtop := t\<rparr>) = fspan p" "cspan (p\<lparr>vtop := t\<rparr>) = cspan p"
  "fspan (p\<lparr>hbytes := m\<rparr>) = fspan p" "cspan (p\<lparr>hbytes := m\<rparr>) = cspan p"
  by (simp_all add: fspan_def cspan_def fun_eq_iff)

section \<open>Compaction\<close>

abbreviation pool_starts :: "valloc_mempool \<Rightarrow> nat list \<Rightarrow> nat set" where
  "pool_starts p ys \<equiv> starts (set ys) (cspan p)"

lemma spans_okD:
  assumes "spans_ok env p X Y"
  shows "unat (vtop p) \<le> unat (top_of_heap env)" "unat (bot_of_heap env) \<le> unat (vtop p)"
    "x \<in> X \<Longrightarrow> unat (vtop p) \<le> unat x \<and> 24 \<le> unat (fsize p x) \<and> unat x + unat (fsize p x) \<le> unat (top_of_heap env)"
    "c \<in> Y \<Longrightarrow> unat (vtop p) \<le> unat (cstart p c) \<and> 24 \<le> unat (csize p c) \<and> unat (cstart p c) + unat (csize p c) \<le> unat (top_of_heap env)"
  using assms heap_okD(1,2,3,4) [OF assms [unfolded spans_ok_def]] by (auto simp: spans_ok_def within_def fspan_def cspan_def)

lemma chunk_end: "spans_ok env p X Y \<Longrightarrow> x \<in> X \<Longrightarrow> unat (x + fsize p x) = unat x + unat (fsize p x)"
proof -
  assume "spans_ok env p X Y" "x \<in> X"
  then have "unat x + unat (fsize p x) < 2 ^ LENGTH(64)"
    using spans_okD(3) [of env p X Y x] u64_unat_lt [of "top_of_heap env"] by (auto intro: order_le_less_trans)
  then show ?thesis by (rule unat_add_no_wrap)
qed

lemma span_ends [simp]:
  "fst (fspan p x) = unat x" "snd (fspan p x) = unat x + unat (fsize p x)"
  "fst (cspan p c) = unat (cstart p c)" "snd (cspan p c) = unat (cstart p c) + unat (csize p c)"
  by (simp_all add: fspan_def cspan_def)

lemma can_combine_rep:
  assumes "pool_rep p xs ys us" "spans_ok env p (set xs) (set ys)" "c1 \<in> set xs"
  shows "can_combine c1 c2 p = Inr (combinable (pool_starts p ys) (fspan p c1) (fspan p c2))"
proof -
  have "(c1 + fsize p c1 = c2) = (snd (fspan p c1) = fst (fspan p c2))"
    using chunk_end [OF assms(2,3)] by (simp add: fspan_def word_unat_eq_iff)
  moreover have "valloc_is_region_allocated (c1 + fsize p c1) c2 p =
      Inr (\<exists>s \<in> pool_starts p ys. snd (fspan p c1) \<le> s \<and> s \<le> fst (fspan p c2))"
    using chunk_end [OF assms(2,3)] by (simp add: region_allocated_rep [OF assms(1)] fspan_def)
  ultimately show ?thesis by (auto simp: can_combine_def combinable_def)
qed

lemma combine_spans:
  assumes "spans_ok env p X Y" "c1 \<in> X" "c2 \<in> X" "c1 < c2"
  shows "fspan (combine c1 c2 p) = (fspan p)(c1 := (fst (fspan p c1), snd (fspan p c2)))"
proof -
  have "fsize p c1 + (if c1 + fsize p c1 = c2 then fsize p c2 else (c2 - (c1 + fsize p c1)) + fsize p c2) = (c2 + fsize p c2) - c1"
    by (auto simp: algebra_simps)
  moreover have "c1 \<le> c2 + fsize p c2" using assms(4) chunk_end [OF assms(1,3)] by (simp add: word_le_nat_alt word_less_nat_alt)
  then have "unat ((c2 + fsize p c2) - c1) = unat c2 + unat (fsize p c2) - unat c1"
    using chunk_end [OF assms(1,3)] by (simp add: unat_sub_no_wrap)
  moreover have "unat c1 \<le> unat c2 + unat (fsize p c2)" using assms(4) by (simp add: word_less_nat_alt)
  ultimately show ?thesis by (auto simp: combine_def fspan_def fun_eq_iff)
qed

lemma combine_fields [simp]:
  "cspan (combine c1 c2 p) = cspan p" "vtop (combine c1 c2 p) = vtop p" "hbytes (combine c1 c2 p) = hbytes p"
  "cstart (combine c1 c2 p) = cstart p" "csize (combine c1 c2 p) = csize p"
  by (simp_all add: combine_def cspan_def fun_eq_iff)

lemma rep_combine: "pool_rep p xs ys us \<Longrightarrow> c2 \<in> set xs \<Longrightarrow> pool_rep (combine c1 c2 p) (remove1 c2 xs) ys us"
  unfolding combine_def by (rule rep_remove) (simp_all add: rep_update)

lemma find_partner_rep:
  assumes "pool_rep p xs ys us" "spans_ok env p (set xs) (set ys)" "k \<in> set xs" "set zs \<subseteq> set xs"
  shows "\<exists>r. find_partner k zs p = Inr r \<and>
    (case r of
       None \<Rightarrow> \<forall>z \<in> set zs. (k < z \<longrightarrow> \<not> combinable (pool_starts p ys) (fspan p k) (fspan p z)) \<and>
                          (z < k \<longrightarrow> \<not> combinable (pool_starts p ys) (fspan p z) (fspan p k))
     | Some (c1, c2) \<Rightarrow> (k = c1 \<or> k = c2) \<and> c1 \<in> set xs \<and> c2 \<in> set xs \<and> c1 < c2 \<and>
         combinable (pool_starts p ys) (fspan p c1) (fspan p c2))"
  using assms(4)
proof (induction zs)
  case (Cons z zs)
  then have z: "z \<in> set xs" by simp
  have IH: "set zs \<subseteq> set xs" using Cons.prems by simp
  consider "k < z" | "z < k" | "z = k" by (rule linorder_cases)
  then show ?case
  proof cases
    case 1
    then show ?thesis using Cons.IH [OF IH] assms(3) z can_combine_rep [OF assms(1,2,3), of z]
      by (cases "combinable (pool_starts p ys) (fspan p k) (fspan p z)") (auto split: option.splits)
  next
    case 2
    then have "\<not> k < z" "k \<noteq> z" by auto
    with 2 show ?thesis using Cons.IH [OF IH] assms(3) z can_combine_rep [OF assms(1,2) z, of k]
      by (cases "combinable (pool_starts p ys) (fspan p z) (fspan p k)") (auto split: option.splits)
  next
    case 3
    then show ?thesis using Cons.IH [OF IH] by (auto split: option.splits)
  qed
qed simp

lemma fspan_less: "fst (fspan p a) < fst (fspan p b) \<longleftrightarrow> a < b"
  by (simp add: fspan_def word_less_nat_alt)

lemma compact_rep:
  assumes "pool_rep p xs ys us" "spans_ok env p (set xs) (set ys)" "k \<in> set xs"
    "told_apart (insert (unat k) (pool_starts p ys)) (set xs - {k}) (fspan p)" "length xs \<le> Suc n"
  shows "\<exists>p' xs'. compact_together n k p = Inr p' \<and> pool_rep p' xs' ys us \<and> spans_ok env p' (set xs') (set ys) \<and>
    told_apart (pool_starts p ys) (set xs') (fspan p') \<and> length xs' \<le> length xs \<and>
    cspan p' = cspan p \<and> vtop p' = vtop p \<and> hbytes p' = hbytes p \<and> cstart p' = cstart p \<and> csize p' = csize p"
  using assms
proof (induction n arbitrary: p xs k)
  note found = find_partner_rep [OF _ _ _ subset_refl]
  case 0
  then have xs: "xs = [k]" by (cases xs) auto
  with 0 have "compact_together 0 k p = Inr p" by (simp add: compact_together.simps free_nodes_rep)
  moreover have "told_apart (pool_starts p ys) (set xs) (fspan p)" using xs by (simp add: told_apart_def)
  ultimately show ?case using 0 by blast
next
  case (Suc n)
  have told: "told_apart (insert (fst (fspan p k)) (pool_starts p ys)) (set xs - {k}) (fspan p)" using Suc.prems(4) by simp
  have ok: "heap_ok (unat (bot_of_heap env)) (unat (top_of_heap env)) (unat (vtop p)) (set xs) (fspan p) (set ys) (cspan p)"
    using Suc.prems(2) by (simp add: spans_ok_def)
  from find_partner_rep [OF Suc.prems(1-3) subset_refl] obtain r where r: "find_partner k xs p = Inr r"
    "case r of
       None \<Rightarrow> \<forall>z \<in> set xs. (k < z \<longrightarrow> \<not> combinable (pool_starts p ys) (fspan p k) (fspan p z)) \<and>
                          (z < k \<longrightarrow> \<not> combinable (pool_starts p ys) (fspan p z) (fspan p k))
     | Some (c1, c2) \<Rightarrow> (k = c1 \<or> k = c2) \<and> c1 \<in> set xs \<and> c2 \<in> set xs \<and> c1 < c2 \<and>
         combinable (pool_starts p ys) (fspan p c1) (fspan p c2)" by blast
  show ?case
  proof (cases r)
    case None
    with r Suc.prems(1) have "compact_together (Suc n) k p = Inr p" by (simp add: compact_together.simps free_nodes_rep)
    moreover have "told_apart (pool_starts p ys) (set xs) (fspan p)"
      by (rule told_apart_compact [OF ok told Suc.prems(3)]) (use r(2) None fspan_less [of p] in auto)
    ultimately show ?thesis using Suc.prems(1,2) by blast
  next
    case (Some cc)
    obtain c1 c2 where cc: "cc = (c1, c2)" by (cases cc)
    with r(2) Some have c: "k = c1 \<or> k = c2" "c1 \<in> set xs" "c2 \<in> set xs" "c1 < c2"
      "combinable (pool_starts p ys) (fspan p c1) (fspan p c2)" by simp_all
    have c': "fst (fspan p c1) < fst (fspan p c2)" using c(4) fspan_less by blast
    let ?p = "combine c1 c2 p"
    have d: "set (remove1 c2 xs) = set xs - {c2}" using rep_distinct [OF Suc.prems(1)] by simp
    have sp: "fspan ?p = (fspan p)(c1 := (fst (fspan p c1), snd (fspan p c2)))" by (rule combine_spans [OF Suc.prems(2) c(2-4)])
    have 1: "pool_rep ?p (remove1 c2 xs) ys us" using rep_combine [OF Suc.prems(1) c(3)] .
    have 2: "spans_ok env ?p (set (remove1 c2 xs)) (set ys)"
      using heap_ok_combine(1) [OF ok told refl c(2,3,1) c' c(5)] by (simp add: spans_ok_def d sp)
    have 3: "c1 \<in> set (remove1 c2 xs)" using c(2,4) d by auto
    have 4: "told_apart (insert (unat c1) (pool_starts ?p ys)) (set (remove1 c2 xs) - {c1}) (fspan ?p)"
      using heap_ok_combine(2) [OF ok told refl c(2,3,1) c' c(5)] by (simp add: d sp)
    have 5: "length (remove1 c2 xs) \<le> Suc n" using Suc.prems(5) c(3) by (simp add: length_remove1)
    have "compact_together (Suc n) k p = compact_together n c1 ?p"
      using r(1) Some cc Suc.prems(1) by (subst compact_together.simps) (simp add: free_nodes_rep)
    moreover have "length (remove1 c2 xs) \<le> length xs" by (simp add: length_remove1)
    ultimately show ?thesis using Suc.IH [OF 1 2 3 4 5] by (metis (no_types, lifting) combine_fields order_trans)
  qed
qed

section \<open>The bar\<close>

lemma lowest_of_spec:
  "lowest_of xs best = (case best of None \<Rightarrow> if xs = [] then None else Some (Min (set xs)) | Some b \<Rightarrow> Some (Min (insert b (set xs))))"
proof (induction xs best rule: lowest_of.induct)
  case (2 cur xs best)
  have "Min (insert (min b cur) (set xs)) = Min (insert b (insert cur (set xs)))" for b
    by (cases "xs = []") (simp_all add: Min_insert min.assoc)
  moreover have "(if b > cur then Some cur else Some b) = Some (min b cur)" for b by (auto simp: min_def)
  ultimately show ?case using 2 by (cases best) auto
qed (auto split: option.splits)

lemma shift_rep:
  assumes "pool_rep p xs ys us" "spans_ok env p (set xs) (set ys)" "told_apart (pool_starts p ys) (set xs) (fspan p)" "length xs \<le> n"
  shows "\<exists>p' xs'. shift_top n p = Inr p' \<and> pool_ok env p' xs' ys us \<and>
    cspan p' = cspan p \<and> hbytes p' = hbytes p \<and> cstart p' = cstart p \<and> csize p' = csize p"
  using assms
proof (induction n arbitrary: p xs)
  case 0
  then have "shift_top 0 p = Inr p" by (simp add: shift_top.simps free_nodes_rep)
  moreover have "pool_ok env p xs ys us" using 0 by (simp add: pool_ok_def based_def)
  ultimately show ?case by blast
next
  case (Suc n)
  show ?case
  proof (cases "xs = []")
    case True
    then have "shift_top (Suc n) p = Inr p" using Suc.prems(1) by (simp add: shift_top.simps free_nodes_rep)
    moreover have "pool_ok env p xs ys us" using Suc.prems True by (simp add: pool_ok_def based_def)
    ultimately show ?thesis by blast
  next
    case False
    let ?x = "Min (set xs)"
    have x: "?x \<in> set xs" using False by simp
    have low: "fst (fspan p ?x) \<le> fst (fspan p z)" if "z \<in> set xs" for z
      using that Min_le [of "set xs" z] by (simp add: fspan_def word_le_nat_alt)
    have ok: "heap_ok (unat (bot_of_heap env)) (unat (top_of_heap env)) (unat (vtop p)) (set xs) (fspan p) (set ys) (cspan p)"
      using Suc.prems(2) by (simp add: spans_ok_def)
    have reg: "valloc_is_region_allocated (vtop p) ?x p = Inr (\<exists>s \<in> pool_starts p ys. unat (vtop p) \<le> s \<and> s \<le> unat ?x)"
      by (rule region_allocated_rep [OF Suc.prems(1)])
    show ?thesis
    proof (cases "\<exists>s \<in> pool_starts p ys. unat (vtop p) \<le> s \<and> s \<le> unat ?x")
      case True
      then have "shift_top (Suc n) p = Inr p" using reg False Suc.prems(1) by (simp add: shift_top.simps free_nodes_rep lowest_of_spec)
      moreover have "based (pool_starts p ys) (set xs) (fspan p)"
        using True based_lowest [OF Suc.prems(3) ok x low] by auto
      ultimately show ?thesis using Suc.prems by (auto simp: pool_ok_def)
    next
      case none: False
      let ?p = "valloc_freelist_remove_chunk ?x (p\<lparr>vtop := ?x + fsize p ?x\<rparr>)"
      have d: "set (remove1 ?x xs) = set xs - {?x}" using rep_distinct [OF Suc.prems(1)] by simp
      have sp: "fspan ?p = fspan p" "cspan ?p = cspan p" by (simp_all add: fspan_def cspan_def fun_eq_iff)
      have "pool_rep ?p (remove1 ?x xs) ys us" by (rule rep_remove) (use Suc.prems(1) x in \<open>simp_all add: rep_update\<close>)
      moreover have "spans_ok env ?p (set (remove1 ?x xs)) (set ys)"
        using heap_ok_shift [OF ok refl x low] none chunk_end [OF Suc.prems(2) x] by (simp add: spans_ok_def sp d)
      moreover have "told_apart (pool_starts ?p ys) (set (remove1 ?x xs)) (fspan ?p)"
        unfolding sp d by (rule told_apart_mono [OF Suc.prems(3)]) auto
      moreover have "length (remove1 ?x xs) \<le> n" using Suc.prems(4) x by (simp add: length_remove1)
      moreover have "shift_top (Suc n) p = shift_top n ?p"
        using reg none False Suc.prems(1) by (subst shift_top.simps) (simp add: free_nodes_rep lowest_of_spec)
      ultimately show ?thesis using Suc.IH [of ?p "remove1 ?x xs"] sp by auto
    qed
  qed
qed

section \<open>Allocation\<close>

lemma ALIGN_UP_TO_diff:
  assumes "al \<noteq> 0" "2 * unat al \<le> 2 ^ 64"
  shows "unat (ALIGN_UP_TO x al - x) < 2 * unat al"
proof -
  have m: "unat ((- x) mod al) < unat al" using assms(1) by (simp add: unat_mod unat_gt_0)
  then have "unat ((- x) mod al + al) = unat ((- x) mod al) + unat al"
    using assms(2) by (intro unat_add_no_wrap) simp
  with m assms(1) show ?thesis by (auto simp: ALIGN_UP_TO_def unat_gt_0 simp del: unat_mod)
qed

lemma ALIGN_POW2_bounds:
  shows "ALIGN_POW2 v al \<le> v" and "al \<noteq> 0 \<Longrightarrow> unat v < unat (ALIGN_POW2 v al) + unat al"
proof -
  show le: "ALIGN_POW2 v al \<le> v" by (simp add: ALIGN_POW2_def word_and_le2)
  assume al: "al \<noteq> 0"
  have "(v AND (al - 1)) AND (v AND NOT (al - 1)) = 0" by (rule bit_eqI) (auto simp: bit_simps simp del: bit_0)
  then have "(v AND (al - 1)) + (v AND NOT (al - 1)) = (v AND (al - 1)) OR (v AND NOT (al - 1))" by (rule disjunctive_add_eq_or)
  also have "\<dots> = v" by (rule bit_eqI) (auto simp: bit_simps simp del: bit_0)
  finally have "(v AND (al - 1)) + (v AND NOT (al - 1)) = v" .
  then have "v - ALIGN_POW2 v al = v AND (al - 1)" by (simp add: ALIGN_POW2_def algebra_simps)
  then have "v - ALIGN_POW2 v al \<le> al - 1" by (simp add: word_and_le1)
  then have "unat v - unat (ALIGN_POW2 v al) \<le> unat al - 1"
    using le al by (simp add: word_le_nat_alt unat_sub_no_wrap unat_gt_0 Suc_le_eq unat_minus_one)
  moreover have "0 < unat al" using al by (simp add: unat_gt_0)
  ultimately show "unat v < unat (ALIGN_POW2 v al) + unat al" by simp
qed

lemma best_of_spec:
  "best_of p sz al xs sm best = Some x \<Longrightarrow> best = Some x \<or> x \<in> set xs \<and> fits p sz al x"
  by (induction p sz al xs sm best rule: best_of.induct) (auto split: if_splits)

lemma starts_insert: "c \<notin> Y \<Longrightarrow> starts (insert c Y) (g(c := (b, e))) = insert b (starts Y g)"
  by (auto simp: starts_def)

text \<open>What allocating a block does to the pool, whichever way it was found.\<close>

definition block_added ::
  "heap_env \<Rightarrow> valloc_mempool \<Rightarrow> nat list \<Rightarrow> nat list \<Rightarrow> u64 \<Rightarrow> u64 \<Rightarrow> valloc_mempool \<Rightarrow> bool" where
  "block_added env p ys us a s p' \<longleftrightarrow> (\<exists>xs' c us'. us = c # us' \<and> c \<notin> set ys \<and> pool_ok env p' xs' (c # ys) us' \<and>
     cstart p' c = a \<and> csize p' c = s \<and> (\<forall>c'. c' \<noteq> c \<longrightarrow> cstart p' c' = cstart p c' \<and> csize p' c' = csize p c') \<and>
     hbytes p' = hbytes p)"

lemma alloc_bar:
  assumes ok: "pool_ok env p xs ys us" and sz: "24 \<le> unat sz" "al \<noteq> 0" and room: "sz \<le> vtop p - bot_of_heap env"
    and top: "new_top = ALIGN_POW2 (vtop p - sz) al" "bot_of_heap env \<le> new_top"
  shows "case valloc_alloclist_alloc new_top (vtop p - new_top) (p\<lparr>vtop := new_top\<rparr>) of
      Inl e \<Rightarrow> us = [] \<and> (\<exists>m. e = VallocFail m)
    | Inr p' \<Rightarrow> block_added env p ys us new_top (vtop p - new_top) p' \<and> sz \<le> vtop p - new_top"
proof -
  have rep: "pool_rep (p\<lparr>vtop := new_top\<rparr>) xs ys us" using ok by (simp add: pool_ok_def rep_update)
  have hok: "heap_ok (unat (bot_of_heap env)) (unat (top_of_heap env)) (unat (vtop p)) (set xs) (fspan p) (set ys) (cspan p)"
    using ok by (simp add: pool_ok_def spans_ok_def)
  have "bot_of_heap env \<le> vtop p" using heap_okD(1) [OF hok] by (simp add: word_le_nat_alt)
  then have "sz \<le> vtop p" using room by (metis word_le_sub1 word_sub_le order_trans diff_le_self word_le_nat_alt unat_sub)
  then have t: "unat new_top + unat sz \<le> unat (vtop p)"
    using ALIGN_POW2_bounds(1) [of "vtop p - sz" al] top(1) by (simp add: word_le_nat_alt unat_sub_no_wrap)
  then have le: "new_top \<le> vtop p" by (simp add: word_le_nat_alt)
  then have s: "unat (vtop p - new_top) = unat (vtop p) - unat new_top" by (rule unat_sub_no_wrap)
  have szle: "sz \<le> vtop p - new_top" using t s by (simp add: word_le_nat_alt)
  show ?thesis
  proof (cases "valloc_alloclist_alloc new_top (vtop p - new_top) (p\<lparr>vtop := new_top\<rparr>)")
    case (Inl e)
    with alloclist_alloc_rep [OF rep, of new_top "vtop p - new_top"] show ?thesis by simp
  next
    case (Inr p')
    with alloclist_alloc_rep [OF rep, of new_top "vtop p - new_top"] obtain c us' where
      c: "us = c # us'" "c \<notin> set ys" "pool_rep p' xs (c # ys) us'"
        "cspan p' = (cspan p)(c := (unat new_top, unat new_top + unat (vtop p - new_top)))" "cstart p' c = new_top"
        "csize p' c = vtop p - new_top" "\<forall>c'. c' \<noteq> c \<longrightarrow> cstart p' c' = cstart p c' \<and> csize p' c' = csize p c'"
        "fsize p' = fsize p" "vtop p' = new_top" "hbytes p' = hbytes p" by auto
    have f: "fspan p' = fspan p" using c(8) by (simp add: fspan_def fun_eq_iff)
    have g: "cspan p' = (cspan p)(c := (unat new_top, unat (vtop p)))" using c(4) s le by (simp add: word_le_nat_alt)
    have "heap_ok (unat (bot_of_heap env)) (unat (top_of_heap env)) (unat new_top) (set xs) (fspan p) (insert c (set ys))
        ((cspan p)(c := (unat new_top, unat (vtop p))))"
      by (rule heap_ok_alloc_top [OF hok]) (use top(2) t sz c(2) in \<open>auto simp: word_le_nat_alt\<close>)
    moreover have "told_apart (insert (unat new_top) (pool_starts p ys)) (set xs) (fspan p)"
      "based (insert (unat new_top) (pool_starts p ys)) (set xs) (fspan p)"
      using ok by (auto simp: pool_ok_def intro: told_apart_mono based_mono)
    ultimately have "pool_ok env p' xs (c # ys) us'"
      using c(2,3,9) by (simp add: pool_ok_def spans_ok_def f g starts_insert)
    then have "block_added env p ys us new_top (vtop p - new_top) p'"
      unfolding block_added_def using c by blast
    with Inr szle show ?thesis by simp
  qed
qed


lemma alloc_chunk:
  assumes ok: "pool_ok env p xs ys us" and sz: "24 \<le> unat sz" "al \<noteq> 0" "unat sz + 2 * unat al \<le> 2 ^ 64"
    and x: "x \<in> set xs" "fits p sz al x"
  shows "\<exists>p1. valloc_freelist_split_alignment x sz al p = Inr (ALIGN_UP_TO x al, p1) \<and>
    (case valloc_alloclist_alloc (ALIGN_UP_TO x al) sz p1 of
       Inl e \<Rightarrow> us = [] \<and> (\<exists>m. e = VallocFail m)
     | Inr p2 \<Rightarrow> block_added env p ys us (ALIGN_UP_TO x al) sz (valloc_freelist_remove_chunk (ALIGN_UP_TO x al) p2))"
proof -
  define d where "d = ALIGN_UP_TO x al - x"
  define r where "r = fsize p x - d - sz"
  define x3 where "x3 = x + d + sz"
  have b: "x + d = ALIGN_UP_TO x al" by (simp add: d_def)
  have hok: "heap_ok (unat (bot_of_heap env)) (unat (top_of_heap env)) (unat (vtop p)) (set xs) (fspan p) (set ys) (cspan p)"
    and rep: "pool_rep p xs ys us" and sok: "spans_ok env p (set xs) (set ys)"
    using ok by (simp_all add: pool_ok_def spans_ok_def)
  have ud: "unat d < 2 * unat al" unfolding d_def by (rule ALIGN_UP_TO_diff) (use sz in auto)
  have sd: "unat (sz + d) = unat sz + unat d" by (rule unat_add_no_wrap) (use sz ud in simp)
  have fit: "unat sz + unat d < unat (fsize p x)" using x(2) sd by (simp add: fits_def d_def word_less_nat_alt)
  have e: "unat (x + fsize p x) = unat x + unat (fsize p x)" "unat x + unat (fsize p x) < 2 ^ 64"
    using chunk_end [OF sok x(1)] u64_unat_lt [of "x + fsize p x"] by simp_all
  have ub: "unat (x + d) = unat x + unat d" by (rule unat_add_no_wrap) (use e fit in simp)
  have u3: "unat x3 = unat x + unat d + unat sz"
    unfolding x3_def using ub e fit by (subst unat_add_no_wrap) simp_all
  have "unat (fsize p x - d) = unat (fsize p x) - unat d" using fit by (intro unat_sub_no_wrap) (simp add: word_le_nat_alt)
  then have ur: "unat r = unat (fsize p x) - unat d - unat sz"
    unfolding r_def using fit by (subst unat_sub_no_wrap) (simp_all add: word_le_nat_alt)
  have inside: "z \<notin> set xs - {x}" if "unat x \<le> unat z" "unat z < unat x + unat (fsize p x)" for z
  proof
    assume z: "z \<in> set xs - {x}"
    with heap_okD(5) [OF hok x(1), of z] heap_okD(3) [OF hok, of z] that show False by (auto simp: apart_def within_def)
  qed
  have fresh: "x + d \<notin> set xs - {x}" "x3 \<notin> set xs - {x}" by (rule inside; use ub u3 fit in simp)+
  have ne: "x \<noteq> x3" "x + d \<noteq> x3" using u3 ub sz by auto
  have dist: "distinct xs" using rep_distinct [OF rep] by simp
  let ?P1 = "d > 24" and ?P3 = "r > 24"
  define p1 where "p1 = valloc_freelist_allocate_free_chunk (x + d) sz (valloc_freelist_remove_chunk x p)"
  define p2 where "p2 = (if ?P1 then valloc_freelist_allocate_free_chunk x d p1 else p1)"
  define p3 where "p3 = (if ?P3 then valloc_freelist_allocate_free_chunk x3 r p2 else p2)"
  have split: "valloc_freelist_split_alignment x sz al p = Inr (x + d, p3)"
    using fit sd by (simp add: valloc_freelist_split_alignment_def Let_def SIZEOF_FREE_CHUNK_def flip: d_def)
      (simp add: p3_def p2_def p1_def r_def x3_def word_less_nat_alt)
  define xs1 where "xs1 = (x + d) # remove1 x xs"
  define xs2 where "xs2 = (if ?P1 then x # xs1 else xs1)"
  define xs3 where "xs3 = (if ?P3 then x3 # xs2 else xs2)"
  have P1: "x \<noteq> x + d" if ?P1 using that by auto
  have s1: "set (remove1 x xs) = set xs - {x}" using dist by simp
  have "pool_rep p1 xs1 ys us" unfolding p1_def xs1_def
    by (intro rep_push rep_remove rep x) (use fresh s1 in simp)
  then have "pool_rep p2 xs2 ys us" unfolding p2_def xs2_def
    using P1 by (auto intro!: rep_push simp: xs1_def s1)
  then have rep3: "pool_rep p3 xs3 ys us" unfolding p3_def xs3_def
    using fresh ne by (auto intro!: rep_push simp: xs2_def xs1_def s1)
  have f3: "vtop p3 = vtop p" "cspan p3 = cspan p" "cstart p3 = cstart p" "csize p3 = csize p" "hbytes p3 = hbytes p"
    by (simp_all add: p3_def p2_def p1_def)
  let ?X = "(set xs - {x}) \<union> (if ?P1 then {x} else {}) \<union> (if ?P3 then {x3} else {})"
  have bX: "x + d \<in> set xs3" by (simp add: xs3_def xs2_def xs1_def)
  have bnX: "x + d \<notin> ?X" using fresh ne P1 by auto
  have X: "set (remove1 (x + d) xs3) = ?X" using bnX ne rep_distinct [OF rep3] by (auto simp: xs3_def xs2_def xs1_def s1)
  let ?f = "(fspan p)(x := (unat x, unat x + unat d), x3 := (unat x + unat d + unat sz, unat x + unat (fsize p x)))"
  have span: "fspan p3 z = ?f z" if "z \<in> ?X" for z
    using that bnX ne fresh u3 ur fit by (auto simp: p3_def p2_def p1_def split: if_splits)
  have P: "?P1 \<Longrightarrow> 24 \<le> unat d" "?P3 \<Longrightarrow> 24 \<le> unat r" by (simp_all add: word_less_nat_alt)
  note fx = fspan_def [of p x]
  have hok': "heap_ok (unat (bot_of_heap env)) (unat (top_of_heap env)) (unat (vtop p)) ?X ?f (insert c (set ys))
      ((cspan p)(c := (unat x + unat d, unat x + unat d + unat sz)))" if "c \<notin> set ys" for c
    by (rule heap_ok_split [OF hok x(1) fx that]) (use fit sz P ur fresh ne in auto)
  have told: "told_apart (insert (unat x + unat d) (pool_starts p ys)) ?X ?f"
    by (rule told_apart_split [OF hok _ x(1) fx, where b = "unat x + unat d" and c = "unat x + unat d + unat sz"])
      (use ok fit sz fresh ne in \<open>auto simp: pool_ok_def\<close>)
  have bas: "based (insert (unat x + unat d) (pool_starts p ys)) ?X ?f"
    by (rule based_split [where x = x and a = "unat x"]) (use ok x(1) fx fresh ne in \<open>auto simp: pool_ok_def\<close>)
  have "case valloc_alloclist_alloc (x + d) sz p3 of
       Inl e \<Rightarrow> us = [] \<and> (\<exists>m. e = VallocFail m)
     | Inr p2 \<Rightarrow> block_added env p ys us (x + d) sz (valloc_freelist_remove_chunk (x + d) p2)"
  proof (cases "valloc_alloclist_alloc (x + d) sz p3")
    case (Inl e)
    with alloclist_alloc_rep [OF rep3, of "x + d" sz] show ?thesis by simp
  next
    case (Inr p4)
    with alloclist_alloc_rep [OF rep3, of "x + d" sz] obtain c us' where
      c: "us = c # us'" "c \<notin> set ys" "pool_rep p4 xs3 (c # ys) us'"
        "cspan p4 = (cspan p)(c := (unat (x + d), unat (x + d) + unat sz))" "cstart p4 c = x + d" "csize p4 c = sz"
        "\<forall>c'. c' \<noteq> c \<longrightarrow> cstart p4 c' = cstart p c' \<and> csize p4 c' = csize p c'"
        "fsize p4 = fsize p3" "vtop p4 = vtop p" "hbytes p4 = hbytes p" by (auto simp: f3)
    have f4: "fspan p4 = fspan p3" using c(8) by (simp add: fspan_def fun_eq_iff)
    have "pool_rep (valloc_freelist_remove_chunk (x + d) p4) (remove1 (x + d) xs3) (c # ys) us'"
      by (rule rep_remove [OF c(3) bX])
    moreover have "heap_ok (unat (bot_of_heap env)) (unat (top_of_heap env)) (unat (vtop p)) ?X (fspan p3) (insert c (set ys))
        ((cspan p)(c := (unat x + unat d, unat x + unat d + unat sz)))"
      using hok' [OF c(2)] by (subst heap_ok_cong [where f = ?f]) (use span in auto)
    moreover have "told_apart (insert (unat x + unat d) (pool_starts p ys)) ?X (fspan p3)"
      "based (insert (unat x + unat d) (pool_starts p ys)) ?X (fspan p3)"
      by (simp_all only: told_apart_cong [of ?X "fspan p3" ?f, OF span] told based_cong [of ?X "fspan p3" ?f, OF span] bas)
    ultimately have "pool_ok env (valloc_freelist_remove_chunk (x + d) p4) (remove1 (x + d) xs3) (c # ys) us'"
      using c(2,9) by (simp add: pool_ok_def spans_ok_def X c(4) f4 ub starts_insert del: set_remove1_eq)
    then have "block_added env p ys us (x + d) sz (valloc_freelist_remove_chunk (x + d) p4)"
      unfolding block_added_def using c(1,2,5-7,10)
      by (intro exI [of _ "remove1 (x + d) xs3"] exI [of _ c] exI [of _ us']) simp
    with Inr show ?thesis by simp
  qed
  with split show ?thesis unfolding b by blast
qed


lemma find_best_rep:
  assumes "pool_rep p xs ys us"
  shows "\<exists>r. valloc_freelist_find_best sz al p = Inr r \<and> (case r of None \<Rightarrow> True | Some x \<Rightarrow> x \<in> set xs \<and> fits p sz al x)"
  using best_of_spec [of p sz al xs "- 1" None]
  by (auto simp: valloc_freelist_find_best_def free_nodes_rep [OF assms] split: option.split)

lemma alloc_aligned_ok:
  assumes ok: "pool_ok env p xs ys us" and sz: "24 \<le> unat sz" "al \<noteq> 0" "unat sz + 2 * unat al \<le> 2 ^ 64"
  shows "case alloc_aligned env sz al p of
      Inl e \<Rightarrow> e \<noteq> VallocCyclic \<and> (us = [] \<or> unat (vtop p) < unat (bot_of_heap env) + unat sz + unat al)
    | Inr (a, p') \<Rightarrow> \<exists>s. block_added env p ys us a s p' \<and> sz \<le> s \<and> (a = ALIGN_POW2 (vtop p - sz) al \<or> (\<exists>x. a = ALIGN_UP_TO x al))"
proof -
  have rep: "pool_rep p xs ys us" using ok by (simp add: pool_ok_def)
  have hok: "heap_ok (unat (bot_of_heap env)) (unat (top_of_heap env)) (unat (vtop p)) (set xs) (fspan p) (set ys) (cspan p)"
    using ok by (simp add: pool_ok_def spans_ok_def)
  have bv: "bot_of_heap env \<le> vtop p" using heap_okD(1) [OF hok] by (simp add: word_le_nat_alt)
  then have ubv: "unat (vtop p - bot_of_heap env) = unat (vtop p) - unat (bot_of_heap env)" by (rule unat_sub_no_wrap)
  have al: "0 < unat al" using sz(2) by (simp add: unat_gt_0)
  from find_best_rep [OF rep] obtain r where r: "valloc_freelist_find_best sz al p = Inr r"
    "case r of None \<Rightarrow> True | Some x \<Rightarrow> x \<in> set xs \<and> fits p sz al x" by blast
  show ?thesis
  proof (cases r)
    case (Some x)
    with r alloc_chunk [OF ok sz, of x] obtain p1 where
      p1: "valloc_freelist_split_alignment x sz al p = Inr (ALIGN_UP_TO x al, p1)"
      "case valloc_alloclist_alloc (ALIGN_UP_TO x al) sz p1 of
         Inl e \<Rightarrow> us = [] \<and> (\<exists>m. e = VallocFail m)
       | Inr p2 \<Rightarrow> block_added env p ys us (ALIGN_UP_TO x al) sz (valloc_freelist_remove_chunk (ALIGN_UP_TO x al) p2)" by auto
    with r(1) Some show ?thesis
      by (cases "valloc_alloclist_alloc (ALIGN_UP_TO x al) sz p1") (auto simp: alloc_aligned_def)
  next
    case None
    show ?thesis
    proof (cases "sz > vtop p - bot_of_heap env")
      case True
      then have "unat (vtop p) < unat (bot_of_heap env) + unat sz" using ubv bv by (simp add: word_less_nat_alt word_le_nat_alt)
      with True None r(1) show ?thesis by (simp add: alloc_aligned_def)
    next
      case False
      then have room: "sz \<le> vtop p - bot_of_heap env" by simp
      then have "unat sz \<le> unat (vtop p)" using ubv by (simp add: word_le_nat_alt)
      then have uv: "unat (vtop p - sz) = unat (vtop p) - unat sz" by (intro unat_sub_no_wrap) (simp add: word_le_nat_alt)
      show ?thesis
      proof (cases "ALIGN_POW2 (vtop p - sz) al < bot_of_heap env")
        case True
        then have "unat (vtop p) < unat (bot_of_heap env) + unat sz + unat al"
          using ALIGN_POW2_bounds(2) [OF sz(2), of "vtop p - sz"] uv \<open>unat sz \<le> unat (vtop p)\<close> by (simp add: word_less_nat_alt)
        with True room None r(1) show ?thesis by (simp add: alloc_aligned_def Let_def)
      next
        case bot: False
        then have "bot_of_heap env \<le> ALIGN_POW2 (vtop p - sz) al" by simp
        note bar = alloc_bar [OF ok sz(1,2) room refl this]
        let ?b = "ALIGN_POW2 (vtop p - sz) al"
        show ?thesis
          using bar bot room None r(1)
          by (cases "valloc_alloclist_alloc ?b (vtop p - ?b) (p\<lparr>vtop := ?b\<rparr>)") (auto simp: alloc_aligned_def Let_def)
      qed
    qed
  qed
qed

section \<open>Freeing\<close>

lemma find_chunk_rep:
  assumes ok: "pool_ok env p xs ys us" and c: "c \<in> set ys" and a: "unat (cstart p c) \<le> unat a" "unat a < unat (cstart p c) + unat (csize p c)"
  shows "valloc_alloclist_find_alloc_chunk p a = Inr (Some c)"
proof -
  have rep: "pool_rep p xs ys us" using ok by (simp add: pool_ok_def)
  have hok: "heap_ok (unat (bot_of_heap env)) (unat (top_of_heap env)) (unat (vtop p)) (set xs) (fspan p) (set ys) (cspan p)"
    and sok: "spans_ok env p (set xs) (set ys)" using ok by (simp_all add: pool_ok_def spans_ok_def)
  have "unat (cstart p z + csize p z) = unat (cstart p z) + unat (csize p z)" if "z \<in> set ys" for z
    using spans_okD(4) [OF sok that] u64_unat_lt [of "top_of_heap env"] by (intro unat_add_no_wrap) (auto intro: order_le_less_trans)
  then have in_chunk: "in_chunk p a z \<longleftrightarrow> unat (cstart p z) \<le> unat a \<and> unat a < unat (cstart p z) + unat (csize p z)" if "z \<in> set ys" for z
    using that by (simp add: in_chunk_def word_le_nat_alt word_less_nat_alt)
  have only: "z = c" if "z \<in> set ys" "in_chunk p a z" for z
    using heap_okD(6) [OF hok that(1) c] in_chunk [OF that(1)] that(2) a by (auto simp: apart_def)
  obtain z where z: "find (in_chunk p a) ys = Some z"
    using c a in_chunk [OF c] by (cases "find (in_chunk p a) ys") (auto simp: find_None_iff)
  then have "z \<in> set ys" "in_chunk p a z" by (auto simp: find_Some_iff)
  with z only show ?thesis by (simp add: valloc_alloclist_find_alloc_chunk_def alloc_nodes_rep [OF rep])
qed

lemma find_chunk_None:
  assumes ok: "pool_ok env p xs ys us"
    and a: "\<And>c. c \<in> set ys \<Longrightarrow> \<not> (unat (cstart p c) \<le> unat a \<and> unat a < unat (cstart p c) + unat (csize p c))"
  shows "valloc_alloclist_find_alloc_chunk p a = Inr None"
proof -
  have rep: "pool_rep p xs ys us" and sok: "spans_ok env p (set xs) (set ys)" using ok by (simp_all add: pool_ok_def)
  have "unat (cstart p z + csize p z) = unat (cstart p z) + unat (csize p z)" if "z \<in> set ys" for z
    using spans_okD(4) [OF sok that] u64_unat_lt [of "top_of_heap env"] by (intro unat_add_no_wrap) (auto intro: order_le_less_trans)
  then have "\<not> in_chunk p a z" if "z \<in> set ys" for z
    using a [OF that] that by (auto simp: in_chunk_def word_le_nat_alt word_less_nat_alt)
  then have "find (in_chunk p a) ys = None" by (simp add: find_None_iff)
  then show ?thesis by (simp add: valloc_alloclist_find_alloc_chunk_def alloc_nodes_rep [OF rep])
qed

lemma starts_remove: "c \<in> Y \<Longrightarrow> starts Y g \<subseteq> insert (fst (g c)) (starts (Y - {c}) g)"
  unfolding starts_def by (auto simp: image_iff)

lemma free_ok:
  assumes ok: "pool_ok env p xs ys us" and c: "c \<in> set ys" "cstart p c = a"
  shows "\<exists>p' xs'. free a p = Inr p' \<and> pool_ok env p' xs' (remove1 c ys) (c # us) \<and>
    cstart p' = cstart p \<and> csize p' = csize p \<and> hbytes p' = hbytes p"
proof -
  have rep: "pool_rep p xs ys us" and sok: "spans_ok env p (set xs) (set ys)"
    and hok: "heap_ok (unat (bot_of_heap env)) (unat (top_of_heap env)) (unat (vtop p)) (set xs) (fspan p) (set ys) (cspan p)"
    and told: "told_apart (pool_starts p ys) (set xs) (fspan p)"
    using ok by (simp_all add: pool_ok_def spans_ok_def)
  note cc = spans_okD(4) [OF sok c(1)]
  have found: "valloc_alloclist_find_alloc_chunk p a = Inr (Some c)"
    by (rule find_chunk_rep [OF ok c(1)]) (use cc c(2) in auto)
  have d: "set (remove1 c ys) = set ys - {c}" "set (remove1 c ys) \<subseteq> set ys" using rep_distinct [OF rep] by auto
  have fresh: "a \<notin> set xs"
  proof
    assume "a \<in> set xs"
    from heap_okD(7) [OF hok this c(1)] spans_okD(3) [OF sok this] cc c(2) show False by (auto simp: apart_def)
  qed
  let ?p = "valloc_freelist_allocate_free_chunk a (csize p c) (move_to_dealloc c p)"
  have 1: "pool_rep ?p (a # xs) (remove1 c ys) (c # us)" by (rule rep_push [OF rep_dealloc [OF rep c(1)] fresh])
  have span: "fspan ?p = (fspan p)(a := cspan p c)" using c(2) by (simp add: cspan_def)
  have 2: "spans_ok env ?p (set (a # xs)) (set (remove1 c ys))"
    unfolding spans_ok_def span
  proof (simp add: d(1), rule heap_ok_add_chunk)
    show "heap_ok (unat (bot_of_heap env)) (unat (top_of_heap env)) (unat (vtop p)) (set xs) (fspan p) (set ys - {c}) (cspan p)"
      by (rule heap_ok_mono [OF hok]) auto
    show "within (unat (vtop p)) (unat (top_of_heap env)) (cspan p c)" by (rule heap_okD(4) [OF hok c(1)])
    show "apart (fspan p z) (cspan p c)" if "z \<in> set xs" for z by (rule heap_okD(7) [OF hok that c(1)])
    show "apart (cspan p z) (cspan p c)" if "z \<in> set ys - {c}" for z using heap_okD(6) [OF hok _ c(1), of z] that by simp
  qed
  have "told_apart (insert (unat a) (starts (set ys - {c}) (cspan p))) (set xs) (fspan p)"
    using told starts_remove [OF c(1), of "cspan p"] c(2) by (auto intro: told_apart_mono)
  then have 3: "told_apart (insert (unat a) (pool_starts ?p (remove1 c ys))) (set (a # xs) - {a}) (fspan ?p)"
    using fresh by (simp add: d(1) span) (subst told_apart_cong [of _ _ "fspan p"], auto)
  have "length (a # xs) \<le> Suc (2 ^ 64)"
    using rep_distinct [OF rep] card_mono [of "UNIV :: u64 set" "set xs"] by (simp add: distinct_card card_word)
  from compact_rep [OF 1 2 _ 3 this] obtain p2 xs2 where p2: "compact_together (2 ^ 64) a ?p = Inr p2" "pool_rep p2 xs2 (remove1 c ys) (c # us)"
    "spans_ok env p2 (set xs2) (set (remove1 c ys))" "told_apart (pool_starts ?p (remove1 c ys)) (set xs2) (fspan p2)"
    "cspan p2 = cspan ?p" "hbytes p2 = hbytes p" "cstart p2 = cstart p" "csize p2 = csize p" by auto
  have "length xs2 \<le> 2 ^ 64"
    using rep_distinct [OF p2(2)] card_mono [of "UNIV :: u64 set" "set xs2"] by (simp add: distinct_card card_word)
  from shift_rep [OF p2(2,3) _ this] p2(4,5) obtain p3 xs3 where p3: "shift_top (2 ^ 64) p2 = Inr p3"
    "pool_ok env p3 xs3 (remove1 c ys) (c # us)" "hbytes p3 = hbytes p2" "cstart p3 = cstart p2" "csize p3 = csize p2" by auto
  have "free a p = Inr p3"
    using found p2(1) p3(1) by (simp add: free_def valloc_alloclist_dealloc_def valloc_freelist_compact_chunk_def Let_def)
  with p2 p3 show ?thesis by auto
qed

end
