(* ===== verification/AllocSpec.thy ===== *)
theory AllocSpec
  imports Prelude
begin

text \<open>
  The contract of two of the harness's allocators, which hand out ranges of addresses: the heap and the arenas.
  A request is met with an address whose bytes were not in use and
  are in use from then on; so the results of any sequence of requests are disjoint.
\<close>

text \<open>A sequence of requests; a failing one stops the machine.\<close>

fun take_all :: "('r \<Rightarrow> 's \<Rightarrow> 'e + 'a \<times> 's) \<Rightarrow> 'r list \<Rightarrow> 's \<Rightarrow> 'e + 'a list \<times> 's" where
  "take_all tk [] s = Inr ([], s)"
| "take_all tk (r # rs) s = rbind (tk r s) (\<lambda>(a, s). rbind (take_all tk rs s) (\<lambda>(as, s). Inr (a # as, s)))"

lemma take_all_length: "take_all tk rs s = Inr (as, s') \<Longrightarrow> length as = length rs"
  by (induction rs arbitrary: s as) auto

locale region_allocator =
  fixes ok :: "'s \<Rightarrow> bool"
    and used :: "'s \<Rightarrow> nat set"
    and req :: "'r \<Rightarrow> bool"
    and tk :: "'r \<Rightarrow> 's \<Rightarrow> 'e + 'a \<times> 's"
    and bytes :: "'r \<Rightarrow> 'a \<Rightarrow> nat set"
  assumes tk_ok: "ok s \<Longrightarrow> req r \<Longrightarrow> tk r s = Inr (a, s') \<Longrightarrow> ok s'"
    and tk_fresh: "ok s \<Longrightarrow> req r \<Longrightarrow> tk r s = Inr (a, s') \<Longrightarrow> bytes r a \<inter> used s = {}"
    and tk_used: "ok s \<Longrightarrow> req r \<Longrightarrow> tk r s = Inr (a, s') \<Longrightarrow> used s \<union> bytes r a \<subseteq> used s'"
begin

lemma take_all_used:
  assumes "take_all tk rs s = Inr (as, s')" "ok s" "\<forall>r \<in> set rs. req r"
  shows "ok s' \<and> used s \<subseteq> used s' \<and>
    (\<forall>i < length rs. bytes (rs ! i) (as ! i) \<subseteq> used s' \<and> bytes (rs ! i) (as ! i) \<inter> used s = {})"
  using assms
proof (induction rs arbitrary: s as)
  case (Cons r rs)
  then obtain a s1 as1 where 1: "tk r s = Inr (a, s1)" "take_all tk rs s1 = Inr (as1, s')" "as = a # as1" by auto
  have r: "req r" "\<forall>r \<in> set rs. req r" using Cons.prems(3) by auto
  note t = tk_ok [OF Cons.prems(2) r(1) 1(1)] tk_fresh [OF Cons.prems(2) r(1) 1(1)] tk_used [OF Cons.prems(2) r(1) 1(1)]
  note IH = Cons.IH [OF 1(2) t(1) r(2)]
  have "bytes ((r # rs) ! i) (as ! i) \<subseteq> used s' \<and> bytes ((r # rs) ! i) (as ! i) \<inter> used s = {}" if "i < length (r # rs)" for i
    using that IH t 1(3) by (cases i) (auto, blast)
  with IH t show ?case by auto
qed simp

lemma take_all_disjoint:
  assumes "take_all tk rs s = Inr (as, s')" "ok s" "\<forall>r \<in> set rs. req r" "i < j" "j < length rs"
  shows "bytes (rs ! i) (as ! i) \<inter> bytes (rs ! j) (as ! j) = {}"
  using assms
proof (induction rs arbitrary: s as i j)
  case (Cons r rs)
  then obtain a s1 as1 where 1: "tk r s = Inr (a, s1)" "take_all tk rs s1 = Inr (as1, s')" "as = a # as1" by auto
  have r: "req r" "\<forall>r \<in> set rs. req r" using Cons.prems(3) by auto
  note t = tk_ok [OF Cons.prems(2) r(1) 1(1)] tk_used [OF Cons.prems(2) r(1) 1(1)]
  obtain j' where j: "j = Suc j'" "j' < length rs" using Cons.prems(4,5) by (cases j) auto
  show ?case
  proof (cases i)
    case 0
    with j t take_all_used [OF 1(2) t(1) r(2)] 1(3) show ?thesis by fastforce
  next
    case (Suc i')
    with Cons.IH [OF 1(2) t(1) r(2), of i' j'] Cons.prems(4) j 1(3) show ?thesis by simp
  qed
qed simp

end

end
