(* ===== verification/HeapProps.thy ===== *)
theory HeapProps
  imports VallocProps AllocSpec
begin

text \<open>
  What the users of the heap rely on: an allocation is fresh, large enough, aligned and zeroed and
  touches no other; freeing gives back exactly one allocation; and however the two are mixed, the live
  allocations stay disjoint and the free list stays short.
\<close>

section \<open>The live allocations\<close>

definition live :: "valloc_mempool \<Rightarrow> (u64 \<times> u64) list" where
  "live p = (case alloc_nodes p of Inl _ \<Rightarrow> [] | Inr cs \<Rightarrow> map (\<lambda>c. (cstart p c, csize p c)) cs)"

definition bytes_of :: "u64 \<times> u64 \<Rightarrow> nat set" where
  "bytes_of b = {unat (fst b)..<unat (fst b) + unat (snd b)}"

definition pool_inv :: "heap_env \<Rightarrow> valloc_mempool \<Rightarrow> bool" where
  "pool_inv env p \<longleftrightarrow> (\<exists>xs ys us. pool_ok env p xs ys us)"

lemma live_rep: "pool_ok env p xs ys us \<Longrightarrow> live p = map (\<lambda>c. (cstart p c, csize p c)) ys"
  using alloc_nodes_rep [of p xs ys us] by (simp add: live_def pool_ok_def)

lemma ok_counts: "pool_ok env p xs ys us \<Longrightarrow> length ys + length us = NUM_ALLOC_CHUNKS"
proof -
  assume "pool_ok env p xs ys us"
  then have r: "pool_rep p xs ys us" by (simp add: pool_ok_def)
  then have "card (set ys \<union> set us) = NUM_ALLOC_CHUNKS" "set ys \<inter> set us = {}" by (simp_all add: pool_rep_def)
  with rep_distinct [OF r] show ?thesis by (simp add: card_Un_disjoint distinct_card)
qed

lemma ok_blocks:
  assumes "pool_ok env p xs ys us" "c \<in> set ys"
  shows "unat (bot_of_heap env) \<le> unat (cstart p c)" "24 \<le> unat (csize p c)"
    "unat (cstart p c) + unat (csize p c) \<le> unat (top_of_heap env)"
  using assms spans_okD(2,4) [of env p "set xs" "set ys"] by (auto simp: pool_ok_def intro: order_trans)

lemma ok_disjoint:
  assumes "pool_ok env p xs ys us" "c \<in> set ys" "c' \<in> set ys" "c \<noteq> c'"
  shows "bytes_of (cstart p c, csize p c) \<inter> bytes_of (cstart p c', csize p c') = {}"
proof -
  have "apart (cspan p c) (cspan p c')"
    using assms heap_okD(6) by (auto simp: pool_ok_def spans_ok_def)
  then show ?thesis by (auto simp: apart_def bytes_of_def)
qed

text \<open>The invariant in terms of the live allocations and the free chunks.\<close>

definition heap_sound :: "heap_env \<Rightarrow> valloc_mempool \<Rightarrow> bool" where
  "heap_sound env p \<longleftrightarrow>
     (\<forall>b \<in> set (live p). bytes_of b \<subseteq> {unat (bot_of_heap env)..<unat (top_of_heap env)}) \<and>
     (\<forall>i < length (live p). \<forall>j < length (live p). i \<noteq> j \<longrightarrow> bytes_of (live p ! i) \<inter> bytes_of (live p ! j) = {}) \<and>
     (\<exists>xs. free_nodes p = Inr xs \<and> length xs \<le> length (live p) \<and> length (live p) \<le> NUM_ALLOC_CHUNKS \<and>
        (\<forall>x \<in> set xs. 24 \<le> unat (fsize p x) \<and> (\<forall>b \<in> set (live p). bytes_of (x, fsize p x) \<inter> bytes_of b = {})))"

lemma pool_ok_sound:
  assumes ok: "pool_ok env p xs ys us"
  shows "heap_sound env p"
proof -
  have rep: "pool_rep p xs ys us" and sok: "spans_ok env p (set xs) (set ys)"
    and hok: "heap_ok (unat (bot_of_heap env)) (unat (top_of_heap env)) (unat (vtop p)) (set xs) (fspan p) (set ys) (cspan p)"
    and told: "told_apart (pool_starts p ys) (set xs) (fspan p)" and bas: "based (pool_starts p ys) (set xs) (fspan p)"
    using ok by (simp_all add: pool_ok_def spans_ok_def)
  have d: "distinct xs" "distinct ys" using rep_distinct [OF rep] by auto
  note l = live_rep [OF ok]
  have 1: "\<forall>b \<in> set (live p). bytes_of b \<subseteq> {unat (bot_of_heap env)..<unat (top_of_heap env)}"
    using ok_blocks [OF ok] by (fastforce simp: l bytes_of_def)
  have 2: "\<forall>i < length (live p). \<forall>j < length (live p). i \<noteq> j \<longrightarrow> bytes_of (live p ! i) \<inter> bytes_of (live p ! j) = {}"
    using ok_disjoint [OF ok] d(2) by (simp add: l nth_eq_iff_index_eq)
  have "card (set xs) \<le> card (pool_starts p ys)"
    by (rule chunks_le_starts [OF hok told bas]) (simp_all add: starts_def)
  also have "\<dots> \<le> card (set ys)" unfolding starts_def by (metis card_image_le finite_imageI finite_set order_trans)
  finally have 3: "length xs \<le> length (live p)" using d by (simp add: l distinct_card)
  have 4: "length (live p) \<le> NUM_ALLOC_CHUNKS" using ok_counts [OF ok] by (simp add: l)
  have 5: "24 \<le> unat (fsize p x) \<and> (\<forall>b \<in> set (live p). bytes_of (x, fsize p x) \<inter> bytes_of b = {})" if x: "x \<in> set xs" for x
    using spans_okD(3) [OF sok x] heap_okD(7) [OF hok x] by (fastforce simp: l bytes_of_def apart_def)
  show ?thesis unfolding heap_sound_def using 1 2 3 4 5 free_nodes_rep [OF rep] by blast
qed

lemma block_added_live:
  assumes ok: "pool_ok env p xs ys us" and b: "block_added env p ys us a s p'"
  shows "pool_inv env p' \<and> live p' = (a, s) # live p \<and> hbytes p' = hbytes p \<and>
    bytes_of (a, s) \<subseteq> {unat (bot_of_heap env)..<unat (top_of_heap env)} \<and>
    (\<forall>b \<in> set (live p). bytes_of (a, s) \<inter> bytes_of b = {})"
proof -
  from b obtain xs' c us' where c: "us = c # us'" "c \<notin> set ys" "pool_ok env p' xs' (c # ys) us'" "cstart p' c = a" "csize p' c = s"
    "\<forall>c'. c' \<noteq> c \<longrightarrow> cstart p' c' = cstart p c' \<and> csize p' c' = csize p c'" "hbytes p' = hbytes p"
    by (auto simp: block_added_def)
  have same: "cstart p' y = cstart p y \<and> csize p' y = csize p y" if "y \<in> set ys" for y using c(2,6) that by auto
  have "live p' = (a, s) # live p" using live_rep [OF ok] live_rep [OF c(3)] c(4,5) same by simp
  moreover have "bytes_of (a, s) \<subseteq> {unat (bot_of_heap env)..<unat (top_of_heap env)}"
    using ok_blocks [OF c(3), of c] c(4,5) by (auto simp: bytes_of_def)
  moreover have "\<forall>b \<in> set (live p). bytes_of (a, s) \<inter> bytes_of b = {}"
    using ok_disjoint [OF c(3), of c] c(2,4,5) same by (force simp: live_rep [OF ok])
  ultimately show ?thesis using c(3,7) by (auto simp: pool_inv_def)
qed

section \<open>The boot state\<close>

lemma dseg_init:
  "i \<le> n \<Longrightarrow> dseg (\<lambda>i. if i = n - 1 then None else Some (i + 1)) (\<lambda>i. if i = 0 then None else Some (i - 1))
     (if i = 0 then None else Some (i - 1)) (if i = n then None else Some i) [i..<n] None (if n = 0 then None else Some (n - 1))"
proof (induction "n - i" arbitrary: i)
  case (Suc k)
  then have "i < n" by simp
  then have u: "[i..<n] = i # [Suc i..<n]" by (rule upt_conv_Cons)
  have k: "k = n - Suc i" "Suc i \<le> n" using Suc.hyps(2) by linarith+
  have "i = n - 1 \<longleftrightarrow> Suc i = n" using \<open>i < n\<close> by linarith
  with Suc.hyps(1) [OF k] \<open>i < n\<close> show ?case by (auto simp: u split: if_splits)
qed simp

lemma init_valloc_ok:
  assumes "bot_of_heap env \<le> top_of_heap env"
  shows "pool_ok env (init_valloc env m) [] [] [0..<NUM_ALLOC_CHUNKS]"
proof -
  have "NUM_ALLOC_CHUNKS \<noteq> 0" by (simp add: NUM_ALLOC_CHUNKS_def)
  with dseg_init [of 0 NUM_ALLOC_CHUNKS] have "pool_rep (init_valloc env m) [] [] [0..<NUM_ALLOC_CHUNKS]"
    by (auto simp: pool_rep_def init_valloc_def dll_def)
  with assms show ?thesis
    by (simp add: pool_ok_def spans_ok_def heap_ok_def told_apart_def based_def init_valloc_def word_le_nat_alt)
qed

section \<open>Sizes and alignment\<close>

lemma pow2_hi_bounds: "unat i < 2 ^ pow2_hi i \<and> (i \<noteq> 0 \<longrightarrow> 2 ^ pow2_hi i \<le> 2 * unat i)"
proof (induction i rule: pow2_hi.induct)
  case (1 i)
  show ?case
  proof (cases "i > 0")
    case True
    with 1 have IH: "unat i div 2 < 2 ^ pow2_hi (drop_bit 1 i) \<and> (drop_bit 1 i \<noteq> 0 \<longrightarrow> 2 ^ pow2_hi (drop_bit 1 i) \<le> 2 * (unat i div 2))"
      by (simp add: unat_shift_right_1)
    have h: "pow2_hi i = Suc (pow2_hi (drop_bit 1 i))" using True by (simp add: pow2_hi.simps [of i])
    show ?thesis
    proof (cases "drop_bit 1 i = 0")
      case True
      then have "unat i div 2 = 0" using unat_shift_right_1 [of i] by simp
      then have "unat i < 2" by auto
      moreover have "pow2_hi i = 1" using h True by (simp add: pow2_hi.simps [of 0])
      ultimately show ?thesis using \<open>i > 0\<close> by (auto simp: word_less_nat_alt)
    next
      case False
      with IH h show ?thesis by auto
    qed
  next
    case False
    then have "i = 0" by (simp add: word_less_nat_alt unat_eq_zero)
    then show ?thesis by (simp add: pow2_hi.simps [of 0])
  qed
qed

lemma next_largest_pow2_bounds:
  assumes "unat i < 2 ^ 63"
  shows "unat i < unat (next_largest_pow2 i)" "i \<noteq> 0 \<Longrightarrow> unat (next_largest_pow2 i) \<le> 2 * unat i" "unat (next_largest_pow2 i) \<le> 2 ^ 63"
proof -
  have "pow2_hi i < 64"
  proof (rule ccontr)
    assume "\<not> pow2_hi i < 64"
    then have "(2 :: nat) ^ 64 \<le> 2 ^ pow2_hi i" by (intro power_increasing) auto
    with pow2_hi_bounds [of i] assms show False by (cases "i = 0") (auto simp: pow2_hi.simps [of 0])
  qed
  then have u: "unat (next_largest_pow2 i) = 2 ^ pow2_hi i"
    unfolding next_largest_pow2_def using unat_push_bit_one [of "pow2_hi i", where 'a = 64] by (simp del: push_bit_of_1)
  with pow2_hi_bounds [of i] show "unat i < unat (next_largest_pow2 i)" "i \<noteq> 0 \<Longrightarrow> unat (next_largest_pow2 i) \<le> 2 * unat i" by auto
  show "unat (next_largest_pow2 i) \<le> 2 ^ 63" using u \<open>pow2_hi i < 64\<close> power_increasing [of "pow2_hi i" 63 "2 :: nat"] by simp
qed

lemma dvd_word_unat:
  assumes "2 ^ k dvd (w :: u64)" "k < 64"
  shows "2 ^ k dvd unat w"
proof -
  from assms(1) obtain c where "w = 2 ^ k * c" by (rule dvdE)
  then have "unat w = (unat (2 ^ k :: u64) * unat c) mod 2 ^ 64" by (simp add: unat_word_ariths)
  moreover have "unat (2 ^ k :: u64) = 2 ^ k" using assms(2) unat_push_bit_one [of k, where 'a = 64] by simp
  moreover have "(2 :: nat) ^ k dvd 2 ^ 64" using assms(2) by (intro le_imp_power_dvd) simp
  ultimately show ?thesis by (simp add: dvd_mod)
qed

lemma ALIGN_UP_TO_aligned:
  assumes "k < 64"
  shows "IS_ALIGNED (ALIGN_UP_TO x (push_bit k 1)) k"
proof -
  have p: "push_bit k 1 = (2 ^ k :: u64)" by simp
  have "2 ^ k dvd ALIGN_UP_TO x (push_bit k 1)"
  proof (cases "x mod 2 ^ k = 0")
    case True
    then have "x = 2 ^ k * (x div 2 ^ k)" using mult_div_mod_eq [of "2 ^ k" x] by simp
    then have "2 ^ k dvd x" by (rule dvdI)
    with True show ?thesis by (simp add: ALIGN_UP_TO_def p)
  next
    case False
    have "(- x) mod 2 ^ k = - x - 2 ^ k * ((- x) div 2 ^ k)" by (simp add: minus_mult_div_eq_mod)
    then have "ALIGN_UP_TO x (push_bit k 1) = 2 ^ k * (1 - (- x) div 2 ^ k)"
      using False by (simp add: ALIGN_UP_TO_def p algebra_simps)
    then show ?thesis by simp
  qed
  then show ?thesis using dvd_word_unat assms by (simp add: IS_ALIGNED_dvd)
qed

lemma ALIGN_POW2_aligned: "IS_ALIGNED (ALIGN_POW2 v (push_bit k 1)) k"
  using ALIGN_TO_aligned [of v k] by (simp only: ALIGN_POW2_def ALIGN_TO_def)

section \<open>Allocation and freeing\<close>

lemma alloc_aligned_live:
  assumes "pool_inv env p" "24 \<le> unat sz" "al \<noteq> 0" "unat sz + 2 * unat al \<le> 2 ^ 64"
  shows "case alloc_aligned env sz al p of
      Inl e \<Rightarrow> e \<noteq> VallocCyclic \<and> (length (live p) = NUM_ALLOC_CHUNKS \<or> unat (vtop p) < unat (bot_of_heap env) + unat sz + unat al)
    | Inr (a, p') \<Rightarrow> pool_inv env p' \<and> hbytes p' = hbytes p \<and> (\<forall>k < 64. al = push_bit k 1 \<longrightarrow> IS_ALIGNED a k) \<and>
        (\<exists>s \<ge> sz. live p' = (a, s) # live p \<and> bytes_of (a, s) \<subseteq> {unat (bot_of_heap env)..<unat (top_of_heap env)} \<and>
           (\<forall>b \<in> set (live p). bytes_of (a, s) \<inter> bytes_of b = {}))"
proof -
  from assms(1) obtain xs ys us where ok: "pool_ok env p xs ys us" by (auto simp: pool_inv_def)
  note al = alloc_aligned_ok [OF ok assms(2-4)]
  show ?thesis
  proof (cases "alloc_aligned env sz al p")
    case (Inl e)
    with al have "e \<noteq> VallocCyclic" "us = [] \<or> unat (vtop p) < unat (bot_of_heap env) + unat sz + unat al" by simp_all
    with Inl ok_counts [OF ok] show ?thesis by (auto simp: live_rep [OF ok])
  next
    case (Inr r)
    obtain a p' where r: "r = (a, p')" by (cases r)
    with Inr al obtain s where s: "block_added env p ys us a s p'" "sz \<le> s" "a = ALIGN_POW2 (vtop p - sz) al \<or> (\<exists>x. a = ALIGN_UP_TO x al)" by auto
    have "IS_ALIGNED a k" if "k < 64" "al = push_bit k 1" for k
      using s(3) that ALIGN_UP_TO_aligned ALIGN_POW2_aligned by metis
    with block_added_live [OF ok s(1)] s(2) Inr r show ?thesis by auto
  qed
qed

text \<open>What a caller that asks for \<open>want\<close> bytes aligned to \<open>2 ^ k\<close> is given.\<close>

definition fresh_block :: "heap_env \<Rightarrow> valloc_mempool \<Rightarrow> u64 \<Rightarrow> nat \<Rightarrow> u64 \<Rightarrow> valloc_mempool \<Rightarrow> bool" where
  "fresh_block env p want k a p' \<longleftrightarrow> IS_ALIGNED a k \<and>
     (\<exists>s \<ge> want. live p' = (a, s) # live p \<and> bytes_of (a, s) \<subseteq> {unat (bot_of_heap env)..<unat (top_of_heap env)} \<and>
        (\<forall>b \<in> set (live p). bytes_of (a, s) \<inter> bytes_of b = {}) \<and>
        (\<forall>i < unat want. hbytes p' (a + of_nat i) = 0) \<and>
        (\<forall>x. unat x \<notin> bytes_of (a, s) \<longrightarrow> hbytes p' x = hbytes p x))"

lemma live_hbytes [simp]: "live (p\<lparr>hbytes := m\<rparr>) = live p"
  by (simp add: live_def alloc_nodes_def split: option.split)

lemma pool_inv_hbytes [simp]: "pool_inv env (p\<lparr>hbytes := m\<rparr>) = pool_inv env p"
  by (simp add: pool_inv_def pool_ok_def rep_update spans_ok_def)

lemma alloc_step:
  assumes inv: "pool_inv env p" and sz: "24 \<le> unat sz" "al \<noteq> 0" "unat sz + 2 * unat al \<le> 2 ^ 64" "want \<le> sz" "k < 64"
    and al: "al = push_bit k 1"
  shows "case rbind (alloc_aligned env sz al p) (\<lambda>r. Inr (zeroed sz r)) of
      Inl e \<Rightarrow> e \<noteq> VallocCyclic \<and> (length (live p) = NUM_ALLOC_CHUNKS \<or> unat (vtop p) < unat (bot_of_heap env) + unat sz + unat al)
    | Inr (a, p') \<Rightarrow> pool_inv env p' \<and> fresh_block env p want k a p'"
proof (cases "alloc_aligned env sz al p")
  case (Inl e)
  with alloc_aligned_live [OF inv sz(1-3)] show ?thesis by simp
next
  case (Inr r)
  obtain a p' where r: "r = (a, p')" by (cases r)
  with Inr alloc_aligned_live [OF inv sz(1-3)] sz(5) al obtain s where s: "pool_inv env p'" "hbytes p' = hbytes p" "IS_ALIGNED a k" "sz \<le> s"
    "live p' = (a, s) # live p" "bytes_of (a, s) \<subseteq> {unat (bot_of_heap env)..<unat (top_of_heap env)}"
    "\<forall>b \<in> set (live p). bytes_of (a, s) \<inter> bytes_of b = {}" by auto
  have "0 < unat s" using s(4) sz(1) by (simp add: word_le_nat_alt)
  then have top: "unat a + unat s \<le> unat (top_of_heap env)"
    using s(6) by (auto simp: bytes_of_def)
  then have nw: "unat a + unat sz < 2 ^ 64" "unat a + unat s < 2 ^ 64" using s(4) order_le_less_trans [OF top u64_unat_lt] by (simp_all add: word_le_nat_alt)
  have e: "unat (a + sz) = unat a + unat sz" by (rule unat_add_no_wrap) (use nw in simp)
  have "valloc_memset a 0 sz (hbytes p) (a + of_nat i) = 0" if "i < unat want" for i
  proof -
    have "i < unat sz" using that sz(4) by (simp add: word_le_nat_alt)
    then have "unat (a + of_nat i) = unat a + i" using nw by (simp add: unat_word_ariths unat_of_nat)
    with \<open>i < unat sz\<close> e show ?thesis by (simp add: valloc_memset_def word_le_nat_alt word_less_nat_alt)
  qed
  moreover have "valloc_memset a 0 sz (hbytes p) x = hbytes p x" if "unat x \<notin> bytes_of (a, s)" for x
    using that e s(4) by (auto simp: valloc_memset_def bytes_of_def word_le_nat_alt word_less_nat_alt)
  moreover have "want \<le> s" using sz(4) s(4) by simp
  ultimately have "fresh_block env p want k a (p'\<lparr>hbytes := valloc_memset a 0 sz (hbytes p')\<rparr>)"
    unfolding fresh_block_def using s by auto
  with Inr r s(1) show ?thesis by (simp add: zeroed_def)
qed

lemma alloc_size:
  assumes "unat sz \<le> 2 ^ 63"
  obtains sz' where "\<And>env p. alloc env sz p = rbind (alloc_aligned env sz' 8 p) (\<lambda>r. Inr (zeroed sz' r))"
    "24 \<le> unat sz'" "unat sz' \<le> 2 ^ 63" "sz \<le> sz'" "unat sz' \<le> 2 * unat sz + 32"
proof -
  define s1 where "s1 = (if is_pow2 sz then sz else next_largest_pow2 sz)"
  have "is_pow2 (push_bit 63 1)" by code_simp
  then have lt: "unat sz < 2 ^ 63" if "\<not> is_pow2 sz"
  proof -
    have "sz \<noteq> push_bit 63 1" using that \<open>is_pow2 (push_bit 63 1)\<close> by metis
    moreover have "unat (push_bit 63 1 :: u64) = 2 ^ 63" by (rule unat_push_bit_one) simp
    ultimately have "unat sz \<noteq> 2 ^ 63" by (metis word_unat_eq_iff)
    with assms show ?thesis by simp
  qed
  have s1: "sz \<le> s1" "unat s1 \<le> 2 * unat sz + 1" "unat s1 \<le> 2 ^ 63"
    using next_largest_pow2_bounds [of sz] lt assms
    by (cases "sz = 0"; auto simp: s1_def word_le_nat_alt next_largest_pow2_def pow2_hi.simps [of 0])+
  show thesis
  proof (cases "s1 < 24")
    case True
    have "next_largest_pow2 24 = 32" by code_simp
    with True have "alloc env sz p = rbind (alloc_aligned env 32 8 p) (\<lambda>r. Inr (zeroed 32 r))" for env p
      by (simp add: alloc_def Let_def SIZEOF_FREE_CHUNK_def flip: s1_def)
    with True s1 show thesis by (intro that [of 32]) (auto simp: word_less_nat_alt word_le_nat_alt)
  next
    case False
    then have "\<not> s1 \<le> 8" by (auto simp: word_less_nat_alt word_le_nat_alt)
    with False have "alloc env sz p = rbind (alloc_aligned env s1 8 p) (\<lambda>r. Inr (zeroed s1 r))" for env p
      by (simp add: alloc_def Let_def SIZEOF_FREE_CHUNK_def flip: s1_def)
    with False s1 show thesis by (intro that [of s1]) (auto simp: word_less_nat_alt)
  qed
qed

lemma alloc_fresh:
  assumes "pool_inv env p" "unat sz \<le> 2 ^ 63"
  shows "case alloc env sz p of
      Inl e \<Rightarrow> e \<noteq> VallocCyclic \<and> (length (live p) = NUM_ALLOC_CHUNKS \<or> unat (vtop p) < unat (bot_of_heap env) + 2 * unat sz + 40)
    | Inr (a, p') \<Rightarrow> pool_inv env p' \<and> fresh_block env p sz 3 a p'"
proof -
  from alloc_size [OF assms(2)] obtain sz' where s: "\<And>env p. alloc env sz p = rbind (alloc_aligned env sz' 8 p) (\<lambda>r. Inr (zeroed sz' r))"
    "24 \<le> unat sz'" "unat sz' \<le> 2 ^ 63" "sz \<le> sz'" "unat sz' \<le> 2 * unat sz + 32" by blast
  have "case rbind (alloc_aligned env sz' 8 p) (\<lambda>r. Inr (zeroed sz' r)) of
      Inl e \<Rightarrow> e \<noteq> VallocCyclic \<and> (length (live p) = NUM_ALLOC_CHUNKS \<or> unat (vtop p) < unat (bot_of_heap env) + unat sz' + unat (8 :: u64))
    | Inr (a, p') \<Rightarrow> pool_inv env p' \<and> fresh_block env p sz 3 a p'"
    by (rule alloc_step [OF assms(1) s(2)]) (use s(3,4) in \<open>simp_all\<close>)
  then show ?thesis unfolding s(1) using s(5) by (auto split: sum.splits)
qed

lemma alloc_with_alignment_fresh:
  assumes "pool_inv env p" "k < 62" "unat sz \<le> 2 ^ 63"
  shows "case alloc_with_alignment env sz (push_bit k 1) p of
      Inl e \<Rightarrow> e \<noteq> VallocCyclic
    | Inr (a, p') \<Rightarrow> pool_inv env p' \<and> fresh_block env p sz (if unat sz < 24 then 6 else max k (if k < 5 then 6 else k)) a p'"
proof -
  have n: "next_largest_pow2 24 = 32" "next_largest_pow2 32 = 64" by code_simp+
  have uk: "unat (push_bit k (1 :: u64)) = 2 ^ k" by (rule unat_push_bit_one) (use assms(2) in simp)
  have ak: "push_bit k 1 < (32 :: u64) \<longleftrightarrow> k < 5"
    using uk power_strict_increasing_iff [of "2 :: nat" k 5] by (simp add: word_less_nat_alt)
  have "(2 :: nat) ^ k \<le> 2 ^ 61" using assms(2) by (intro power_increasing) auto
  define sz' where "sz' = (if sz < 24 then 32 else sz)"
  define k' where "k' = (if sz < 24 then 6 else if k < 5 then 6 else k)"
  have eq: "alloc_with_alignment env sz (push_bit k 1) p = rbind (alloc_aligned env sz' (push_bit k' 1) p) (\<lambda>r. Inr (zeroed sz' r))"
    using n ak by (simp add: alloc_with_alignment_def SIZEOF_FREE_CHUNK_def SIZEOF_ALLOC_CHUNK_def sz'_def k'_def Let_def)
  have k': "k' < 62" using assms(2) by (simp add: k'_def)
  then have uk': "unat (push_bit k' (1 :: u64)) = 2 ^ k'" by (intro unat_push_bit_one) simp
  have "(2 :: nat) ^ k' \<le> 2 ^ 61" using k' by (intro power_increasing) auto
  then have "case rbind (alloc_aligned env sz' (push_bit k' 1) p) (\<lambda>r. Inr (zeroed sz' r)) of
      Inl e \<Rightarrow> e \<noteq> VallocCyclic \<and> (length (live p) = NUM_ALLOC_CHUNKS \<or> unat (vtop p) < unat (bot_of_heap env) + unat sz' + unat (push_bit k' (1 :: u64)))
    | Inr (a, p') \<Rightarrow> pool_inv env p' \<and> fresh_block env p sz k' a p'"
    using assms(3) uk' k' by (intro alloc_step [OF assms(1)])
      (auto simp: sz'_def word_less_nat_alt word_le_nat_alt simp flip: unat_eq_zero simp del: push_bit_of_1)
  moreover have "(if unat sz < 24 then 6 else max k (if k < 5 then 6 else k)) = k'"
    by (auto simp: k'_def word_less_nat_alt)
  note this
  ultimately show ?thesis unfolding eq \<open>(if unat sz < 24 then 6 else max k (if k < 5 then 6 else k)) = k'\<close>
    by (cases "rbind (alloc_aligned env sz' (push_bit k' 1) p) (\<lambda>r. Inr (zeroed sz' r))") (simp_all del: push_bit_of_1 rbind_Inr_iff)
qed

lemma free_live:
  assumes "pool_inv env p" "(a, s) \<in> set (live p)"
  shows "\<exists>p'. free a p = Inr p' \<and> pool_inv env p' \<and> live p' = remove1 (a, s) (live p) \<and> hbytes p' = hbytes p"
proof -
  from assms(1) obtain xs ys us where ok: "pool_ok env p xs ys us" by (auto simp: pool_inv_def)
  from assms(2) obtain c where c: "c \<in> set ys" "cstart p c = a" "csize p c = s" by (auto simp: live_rep [OF ok])
  from free_ok [OF ok c(1,2)] obtain p' xs' where p': "free a p = Inr p'" "pool_ok env p' xs' (remove1 c ys) (c # us)"
    "cstart p' = cstart p" "csize p' = csize p" "hbytes p' = hbytes p" by blast
  have inj: "inj_on (\<lambda>c. (cstart p c, csize p c)) (set ys)"
  proof (rule inj_onI, rule ccontr)
    fix y z assume "y \<in> set ys" "z \<in> set ys" "(cstart p y, csize p y) = (cstart p z, csize p z)" "y \<noteq> z"
    with ok_disjoint [OF ok] ok_blocks(2) [OF ok] show False by (fastforce simp: bytes_of_def)
  qed
  have "map (\<lambda>c. (cstart p c, csize p c)) (remove1 c ys) = remove1 (a, s) (map (\<lambda>c. (cstart p c, csize p c)) ys)"
    using inj c(1) unfolding c(2,3) [symmetric] by (induction ys) (auto simp: inj_on_def)
  with p' ok show ?thesis by (auto simp: pool_inv_def live_rep [OF ok] live_rep [OF p'(2)])
qed

lemma free_elsewhere:
  assumes "pool_inv env p" "\<forall>b \<in> set (live p). unat a \<notin> bytes_of b"
  shows "\<exists>m. free a p = Inl (VallocFail m)"
proof -
  from assms(1) obtain xs ys us where ok: "pool_ok env p xs ys us" by (auto simp: pool_inv_def)
  have "valloc_alloclist_find_alloc_chunk p a = Inr None"
    by (rule find_chunk_None [OF ok]) (use assms(2) in \<open>auto simp: live_rep [OF ok] bytes_of_def\<close>)
  then show ?thesis by (simp add: free_def)
qed

interpretation heap: region_allocator "pool_inv env" "\<lambda>p. \<Union> (bytes_of ` set (live p))" "\<lambda>sz. unat sz \<le> 2 ^ 63" "alloc env"
    "\<lambda>sz a. {unat a..<unat a + unat sz}" for env
proof
  fix p sz a p' assume a: "pool_inv env p" "unat sz \<le> 2 ^ 63" "alloc env sz p = Inr (a, p')"
  from alloc_fresh [OF a(1,2)] a(3) obtain s where s: "pool_inv env p'" "sz \<le> s" "live p' = (a, s) # live p"
    "\<forall>b \<in> set (live p). bytes_of (a, s) \<inter> bytes_of b = {}" by (auto simp: fresh_block_def)
  show "pool_inv env p'" by (rule s(1))
  have sub: "{unat a..<unat a + unat sz} \<subseteq> bytes_of (a, s)" using s(2) by (auto simp: bytes_of_def word_le_nat_alt)
  with s(4) show "{unat a..<unat a + unat sz} \<inter> \<Union> (bytes_of ` set (live p)) = {}" by fastforce
  from sub s(3) show "\<Union> (bytes_of ` set (live p)) \<union> {unat a..<unat a + unat sz} \<subseteq> \<Union> (bytes_of ` set (live p'))" by auto
qed

section \<open>Every history of the heap\<close>

text \<open>
  The states the heap can be in: after boot, after an allocation of either kind, after freeing a live
  allocation, and after a program has written a byte of one.
\<close>

inductive heap_reach :: "heap_env \<Rightarrow> mem8 \<Rightarrow> valloc_mempool \<Rightarrow> bool" for env m where
  boot: "heap_reach env m (init_valloc env m)"
| alloc: "heap_reach env m p \<Longrightarrow> unat sz \<le> 2 ^ 63 \<Longrightarrow> alloc env sz p = Inr (a, p') \<Longrightarrow> heap_reach env m p'"
| alloc_with_alignment: "heap_reach env m p \<Longrightarrow> unat sz \<le> 2 ^ 63 \<Longrightarrow> unat al \<le> 2 ^ 61 \<Longrightarrow>
    alloc_with_alignment env sz al p = Inr (a, p') \<Longrightarrow> heap_reach env m p'"
| free: "heap_reach env m p \<Longrightarrow> (a, s) \<in> set (live p) \<Longrightarrow> free a p = Inr p' \<Longrightarrow> heap_reach env m p'"
| store: "heap_reach env m p \<Longrightarrow> b \<in> set (live p) \<Longrightarrow> unat x \<in> bytes_of b \<Longrightarrow> heap_reach env m (p\<lparr>hbytes := (hbytes p)(x := v)\<rparr>)"

inductive_cases heap_reachE: "heap_reach env m p"

lemma alloc_with_alignment_inv:
  assumes "pool_inv env p" "unat sz \<le> 2 ^ 63" "unat al \<le> 2 ^ 61" "alloc_with_alignment env sz al p = Inr (a, p')"
  shows "pool_inv env p'"
proof -
  have n: "next_largest_pow2 24 = 32" "next_largest_pow2 32 = 64" by code_simp+
  define sz' where "sz' = (if sz < 24 then 32 else sz)"
  define al' where "al' = (if sz < 24 \<or> al < 32 then 64 else al)"
  have "alloc_with_alignment env sz al p = rbind (alloc_aligned env sz' al' p) (\<lambda>r. Inr (zeroed sz' r))"
    using n by (simp add: alloc_with_alignment_def SIZEOF_FREE_CHUNK_def SIZEOF_ALLOC_CHUNK_def sz'_def al'_def Let_def)
  with assms(4) obtain p1 where p1: "alloc_aligned env sz' al' p = Inr (a, p1)" "p' = p1\<lparr>hbytes := valloc_memset a 0 sz' (hbytes p1)\<rparr>"
    by (auto simp: zeroed_def)
  have "24 \<le> unat sz'" "al' \<noteq> 0" "unat sz' + 2 * unat al' \<le> 2 ^ 64"
    using assms(2,3) by (auto simp: sz'_def al'_def word_less_nat_alt split: if_splits)
  from alloc_aligned_live [OF assms(1) this] p1 show ?thesis by simp
qed

lemma heap_reach_inv:
  assumes "bot_of_heap env \<le> top_of_heap env" "heap_reach env m p"
  shows "pool_inv env p"
  using assms(2)
proof induction
  case boot
  then show ?case using init_valloc_ok [OF assms(1)] by (auto simp: pool_inv_def)
next
  case (alloc p sz a p')
  with alloc_fresh [of env p sz] show ?case by simp
next
  case (alloc_with_alignment p sz al a p')
  then show ?case using alloc_with_alignment_inv by blast
next
  case (free p a s p')
  with free_live [of env p a s] show ?case by auto
qed simp


text \<open>
  C39: in every such state \<open>alloc\<close> ends. It fails only when all 1024 records are in use or the bar is close
  to the bottom of the heap; otherwise the block it returns is in the heap, disjoint from every live
  allocation, at least as large as asked, 8-byte aligned and zeroed, it becomes the only new live
  allocation, and no byte outside it changes.
\<close>

theorem alloc_correct:
  assumes "bot_of_heap env \<le> top_of_heap env" and "heap_reach env m p" and "unat sz \<le> 2 ^ 63"
  shows "case alloc env sz p of
      Inl e \<Rightarrow> e \<noteq> VallocCyclic \<and> (length (live p) = NUM_ALLOC_CHUNKS \<or> unat (vtop p) < unat (bot_of_heap env) + 2 * unat sz + 40)
    | Inr (a, p') \<Rightarrow> fresh_block env p sz 3 a p'"
  using alloc_fresh [OF heap_reach_inv [OF assms(1,2)] assms(3)] by (auto split: sum.splits)


section \<open>Witnesses\<close>

definition qemu_heap :: heap_env where
  "qemu_heap = \<lparr>bot_of_heap = 0x41800000, top_of_heap = 0x45800000\<rparr>"

lemma first_alloc:
  "\<exists>p. alloc qemu_heap 100 (init_valloc qemu_heap (\<lambda>_. 7)) = Inr (0x457fff80, p) \<and> heap_reach qemu_heap (\<lambda>_. 7) p \<and>
     (\<exists>s \<ge> 100. live p = [(0x457fff80, s)])"
proof -
  let ?p = "init_valloc qemu_heap (\<lambda>_. 7)"
  have s: "\<not> is_pow2 100" "next_largest_pow2 100 = 128" by code_simp+
  have n: "valloc_freelist_find_best 128 8 ?p = Inr None" by (simp add: valloc_freelist_find_best_def free_nodes_def init_valloc_def)
  have al: "ALIGN_POW2 (0x45800000 - 128) 8 = 0x457fff80" by code_simp
  have f: "vtop ?p = 0x45800000" "chunk_unalloc_list ?p = Some 0" by (simp_all add: init_valloc_def qemu_heap_def)
  have "\<exists>p. alloc qemu_heap 100 ?p = Inr (0x457fff80, p)"
    using s n al f by (simp add: alloc_def Let_def SIZEOF_FREE_CHUNK_def alloc_aligned_def qemu_heap_def valloc_alloclist_alloc_def zeroed_def)
  then obtain p where p: "alloc qemu_heap 100 ?p = Inr (0x457fff80, p)" by blast
  have b: "bot_of_heap qemu_heap \<le> top_of_heap qemu_heap" by (simp add: qemu_heap_def)
  have reach: "heap_reach qemu_heap (\<lambda>_. 7) p" by (rule heap_reach.alloc [OF heap_reach.boot _ p]) simp
  have "live ?p = []" by (simp add: live_rep [OF init_valloc_ok [OF b]])
  moreover have "pool_inv qemu_heap ?p" using init_valloc_ok [OF b] by (auto simp: pool_inv_def)
  ultimately have "\<exists>s \<ge> 100. live p = [(0x457fff80, s)]"
    using alloc_fresh [of qemu_heap ?p 100] p by (auto simp: fresh_block_def)
  with p reach show ?thesis by blast
qed


theorem alloc_correct_witness:
  "\<exists>p'. alloc qemu_heap 100 (init_valloc qemu_heap (\<lambda>_. 7)) = Inr (0x457fff80, p') \<and>
     fresh_block qemu_heap (init_valloc qemu_heap (\<lambda>_. 7)) 100 3 0x457fff80 p'"
  using first_alloc alloc_correct [OF _ heap_reach.boot, of qemu_heap 100 "\<lambda>_. 7"] by (fastforce simp: qemu_heap_def)


section \<open>The reported free space\<close>

text \<open>
  \<open>valloc_free_size\<close> takes the live sizes off the space below the bar, where no allocation is: what it
  says is not free is counted twice.
\<close>

lemma valloc_free_size_counts_twice:
  assumes "pool_inv env p"
  shows "valloc_free_size env p = Inr (vtop p - bot_of_heap env - sum_list (map snd (live p)))"
proof -
  from assms obtain xs ys us where ok: "pool_ok env p xs ys us" by (auto simp: pool_inv_def)
  have "fold (\<lambda>c used. used + csize p c) cs a = a + sum_list (map (csize p) cs)" for cs a
    by (induction cs arbitrary: a) (auto simp: algebra_simps)
  then show ?thesis
    using ok alloc_nodes_rep [of p xs ys us] by (simp add: valloc_free_size_def live_rep [OF ok] pool_ok_def comp_def)
qed

end
