(* ===== verification/Arena.thy ===== *)
theory Arena
  imports AllocSpec Bits
begin

text \<open>
  Arenas (\<open>lib/valloc/valloc_arena.c\<close>): a block of memory with a bar that moves up. The arrays of a
  batch's runs are allocated in one.
\<close>

record valloc_arena =
  arena_top :: u64
  arena_size :: u64
  arena_data :: u64

text \<open>The arena's header is 16 bytes, and \<open>data\<close> follows it.\<close>

definition arena_init :: "u64 \<Rightarrow> u64 \<Rightarrow> valloc_arena" where
  "arena_init arena sz = \<lparr>arena_top = arena + 16, arena_size = sz, arena_data = arena + 16\<rparr>"

definition alloc_arena :: "u64 \<Rightarrow> valloc_arena \<Rightarrow> string + u64 \<times> valloc_arena" where
  "alloc_arena sz ar =
     (let cur = ALIGN_UP (arena_top ar) (min 8 (log2 sz)); ar = ar\<lparr>arena_top := cur + sz\<rparr>
      in if arena_top ar - arena_data ar > arena_size ar then Inl ''! over-allocated arena''
         else Inr (cur, ar))"

section \<open>The contract\<close>

text \<open>Requests small enough not to wrap around the address space.\<close>

definition arena_ok :: "valloc_arena \<Rightarrow> bool" where
  "arena_ok ar \<longleftrightarrow> unat (arena_data ar) \<le> unat (arena_top ar) \<and>
     unat (arena_top ar) \<le> unat (arena_data ar) + unat (arena_size ar) \<and>
     unat (arena_data ar) + unat (arena_size ar) \<le> 2 ^ 63"

definition arena_used :: "valloc_arena \<Rightarrow> nat set" where
  "arena_used ar = {unat (arena_data ar)..<unat (arena_top ar)}"

lemma alloc_arena_ok:
  assumes "arena_ok ar" "unat sz \<le> 2 ^ 62" "alloc_arena sz ar = Inr (a, ar')"
  shows "arena_ok ar' \<and> arena_data ar' = arena_data ar \<and> arena_size ar' = arena_size ar \<and>
    unat (arena_top ar) \<le> unat a \<and> unat (arena_top ar') = unat a + unat sz \<and> IS_ALIGNED a (min 8 (log2 sz))"
proof -
  let ?k = "min 8 (log2 sz)"
  have k: "(2 :: nat) ^ ?k \<le> 2 ^ 8" by (intro power_increasing) auto
  have top: "unat (arena_top ar) \<le> 2 ^ 63" using assms(1) by (simp add: arena_ok_def)
  have "unat (arena_top ar) + 2 ^ ?k \<le> 2 ^ 64" "?k < 64" using k top by auto
  note up = ALIGN_UP_least [OF this]
  have a: "a = ALIGN_UP (arena_top ar) ?k" and ar': "ar' = ar\<lparr>arena_top := a + sz\<rparr>"
    and fit: "a + sz - arena_data ar \<le> arena_size ar"
    using assms(3) by (auto simp: alloc_arena_def Let_def not_less split: if_splits)
  have ua: "unat a < unat (arena_top ar) + 2 ^ ?k" "unat (arena_top ar) \<le> unat a" using up(2,3) a by (simp_all add: word_le_nat_alt)
  have e: "unat (a + sz) = unat a + unat sz" by (rule unat_add_no_wrap) (use ua top assms(2) k in simp)
  have "arena_data ar \<le> a + sz" using e ua assms(1) by (simp add: arena_ok_def word_le_nat_alt)
  then have "unat (a + sz) - unat (arena_data ar) \<le> unat (arena_size ar)"
    using fit by (simp add: word_le_nat_alt unat_sub_no_wrap)
  with e ua assms(1) up(1) ar' a show ?thesis by (simp add: arena_ok_def)
qed

interpretation arena: region_allocator arena_ok arena_used "\<lambda>sz. unat sz \<le> 2 ^ 62" alloc_arena "\<lambda>sz a. {unat a..<unat a + unat sz}"
proof
  fix ar sz a ar' assume a: "arena_ok ar" "unat sz \<le> 2 ^ 62" "alloc_arena sz ar = Inr (a, ar')"
  note r = alloc_arena_ok [OF a]
  show "arena_ok ar'" using r by blast
  show "{unat a..<unat a + unat sz} \<inter> arena_used ar = {}" using r by (auto simp: arena_used_def)
  have "unat (arena_data ar) \<le> unat a" using r a(1) by (simp add: arena_ok_def)
  with r show "arena_used ar \<union> {unat a..<unat a + unat sz} \<subseteq> arena_used ar'" by (auto simp: arena_used_def)
qed

lemma arena_init_ok: "unat arena + 16 + unat sz \<le> 2 ^ 63 \<Longrightarrow> arena_ok (arena_init arena sz)"
proof -
  assume a: "unat arena + 16 + unat sz \<le> 2 ^ 63"
  then have "unat (arena + 16) = unat arena + 16" by (subst unat_add_no_wrap) auto
  with a show ?thesis by (simp add: arena_ok_def arena_init_def)
qed

end
