(* ===== verification/Results.thy ===== *)
theory Results
  imports ConcretizeProps
begin

text \<open>
  The histogram of a test's results (\<open>lib/litmus_test/litmus_test_results.c\<close>): every run adds one to the
  counter of its outcome, found by a lookup table for outcomes of small values and by a walk otherwise.
  Reading the lookup table past its end is an error of its own.
\<close>

section \<open>The code\<close>

datatype res_err = LutOutOfBounds nat | Overallocated

definition outcome :: "test_ctx_t \<Rightarrow> nat \<Rightarrow> u64 list" where
  "outcome ctx run = map (\<lambda>reg. out_regs ctx ! reg ! run) [0..<length (reg_names (tcfg ctx))]"

definition result_matches :: "test_result_t \<Rightarrow> test_ctx_t \<Rightarrow> nat \<Rightarrow> bool" where
  "result_matches r ctx run \<longleftrightarrow>
     list_all (\<lambda>reg. rvalues r ! reg = out_regs ctx ! reg ! run) [0..<length (reg_names (tcfg ctx))]"

definition relaxed_results :: "litmus_test_t \<Rightarrow> u64 list list" where
  "relaxed_results cfg =
     (case interesting_results cfg of
        Some rs \<Rightarrow> rs
      | None \<Rightarrow> (case interesting_result cfg of None \<Rightarrow> [] | Some r \<Rightarrow> [r]))"

definition matches_interesting :: "litmus_test_t \<Rightarrow> u64 list \<Rightarrow> bool" where
  "matches_interesting cfg vals \<longleftrightarrow>
     list_ex (\<lambda>regs. list_all (\<lambda>reg. vals ! reg = regs ! reg) [0..<length (reg_names cfg)]) (relaxed_results cfg)"

text \<open>The index of an outcome in the lookup table: its values as digits, \<open>None\<close> for \<open>-1\<close>.\<close>

fun ix_of :: "nat \<Rightarrow> u64 list \<Rightarrow> nat option" where
  "ix_of val [] = Some val"
| "ix_of val (v # vs) = (if v < 4 then ix_of (val * 4 + unat (v mod 4)) vs else None)"

definition ix_from_values :: "test_ctx_t \<Rightarrow> nat \<Rightarrow> nat option" where
  "ix_from_values ctx run = ix_of 0 (outcome ctx run)"

definition bump :: "nat \<Rightarrow> test_hist_t \<Rightarrow> test_hist_t" where
  "bump k h = h\<lparr>results := (results h)[k := (results h ! k)\<lparr>counter := counter (results h ! k) + 1\<rparr>]\<rparr>"

definition lookup_lut :: "test_hist_t \<Rightarrow> nat option \<Rightarrow> res_err + nat option" where
  "lookup_lut h ix =
     (case ix of None \<Rightarrow> Inr None
      | Some i \<Rightarrow> if i < length (lut h) then Inr (lut h ! i) else Inl (LutOutOfBounds i))"

definition add_results :: "test_hist_t \<Rightarrow> test_ctx_t \<Rightarrow> nat \<Rightarrow> res_err + test_hist_t" where
  "add_results h ctx run =
     (let ix = ix_from_values ctx run
      in rbind (lookup_lut h ix) (\<lambda>hit.
         case hit of
           Some k \<Rightarrow> Inr (bump k h)
         | None \<Rightarrow>
             (let i = length (takeWhile (\<lambda>r. \<not> result_matches r ctx run) (results h))
              in if i < length (results h) then Inr (bump i h)
                 else if length (results h) \<ge> limit h then Inl Overallocated
                 else Inr (h\<lparr>results := results h @ [\<lparr>is_relaxed = matches_interesting (tcfg ctx) (outcome ctx run),
                                                    counter = 1, rvalues = outcome ctx run\<rparr>],
                             lut := (case ix of None \<Rightarrow> lut h | Some j \<Rightarrow> (lut h)[j := Some (length (results h))])\<rparr>))))"

fun collect :: "test_ctx_t \<Rightarrow> nat list \<Rightarrow> test_hist_t \<Rightarrow> res_err + test_hist_t" where
  "collect ctx [] h = Inr h"
| "collect ctx (run # runs) h = rbind (add_results h ctx run) (collect ctx runs)"

definition empty_hist :: test_hist_t where
  "empty_hist = \<lparr>results = [], limit = 200, lut = replicate 200 None\<rparr>"

section \<open>The invariant\<close>

lemma ix_of_inj:
  "ix_of val vs = Some i \<Longrightarrow> ix_of val' ws = Some i \<Longrightarrow> length vs = length ws \<Longrightarrow> val = val' \<and> vs = ws"
proof (induction val vs arbitrary: val' ws rule: ix_of.induct)
  case (1 val)
  then show ?case by simp
next
  case (2 val v vs)
  then obtain w ws' where ws: "ws = w # ws'" by (cases ws) auto
  have lt: "v < 4" "w < 4" using "2.prems"(1,2) ws by (auto split: if_splits)
  have eq: "val * 4 + unat (v mod 4) = val' * 4 + unat (w mod 4) \<and> vs = ws'"
    using "2.IH" [OF lt(1)] "2.prems" lt ws by simp
  have m: "x mod 4 = x" if "x < 4" for x :: u64 using that by (simp add: word_unat_eq_iff unat_mod word_less_nat_alt)
  have u: "unat v < 4" "unat w < 4" using lt by (simp_all add: word_less_nat_alt)
  from eq have "val * 4 + unat v = val' * 4 + unat w" using m [OF lt(1)] m [OF lt(2)] by simp
  then have "val = val'" "v = w" using u unfolding word_unat_eq_iff by presburger+
  then show ?case using eq ws by simp
qed

text \<open>
  What holds of the histogram after outcomes \<open>os\<close>, all with one value per register: the results are the
  different outcomes with their numbers, and the lookup table finds exactly the ones with an index.
\<close>

definition hist_ok :: "litmus_test_t \<Rightarrow> u64 list list \<Rightarrow> test_hist_t \<Rightarrow> bool" where
  "hist_ok cfg os h \<longleftrightarrow>
     distinct (map rvalues (results h)) \<and> set (map rvalues (results h)) = set os \<and>
     length (results h) \<le> limit h \<and> limit h = 200 \<and> length (lut h) = 200 \<and>
     (\<forall>r \<in> set (results h). counter r = of_nat (count_list os (rvalues r)) \<and>
        is_relaxed r = matches_interesting cfg (rvalues r) \<and> length (rvalues r) = length (reg_names cfg)) \<and>
     (\<forall>o' \<in> set os. \<forall>i. ix_of 0 o' = Some i \<longrightarrow> i < 200) \<and>
     (\<forall>i < 200. \<forall>k. lut h ! i = Some k \<longleftrightarrow> k < length (results h) \<and> ix_of 0 (rvalues (results h ! k)) = Some i)"

lemma hist_okI:
  assumes "distinct (map rvalues (results h))" "set (map rvalues (results h)) = set os"
    "length (results h) \<le> limit h" "limit h = 200" "length (lut h) = 200"
    "\<And>r. r \<in> set (results h) \<Longrightarrow> counter r = of_nat (count_list os (rvalues r)) \<and>
        is_relaxed r = matches_interesting cfg (rvalues r) \<and> length (rvalues r) = length (reg_names cfg)"
    "\<And>o' i. o' \<in> set os \<Longrightarrow> ix_of 0 o' = Some i \<Longrightarrow> i < 200"
    "\<And>i k. i < 200 \<Longrightarrow> lut h ! i = Some k \<longleftrightarrow> k < length (results h) \<and> ix_of 0 (rvalues (results h ! k)) = Some i"
  shows "hist_ok cfg os h"
  using assms unfolding hist_ok_def by blast

lemma hist_okD:
  assumes "hist_ok cfg os h"
  shows "distinct (map rvalues (results h))" "set (map rvalues (results h)) = set os"
    "length (results h) \<le> limit h" "limit h = 200" "length (lut h) = 200"
    "\<And>r. r \<in> set (results h) \<Longrightarrow> counter r = of_nat (count_list os (rvalues r)) \<and>
        is_relaxed r = matches_interesting cfg (rvalues r) \<and> length (rvalues r) = length (reg_names cfg)"
    "\<And>o' i. o' \<in> set os \<Longrightarrow> ix_of 0 o' = Some i \<Longrightarrow> i < 200"
    "\<And>i k. i < 200 \<Longrightarrow> lut h ! i = Some k \<longleftrightarrow> k < length (results h) \<and> ix_of 0 (rvalues (results h ! k)) = Some i"
  using assms unfolding hist_ok_def by blast+

lemma empty_hist_ok: "hist_ok cfg [] empty_hist"
  by (rule hist_okI) (simp_all add: empty_hist_def)

lemma bump_rvalues: "k < length (results h) \<Longrightarrow> map rvalues (results (bump k h)) = map rvalues (results h)"
  by (simp add: bump_def map_update list_update_same_conv)

lemma bump_ok:
  assumes h: "hist_ok cfg os h" and k: "k < length (results h)" "rvalues (results h ! k) = o'"
    and ix: "\<And>i. ix_of 0 o' = Some i \<Longrightarrow> i < 200"
  shows "hist_ok cfg (os @ [o']) (bump k h)"
proof (rule hist_okI)
  note H = hist_okD [OF h]
  have o': "o' \<in> set os" using H(2) k by (metis image_eqI list.set_map nth_mem)
  show "distinct (map rvalues (results (bump k h)))" using H(1) by (simp add: bump_rvalues [OF k(1)])
  show "set (map rvalues (results (bump k h))) = set (os @ [o'])"
    unfolding bump_rvalues [OF k(1)] using H(2) o' by auto
  show "length (results (bump k h)) \<le> limit (bump k h)" "limit (bump k h) = 200" "length (lut (bump k h)) = 200"
    using H(3-5) by (simp_all add: bump_def)
  fix r assume "r \<in> set (results (bump k h))"
  then obtain j where j: "j < length (results h)" "r = results (bump k h) ! j"
    by (auto simp: in_set_conv_nth bump_def)
  note R = H(6) [OF nth_mem [OF j(1)]]
  show "counter r = of_nat (count_list (os @ [o']) (rvalues r)) \<and>
        is_relaxed r = matches_interesting cfg (rvalues r) \<and> length (rvalues r) = length (reg_names cfg)"
  proof (cases "j = k")
    case True
    then have "r = (results h ! k)\<lparr>counter := counter (results h ! k) + 1\<rparr>" using j by (simp add: bump_def)
    then show ?thesis using R k(2) True by (simp add: count_list_append)
  next
    case False
    then have r: "r = results h ! j" using j by (simp add: bump_def)
    have "rvalues (results h ! j) \<noteq> o'"
      using H(1) j(1) k False by (simp add: distinct_conv_nth) blast
    then show ?thesis using R r by (simp add: count_list_append)
  qed
next
  fix v i assume "v \<in> set (os @ [o'])" "ix_of 0 v = Some i"
  then show "i < 200" using hist_okD(7) [OF h] ix by auto
next
  fix i j :: nat assume i: "i < 200"
  have "length (results (bump k h)) = length (results h)" by (simp add: bump_def)
  moreover have "rvalues (results (bump k h) ! j) = rvalues (results h ! j)" if "j < length (results h)"
    using that by (cases "j = k") (simp_all add: bump_def)
  ultimately show "lut (bump k h) ! i = Some j \<longleftrightarrow> j < length (results (bump k h)) \<and> ix_of 0 (rvalues (results (bump k h) ! j)) = Some i"
    using hist_okD(8) [OF h i, of j] by (auto simp: bump_def)
qed

lemma matches_outcome:
  assumes "length (rvalues r) = length (reg_names (tcfg ctx))"
  shows "result_matches r ctx run \<longleftrightarrow> rvalues r = outcome ctx run"
proof -
  have "rvalues r = map ((!) (rvalues r)) [0..<length (reg_names (tcfg ctx))]"
    unfolding assms [symmetric] by (rule map_nth [symmetric])
  moreover have "result_matches r ctx run \<longleftrightarrow> map ((!) (rvalues r)) [0..<length (reg_names (tcfg ctx))] = outcome ctx run"
    by (auto simp: result_matches_def outcome_def list_all_iff)
  ultimately show ?thesis by simp
qed

lemma takeWhile_index:
  "length (takeWhile (\<lambda>x. \<not> P x) xs) < length xs \<longleftrightarrow> (\<exists>x \<in> set xs. P x)"
proof (induction xs)
  case (Cons x xs)
  then show ?case by (cases "P x") simp_all
qed simp

text \<open>The step: the histogram is extended by the outcome, or one of the two errors.\<close>

definition new_result :: "test_ctx_t \<Rightarrow> nat \<Rightarrow> test_hist_t \<Rightarrow> test_hist_t" where
  "new_result ctx run h =
     h\<lparr>results := results h @ [\<lparr>is_relaxed = matches_interesting (tcfg ctx) (outcome ctx run), counter = 1, rvalues = outcome ctx run\<rparr>],
       lut := (case ix_from_values ctx run of None \<Rightarrow> lut h | Some j \<Rightarrow> (lut h)[j := Some (length (results h))])\<rparr>"

lemma new_result_ok:
  assumes h: "hist_ok (tcfg ctx) os h" and new: "outcome ctx run \<notin> set os" and lim: "length (results h) < 200"
    and ix: "\<And>i. ix_of 0 (outcome ctx run) = Some i \<Longrightarrow> i < 200"
  shows "hist_ok (tcfg ctx) (os @ [outcome ctx run]) (new_result ctx run h)"
proof (rule hist_okI)
  note H = hist_okD [OF h]
  let ?h = "new_result ctx run h" and ?o = "outcome ctx run"
  have l: "length ?o = length (reg_names (tcfg ctx))" by (simp add: outcome_def)
  show "distinct (map rvalues (results ?h))" using H(1,2) new by (auto simp: new_result_def)
  show "set (map rvalues (results ?h)) = set (os @ [?o])" using H(2) by (simp add: new_result_def)
  show "length (results ?h) \<le> limit ?h" "limit ?h = 200" "length (lut ?h) = 200"
    using H(3-5) lim by (simp_all add: new_result_def split: option.split)
  fix r assume "r \<in> set (results ?h)"
  then consider "r \<in> set (results h)" | "r = \<lparr>is_relaxed = matches_interesting (tcfg ctx) ?o, counter = 1, rvalues = ?o\<rparr>"
    by (auto simp: new_result_def)
  then show "counter r = of_nat (count_list (os @ [?o]) (rvalues r)) \<and>
        is_relaxed r = matches_interesting (tcfg ctx) (rvalues r) \<and> length (rvalues r) = length (reg_names (tcfg ctx))"
  proof cases
    case 1
    then have "rvalues r \<in> set os" using H(2) by auto
    then show ?thesis using H(6) [OF 1] new by (auto simp: count_list_append)
  next
    case 2
    then show ?thesis using new l by (simp add: count_list_append count_list_0_iff)
  qed
next
  fix v i assume "v \<in> set (os @ [outcome ctx run])" "ix_of 0 v = Some i"
  then show "i < 200" using hist_okD(7) [OF h] ix by auto
next
  fix i k :: nat assume i: "i < 200"
  let ?h = "new_result ctx run h" and ?o = "outcome ctx run"
  note H = hist_okD [OF h]
  have res: "k < length (results ?h) \<and> ix_of 0 (rvalues (results ?h ! k)) = Some i \<longleftrightarrow>
     (k < length (results h) \<and> ix_of 0 (rvalues (results h ! k)) = Some i) \<or> (k = length (results h) \<and> ix_of 0 ?o = Some i)"
    by (auto simp: new_result_def nth_append less_Suc_eq)
  show "lut ?h ! i = Some k \<longleftrightarrow> k < length (results ?h) \<and> ix_of 0 (rvalues (results ?h ! k)) = Some i"
  proof (cases "ix_of 0 ?o = Some i")
    case True
    have "\<not> (k < length (results h) \<and> ix_of 0 (rvalues (results h ! k)) = Some i)"
    proof
      assume a: "k < length (results h) \<and> ix_of 0 (rvalues (results h ! k)) = Some i"
      then have "results h ! k \<in> set (results h)" by simp
      then have "length (rvalues (results h ! k)) = length ?o" and "rvalues (results h ! k) \<in> set os"
        using H(6) [of "results h ! k"] H(2) by (auto simp: outcome_def)
      then show False using ix_of_inj [OF conjunct2 [OF a] True] new by simp
    qed
    then show ?thesis using res True i H(5) by (auto simp: new_result_def ix_from_values_def)
  next
    case False
    then have "lut ?h ! i = lut h ! i"
      by (auto simp: new_result_def ix_from_values_def split: option.split)
    then show ?thesis using res False H(8) [OF i, of k] by simp
  qed
qed

lemma add_results_step:
  assumes h: "hist_ok (tcfg ctx) os h"
  shows "case add_results h ctx run of
      Inr h' \<Rightarrow> hist_ok (tcfg ctx) (os @ [outcome ctx run]) h'
    | Inl (LutOutOfBounds i) \<Rightarrow> ix_of 0 (outcome ctx run) = Some i \<and> 200 \<le> i
    | Inl Overallocated \<Rightarrow> outcome ctx run \<notin> set os \<and> card (set os) = 200"
proof -
  note H = hist_okD [OF h]
  let ?o = "outcome ctx run"
  have match: "result_matches r ctx run \<longleftrightarrow> rvalues r = ?o" if "r \<in> set (results h)" for r
    using H(6) [OF that] by (intro matches_outcome) simp
  have found: "(\<exists>r \<in> set (results h). result_matches r ctx run) \<longleftrightarrow> ?o \<in> set os"
    using match H(2) by (metis (no_types, lifting) image_iff list.set_map)
  have card: "card (set os) = length (results h)"
    using H(1,2) distinct_card [of "map rvalues (results h)"] by simp
  let ?i = "length (takeWhile (\<lambda>r. \<not> result_matches r ctx run) (results h))"
  have walk: "rvalues (results h ! ?i) = ?o" if "?i < length (results h)"
    using nth_length_takeWhile [OF that] match [OF nth_mem [OF that]] by simp
  have in_lut: "i < 200" if "ix_of 0 ?o = Some i" "i < length (lut h)" for i
    using that H(5) by simp
  have slow: "case (if ?i < length (results h) then Inr (bump ?i h)
                 else if length (results h) \<ge> limit h then Inl Overallocated else Inr (new_result ctx run h)) of
      Inr h' \<Rightarrow> hist_ok (tcfg ctx) (os @ [?o]) h'
    | Inl (LutOutOfBounds i) \<Rightarrow> ix_of 0 ?o = Some i \<and> 200 \<le> i
    | Inl Overallocated \<Rightarrow> ?o \<notin> set os \<and> card (set os) = 200"
    if ix: "\<And>i. ix_of 0 ?o = Some i \<Longrightarrow> i < 200"
  proof (cases "?i < length (results h)")
    case True
    then show ?thesis using bump_ok [OF h True walk [OF True] ix] by simp
  next
    case False
    then have new: "?o \<notin> set os" using found takeWhile_index [of "\<lambda>r. result_matches r ctx run" "results h"] by blast
    then show ?thesis using False H(3,4) card new_result_ok [OF h new _ ix] by simp
  qed
  have add: "add_results h ctx run = rbind (lookup_lut h (ix_of 0 ?o)) (\<lambda>hit.
      case hit of Some k \<Rightarrow> Inr (bump k h)
      | None \<Rightarrow> if ?i < length (results h) then Inr (bump ?i h)
                 else if length (results h) \<ge> limit h then Inl Overallocated else Inr (new_result ctx run h))"
    by (simp add: add_results_def new_result_def ix_from_values_def Let_def)
  show ?thesis
  proof (cases "ix_of 0 ?o")
    case None
    then have look: "lookup_lut h (ix_of 0 ?o) = Inr None" by (simp add: lookup_lut_def)
    show ?thesis unfolding add look rbind.simps option.case by (rule slow) (use None in simp)
  next
    case (Some i)
    show ?thesis
    proof (cases "i < 200")
      case False
      then have look: "lookup_lut h (ix_of 0 ?o) = Inl (LutOutOfBounds i)" using Some H(5) by (simp add: lookup_lut_def)
      show ?thesis unfolding add look rbind.simps using Some False by simp
    next
      case True
      then have ix: "\<And>j. ix_of 0 ?o = Some j \<Longrightarrow> j < 200" using Some by simp
      have look: "lookup_lut h (ix_of 0 ?o) = Inr (lut h ! i)" using Some True H(5) by (simp add: lookup_lut_def)
      show ?thesis
      proof (cases "lut h ! i")
        case None
        show ?thesis unfolding add look None rbind.simps option.case by (rule slow [OF ix])
      next
        case hit: (Some k)
        then have k: "k < length (results h)" "ix_of 0 (rvalues (results h ! k)) = Some i" using H(8) [OF True] by simp_all
        have "length (rvalues (results h ! k)) = length ?o" using H(6) [OF nth_mem [OF k(1)]] by (simp add: outcome_def)
        then have "rvalues (results h ! k) = ?o" using ix_of_inj [OF k(2) Some] by simp
        then have "hist_ok (tcfg ctx) (os @ [?o]) (bump k h)" by (rule bump_ok [OF h k(1) _ ix])
        then show ?thesis unfolding add look hit rbind.simps option.case by simp
      qed
    qed
  qed
qed

section \<open>The histogram of a test\<close>

definition outcomes :: "test_ctx_t \<Rightarrow> nat list \<Rightarrow> u64 list list" where
  "outcomes ctx runs = map (outcome ctx) runs"

text \<open>An outcome whose index is in the table, which every outcome of at most three registers is.\<close>

definition in_table :: "u64 list \<Rightarrow> bool" where
  "in_table vals \<longleftrightarrow> (case ix_of 0 vals of None \<Rightarrow> True | Some i \<Rightarrow> i < 200)"

lemma collect_ok:
  assumes "hist_ok (tcfg ctx) os h"
  shows "case collect ctx runs h of
      Inr h' \<Rightarrow> hist_ok (tcfg ctx) (os @ outcomes ctx runs) h'
    | Inl (LutOutOfBounds i) \<Rightarrow> \<exists>run \<in> set runs. ix_of 0 (outcome ctx run) = Some i \<and> 200 \<le> i
    | Inl Overallocated \<Rightarrow> card (set (os @ outcomes ctx runs)) > 200"
  using assms
proof (induction runs arbitrary: os h)
  case Nil
  then show ?case by (simp add: outcomes_def)
next
  case (Cons run runs)
  note step = add_results_step [OF Cons.prems, of run]
  show ?case
  proof (cases "add_results h ctx run")
    case (Inr h')
    then have "hist_ok (tcfg ctx) (os @ [outcome ctx run]) h'" using step by simp
    from Cons.IH [OF this] Inr show ?thesis
      by (auto simp: outcomes_def split: sum.splits res_err.splits)
  next
    case (Inl e)
    show ?thesis
    proof (cases e)
      case (LutOutOfBounds i)
      then show ?thesis using step Inl by simp
    next
      case Overallocated
      then have "outcome ctx run \<notin> set os" "card (set os) = 200" using step Inl by simp_all
      then have "card (insert (outcome ctx run) (set os)) = 201" by simp
      moreover have "card (insert (outcome ctx run) (set os)) \<le> card (set (os @ outcomes ctx (run # runs)))"
        by (intro card_mono) (auto simp: outcomes_def)
      ultimately show ?thesis using Inl Overallocated by simp
    qed
  qed
qed

text \<open>
  C34: collecting the results of a test's runs gives the histogram of their outcomes, one entry for each
  different outcome, whose counter is the number of its runs and which is marked exactly when it is
  interesting, whenever there are at most 200 different outcomes and each has its index in the lookup
  table; when it fails, one of the two is the reason.
\<close>

theorem collect_histogram:
  assumes "length runs < 2 ^ 64"
  shows "case collect ctx runs empty_hist of
      Inr h \<Rightarrow> distinct (map rvalues (results h)) \<and> set (map rvalues (results h)) = set (outcomes ctx runs) \<and>
        (\<forall>r \<in> set (results h). unat (counter r) = count_list (outcomes ctx runs) (rvalues r) \<and>
           is_relaxed r = matches_interesting (tcfg ctx) (rvalues r))
    | Inl e \<Rightarrow> \<not> (card (set (outcomes ctx runs)) \<le> 200 \<and> (\<forall>vals \<in> set (outcomes ctx runs). in_table vals))"
proof (cases "collect ctx runs empty_hist")
  case (Inr h)
  then have h: "hist_ok (tcfg ctx) (outcomes ctx runs) h" using collect_ok [OF empty_hist_ok, where ctx = ctx and runs = runs] by simp
  have "count_list (outcomes ctx runs) v < 2 ^ 64" for v
    using assms count_le_length [of "outcomes ctx runs" v] by (simp add: outcomes_def)
  then have "unat (of_nat (count_list (outcomes ctx runs) v) :: u64) = count_list (outcomes ctx runs) v" for v
    by (simp add: unat_of_nat)
  then show ?thesis using hist_okD(1,2,6) [OF h] Inr by simp
next
  case (Inl e)
  note res = collect_ok [OF empty_hist_ok, where ctx = ctx and runs = runs, unfolded Inl sum.case append_Nil]
  show ?thesis
  proof (cases e)
    case (LutOutOfBounds i)
    then obtain run where "run \<in> set runs" "ix_of 0 (outcome ctx run) = Some i" "200 \<le> i" using res by auto
    then have "outcome ctx run \<in> set (outcomes ctx runs)" "\<not> in_table (outcome ctx run)"
      by (simp_all add: outcomes_def in_table_def)
    then show ?thesis using Inl by auto
  next
    case Overallocated
    then show ?thesis using res Inl by simp
  qed
qed

text \<open>Four registers that are all 3 have no entry in the table.\<close>

lemma lut_too_small: "ix_of 0 [3, 3, 3, 3] = Some 255" "\<not> in_table [3, 3, 3, 3]"
  by (simp_all add: in_table_def)

definition mp_ctx :: test_ctx_t where
  "mp_ctx = (conc_ctx [])\<lparr>out_regs := [[1, 0, 1], [0, 0, 0]],
     tcfg := (tcfg (conc_ctx []))\<lparr>reg_names := [''p1:x0'', ''p1:x2''], interesting_result := Some [1, 0], interesting_results := None\<rparr>\<rparr>"

theorem collect_histogram_witness:
  "\<exists>h. collect mp_ctx [0, 1, 2] empty_hist = Inr h \<and> unat (counter (results h ! 0)) = 2 \<and> length (results h) = 2 \<and> is_relaxed (results h ! 0)"
proof -
  have o: "outcome mp_ctx 0 = [1, 0]" "outcome mp_ctx (Suc 0) = [0, 0]" "outcome mp_ctx 2 = [1, 0]"
    by (simp_all add: outcome_def mp_ctx_def upt_rec)
  have i: "matches_interesting (tcfg mp_ctx) [1, 0]"
    by (simp add: matches_interesting_def relaxed_results_def mp_ctx_def)
  have m: "result_matches r mp_ctx (Suc 0) \<longleftrightarrow> rvalues r ! 0 = 0 \<and> rvalues r ! Suc 0 = 0" for r
    by (simp add: result_matches_def mp_ctx_def upt_rec)
  obtain h where h: "collect mp_ctx [0, 1, 2] empty_hist = Inr h" "rvalues (results h ! 0) = [1, 0]" "length (results h) = 2"
    by (simp add: add_results_def lookup_lut_def ix_from_values_def o m empty_hist_def bump_def Let_def)
  then have "results h ! 0 \<in> set (results h)" by simp
  with h collect_histogram [of "[0, 1, 2]" mp_ctx] i show ?thesis
    by (auto simp: outcomes_def o)
qed

end
