(* ===== verification/Printer.thy ===== *)
theory Printer
  imports Cstring Config
begin

text \<open>
  Printing (\<open>lib/printer.c\<close>): streams to the UART or into a buffer of fixed size, numbers, the format
  strings of \<open>sprintf\<close>, times and registers. A stream is the text written so far; a buffer also has the
  number of bytes left. The arguments of a format are 64-bit slots, strings (\<open>NULL\<close> is \<open>None\<close>) or arrays
  of \<open>int\<close>; one of another kind, or none, where a conversion wants one is an error of its own.
\<close>

section \<open>Streams and numbers\<close>

datatype stream_t = Uart string | Buffer string nat

datatype print_err = EmptyStream | UnknownSymbol char | BadArgument

datatype parg = Slot u64 | Str "string option" | Ints "u32 list"

fun sputc :: "stream_t \<Rightarrow> char \<Rightarrow> print_err + stream_t" where
  "sputc (Uart t) c = Inr (Uart (t @ [c]))"
| "sputc (Buffer t n) c = (if n = 0 then Inl EmptyStream else Inr (Buffer (t @ [c]) (n - 1)))"

fun sputs_loop :: "stream_t \<Rightarrow> string \<Rightarrow> print_err + stream_t" where
  "sputs_loop out [] = Inr out"
| "sputs_loop out (c # s) = rbind (sputc out c) (\<lambda>out. sputs_loop out s)"

definition sputs :: "stream_t \<Rightarrow> string option \<Rightarrow> print_err + stream_t" where
  "sputs out s = sputs_loop out (case s of None \<Rightarrow> ''NULL'' | Some t \<Rightarrow> t)"

definition sputchar :: "stream_t \<Rightarrow> char \<Rightarrow> print_err + stream_t" where
  "sputchar out c = (if c = char_of (0 :: nat) then Inr out else sputc out c)"

definition get_hexchar :: "u64 \<Rightarrow> char" where
  "get_hexchar n = (if n < 10 then char_of (unat (n + 48)) else if n < 16 then char_of (unat (n - 10 + 65)) else char_of (0 :: nat))"

text \<open>The digits of a number, the last one first, as the array the loops fill.\<close>

lemma unat_div_part: "unat ((n - n mod b) div b) = unat n div unat (b :: u64)"
proof -
  have "n mod b \<le> n" by (simp add: word_le_nat_alt unat_mod)
  then have "unat (n - n mod b) = unat n - unat n mod unat b" by (simp add: unat_sub unat_mod)
  then show ?thesis by (simp add: unat_div minus_mod_eq_div_mult)
qed

function digits_loop :: "u64 \<Rightarrow> u64 \<Rightarrow> u64 list" where
  "digits_loop b n = (if 1 < b \<and> 0 < n then n mod b # digits_loop b ((n - n mod b) div b) else [])"
  by pat_completeness auto
termination
  by (relation "measure (\<lambda>(b, n). unat n)") (simp_all add: unat_div_part word_less_nat_alt)

declare digits_loop.simps [simp del]

definition sputdec :: "stream_t \<Rightarrow> u64 \<Rightarrow> print_err + stream_t" where
  "sputdec out n =
     (let digits = (if n = 0 then [CHR ''0''] else map (\<lambda>m. char_of (unat (m + 48))) (digits_loop 10 n))
      in sputs_loop out (rev digits))"

text \<open>The digits from index \<open>i - 1\<close> down, with an underscore after each group of four.\<close>

fun hex_loop :: "stream_t \<Rightarrow> string \<Rightarrow> nat \<Rightarrow> print_err + stream_t" where
  "hex_loop out hex 0 = Inr out"
| "hex_loop out hex (Suc i) =
     rbind (sputc out (hex ! i)) (\<lambda>out.
     rbind (if i mod 4 = 0 \<and> 0 < i then sputc out (CHR ''_'') else Inr out) (\<lambda>out. hex_loop out hex i))"

definition sputhex :: "stream_t \<Rightarrow> u64 \<Rightarrow> print_err + stream_t" where
  "sputhex out n =
     (let hex = (if n = 0 then [CHR ''0''] else map get_hexchar (digits_loop 16 n))
      in hex_loop out hex (length hex))"

section \<open>Formats\<close>

text \<open>The slot of an \<open>int\<close>, sign-extended to the \<open>u64\<close> it is printed as, and of a \<open>u32\<close>.\<close>

definition int_arg :: "u64 \<Rightarrow> u64" where "int_arg v = scast (ucast v :: 32 word)"

definition u32_arg :: "u64 \<Rightarrow> u64" where "u32_arg v = ucast (ucast v :: 32 word)"

fun slot :: "parg list \<Rightarrow> print_err + (u64 \<times> parg list)" where
  "slot (Slot v # args) = Inr (v, args)"
| "slot _ = Inl BadArgument"

fun str_arg :: "parg list \<Rightarrow> print_err + (string option \<times> parg list)" where
  "str_arg (Str s # args) = Inr (s, args)"
| "str_arg _ = Inl BadArgument"

fun ints_arg :: "parg list \<Rightarrow> print_err + (u32 list \<times> parg list)" where
  "ints_arg (Ints xs # Slot n # args) = (if unat n = length xs then Inr (xs, args) else Inl BadArgument)"
| "ints_arg _ = Inl BadArgument"

text \<open>The end of \<open>vsprintf\<close>: a buffer gets a \<open>NUL\<close> that the next call overwrites.\<close>

fun end_string :: "stream_t \<Rightarrow> print_err + stream_t" where
  "end_string (Uart t) = Inr (Uart t)"
| "end_string (Buffer t n) = (if n = 0 then Inl EmptyStream else Inr (Buffer t n))"

text \<open>\<open>%A\<close> prints the elements only for \<open>%Ad\<close>, each with its own \<open>sprintf\<close>.\<close>

fun array_loop :: "stream_t \<Rightarrow> char \<Rightarrow> u32 list \<Rightarrow> print_err + stream_t" where
  "array_loop out c [] = Inr out"
| "array_loop out c (x # xs) =
     rbind (if c = CHR ''d'' then rbind (sputdec out (scast x)) end_string else Inr out) (\<lambda>out.
     rbind (if xs \<noteq> [] then sputc out (CHR '' '') else Inr out) (\<lambda>out. array_loop out c xs))"

definition sputarray :: "stream_t \<Rightarrow> char \<Rightarrow> u32 list \<Rightarrow> print_err + stream_t" where
  "sputarray out c xs =
     rbind (sputc out (CHR ''['')) (\<lambda>out. rbind (array_loop out c xs) (\<lambda>out. sputc out (CHR '']'')))"

text \<open>What the loop of \<open>vsprintf\<close> finds at its place, and where it goes on.\<close>

datatype conv = Lit char | ConvD | ConvDX | ConvX | ConvLX | ConvLD | ConvL | ConvC | ConvS | ConvP | ConvA char | Unknown char

definition next_conv :: "char \<Rightarrow> string \<Rightarrow> conv \<times> string" where
  "next_conv c p =
     (if c \<noteq> CHR ''%'' then (Lit c, p)
      else case p of
        [] \<Rightarrow> (Unknown (char_of (0 :: nat)), [])
      | d # q \<Rightarrow>
          (let e = (case q of [] \<Rightarrow> char_of (0 :: nat) | e # r \<Rightarrow> e)
           in if d = CHR ''%'' then (Lit (CHR ''%''), q)
              else if d = CHR ''d'' then if e = CHR ''x'' then (ConvDX, tl q) else (ConvD, q)
              else if d = CHR ''x'' then (ConvX, q)
              else if d = CHR ''l'' then
                if e = CHR ''x'' then (ConvLX, tl q) else if e = CHR ''d'' then (ConvLD, tl q) else (ConvL, q)
              else if d = CHR ''c'' then (ConvC, q)
              else if d = CHR ''s'' \<or> d = CHR ''o'' then (ConvS, q)
              else if d = CHR ''p'' then (ConvP, q)
              else if d = CHR ''A'' then if q = [] then (Unknown e, q) else (ConvA e, tl q)
              else (Unknown d, q)))"

definition print_conv :: "conv \<Rightarrow> stream_t \<Rightarrow> parg list \<Rightarrow> print_err + (stream_t \<times> parg list)" where
  "print_conv cv out args =
     (let number = (\<lambda>put. rbind (slot args) (\<lambda>(v, args). rbind (put v) (\<lambda>out. Inr (out, args))))
      in case cv of
        Lit c \<Rightarrow> rbind (sputc out c) (\<lambda>out. Inr (out, args))
      | ConvD \<Rightarrow> number (\<lambda>v. sputdec out (int_arg v))
      | ConvDX \<Rightarrow> number (\<lambda>v. sputhex out (int_arg v))
      | ConvX \<Rightarrow> number (\<lambda>v. sputhex out (u32_arg v))
      | ConvLX \<Rightarrow> number (sputhex out)
      | ConvLD \<Rightarrow> number (sputdec out)
      | ConvL \<Rightarrow> Inr (out, args)
      | ConvC \<Rightarrow> number (\<lambda>v. sputchar out (char_of (unat (ucast v :: u8))))
      | ConvS \<Rightarrow> rbind (str_arg args) (\<lambda>(s, args). rbind (sputs out s) (\<lambda>out. Inr (out, args)))
      | ConvP \<Rightarrow> number (\<lambda>v. rbind (sputs out (Some ''0x'')) (\<lambda>out. sputhex out v))
      | ConvA c \<Rightarrow> rbind (ints_arg args) (\<lambda>(xs, args). rbind (sputarray out c xs) (\<lambda>out. Inr (out, args)))
      | Unknown c \<Rightarrow> Inl (UnknownSymbol c))"

lemma next_conv_rest: "snd (next_conv c p) \<in> {p, tl p, tl (tl p), []}"
  by (cases p) (simp_all add: next_conv_def Let_def)

lemma next_conv_shorter: "next_conv c p = (cv, q) \<Longrightarrow> length q \<le> length p"
  using next_conv_rest [of c p] by auto

function vsprintf_loop :: "string \<Rightarrow> stream_t \<Rightarrow> parg list \<Rightarrow> print_err + stream_t" where
  "vsprintf_loop [] out args = Inr out"
| "vsprintf_loop (c # p) out args =
     (case next_conv c p of (cv, q) \<Rightarrow> rbind (print_conv cv out args) (\<lambda>(out, args). vsprintf_loop q out args))"
  by pat_completeness auto
termination
  by (relation "measure (\<lambda>(p, _). length p)") (auto dest: next_conv_shorter [OF sym])

definition vsprintf :: "stream_t \<Rightarrow> string \<Rightarrow> parg list \<Rightarrow> print_err + stream_t" where
  "vsprintf out fmt args = rbind (vsprintf_loop fmt out args) end_string"

section \<open>What they print\<close>

declare decimal.simps [simp del]

text \<open>Writing a whole text: nothing is cut off, a buffer that is too small is the failure.\<close>

fun put :: "stream_t \<Rightarrow> string \<Rightarrow> print_err + stream_t" where
  "put (Uart t) s = Inr (Uart (t @ s))"
| "put (Buffer t n) s = (if length s \<le> n then Inr (Buffer (t @ s) (n - length s)) else Inl EmptyStream)"

lemma sputc_put: "sputc out c = put out [c]"
  by (cases out) (auto simp: not_less_eq_eq)

lemma put_Nil [simp]: "put out [] = Inr out"
  by (cases out) auto

lemma put_put: "rbind (put out s) (\<lambda>out. put out t) = put out (s @ t)"
  by (cases out) auto

lemma put_put_then: "rbind (put out s) (\<lambda>out. rbind (put out t) f) = rbind (put out (s @ t)) f"
  by (simp add: put_put [symmetric] rbind_assoc)

lemma sputs_loop_put: "sputs_loop out s = put out s"
  by (induction s arbitrary: out) (simp_all add: sputc_put put_put)

lemma end_string_put: "t \<noteq> [] \<Longrightarrow> rbind (rbind (put out s) end_string) (\<lambda>out. put out t) = put out (s @ t)"
  by (cases out; cases t) auto

lemma digits_loop_decimal:
  "0 < n \<Longrightarrow> map (\<lambda>m. char_of (unat (m + 48))) (rev (digits_loop 10 n)) = decimal (unat n)"
proof (induction "10 :: u64" n rule: digits_loop.induct)
  case (1 n)
  have d: "unat ((n - n mod 10) div 10) = unat n div 10" by (simp add: unat_div_part)
  have m: "unat (n mod 10) = unat n mod 10" by (simp add: unat_mod)
  then have "unat (n mod 10 + 48) = 48 + unat n mod 10" by (subst unat_add_no_wrap) simp_all
  then have c: "char_of (unat (n mod 10 + 48)) = digit (unat n mod 10)" by (simp add: digit_def)
  show ?case
  proof (cases "unat n < 10")
    case True
    then have "(n - n mod 10) div 10 = 0" using d by (simp add: unat_eq_zero [symmetric])
    then have "digits_loop 10 ((n - n mod 10) div 10) = []" by (subst digits_loop.simps) simp
    then show ?thesis using "1.prems" c True by (subst digits_loop.simps, subst decimal.simps) simp
  next
    case False
    then have "0 < (n - n mod 10) div 10" using d by (simp add: word_less_nat_alt)
    then show ?thesis using 1 c d False by (subst digits_loop.simps, subst decimal.simps) simp
  qed
qed

lemma sputdec_put: "sputdec out n = put out (decimal (unat n))"
proof (cases "n = 0")
  case True
  then show ?thesis by (subst decimal.simps) (simp add: sputdec_def sputs_loop_put digit_def char_of_def bit_Suc_0_iff)
next
  case False
  then have "0 < n" by (simp add: word_gt_0)
  then show ?thesis using digits_loop_decimal [of n] False
    by (simp add: sputdec_def sputs_loop_put rev_map [symmetric])
qed

text \<open>Hexadecimal digits, and their groups of four from the right.\<close>

definition hexdigit :: "nat \<Rightarrow> char" where "hexdigit d = ''0123456789ABCDEF'' ! d"

fun hexadecimal :: "nat \<Rightarrow> string" where
  "hexadecimal n = (if n < 16 then [hexdigit n] else hexadecimal (n div 16) @ [hexdigit (n mod 16)])"

fun grouped :: "string \<Rightarrow> string" where
  "grouped s = (if length s \<le> 4 then s else grouped (take (length s - 4) s) @ CHR ''_'' # drop (length s - 4) s)"

declare hexadecimal.simps [simp del] grouped.simps [simp del]

lemma get_hexchar_digit: "n < 16 \<Longrightarrow> get_hexchar n = hexdigit (unat n)"
proof -
  assume "n < 16"
  then have "unat n < 16" by (simp add: word_less_nat_alt)
  moreover have l: "list_all (\<lambda>k. get_hexchar (of_nat k) = hexdigit k) [0..<16]"
    by (simp add: upt_rec get_hexchar_def hexdigit_def char_of_def bit_Suc_0_iff)
  have "get_hexchar (of_nat k) = hexdigit k" if "k < 16" for k
    using l that unfolding list_all_iff atLeastLessThan_upt [symmetric] by auto
  ultimately have "get_hexchar (of_nat (unat n)) = hexdigit (unat n)" by blast
  moreover have "of_nat (unat n) = n" by simp
  ultimately show ?thesis by (simp only:)
qed

lemma digits_loop_hexadecimal: "0 < n \<Longrightarrow> map get_hexchar (rev (digits_loop 16 n)) = hexadecimal (unat n)"
proof (induction "16 :: u64" n rule: digits_loop.induct)
  case (1 n)
  have d: "unat ((n - n mod 16) div 16) = unat n div 16" by (simp add: unat_div_part)
  have "n mod 16 < 16" by (simp add: word_less_nat_alt unat_mod)
  then have c: "get_hexchar (n mod 16) = hexdigit (unat n mod 16)" by (simp add: get_hexchar_digit unat_mod)
  show ?case
  proof (cases "unat n < 16")
    case True
    then have "(n - n mod 16) div 16 = 0" using d by (simp add: unat_eq_zero [symmetric])
    then have "digits_loop 16 ((n - n mod 16) div 16) = []" by (subst digits_loop.simps) simp
    then show ?thesis using "1.prems" c True by (subst digits_loop.simps, subst hexadecimal.simps) simp
  next
    case False
    then have "0 < (n - n mod 16) div 16" using d by (simp add: word_less_nat_alt)
    then show ?thesis using 1 c d False by (subst digits_loop.simps, subst hexadecimal.simps) simp
  qed
qed

text \<open>The loop of \<open>sputhex\<close> puts an underscore wherever a multiple of four digits is left.\<close>

fun hex_from :: "string \<Rightarrow> nat \<Rightarrow> string" where
  "hex_from hex 0 = []"
| "hex_from hex (Suc i) = hex ! i # (if i mod 4 = 0 \<and> 0 < i then [CHR ''_''] else []) @ hex_from hex i"

lemma hex_loop_put: "hex_loop out hex i = put out (hex_from hex i)"
  by (induction i arbitrary: out) (auto simp: sputc_put put_put)

lemma hex_from_short: "i \<le> 4 \<Longrightarrow> i \<le> length hex \<Longrightarrow> hex_from hex i = rev (take i hex)"
  by (induction i) (auto simp: take_Suc_conv_app_nth)

lemma hex_from_group:
  "0 < i \<Longrightarrow> 4 + i \<le> length hex \<Longrightarrow> hex_from hex (4 + i) = hex_from (drop 4 hex) i @ CHR ''_'' # hex_from hex 4"
proof (induction i)
  case (Suc i)
  have e: "hex_from hex (4 + Suc i) = hex ! (4 + i) # (if i mod 4 = 0 then [CHR ''_''] else []) @ hex_from hex (4 + i)"
    using hex_from.simps(2) [of hex "4 + i"] by (simp del: hex_from.simps)
  show ?case
  proof (cases "i = 0")
    case True
    have "drop 4 hex ! 0 = hex ! 4" using Suc.prems by (intro trans [OF nth_drop]) simp_all
    then show ?thesis using e True by simp
  next
    case False
    then show ?thesis using Suc unfolding e by simp
  qed
qed simp

lemma hex_from_grouped: "hex_from hex (length hex) = grouped (rev hex)"
proof (induction hex rule: length_induct)
  case (1 hex)
  show ?case
  proof (cases "length hex \<le> 4")
    case True
    then show ?thesis using hex_from_short [of "length hex" hex] by (subst grouped.simps) simp
  next
    case False
    then have l: "length hex = 4 + length (drop 4 hex)" by simp
    have "hex_from hex (length hex) = hex_from hex (4 + length (drop 4 hex))" by (rule arg_cong [OF l])
    also have "\<dots> = hex_from (drop 4 hex) (length (drop 4 hex)) @ CHR ''_'' # hex_from hex 4"
      by (rule hex_from_group) (use False in simp_all)
    also have "hex_from hex 4 = rev (take 4 hex)" by (rule hex_from_short) (use False in simp_all)
    also have "hex_from (drop 4 hex) (length (drop 4 hex)) = grouped (rev (drop 4 hex))" using 1 [rule_format, of "drop 4 hex"] False by simp
    also have "rev (drop 4 hex) = take (length (rev hex) - 4) (rev hex)" unfolding length_rev by (rule rev_drop)
    also have "rev (take 4 hex) = drop (length (rev hex) - 4) (rev hex)" unfolding length_rev by (rule rev_take)
    also have "grouped (take (length (rev hex) - 4) (rev hex)) @ CHR ''_'' # drop (length (rev hex) - 4) (rev hex) = grouped (rev hex)"
      using grouped.simps [of "rev hex"] False by simp
    finally show ?thesis .
  qed
qed

lemma sputhex_put: "sputhex out n = put out (grouped (hexadecimal (unat n)))"
proof (cases "n = 0")
  case True
  have "hexadecimal 0 = ''0''" by (subst hexadecimal.simps) (simp add: hexdigit_def)
  moreover have "grouped ''0'' = ''0''" by (subst grouped.simps) simp
  ultimately show ?thesis using True by (simp add: sputhex_def sputc_put)
next
  case False
  then have "0 < n" by (simp add: word_gt_0)
  then show ?thesis using digits_loop_hexadecimal [of n] False hex_from_grouped [of "map get_hexchar (digits_loop 16 n)"]
    by (simp add: sputhex_def hex_loop_put rev_map [symmetric])
qed

text \<open>The text of an array, of a conversion and of a format.\<close>

fun array_text :: "char \<Rightarrow> u32 list \<Rightarrow> string" where
  "array_text c [] = []"
| "array_text c (x # xs) =
     (if c = CHR ''d'' then decimal (unat (scast x :: u64)) else []) @ (if xs \<noteq> [] then '' '' else []) @ array_text c xs"

lemma end_string_again: "rbind (put out s) end_string = Inr out' \<Longrightarrow> t \<noteq> [] \<Longrightarrow> put out' t = put out (s @ t)"
  by (cases out; cases t) (auto split: if_splits)

lemma end_string_fails: "rbind (put out s) end_string = Inl e \<Longrightarrow> t \<noteq> [] \<Longrightarrow> put out (s @ t) = Inl e"
  by (cases out; cases t) (auto split: if_splits)

lemma rbind_end_string: "t \<noteq> [] \<Longrightarrow> rbind (rbind (put out s) end_string) (\<lambda>out. put out t) = put out (s @ t)"
  using end_string_again end_string_fails by (cases "rbind (put out s) end_string") auto

lemma array_put: "rbind (array_loop out c xs) (\<lambda>out. put out ('']'' @ t)) = put out (array_text c xs @ '']'' @ t)"
proof (induction xs arbitrary: out)
  case (Cons x xs)
  have r: "rbind (if xs \<noteq> [] then sputc out (CHR '' '') else Inr out) (\<lambda>out. rbind (array_loop out c xs) (\<lambda>out. put out ('']'' @ t))) =
      put out ((if xs \<noteq> [] then '' '' else []) @ array_text c xs @ '']'' @ t)" for out
    using Cons.IH by (cases xs) (simp_all add: rbind_assoc sputc_put put_put)
  show ?case unfolding array_loop.simps rbind_assoc r
    using rbind_end_string [of "(if xs \<noteq> [] then '' '' else []) @ array_text c xs @ '']'' @ t" out "decimal (unat (scast x :: u64))"]
    by (cases "c = CHR ''d''"; cases "xs = []") (simp_all add: rbind_assoc sputdec_put)
qed simp

lemma sputarray_put: "sputarray out c xs = put out (''['' @ array_text c xs @ '']'')"
  using array_put [of _ c xs "[]"] by (simp add: sputarray_def sputc_put put_put)


definition conv_text :: "conv \<Rightarrow> parg list \<Rightarrow> print_err + (string \<times> parg list)" where
  "conv_text cv args =
     (let number = (\<lambda>text. rbind (slot args) (\<lambda>(v, args). Inr (text v, args)))
      in case cv of
        Lit c \<Rightarrow> Inr ([c], args)
      | ConvD \<Rightarrow> number (\<lambda>v. decimal (unat (int_arg v)))
      | ConvDX \<Rightarrow> number (\<lambda>v. grouped (hexadecimal (unat (int_arg v))))
      | ConvX \<Rightarrow> number (\<lambda>v. grouped (hexadecimal (unat (u32_arg v))))
      | ConvLX \<Rightarrow> number (\<lambda>v. grouped (hexadecimal (unat v)))
      | ConvLD \<Rightarrow> number (\<lambda>v. decimal (unat v))
      | ConvL \<Rightarrow> Inr ([], args)
      | ConvC \<Rightarrow> number (\<lambda>v. if char_of (unat (ucast v :: u8)) = char_of (0 :: nat) then [] else [char_of (unat (ucast v :: u8))])
      | ConvS \<Rightarrow> rbind (str_arg args) (\<lambda>(s, args). Inr (case s of None \<Rightarrow> ''NULL'' | Some t \<Rightarrow> t, args))
      | ConvP \<Rightarrow> number (\<lambda>v. ''0x'' @ grouped (hexadecimal (unat v)))
      | ConvA c \<Rightarrow> rbind (ints_arg args) (\<lambda>(xs, args). Inr (''['' @ array_text c xs @ '']'', args))
      | Unknown c \<Rightarrow> Inl (UnknownSymbol c))"

lemma sputchar_put: "sputchar out c = put out (if c = char_of (0 :: nat) then [] else [c])"
  by (simp add: sputchar_def sputc_put)

lemma print_conv_put:
  "print_conv cv out args = rbind (conv_text cv args) (\<lambda>(s, args). rbind (put out s) (\<lambda>out. Inr (out, args)))"
proof -
  have n: "rbind (slot args) (\<lambda>(v, args). rbind (p v) (\<lambda>out. Inr (out, args))) =
      rbind (rbind (slot args) (\<lambda>(v, args). Inr (t v, args))) (\<lambda>(s, args). rbind (put out s) (\<lambda>out. Inr (out, args)))"
    if "\<And>v. p v = put out (t v)" for p t using that by (cases "slot args") auto
  show ?thesis
  proof (cases cv)
    case ConvS
    then show ?thesis by (cases "str_arg args") (auto simp: print_conv_def conv_text_def sputs_def sputs_loop_put)
  next
    case (ConvA c)
    then show ?thesis by (cases "ints_arg args") (auto simp: print_conv_def conv_text_def sputarray_put)
  next
    case ConvP
    show ?thesis unfolding print_conv_def conv_text_def Let_def ConvP conv.case
      by (rule n) (simp add: sputs_def sputs_loop_put sputhex_put put_put)
  next
    case ConvC
    show ?thesis unfolding print_conv_def conv_text_def Let_def ConvC conv.case by (rule n) (rule sputchar_put)
  next
    case ConvD
    show ?thesis unfolding print_conv_def conv_text_def Let_def ConvD conv.case by (rule n) (rule sputdec_put)
  next
    case ConvDX
    show ?thesis unfolding print_conv_def conv_text_def Let_def ConvDX conv.case by (rule n) (rule sputhex_put)
  next
    case ConvX
    show ?thesis unfolding print_conv_def conv_text_def Let_def ConvX conv.case by (rule n) (rule sputhex_put)
  next
    case ConvLX
    show ?thesis unfolding print_conv_def conv_text_def Let_def ConvLX conv.case by (rule n) (rule sputhex_put)
  next
    case ConvLD
    show ?thesis unfolding print_conv_def conv_text_def Let_def ConvLD conv.case by (rule n) (rule sputdec_put)
  qed (simp_all add: print_conv_def conv_text_def sputc_put)
qed

text \<open>The text of a format with its arguments.\<close>

function render :: "string \<Rightarrow> parg list \<Rightarrow> print_err + string" where
  "render [] args = Inr []"
| "render (c # p) args =
     (case next_conv c p of (cv, q) \<Rightarrow>
        rbind (conv_text cv args) (\<lambda>(s, args). rbind (render q args) (\<lambda>t. Inr (s @ t))))"
  by pat_completeness auto
termination
  by (relation "measure (\<lambda>(p, _). length p)") (auto dest: next_conv_shorter [OF sym])

lemma vsprintf_loop_put: "render fmt args = Inr s \<Longrightarrow> vsprintf_loop fmt out args = put out s"
proof (induction fmt args arbitrary: out s rule: render.induct)
  case (2 c p args)
  obtain cv q where n: "next_conv c p = (cv, q)" by fastforce
  from "2.prems" n obtain s1 args1 s2 where r: "conv_text cv args = Inr (s1, args1)" "render q args1 = Inr s2" "s = s1 @ s2"
    by (auto simp: rbind_Inr_iff)
  have "vsprintf_loop q out args1 = put out s2" for out
    by (rule "2.IH" [OF n [symmetric] r(1) refl r(2)])
  then show ?case using n r by (simp add: print_conv_put rbind_assoc put_put)
qed simp

lemma vsprintf_put:
  assumes "render fmt args = Inr s"
  shows "vsprintf out fmt args = rbind (put out s) end_string"
  unfolding vsprintf_def vsprintf_loop_put [OF assms] by (rule refl)

text \<open>
  C36: \<open>sprintf\<close> never cuts its text off and never writes past its buffer: when a format's conversions have
  their arguments, it appends exactly the format's text (decimal numbers, upper-case hexadecimal ones in
  groups of four) if the buffer has room for it and the final \<open>NUL\<close>, and is the failure if not.
\<close>

theorem vsprintf_renders:
  assumes "render fmt args = Inr s"
  shows "vsprintf (Buffer t n) fmt args = (if length s < n then Inr (Buffer (t @ s) (n - length s)) else Inl EmptyStream)"
  unfolding vsprintf_put [OF assms] by auto

theorem vsprintf_renders_witness:
  "vsprintf (Buffer ''x'' 20) ''p=%p %d%%'' [Slot 74565, Slot 7] = Inr (Buffer ''xp=0x1_2345 7%'' 7)"
proof -
  have "hexadecimal 74565 = ''12345''" by (simp add: hexadecimal.simps hexdigit_def)
  moreover have "grouped ''2345'' = ''2345''" "grouped ''1'' = ''1''" "grouped ''12345'' = ''1_2345''"
    by (simp_all add: grouped.simps [of "''2345''"] grouped.simps [of "''1''"] grouped.simps [of "''12345''"])
  moreover have "decimal 7 = ''7''" by (subst decimal.simps) (simp add: digit_def char_of_def bit_Suc_0_iff)
  ultimately have "render ''p=%p %d%%'' [Slot 74565, Slot 7] = Inr ''p=0x1_2345 7%''"
    by (simp add: next_conv_def conv_text_def int_arg_def)
  from vsprintf_renders [OF this, of "''x''" 20] show ?thesis by simp
qed

lemma length_decimal: "n < 10 ^ Suc k \<Longrightarrow> length (decimal n) \<le> Suc k"
proof (induction k arbitrary: n)
  case 0
  then show ?case by (subst decimal.simps) simp
next
  case (Suc k)
  then have "n div 10 < 10 ^ Suc k" by (simp add: div_less_iff_less_mult mult.commute)
  then show ?case using Suc.IH by (subst decimal.simps) simp
qed

lemma length_decimal_u64: "length (decimal (unat (n :: u64))) \<le> 20"
proof -
  have "unat n < 10 ^ Suc 19" by (rule less_le_trans [OF u64_unat_lt]) simp
  then show ?thesis using length_decimal [of "unat n" 19] by simp
qed

lemma atoi_decimal_text: "atoi (decimal (unat n)) = Inr n"
proof -
  have "c \<noteq> CHR ''_''" if "c \<in> set (decimal (unat n))" for c
  proof -
    have "\<exists>d<10. c = digit d" by (rule decimal_digits [OF that])
    then obtain e where "e < 10" "c = digit e" by blast
    then show ?thesis using digit_neq [of e] by auto
  qed
  then have "filter (\<lambda>c. c \<noteq> CHR ''_'') (decimal (unat n)) = decimal (unat n)" by simp
  from atoi_number(1) [OF this] show ?thesis by simp
qed

lemma render_ld: "render ''%ld'' [Slot n] = Inr (decimal (unat n))"
  by (simp add: next_conv_def conv_text_def)

text \<open>
  C37: Any 64-bit number printed with \<open>%ld\<close> fits in a buffer of 21 bytes, and \<open>atoi\<close> reads it back.
\<close>

theorem printed_number_read_back:
  "\<exists>t. vsprintf (Buffer [] 21) ''%ld'' [Slot n] = Inr (Buffer t (21 - length t)) \<and> atoi t = Inr n"
  using vsprintf_put [OF render_ld, of "Buffer [] 21" n] length_decimal_u64 [of n] atoi_decimal_text [of n]
  by (auto simp del: One_nat_def)

text \<open>
  What \<open>%p\<close> prints is not read back: \<open>atoi\<close> takes the underscores of a hexadecimal number as digits, and
  has the letters wrong. The command line that \<open>litmus_test_fixed_concretization.c\<close> prints for a run has
  its addresses in this form.
\<close>

lemma printed_pointer_misread: "atoi ''0x1_2345'' = Inr 1057605" "(74565 :: u64) \<noteq> 1057605"
  by (simp_all add: atoi_def atoi_hex_def ctoi_hex_def)

text \<open>A negative \<open>int\<close> is printed as the 64-bit number it extends to.\<close>

lemma negative_int_printed: "int_arg (- 1) = - 1"
  unfolding int_arg_def by (rule bit_word_eqI) (auto simp: bit_simps)

section \<open>Times and registers\<close>

datatype time_format_t = SPRINT_TIME_SSDOTMS | SPRINT_TIME_SS | SPRINT_TIME_HHMMSS | SPRINT_TIME_HHMMSSCLK

text \<open>A field of two digits: \<open>0%d\<close> below ten and \<open>%d\<close> from there.\<close>

definition sprint_field :: "stream_t \<Rightarrow> u64 \<Rightarrow> print_err + stream_t" where
  "sprint_field out n = vsprintf out (if n < 10 then ''0%d'' else ''%d'') [Slot n]"

definition sprint_time :: "u64 \<Rightarrow> u64 \<Rightarrow> stream_t \<Rightarrow> u64 \<Rightarrow> time_format_t \<Rightarrow> print_err + stream_t" where
  "sprint_time INIT_CLOCK TICKS_PER_SEC out clk mode =
     (let clk = clk - INIT_CLOCK;
          tot_secs = clk div TICKS_PER_SEC;
          rem_ticks = clk mod TICKS_PER_SEC;
          rem_hours = tot_secs div (60 * 60);
          rem_secs = tot_secs mod (60 * 60);
          rem_mins = rem_secs div 60;
          rem_secs = rem_secs mod 60
      in if mode = SPRINT_TIME_SS then vsprintf out ''%ld'' [Slot tot_secs]
         else if mode = SPRINT_TIME_SSDOTMS
           then vsprintf out ''%ld.%ld'' [Slot tot_secs, Slot (rem_ticks div (TICKS_PER_SEC div 1000))]
         else rbind (sprint_field out rem_hours) (\<lambda>out.
              rbind (vsprintf out '':'' []) (\<lambda>out.
              rbind (sprint_field out rem_mins) (\<lambda>out.
              rbind (vsprintf out '':'' []) (\<lambda>out.
              rbind (sprint_field out rem_secs) (\<lambda>out.
              if mode = SPRINT_TIME_HHMMSSCLK then vsprintf out '':%ld'' [Slot rem_ticks] else Inr out))))))"

text \<open>The name of a register \<open>p<n>:x<m>\<close>; characters past its end are \<open>NUL\<close>s of the terminator.\<close>

definition extract_gpr :: "string \<Rightarrow> (string + (u64 \<times> u64)) option" where
  "extract_gpr reg_name =
     (if length reg_name < 3 \<or> reg_name ! 0 \<noteq> CHR ''p'' \<or> reg_name ! 2 \<noteq> CHR '':'' then None
      else Some (rbind (atoi (drop 4 reg_name)) (\<lambda>gprid. Inr (ctoi (reg_name ! 1), gprid))))"

section \<open>Messages\<close>

text \<open>The modes of \<open>vprintf\<close>, as the flags their bits are; and the colours, with the escape character.\<close>

record print_mode =
  mode_trace :: bool
  mode_noindent :: bool
  mode_warning :: bool
  mode_error :: bool

definition PRINT_MODE_NORM :: print_mode where
  "PRINT_MODE_NORM = \<lparr>mode_trace = False, mode_noindent = False, mode_warning = False, mode_error = False\<rparr>"

definition COLOR_RESET :: string where "COLOR_RESET = CHR 0x1B # ''[0m''"
definition COLOR_YELLOW :: string where "COLOR_YELLOW = CHR 0x1B # ''[0;33m''"
definition COLOR_RED :: string where "COLOR_RED = CHR 0x1B # ''[0;31m''"
definition COLOR_GRAY :: string where "COLOR_GRAY = CHR 0x1B # ''[0;90m''"

definition vprint_colour_prefix :: "print_mode \<Rightarrow> string" where
  "vprint_colour_prefix m =
     (if mode_error m then COLOR_RED else if mode_warning m then COLOR_YELLOW else if mode_trace m then COLOR_GRAY else [])"

definition vprint_colour_suffix :: "print_mode \<Rightarrow> string" where
  "vprint_colour_suffix m = (if mode_error m \<or> mode_warning m \<or> mode_trace m then COLOR_RESET else [])"

text \<open>\<open>vprintf\<close> on CPU \<open>cpu\<close>, writing to the UART.\<close>

definition vprintf :: "config \<Rightarrow> nat \<Rightarrow> print_mode \<Rightarrow> string \<Rightarrow> parg list \<Rightarrow> stream_t \<Rightarrow> print_err + stream_t" where
  "vprintf cfg cpu m fmt args out =
     rbind (if ENABLE_COLOUR cfg then sputs_loop out (vprint_colour_prefix m) else Inr out) (\<lambda>out.
     rbind (if mode_trace m then sputs out (Some ''#'') else Inr out) (\<lambda>out.
     rbind (if mode_warning m then sputs out (Some ''!'') else Inr out) (\<lambda>out.
     rbind (if \<not> mode_noindent m then sputs_loop out (replicate (3 * cpu) (CHR 0x09)) else Inr out) (\<lambda>out.
     rbind (vsprintf out fmt args) (\<lambda>out.
     if ENABLE_COLOUR cfg then sputs_loop out (vprint_colour_suffix m) else Inr out)))))"

definition printf :: "config \<Rightarrow> nat \<Rightarrow> string \<Rightarrow> parg list \<Rightarrow> stream_t \<Rightarrow> print_err + stream_t" where
  "printf cfg cpu = vprintf cfg cpu PRINT_MODE_NORM"

definition trace_msg :: "config \<Rightarrow> nat \<Rightarrow> string \<Rightarrow> parg list \<Rightarrow> stream_t \<Rightarrow> print_err + stream_t" where
  "trace_msg cfg cpu fmt args out =
     (if TRACE cfg then vprintf cfg cpu (PRINT_MODE_NORM\<lparr>mode_trace := True\<rparr>) fmt args out else Inr out)"

definition verbose :: "config \<Rightarrow> nat \<Rightarrow> string \<Rightarrow> parg list \<Rightarrow> stream_t \<Rightarrow> print_err + stream_t" where
  "verbose cfg cpu fmt args out =
     (if VERBOSE cfg then vprintf cfg cpu (PRINT_MODE_NORM\<lparr>mode_noindent := True, mode_trace := True\<rparr>) fmt args out else Inr out)"

text \<open>A warning, and whether the program goes on after it: \<open>-Werror\<close> aborts.\<close>

definition warning :: "config \<Rightarrow> nat \<Rightarrow> warning_name \<Rightarrow> string \<Rightarrow> parg list \<Rightarrow> stream_t \<Rightarrow> print_err + (stream_t \<times> bool)" where
  "warning cfg cpu category fmt args out =
     (if \<not> enabled_warnings cfg category then Inr (out, True)
      else (let m = PRINT_MODE_NORM\<lparr>mode_noindent := True, mode_trace := True, mode_warning := True, mode_error := WARNINGS_AS_ERRORS cfg\<rparr>
            in rbind (vprintf cfg cpu m fmt args out) (\<lambda>out.
               if WARNINGS_AS_ERRORS cfg
               then rbind (vprintf cfg cpu m (''erroring out due to -Werror'' @ [CHR 0x0A]) [] out) (\<lambda>out. Inr (out, False))
               else Inr (out, True))))"

definition error_msg :: "config \<Rightarrow> nat \<Rightarrow> warning_name \<Rightarrow> string \<Rightarrow> parg list \<Rightarrow> stream_t \<Rightarrow> print_err + stream_t" where
  "error_msg cfg cpu category fmt args out =
     (if \<not> enabled_warnings cfg category then Inr out
      else vprintf cfg cpu \<lparr>mode_trace = True, mode_noindent = True, mode_warning = True, mode_error = True\<rparr> fmt args out)"

text \<open>A register's name on a stream; an unknown one also warns on the UART, which the result has first.\<close>

datatype reg_err = RegPrint print_err | RegNumber string | RegAborted

fun as_reg :: "print_err + 'a \<Rightarrow> reg_err + 'a" where
  "as_reg (Inl e) = Inl (RegPrint e)"
| "as_reg (Inr x) = Inr x"

definition sprint_reg :: "config \<Rightarrow> nat \<Rightarrow> stream_t \<Rightarrow> stream_t \<Rightarrow> string \<Rightarrow> output_style \<Rightarrow> reg_err + (stream_t \<times> stream_t)" where
  "sprint_reg cfg cpu uart out reg_name style =
     (let plain = (\<lambda>uart. rbind (as_reg (vsprintf out ''%s'' [Str (Some reg_name)])) (\<lambda>out. Inr (uart, out)))
      in case style of
        STYLE_ORIGINAL \<Rightarrow> plain uart
      | STYLE_HERDTOOLS \<Rightarrow>
          (case extract_gpr reg_name of
             None \<Rightarrow>
               rbind (as_reg (warning cfg cpu WARN_UNKNONW_REGISTER
                  (''unknown register '' @ [CHR 0x27] @ ''%s'' @ [CHR 0x27, CHR 0x0A]) [Str (Some reg_name)] uart)) (\<lambda>(uart, go).
               if go then plain uart else Inl RegAborted)
           | Some (Inl e) \<Rightarrow> Inl (RegNumber e)
           | Some (Inr (tid, gprid)) \<Rightarrow>
               rbind (as_reg (vsprintf out ''%d:X%d'' [Slot tid, Slot gprid])) (\<lambda>out. Inr (uart, out))))"

end
