(* ===== verification/Report.thy ===== *)
theory Report
  imports Results Printer
begin

text \<open>
  Printing the results of a test (\<open>lib/litmus_test/litmus_test_results.c\<close>), on CPU 0: each result as it
  comes when there is no histogram, and the histogram at the end in one of two styles. The hash of the test's
  definition file and the one computed from the test are arguments, as are the ticks of the clock.
\<close>

section \<open>The code\<close>

definition uprint :: "config \<Rightarrow> string \<Rightarrow> parg list \<Rightarrow> stream_t \<Rightarrow> reg_err + stream_t" where
  "uprint cfg fmt args uart = as_reg (printf cfg 0 fmt args uart)"

definition newline :: string where "newline = [CHR 0x0A]"

fun print_single_regs :: "config \<Rightarrow> test_ctx_t \<Rightarrow> nat \<Rightarrow> nat list \<Rightarrow> stream_t \<Rightarrow> reg_err + stream_t" where
  "print_single_regs cfg ctx i [] uart = Inr uart"
| "print_single_regs cfg ctx i (r # rs) uart =
     rbind (uprint cfg '' %s=%d'' [Str (Some (reg_names (tcfg ctx) ! r)), Slot (out_regs ctx ! r ! i)] uart) (print_single_regs cfg ctx i rs)"

definition print_single_result :: "config \<Rightarrow> test_ctx_t \<Rightarrow> nat \<Rightarrow> stream_t \<Rightarrow> reg_err + stream_t" where
  "print_single_result cfg ctx i uart =
     rbind (uprint cfg ''* '' [] uart) (\<lambda>uart.
     rbind (print_single_regs cfg ctx i [0..<length (reg_names (tcfg ctx))] uart) (\<lambda>uart.
     uprint cfg ('' : 1'' @ newline) [] uart))"

text \<open>A new result: into the histogram, or printed, with the count of the run in place of its index.\<close>

datatype report_err = ReportRes res_err | ReportReg reg_err

definition handle_new_result :: "config \<Rightarrow> test_ctx_t \<Rightarrow> nat \<Rightarrow> nat \<Rightarrow> test_hist_t \<times> stream_t \<Rightarrow> report_err + (test_hist_t \<times> stream_t)" where
  "handle_new_result cfg ctx idx r st =
     (case st of (h, uart) \<Rightarrow>
        if ENABLE_RESULTS_HIST cfg
        then (case add_results h ctx idx of Inl e \<Rightarrow> Inl (ReportRes e) | Inr h \<Rightarrow> Inr (h, uart))
        else (case print_single_result cfg ctx r uart of Inl e \<Rightarrow> Inl (ReportReg e) | Inr uart \<Rightarrow> Inr (h, uart)))"

text \<open>The header knows whether it is the first.\<close>

definition print_test_header :: "config \<Rightarrow> string \<Rightarrow> bool \<Rightarrow> stream_t \<Rightarrow> reg_err + (bool \<times> stream_t)" where
  "print_test_header cfg name first_result uart =
     rbind (if \<not> first_result then uprint cfg newline [] uart else Inr uart) (\<lambda>uart.
     rbind (uprint cfg (case OUTPUT_FORMAT cfg of
         STYLE_HERDTOOLS \<Rightarrow> ''Test %s Allowed'' @ newline | STYLE_ORIGINAL \<Rightarrow> ''Test %s:'' @ newline) [Str (Some name)] uart) (\<lambda>uart.
     Inr (False, uart)))"

definition uwarning :: "config \<Rightarrow> warning_name \<Rightarrow> string \<Rightarrow> parg list \<Rightarrow> stream_t \<Rightarrow> reg_err + stream_t" where
  "uwarning cfg category fmt args uart =
     rbind (as_reg (warning cfg 0 category fmt args uart)) (\<lambda>(uart, go). if go then Inr uart else Inl RegAborted)"

definition print_hash :: "config \<Rightarrow> string option \<Rightarrow> string \<Rightarrow> stream_t \<Rightarrow> reg_err + stream_t" where
  "print_hash cfg test_hash computed_hash uart =
     (case test_hash of
        Some hash \<Rightarrow>
          rbind (uprint cfg (''Hash=%s'' @ newline) [Str (Some hash)] uart) (\<lambda>uart.
          if \<not> strcmp hash computed_hash
          then uwarning cfg WARN_HASH_MISMATCH (''computed hash %s did not match hash in test file'' @ newline) [Str (Some computed_hash)] uart
          else Inr uart)
      | None \<Rightarrow> uprint cfg (''Hash=%s'' @ newline) [Str (Some computed_hash)] uart)"

definition warn_missing_sc :: "config \<Rightarrow> test_ctx_t \<Rightarrow> u64 \<Rightarrow> stream_t \<Rightarrow> reg_err + stream_t" where
  "warn_missing_sc cfg ctx seen uart =
     (if 0 < no_sc_results (tcfg ctx) \<and> seen \<noteq> no_sc_results (tcfg ctx) \<and> ENABLE_RESULTS_MISSING_SC_WARNING cfg
      then uwarning cfg WARN_MISSING_SC_RESULTS (''on %s: saw %d SC results but expected %d'' @ newline)
             [Str (Some (tname (tcfg ctx))), Slot seen, Slot (no_sc_results (tcfg ctx))] uart
      else Inr uart)"

text \<open>The original style. \<open>marked\<close> and \<open>no_sc_results_seen\<close> are of type \<open>int\<close>.\<close>

fun original_regs :: "config \<Rightarrow> test_ctx_t \<Rightarrow> test_result_t \<Rightarrow> nat list \<Rightarrow> stream_t \<Rightarrow> reg_err + stream_t" where
  "original_regs cfg ctx res [] uart = Inr uart"
| "original_regs cfg ctx res (reg # regs) uart =
     rbind (uprint cfg '' %s=%d '' [Str (Some (reg_names (tcfg ctx) ! reg)), Slot (rvalues res ! reg)] uart) (original_regs cfg ctx res regs)"

fun original_loop :: "config \<Rightarrow> test_ctx_t \<Rightarrow> test_result_t list \<Rightarrow> u32 \<times> u32 \<Rightarrow> stream_t \<Rightarrow> reg_err + ((u32 \<times> u32) \<times> stream_t)" where
  "original_loop cfg ctx [] acc uart = Inr (acc, uart)"
| "original_loop cfg ctx (res # rs) (marked, seen) uart =
     rbind (if ENABLE_RESULTS_OUTREG_PRINT cfg
            then rbind (original_regs cfg ctx res [0..<length (reg_names (tcfg ctx))] uart)
                   (uprint cfg ((if is_relaxed res then '' : %d *'' else '' : %d'') @ newline) [Slot (counter res)])
            else Inr uart) (\<lambda>uart.
     original_loop cfg ctx rs (if is_relaxed res then (marked + ucast (counter res), seen) else (marked, seen + 1)) uart)"

definition print_results_original :: "config \<Rightarrow> string option \<Rightarrow> string \<Rightarrow> test_hist_t \<Rightarrow> test_ctx_t \<Rightarrow> stream_t \<Rightarrow> reg_err + stream_t" where
  "print_results_original cfg test_hash computed h ctx uart =
     rbind (original_loop cfg ctx (results h) (0, 0) uart) (\<lambda>((marked, seen), uart).
     rbind (print_hash cfg test_hash computed uart) (\<lambda>uart.
     rbind (uprint cfg (''Observation %s: %d (of %d)'' @ newline)
        [Str (Some (tname (tcfg ctx))), Slot (scast marked), Slot (of_nat (no_runs ctx))] uart) (\<lambda>uart.
     warn_missing_sc cfg ctx (scast seen) uart)))"

text \<open>The herdtools style: each line is put together in a buffer of its own of 1024 bytes.\<close>

fun herd_regs :: "config \<Rightarrow> test_ctx_t \<Rightarrow> test_result_t \<Rightarrow> nat list \<Rightarrow> stream_t \<Rightarrow> stream_t \<Rightarrow> reg_err + (stream_t \<times> stream_t)" where
  "herd_regs cfg ctx res [] uart buf = Inr (uart, buf)"
| "herd_regs cfg ctx res (reg # regs) uart buf =
     rbind (sprint_reg cfg 0 uart buf (reg_names (tcfg ctx) ! reg) STYLE_HERDTOOLS) (\<lambda>(uart, buf).
     rbind (as_reg (vsprintf buf ''=%d;'' [Slot (rvalues res ! reg)])) (\<lambda>buf. herd_regs cfg ctx res regs uart buf))"

fun stream_text :: "stream_t \<Rightarrow> string" where
  "stream_text (Uart t) = t"
| "stream_text (Buffer t n) = t"

definition herd_line :: "config \<Rightarrow> test_ctx_t \<Rightarrow> test_result_t \<Rightarrow> stream_t \<Rightarrow> reg_err + stream_t" where
  "herd_line cfg ctx res uart =
     (let marker = (if is_relaxed res then CHR ''*'' else CHR '':'')
      in rbind (as_reg (vsprintf (Buffer [] 1024) ''%ld%c>'' [Slot (counter res), Slot (of_nat (of_char marker))])) (\<lambda>buf.
         rbind (herd_regs cfg ctx res [0..<length (reg_names (tcfg ctx))] uart buf) (\<lambda>(uart, buf).
         uprint cfg (''%s'' @ newline) [Str (Some (stream_text buf))] uart)))"

fun herd_loop :: "config \<Rightarrow> test_ctx_t \<Rightarrow> test_result_t list \<Rightarrow> u64 \<times> u64 \<times> u64 \<Rightarrow> stream_t \<Rightarrow> reg_err + ((u64 \<times> u64 \<times> u64) \<times> stream_t)" where
  "herd_loop cfg ctx [] acc uart = Inr (acc, uart)"
| "herd_loop cfg ctx (res # rs) (marked, seen, total_count) uart =
     rbind (if ENABLE_RESULTS_OUTREG_PRINT cfg then herd_line cfg ctx res uart else Inr uart) (\<lambda>uart.
     herd_loop cfg ctx rs
       (if is_relaxed res then (marked + counter res, seen, total_count + counter res)
        else (marked, seen + 1, total_count + counter res)) uart)"

text \<open>The time is printed into a buffer of 100 bytes; \<open>clocks\<close> has \<open>INIT_CLOCK\<close>, the ticks of a second, and the
  start and the end of the test.\<close>

definition print_time_line :: "config \<Rightarrow> test_ctx_t \<Rightarrow> u64 \<times> u64 \<times> u64 \<times> u64 \<Rightarrow> stream_t \<Rightarrow> reg_err + stream_t" where
  "print_time_line cfg ctx clocks uart =
     (case clocks of (init_clock, ticks, start, stop) \<Rightarrow>
        rbind (as_reg (sprint_time init_clock ticks (Buffer [] 100) (stop - start) SPRINT_TIME_SSDOTMS)) (\<lambda>buf.
        uprint cfg (''Time %s %s'' @ newline) [Str (Some (tname (tcfg ctx))), Str (Some (stream_text buf))] uart))"

definition observation :: "u64 \<Rightarrow> u64 \<Rightarrow> string" where
  "observation marked total_count = (if marked = 0 then ''Never'' else if marked = total_count then ''Always'' else ''Sometimes'')"

definition print_results_herd ::
    "config \<Rightarrow> string option \<Rightarrow> string \<Rightarrow> u64 \<times> u64 \<times> u64 \<times> u64 \<Rightarrow> test_hist_t \<Rightarrow> test_ctx_t \<Rightarrow> bool \<times> stream_t \<Rightarrow> reg_err + (bool \<times> stream_t)" where
  "print_results_herd cfg test_hash computed clocks h ctx st =
     rbind (print_test_header cfg (tname (tcfg ctx)) (fst st) (snd st)) (\<lambda>(first, uart).
     rbind (uprint cfg (''Histogram (%d states)'' @ newline) [Slot (of_nat (length (results h)))] uart) (\<lambda>uart.
     rbind (herd_loop cfg ctx (results h) (0, 0, 0) uart) (\<lambda>((marked, seen, total_count), uart).
     rbind (uprint cfg ((if marked \<noteq> 0 then ''Ok'' else ''No'') @ newline) [] uart) (\<lambda>uart.
     rbind (uprint cfg (''Witnesses'' @ newline) [] uart) (\<lambda>uart.
     rbind (uprint cfg (''Positive: %ld Negative: %ld'' @ newline) [Slot marked, Slot (total_count - marked)] uart) (\<lambda>uart.
     rbind (print_hash cfg test_hash computed uart) (\<lambda>uart.
     rbind (uprint cfg ''Observation %s '' [Str (Some (tname (tcfg ctx)))] uart) (\<lambda>uart.
     rbind (uprint cfg (observation marked total_count) [] uart) (\<lambda>uart.
     rbind (uprint cfg ('' %ld %ld'' @ newline) [Slot marked, Slot (total_count - marked)] uart) (\<lambda>uart.
     rbind (print_time_line cfg ctx clocks uart) (\<lambda>uart.
     rbind (warn_missing_sc cfg ctx seen uart) (\<lambda>uart. Inr (first, uart)))))))))))))"

definition print_results ::
    "config \<Rightarrow> string option \<Rightarrow> string \<Rightarrow> u64 \<times> u64 \<times> u64 \<times> u64 \<Rightarrow> test_hist_t \<Rightarrow> test_ctx_t \<Rightarrow> bool \<times> stream_t \<Rightarrow> reg_err + (bool \<times> stream_t)" where
  "print_results cfg test_hash computed clocks h ctx st =
     (case OUTPUT_FORMAT cfg of
        STYLE_HERDTOOLS \<Rightarrow> print_results_herd cfg test_hash computed clocks h ctx st
      | STYLE_ORIGINAL \<Rightarrow>
          rbind (print_results_original cfg test_hash computed h ctx (snd st)) (\<lambda>uart. Inr (fst st, uart)))"

section \<open>The counts\<close>

lemma herd_loop_counts:
  assumes "herd_loop cfg ctx rs (m, sn, t) uart = Inr ((m', sn', t'), uart')"
  shows "m' = m + sum_list (map counter (filter is_relaxed rs)) \<and> t' = t + sum_list (map counter rs) \<and>
    sn' = sn + of_nat (length (filter (\<lambda>r. \<not> is_relaxed r) rs))"
  using assms
proof (induction rs arbitrary: m sn t uart)
  case (Cons r rs)
  then obtain uart1 where "herd_loop cfg ctx rs
       (if is_relaxed r then (m + counter r, sn, t + counter r) else (m, sn + 1, t + counter r)) uart1 = Inr ((m', sn', t'), uart')"
    unfolding herd_loop.simps rbind_Inr_iff by blast
  then show ?case
    using Cons.IH [of "m + counter r" sn "t + counter r" uart1] Cons.IH [of m "sn + 1" "t + counter r" uart1]
    by (cases "is_relaxed r") (simp_all add: add.assoc)
qed simp

text \<open>The number of the outcomes in a list that are among different values is the sum of their counts.\<close>

lemma count_list_filter: "P v \<Longrightarrow> count_list (filter P os) v = count_list os v"
  by (induction os) auto

lemma sum_count_filter:
  assumes "distinct vs" "set vs = set os"
  shows "sum_list (map (count_list os) (filter P vs)) = length (filter P os)"
proof -
  have "length (filter P os) = (\<Sum>v \<in> set (filter P os). count_list (filter P os) v)" by (simp add: sum_count_set)
  also have "\<dots> = (\<Sum>v \<in> set (filter P vs). count_list os v)"
    using assms by (intro sum.cong) (auto simp: count_list_filter)
  finally show ?thesis using assms(1) by (simp add: sum_list_distinct_conv_sum_set)
qed

lemma hist_counts:
  assumes h: "hist_ok cfg os h"
  shows "sum_list (map counter (filter is_relaxed (results h))) = of_nat (length (filter (matches_interesting cfg) os))"
    "sum_list (map counter (results h)) = of_nat (length os)"
proof -
  note D = hist_okD [OF h]
  have c: "sum_list (map counter (filter Q rs)) = of_nat (sum_list (map (count_list os) (map rvalues (filter Q rs))))"
    if "set rs \<subseteq> set (results h)" for Q rs
    using that D(6) by (induction rs) (auto simp: subset_iff)
  have f: "filter (matches_interesting cfg) (map rvalues rs) = map rvalues (filter is_relaxed rs)" if "set rs \<subseteq> set (results h)" for rs
    using that D(6) by (induction rs) (auto simp: subset_iff)
  show "sum_list (map counter (filter is_relaxed (results h))) = of_nat (length (filter (matches_interesting cfg) os))"
    unfolding c [OF subset_refl] f [OF subset_refl, symmetric] sum_count_filter [OF D(1,2)] by (rule refl)
  show "sum_list (map counter (results h)) = of_nat (length os)"
    using c [OF subset_refl, of "\<lambda>_. True"] sum_count_filter [OF D(1,2), of "\<lambda>_. True"] by simp
qed

section \<open>The printed observation\<close>

lemma printf_put:
  assumes "render fmt args = Inr s"
  shows "uprint cfg fmt args (Uart t) = Inr (Uart (t @ s))"
  using vsprintf_put [OF assms, of "Uart t"]
  by (simp add: uprint_def printf_def vprintf_def PRINT_MODE_NORM_def vprint_colour_prefix_def vprint_colour_suffix_def)

text \<open>Everything only adds to what is on the UART.\<close>

definition extends :: "stream_t \<Rightarrow> stream_t \<Rightarrow> bool" where
  "extends out out' \<longleftrightarrow> (\<exists>t s. out = Uart t \<and> out' = Uart (t @ s))"

lemma extends_refl [simp]: "extends (Uart t) (Uart t)"
  by (simp add: extends_def)

lemma extends_trans [trans]: "extends a b \<Longrightarrow> extends b c \<Longrightarrow> extends a c"
  by (auto simp: extends_def)

lemma extends_Uart: "extends a b \<Longrightarrow> \<exists>t. b = Uart t"
  by (auto simp: extends_def)

lemma put_extends: "put (Uart t) s = Inr out \<Longrightarrow> extends (Uart t) out"
  by (auto simp: extends_def)

lemma vsprintf_loop_extends: "vsprintf_loop fmt (Uart t) args = Inr out \<Longrightarrow> extends (Uart t) out"
proof (induction fmt "Uart t" args arbitrary: t rule: vsprintf_loop.induct)
  case (2 c p args)
  obtain cv q where n: "next_conv c p = (cv, q)" by fastforce
  with "2.prems" obtain s1 args1 where r: "conv_text cv args = Inr (s1, args1)" "vsprintf_loop q (Uart (t @ s1)) args1 = Inr out"
    by (auto simp: rbind_Inr_iff print_conv_put)
  have pc: "print_conv cv (Uart t) args = Inr (Uart (t @ s1), args1)" using r(1) by (simp add: print_conv_put)
  have "extends (Uart (t @ s1)) out" by (rule "2.hyps" [OF n [symmetric] pc _ r(2)]) simp
  moreover have "extends (Uart t) (Uart (t @ s1))" by (simp add: extends_def)
  ultimately show ?case by (rule extends_trans [rotated])
qed (auto simp: extends_def)

lemma vsprintf_extends: "vsprintf (Uart t) fmt args = Inr out \<Longrightarrow> extends (Uart t) out"
  using vsprintf_loop_extends by (auto simp: vsprintf_def rbind_Inr_iff) (metis end_string.simps(1) extends_Uart old.sum.inject(2))

lemma vprintf_extends:
  assumes "vprintf cfg cpu m fmt args (Uart t) = Inr out"
  shows "extends (Uart t) out"
proof -
  have o: "extends (Uart t) out" if "(if b then sputs_loop (Uart t) s else Inr (Uart t)) = Inr out" for b s t out
    using that put_extends by (cases b) (auto simp: sputs_loop_put)
  have i: "sputs out (Some s) = sputs_loop out s" for out s by (simp add: sputs_def)
  from assms obtain a b c d e where
    1: "(if ENABLE_COLOUR cfg then sputs_loop (Uart t) (vprint_colour_prefix m) else Inr (Uart t)) = Inr a" and
    2: "(if mode_trace m then sputs_loop a ''#'' else Inr a) = Inr b" and
    3: "(if mode_warning m then sputs_loop b ''!'' else Inr b) = Inr c" and
    4: "(if \<not> mode_noindent m then sputs_loop c (replicate (3 * cpu) (CHR 0x09)) else Inr c) = Inr d" and
    5: "vsprintf d fmt args = Inr e" and
    6: "(if ENABLE_COLOUR cfg then sputs_loop e (vprint_colour_suffix m) else Inr e) = Inr out"
    unfolding vprintf_def rbind_Inr_iff i by blast
  have a: "extends (Uart t) a" by (rule o [OF 1])
  then have b: "extends a b" using o 2 extends_Uart by metis
  then have c: "extends b c" using o 3 extends_Uart by metis
  then have d: "extends c d" using o 4 extends_Uart by metis
  then have e: "extends d e" using vsprintf_extends 5 extends_Uart by metis
  then have "extends e out" using o 6 extends_Uart by metis
  with a b c d e show ?thesis by (meson extends_trans)
qed

lemma as_reg_Inr [simp]: "as_reg m = Inr x \<longleftrightarrow> m = Inr x"
  by (cases m) auto

lemma uprint_extends: "uprint cfg fmt args (Uart t) = Inr out \<Longrightarrow> extends (Uart t) out"
  using vprintf_extends by (simp add: uprint_def printf_def)

lemma ext_rbind:
  assumes "rbind m f = Inr out" "\<And>u. m = Inr u \<Longrightarrow> extends (Uart t) u" "\<And>t'. f (Uart t') = Inr out \<Longrightarrow> extends (Uart t') out"
  shows "extends (Uart t) out"
proof -
  obtain u where u: "m = Inr u" "f u = Inr out" using assms(1) by (auto simp: rbind_Inr_iff)
  then obtain t' where "u = Uart t'" using assms(2) extends_Uart by blast
  then show ?thesis using assms(2) [OF u(1)] assms(3) u(2) extends_trans by blast
qed

lemma warning_extends: "warning cfg cpu w fmt args (Uart t) = Inr (out, go) \<Longrightarrow> extends (Uart t) out"
proof (cases "enabled_warnings cfg w")
  case True
  define m where "m = PRINT_MODE_NORM\<lparr>mode_noindent := True, mode_trace := True, mode_warning := True, mode_error := WARNINGS_AS_ERRORS cfg\<rparr>"
  assume "warning cfg cpu w fmt args (Uart t) = Inr (out, go)"
  then have w: "rbind (vprintf cfg cpu m fmt args (Uart t)) (\<lambda>out.
      if WARNINGS_AS_ERRORS cfg
      then rbind (vprintf cfg cpu m (''erroring out due to -Werror'' @ [CHR 0x0A]) [] out) (\<lambda>out. Inr (out, False))
      else Inr (out, True)) = Inr (out, go)"
    using True by (simp only: warning_def Let_def m_def if_True if_False not_True_eq_False)
  obtain u where u: "vprintf cfg cpu m fmt args (Uart t) = Inr u" "u = out \<or> (\<exists>f a. vprintf cfg cpu m f a u = Inr out)"
    using w by (cases "WARNINGS_AS_ERRORS cfg") (auto simp: rbind_Inr_iff)
  have "extends (Uart t) u" by (rule vprintf_extends [OF u(1)])
  moreover then obtain t' where "u = Uart t'" using extends_Uart by blast
  ultimately show ?thesis using u(2) vprintf_extends extends_trans by blast
next
  case False
  then show "warning cfg cpu w fmt args (Uart t) = Inr (out, go) \<Longrightarrow> extends (Uart t) out" by (auto simp: warning_def extends_def)
qed

lemma uwarning_extends: "uwarning cfg w fmt args (Uart t) = Inr out \<Longrightarrow> extends (Uart t) out"
  by (auto simp: uwarning_def rbind_Inr_iff split: if_splits dest: warning_extends)

lemma warn_missing_extends: "warn_missing_sc cfg ctx seen (Uart t) = Inr out \<Longrightarrow> extends (Uart t) out"
  unfolding warn_missing_sc_def by (simp split: if_splits add: uwarning_extends) (metis extends_refl)

lemma print_time_extends: "print_time_line cfg ctx clocks (Uart t) = Inr out \<Longrightarrow> extends (Uart t) out"
  by (auto simp: print_time_line_def rbind_Inr_iff split: prod.splits dest: uprint_extends)

lemma print_hash_extends:
  assumes "print_hash cfg th computed (Uart t) = Inr out"
  shows "extends (Uart t) out"
proof (cases th)
  case None
  then show ?thesis using assms uprint_extends by (simp add: print_hash_def)
next
  case (Some h)
  obtain u f a where u: "uprint cfg (''Hash=%s'' @ newline) [Str (Some h)] (Uart t) = Inr u"
    "u = out \<or> uwarning cfg WARN_HASH_MISMATCH f a u = Inr out"
    using assms Some by (auto simp: print_hash_def rbind_Inr_iff split: if_splits)
  have "extends (Uart t) u" by (rule uprint_extends [OF u(1)])
  then show ?thesis using u(2) uwarning_extends extends_Uart extends_trans by blast
qed

lemma header_extends:
  assumes "print_test_header cfg nm b (Uart t) = Inr (b', out)"
  shows "extends (Uart t) out"
proof -
  obtain u f a where u: "(if \<not> b then uprint cfg newline [] (Uart t) else Inr (Uart t)) = Inr u" "uprint cfg f a u = Inr out"
    using assms by (auto simp: print_test_header_def rbind_Inr_iff)
  have "extends (Uart t) u" using u(1) uprint_extends by (cases b) auto
  then show ?thesis using u(2) uprint_extends extends_Uart extends_trans by blast
qed

lemma sprint_reg_extends:
  assumes "sprint_reg cfg cpu (Uart t) buf r style = Inr (uart, buf')"
  shows "extends (Uart t) uart"
proof (cases style)
  case STYLE_HERDTOOLS
  show ?thesis
  proof (cases "extract_gpr r")
    case None
    then show ?thesis using assms STYLE_HERDTOOLS
      by (auto simp: sprint_reg_def Let_def rbind_Inr_iff split: if_splits dest: warning_extends)
  next
    case (Some e)
    then show ?thesis using assms STYLE_HERDTOOLS by (cases e) (auto simp: sprint_reg_def Let_def rbind_Inr_iff)
  qed
qed (use assms in \<open>auto simp: sprint_reg_def Let_def rbind_Inr_iff\<close>)

lemma herd_regs_extends: "herd_regs cfg ctx res regs (Uart t) buf = Inr (uart, buf') \<Longrightarrow> extends (Uart t) uart"
proof (induction regs arbitrary: t buf)
  case (Cons r regs)
  then obtain u b1 b2 where r: "sprint_reg cfg 0 (Uart t) buf (reg_names (tcfg ctx) ! r) STYLE_HERDTOOLS = Inr (u, b1)"
    "herd_regs cfg ctx res regs u b2 = Inr (uart, buf')"
    by (auto simp: rbind_Inr_iff)
  have "extends (Uart t) u" by (rule sprint_reg_extends [OF r(1)])
  then show ?case using Cons.IH r(2) extends_Uart extends_trans by metis
qed (auto simp: extends_def)

lemma herd_line_extends: "herd_line cfg ctx res (Uart t) = Inr out \<Longrightarrow> extends (Uart t) out"
  unfolding herd_line_def Let_def rbind_Inr_iff using herd_regs_extends uprint_extends extends_Uart extends_trans by fastforce

lemma herd_loop_extends: "herd_loop cfg ctx rs acc (Uart t) = Inr (acc', out) \<Longrightarrow> extends (Uart t) out"
proof (induction rs arbitrary: acc t)
  case (Cons r rs)
  obtain m sn tc where acc: "acc = (m, sn, tc)" by (cases acc)
  from Cons.prems obtain u acc1 where r: "(if ENABLE_RESULTS_OUTREG_PRINT cfg then herd_line cfg ctx r (Uart t) else Inr (Uart t)) = Inr u"
    "herd_loop cfg ctx rs acc1 u = Inr (acc', out)"
    unfolding acc herd_loop.simps rbind_Inr_iff by blast
  have "extends (Uart t) u" using r(1) herd_line_extends by (cases "ENABLE_RESULTS_OUTREG_PRINT cfg") auto
  then show ?case using Cons.IH r(2) extends_Uart extends_trans by metis
qed (auto simp: extends_def)

lemma herd_stages:
  assumes "print_results_herd cfg test_hash computed clocks h ctx (first, Uart t) = Inr (first', out)"
  obtains u2 u3 t7 u8 u9 u10 u11 marked seen total where
    "herd_loop cfg ctx (results h) (0, 0, 0) u2 = Inr ((marked, seen, total), u3)"
    "uprint cfg ''Observation %s '' [Str (Some (tname (tcfg ctx)))] (Uart t7) = Inr u8"
    "uprint cfg (observation marked total) [] u8 = Inr u9"
    "uprint cfg ('' %ld %ld'' @ newline) [Slot marked, Slot (total - marked)] u9 = Inr u10"
    "print_time_line cfg ctx clocks u10 = Inr u11" "warn_missing_sc cfg ctx seen u11 = Inr out"
proof -
  obtain u1 u2 u3 u4 u5 u6 u7 u8 u9 u10 u11 marked seen total where
    1: "print_test_header cfg (tname (tcfg ctx)) first (Uart t) = Inr (first', u1)" and
    2: "uprint cfg (''Histogram (%d states)'' @ newline) [Slot (of_nat (length (results h)))] u1 = Inr u2" and
    3: "herd_loop cfg ctx (results h) (0, 0, 0) u2 = Inr ((marked, seen, total), u3)" and
    4: "uprint cfg ((if marked \<noteq> 0 then ''Ok'' else ''No'') @ newline) [] u3 = Inr u4" and
    5: "uprint cfg (''Witnesses'' @ newline) [] u4 = Inr u5" and
    6: "uprint cfg (''Positive: %ld Negative: %ld'' @ newline) [Slot marked, Slot (total - marked)] u5 = Inr u6" and
    7: "print_hash cfg test_hash computed u6 = Inr u7" and
    8: "uprint cfg ''Observation %s '' [Str (Some (tname (tcfg ctx)))] u7 = Inr u8" and
    9: "uprint cfg (observation marked total) [] u8 = Inr u9" and
    10: "uprint cfg ('' %ld %ld'' @ newline) [Slot marked, Slot (total - marked)] u9 = Inr u10" and
    11: "print_time_line cfg ctx clocks u10 = Inr u11" and
    12: "warn_missing_sc cfg ctx seen u11 = Inr out"
    using assms unfolding print_results_herd_def by (auto simp: rbind_Inr_iff)
  have ext: "extends (Uart t') u' \<Longrightarrow> (\<And>t'. u' = Uart t' \<Longrightarrow> P) \<Longrightarrow> P" for t' u' P using extends_Uart by blast
  obtain t1 where t1: "u1 = Uart t1" using header_extends [OF 1] by (rule ext)
  obtain t2 where t2: "u2 = Uart t2" using uprint_extends [OF 2 [unfolded t1]] by (rule ext)
  obtain t3 where t3: "u3 = Uart t3" using herd_loop_extends [OF 3 [unfolded t2]] by (rule ext)
  obtain t4 where t4: "u4 = Uart t4" using uprint_extends [OF 4 [unfolded t3]] by (rule ext)
  obtain t5 where t5: "u5 = Uart t5" using uprint_extends [OF 5 [unfolded t4]] by (rule ext)
  obtain t6 where t6: "u6 = Uart t6" using uprint_extends [OF 6 [unfolded t5]] by (rule ext)
  obtain t7 where t7: "u7 = Uart t7" using print_hash_extends [OF 7 [unfolded t6]] by (rule ext)
  show thesis by (rule that [OF 3 8 [unfolded t7] 9 10 11 12])
qed

text \<open>
  C35: What the harness reports is what it saw: after the results of runs have been collected, the
  observation line of the herdtools style says \<open>Never\<close> exactly when no run had an interesting outcome, \<open>Always\<close>
  when all had, \<open>Sometimes\<close> otherwise, followed by the numbers of the runs that had one and had none.
\<close>

theorem report_observation:
  assumes "length runs < 2 ^ 64" "collect ctx runs empty_hist = Inr h"
    "print_results_herd cfg test_hash computed clocks h ctx (first, Uart t) = Inr (first', out)"
    "m = length (filter (matches_interesting (tcfg ctx)) (outcomes ctx runs))" "n = length runs"
  shows "\<exists>pre post. out = Uart (pre @ ''Observation '' @ tname (tcfg ctx) @ '' '' @
    (if m = 0 then ''Never'' else if m = n then ''Always'' else ''Sometimes'') @ '' '' @ decimal m @ '' '' @ decimal (n - m) @ newline @ post)"
proof -
  have hk: "hist_ok (tcfg ctx) (outcomes ctx runs) h" using collect_ok [OF empty_hist_ok, where ctx = ctx and runs = runs] assms(2) by simp
  have mn: "m \<le> n" "n < 2 ^ 64" using assms(1,4,5) length_filter_le [of _ "outcomes ctx runs"] by (simp_all add: outcomes_def)
  obtain u2 u3 t7 u8 u9 u10 u11 marked seen total where
    3: "herd_loop cfg ctx (results h) (0, 0, 0) u2 = Inr ((marked, seen, total), u3)" and
    8: "uprint cfg ''Observation %s '' [Str (Some (tname (tcfg ctx)))] (Uart t7) = Inr u8" and
    9: "uprint cfg (observation marked total) [] u8 = Inr u9" and
    10: "uprint cfg ('' %ld %ld'' @ newline) [Slot marked, Slot (total - marked)] u9 = Inr u10" and
    11: "print_time_line cfg ctx clocks u10 = Inr u11" and
    12: "warn_missing_sc cfg ctx seen u11 = Inr out"
    by (rule herd_stages [OF assms(3)])
  have "marked = of_nat m" "total = of_nat n"
    using herd_loop_counts [OF 3] hist_counts [OF hk] assms(4,5) by (simp_all add: outcomes_def)
  then have um: "unat marked = m" "unat total = n" "unat (total - marked) = n - m"
    using mn by (simp_all add: unat_of_nat unat_sub word_le_nat_alt)
  have ob: "observation marked total = (if m = 0 then ''Never'' else if m = n then ''Always'' else ''Sometimes'')"
    using um by (auto simp: observation_def unat_eq_0 [symmetric] word_unat_eq_iff)
  have r8: "render ''Observation %s '' [Str (Some nm)] = Inr (''Observation '' @ nm @ '' '')" for nm
    by (simp add: next_conv_def conv_text_def)
  have r9: "render (observation a b) [] = Inr (observation a b)" for a b by (simp add: observation_def next_conv_def conv_text_def)
  have r10: "render ('' %ld %ld'' @ newline) [Slot a, Slot b] = Inr ('' '' @ decimal (unat a) @ '' '' @ decimal (unat b) @ newline)" for a b
    by (simp add: next_conv_def conv_text_def newline_def)
  have u8: "u8 = Uart (t7 @ ''Observation '' @ tname (tcfg ctx) @ '' '')" using 8 unfolding printf_put [OF r8] by (rule sum.inject(2) [THEN iffD1, symmetric])
  have u9: "u9 = Uart ((t7 @ ''Observation '' @ tname (tcfg ctx) @ '' '') @ observation marked total)"
    using 9 unfolding u8 printf_put [OF r9] by (rule sum.inject(2) [THEN iffD1, symmetric])
  have u10: "u10 = Uart (((t7 @ ''Observation '' @ tname (tcfg ctx) @ '' '') @ observation marked total) @ '' '' @ decimal (unat marked) @ '' '' @
      decimal (unat (total - marked)) @ newline)"
    using 10 unfolding u9 printf_put [OF r10] by (rule sum.inject(2) [THEN iffD1, symmetric])
  have e: "extends u10 u11" using print_time_extends 11 unfolding u10 by blast
  then have "extends u11 out" using warn_missing_extends 12 extends_Uart by blast
  with e have "extends u10 out" by (rule extends_trans)
  then obtain post where "out = Uart ((((t7 @ ''Observation '' @ tname (tcfg ctx) @ '' '') @ observation marked total) @ '' '' @ decimal (unat marked) @ '' '' @
      decimal (unat (total - marked)) @ newline) @ post)"
    unfolding u10 extends_def by blast
  then have "out = Uart (t7 @ ''Observation '' @ tname (tcfg ctx) @ '' '' @ observation marked total @ '' '' @ decimal (unat marked) @ '' '' @
      decimal (unat (total - marked)) @ newline @ post)" by simp
  then show ?thesis unfolding um ob by blast
qed

lemma mp_collect: "\<exists>h. collect mp_ctx [0, 1, 2] empty_hist = Inr h"
proof -
  have o: "outcome mp_ctx 0 = [1, 0]" "outcome mp_ctx (Suc 0) = [0, 0]" "outcome mp_ctx 2 = [1, 0]"
    by (simp_all add: outcome_def mp_ctx_def upt_rec)
  have m: "result_matches r mp_ctx (Suc 0) \<longleftrightarrow> rvalues r ! 0 = 0 \<and> rvalues r ! Suc 0 = 0" for r
    by (simp add: result_matches_def mp_ctx_def upt_rec)
  show ?thesis by (simp add: add_results_def lookup_lut_def ix_from_values_def o m empty_hist_def bump_def Let_def)
qed

lemma herd_loop_quiet: "\<not> ENABLE_RESULTS_OUTREG_PRINT cfg \<Longrightarrow> \<exists>acc. herd_loop cfg ctx rs (m, sn, t) uart = Inr (acc, uart)"
  by (induction rs arbitrary: m sn t) auto

lemma uprint_total: "\<exists>s. render fmt args = Inr s \<Longrightarrow> \<exists>t'. uprint cfg fmt args (Uart t) = Inr (Uart t')"
  using printf_put by blast

lemma rbind_Uart: "\<exists>t'. m = Inr (Uart t') \<Longrightarrow> (\<And>t'. \<exists>out. f (Uart t') = Inr out) \<Longrightarrow> \<exists>out. rbind m f = Inr out"
  by auto

lemma quiet_report:
  assumes "\<not> ENABLE_RESULTS_OUTREG_PRINT cfg" "no_sc_results (tcfg ctx) = 0" "OUTPUT_FORMAT cfg = STYLE_HERDTOOLS"
  shows "\<exists>out. print_results_herd cfg None computed (0, 1000, 0, 5000) h ctx (True, Uart t) = Inr (False, out)"
proof -
  note r = next_conv_def conv_text_def newline_def
  have 1: "\<exists>t'. print_test_header cfg nm True (Uart t) = Inr (False, Uart t')" for nm t
    using uprint_total [of "''Test %s Allowed'' @ newline" "[Str (Some nm)]" cfg t] assms(3) by (auto simp: print_test_header_def r)
  have 2: "\<exists>t'. uprint cfg (''Histogram (%d states)'' @ newline) [Slot v] (Uart t) = Inr (Uart t')" for v t by (rule uprint_total) (simp add: r)
  have 3: "\<exists>acc. herd_loop cfg ctx (results h) (0, 0, 0) uart = Inr (acc, uart)" for uart by (rule herd_loop_quiet [OF assms(1)])
  have 4: "\<exists>t'. uprint cfg ((if b then ''Ok'' else ''No'') @ newline) [] (Uart t) = Inr (Uart t')" for b t by (rule uprint_total) (simp add: r)
  have 5: "\<exists>t'. uprint cfg (''Witnesses'' @ newline) [] (Uart t) = Inr (Uart t')" for t by (rule uprint_total) (simp add: r)
  have 6: "\<exists>t'. uprint cfg (''Positive: %ld Negative: %ld'' @ newline) [Slot v, Slot w] (Uart t) = Inr (Uart t')" for v w t by (rule uprint_total) (simp add: r)
  have 7: "\<exists>t'. uprint cfg (''Hash=%s'' @ newline) [Str (Some nm)] (Uart t) = Inr (Uart t')" for nm t by (rule uprint_total) (simp add: r)
  have 8: "\<exists>t'. uprint cfg ''Observation %s '' [Str (Some nm)] (Uart t) = Inr (Uart t')" for nm t by (rule uprint_total) (simp add: r)
  have 9: "\<exists>t'. uprint cfg (observation v w) [] (Uart t) = Inr (Uart t')" for v w t by (rule uprint_total) (simp add: r observation_def)
  have 10: "\<exists>t'. uprint cfg ('' %ld %ld'' @ newline) [Slot v, Slot w] (Uart t) = Inr (Uart t')" for v w t by (rule uprint_total) (simp add: r)
  have 11: "\<exists>t'. uprint cfg (''Time %s %s'' @ newline) [Str (Some nm), Str (Some tm)] (Uart t) = Inr (Uart t')" for nm tm t by (rule uprint_total) (simp add: r)
  have "render ''%ld.%ld'' [Slot 5, Slot 0] = Inr ''5.0''"
    by (simp add: r) (simp add: decimal.simps digit_def char_of_def bit_Suc_0_iff)
  then have s: "vsprintf (Buffer [] 100) ''%ld.%ld'' [Slot 5, Slot 0] = Inr (Buffer ''5.0'' 97)" by (simp add: vsprintf_put)
  have 12: "\<exists>t'. print_time_line cfg ctx (0, 1000, 0, 5000) (Uart t) = Inr (Uart t')" for t
    using 11 [of "tname (tcfg ctx)" "''5.0''" t] by (auto simp: print_time_line_def sprint_time_def Let_def s)
  have 13: "warn_missing_sc cfg ctx v u = Inr u" for v u using assms(2) by (simp add: warn_missing_sc_def)
  have tail: "\<exists>out. rbind (uprint cfg ((if marked \<noteq> 0 then ''Ok'' else ''No'') @ newline) [] (Uart t)) (\<lambda>uart.
     rbind (uprint cfg (''Witnesses'' @ newline) [] uart) (\<lambda>uart.
     rbind (uprint cfg (''Positive: %ld Negative: %ld'' @ newline) [Slot marked, Slot (total_count - marked)] uart) (\<lambda>uart.
     rbind (uprint cfg (''Hash=%s'' @ newline) [Str (Some computed)] uart) (\<lambda>uart.
     rbind (uprint cfg ''Observation %s '' [Str (Some (tname (tcfg ctx)))] uart) (\<lambda>uart.
     rbind (uprint cfg (observation marked total_count) [] uart) (\<lambda>uart.
     rbind (uprint cfg ('' %ld %ld'' @ newline) [Slot marked, Slot (total_count - marked)] uart) (\<lambda>uart.
     rbind (print_time_line cfg ctx (0, 1000, 0, 5000) uart) (\<lambda>uart.
     rbind (warn_missing_sc cfg ctx seen uart) (\<lambda>uart. Inr (False, uart)))))))))) = Inr out" for marked total_count seen t
    unfolding 13 rbind.simps by (rule rbind_Uart [OF 4], rule rbind_Uart [OF 5], rule rbind_Uart [OF 6], rule rbind_Uart [OF 7], rule rbind_Uart [OF 8],
      rule rbind_Uart [OF 9], rule rbind_Uart [OF 10], rule rbind_Uart [OF 12], rule exI, rule refl)
  obtain t1 where t1: "print_test_header cfg (tname (tcfg ctx)) True (Uart t) = Inr (False, Uart t1)" using 1 by blast
  obtain t2 where t2: "uprint cfg (''Histogram (%d states)'' @ newline) [Slot (of_nat (length (results h)))] (Uart t1) = Inr (Uart t2)" using 2 by blast
  obtain m sn tot where t3: "herd_loop cfg ctx (results h) (0, 0, 0) (Uart t2) = Inr ((m, sn, tot), Uart t2)" using 3 by (metis prod_cases3)
  have "\<exists>r. print_results_herd cfg None computed (0, 1000, 0, 5000) h ctx (True, Uart t) = Inr r"
    unfolding print_results_herd_def print_hash_def option.case fst_conv snd_conv t1 rbind.simps prod.case t2 t3 by (rule tail)
  then obtain b out where r: "print_results_herd cfg None computed (0, 1000, 0, 5000) h ctx (True, Uart t) = Inr (b, out)" by (metis surj_pair)
  moreover have "b = False" using r unfolding print_results_herd_def fst_conv snd_conv t1 rbind.simps prod.case by (auto simp: rbind_Inr_iff)
  ultimately show ?thesis by blast
qed

theorem report_observation_witness:
  "\<exists>pre post h out. collect mp_ctx [0, 1, 2] empty_hist = Inr h \<and>
     print_results_herd (default_config\<lparr>ENABLE_RESULTS_OUTREG_PRINT := False\<rparr>) None ''x'' (0, 1000, 0, 5000) h mp_ctx (True, Uart []) =
       Inr (False, Uart (pre @ ''Observation '' @ tname (tcfg mp_ctx) @ '' Sometimes 2 1'' @ newline @ post))"
proof -
  obtain h where h: "collect mp_ctx [0, 1, 2] empty_hist = Inr h" using mp_collect by blast
  let ?cfg = "default_config\<lparr>ENABLE_RESULTS_OUTREG_PRINT := False\<rparr>"
  have sc: "no_sc_results (tcfg mp_ctx) = 0" by (simp add: mp_ctx_def conc_ctx_def test_pg_def test_xyz_def)
  obtain out where out: "print_results_herd ?cfg None ''x'' (0, 1000, 0, 5000) h mp_ctx (True, Uart []) = Inr (False, out)"
    using quiet_report [OF _ sc, of ?cfg "''x''" h "[]"] by (auto simp: default_config_def)
  have o: "outcomes mp_ctx [0, 1, 2] = [[1, 0], [0, 0], [1, 0]]"
    by (simp add: outcomes_def outcome_def mp_ctx_def upt_rec)
  have i: "matches_interesting (tcfg mp_ctx) [1, 0]" "\<not> matches_interesting (tcfg mp_ctx) [0, 0]"
    by (simp_all add: matches_interesting_def relaxed_results_def mp_ctx_def upt_rec)
  have d: "decimal 2 = ''2''" "decimal (Suc 0) = ''1''" by (simp_all add: decimal.simps digit_def char_of_def bit_Suc_0_iff)
  have m: "2 = length (filter (matches_interesting (tcfg mp_ctx)) (outcomes mp_ctx [0, 1, 2]))" unfolding o by (simp add: i)
  have "\<exists>pre post. out = Uart (pre @ ''Observation '' @ tname (tcfg mp_ctx) @ '' '' @ (if (2 :: nat) = 0 then ''Never'' else if (2 :: nat) = 3 then ''Always'' else ''Sometimes'') @
      '' '' @ decimal 2 @ '' '' @ decimal (3 - 2) @ newline @ post)"
    by (rule report_observation [OF _ h out m]) simp_all
  then obtain pre post where "out = Uart (pre @ ''Observation '' @ tname (tcfg mp_ctx) @ '' Sometimes 2 1'' @ newline @ post)"
    by (auto simp: d)
  then show ?thesis using h out by blast
qed

end
