(* ===== verification/Sha1.thy ===== *)
theory Sha1
  imports Bits
begin

text \<open>
  The SHA-1 of \<open>lib/hashlib.c\<close>, and the definition of SHA-1 in FIPS 180-4 it is compared with. The bytes
  hashed are in a memory; the padded message that \<open>preprocess\<close> allocates is a memory of its own, and \<open>W\<close>
  and \<open>K\<close> are arrays of 80 words.
\<close>

section \<open>The code\<close>

text \<open>\<open>new_buf\<close> has any contents before; the result is the number of blocks and the message.\<close>

definition preprocess :: "mem8 \<Rightarrow> u64 \<Rightarrow> u64 \<Rightarrow> mem8 \<Rightarrow> u64 \<times> mem8" where
  "preprocess m buf bufsize new_buf =
     (let l = bufsize * 8;
          new_l = ALIGN_UP (l + 64 + 1) 9;
          new_size = drop_bit 3 new_l;
          new_buf = fold (\<lambda>b nb. nb(of_nat b := m (buf + of_nat b))) [0..<unat bufsize] new_buf;
          b = unat bufsize;
          new_buf = new_buf(of_nat b := 0x80);
          b = b + 1;
          new_buf = fold (\<lambda>b nb. nb(of_nat b := 0)) [b..<unat (new_size - 8)] new_buf;
          b = max b (unat (new_size - 8));
          new_buf = write_be64 new_buf (of_nat b) l
      in (drop_bit 9 new_l, new_buf))"

definition ROTLONE :: "u32 \<Rightarrow> u32" where "ROTLONE x = push_bit 1 x OR drop_bit 31 x"

fun rotl :: "nat \<Rightarrow> u32 \<Rightarrow> u32" where
  "rotl 0 x = x"
| "rotl (Suc n) x = rotl n (ROTLONE x)"

definition prepare_message_schedule_W :: "mem8 \<Rightarrow> nat \<Rightarrow> u32 list \<Rightarrow> u32 list" where
  "prepare_message_schedule_W message i W =
     fold (\<lambda>t W. W[t := rotl 1 (W ! (t - 3) XOR W ! (t - 8) XOR W ! (t - 14) XOR W ! (t - 16))]) [16..<80]
       (fold (\<lambda>t W. W[t := read_be message (of_nat (i * 64 + 4 * t))]) [0..<16] W)"

definition prepare_constants_K :: "u32 list" where
  "prepare_constants_K = replicate 20 0x5a827999 @ replicate 20 0x6ed9eba1 @ replicate 20 0x8f1bbcdc @ replicate 20 0xca62c1d6"

definition Ch :: "u32 \<Rightarrow> u32 \<Rightarrow> u32 \<Rightarrow> u32" where "Ch x y z = (x AND y) XOR (NOT x AND z)"

definition Parity :: "u32 \<Rightarrow> u32 \<Rightarrow> u32 \<Rightarrow> u32" where "Parity x y z = x XOR y XOR z"

definition Maj :: "u32 \<Rightarrow> u32 \<Rightarrow> u32 \<Rightarrow> u32" where "Maj x y z = (x AND y) XOR (x AND z) XOR (y AND z)"

definition sha_f :: "nat \<Rightarrow> u32 \<Rightarrow> u32 \<Rightarrow> u32 \<Rightarrow> u32" where
  "sha_f t x y z = (if t \<le> 19 then Ch x y z else if t \<le> 39 then Parity x y z else if t \<le> 59 then Maj x y z else Parity x y z)"

type_synonym sha1_h = "u32 \<times> u32 \<times> u32 \<times> u32 \<times> u32"

definition INITIAL_STATE :: sha1_h where
  "INITIAL_STATE = (0x67452301, 0xefcdab89, 0x98badcfe, 0x10325476, 0xc3d2e1f0)"

definition sha1_round :: "u32 list \<Rightarrow> u32 list \<Rightarrow> nat \<Rightarrow> sha1_h \<Rightarrow> sha1_h" where
  "sha1_round K W t st =
     (case st of (a, b, c, d, e) \<Rightarrow>
        (rotl 5 a + sha_f t b c d + e + K ! t + W ! t, a, rotl 30 b, c, d))"

definition add_h :: "sha1_h \<Rightarrow> sha1_h \<Rightarrow> sha1_h" where
  "add_h h g = (case h of (h0, h1, h2, h3, h4) \<Rightarrow> case g of (a, b, c, d, e) \<Rightarrow> (h0 + a, h1 + b, h2 + c, h3 + d, h4 + e))"

text \<open>The loop over the blocks keeps the array \<open>W\<close> from one block to the next.\<close>

definition sha1_block :: "mem8 \<Rightarrow> nat \<Rightarrow> u32 list \<times> sha1_h \<Rightarrow> u32 list \<times> sha1_h" where
  "sha1_block message i st =
     (let W = prepare_message_schedule_W message i (fst st)
      in (W, add_h (snd st) (fold (sha1_round prepare_constants_K W) [0..<80] (snd st))))"

definition hash_sha1 :: "mem8 \<Rightarrow> u64 \<Rightarrow> u64 \<Rightarrow> mem8 \<Rightarrow> u32 list \<Rightarrow> sha1_h" where
  "hash_sha1 m buf bufsize new_buf W =
     (case preprocess m buf bufsize new_buf of
        (N, message) \<Rightarrow> snd (fold (sha1_block message) [0..<unat N] (W, INITIAL_STATE)))"

text \<open>The digest's 20 bytes at \<open>d\<close>, and the string \<open>hexdigest\<close> writes at \<open>out\<close>.\<close>

definition write_digest :: "mem8 \<Rightarrow> u64 \<Rightarrow> sha1_h \<Rightarrow> mem8" where
  "write_digest m d st =
     (case st of (h0, h1, h2, h3, h4) \<Rightarrow>
        fold (\<lambda>i m. write_be m (d + of_nat (4 * i)) ([h0, h1, h2, h3, h4] ! i)) [0..<5] m)"

definition hexdigest_byte :: "u64 \<Rightarrow> u64 \<Rightarrow> nat \<Rightarrow> mem8 \<Rightarrow> mem8" where
  "hexdigest_byte d out i m =
     (let hexc = ''0123456789abcdef'';
          m = m(out + of_nat (2 * i + 0) := of_char (hexc ! unat (drop_bit 4 (m (d + of_nat i)) AND 0xf)))
      in m(out + of_nat (2 * i + 1) := of_char (hexc ! unat (m (d + of_nat i) AND 0xf))))"

definition hexdigest :: "mem8 \<Rightarrow> u64 \<Rightarrow> u64 \<Rightarrow> mem8" where
  "hexdigest m d out = (fold (hexdigest_byte d out) [0..<20] m)(out + 40 := 0)"

section \<open>FIPS 180-4\<close>

text \<open>The message, a one bit, as few zeros as fill the last block, and the length in bits on 64 bits.\<close>

definition be_bytes :: "u64 \<Rightarrow> u8 list" where
  "be_bytes v = map (\<lambda>i. ucast (drop_bit (56 - 8 * i) v)) [0..<8]"

definition sha1_pad :: "u8 list \<Rightarrow> u8 list" where
  "sha1_pad bs = bs @ [0x80] @ replicate ((119 - length bs mod 64) mod 64) 0 @ be_bytes (of_nat (8 * length bs))"

definition be_word :: "u8 \<Rightarrow> u8 \<Rightarrow> u8 \<Rightarrow> u8 \<Rightarrow> u32" where
  "be_word a b c d = of_nat (unat a * 2 ^ 24 + unat b * 2 ^ 16 + unat c * 2 ^ 8 + unat d)"

fun words_of :: "u8 list \<Rightarrow> u32 list" where
  "words_of (a # b # c # d # bs) = be_word a b c d # words_of bs"
| "words_of _ = []"

text \<open>The words \<open>W\<^sub>0, W\<^sub>1, \<dots>\<close> of the schedule of a block, and a round.\<close>

fun schedule :: "nat \<Rightarrow> u32 list \<Rightarrow> u32 list" where
  "schedule 0 W = W"
| "schedule (Suc n) W =
     schedule n (let t = length W in W @ [word_rotl 1 (W ! (t - 3) XOR W ! (t - 8) XOR W ! (t - 14) XOR W ! (t - 16))])"

definition sha1_K :: "nat \<Rightarrow> u32" where
  "sha1_K t = (if t < 20 then 0x5a827999 else if t < 40 then 0x6ed9eba1 else if t < 60 then 0x8f1bbcdc else 0xca62c1d6)"

definition ref_round :: "u32 list \<Rightarrow> nat \<Rightarrow> sha1_h \<Rightarrow> sha1_h" where
  "ref_round W t st =
     (case st of (a, b, c, d, e) \<Rightarrow> (word_rotl 5 a + sha_f t b c d + e + sha1_K t + W ! t, a, word_rotl 30 b, c, d))"

definition ref_block :: "u8 list \<Rightarrow> sha1_h \<Rightarrow> sha1_h" where
  "ref_block p h = add_h h (fold (ref_round (schedule 64 (words_of p))) [0..<80] h)"

fun ref_blocks :: "u8 list \<Rightarrow> sha1_h \<Rightarrow> sha1_h" where
  "ref_blocks p h =
     (if p = [] then h
      else ref_blocks (drop 64 p) (ref_block (take 64 p) h))"

declare ref_blocks.simps [simp del]

definition sha1_ref :: "u8 list \<Rightarrow> sha1_h" where
  "sha1_ref bs = ref_blocks (sha1_pad bs) INITIAL_STATE"

section \<open>The arrays\<close>

lemma bit_ROTLONE: "n < 32 \<Longrightarrow> bit (ROTLONE x) n \<longleftrightarrow> bit x ((n + 31) mod 32)"
proof (cases n)
  case 0
  then show ?thesis unfolding ROTLONE_def bit_or_iff bit_push_bit_iff bit_drop_bit_eq by simp
next
  case (Suc k)
  assume "n < 32"
  moreover have "(n + 31) mod 32 = k" using Suc \<open>n < 32\<close> by simp
  moreover have "\<not> bit x (31 + n)" using Suc by (auto dest: bit_imp_le_length)
  ultimately show ?thesis unfolding ROTLONE_def bit_or_iff bit_push_bit_iff bit_drop_bit_eq using Suc by simp
qed

lemma bit_rotl: "k < 32 \<Longrightarrow> bit (rotl n x) k \<longleftrightarrow> bit x ((k + 31 * n) mod 32)"
proof (induction n arbitrary: x)
  case (Suc n)
  then have "bit (rotl (Suc n) x) k \<longleftrightarrow> bit (ROTLONE x) ((k + 31 * n) mod 32)" by simp
  also have "\<dots> \<longleftrightarrow> bit x (((k + 31 * n) mod 32 + 31) mod 32)" by (rule bit_ROTLONE) simp
  also have "((k + 31 * n) mod 32 + 31) mod 32 = (k + 31 * Suc n) mod 32" by (simp add: mod_simps ac_simps)
  finally show ?case .
qed simp

lemma rotl_word_rotl: "rotl n x = word_rotl n x"
proof (rule bit_word_eqI)
  fix k assume k: "k < LENGTH(32)"
  define r where "r = n mod 32"
  have r: "r < 32" by (simp add: r_def)
  have "(k + 31 * n) mod 32 = (k + 31 * r) mod 32" unfolding r_def by (metis mod_add_right_eq mod_mult_right_eq)
  also have "\<dots> = (k + (32 - r)) mod 32"
  proof (cases r)
    case (Suc q)
    then have "k + 31 * r = k + (32 - r) + 32 * q" using r by simp
    then show ?thesis by (metis mod_mult_self2)
  qed simp
  finally have "(k + 31 * n) mod 32 = (k + (32 - n mod 32)) mod 32" unfolding r_def .
  then show "bit (rotl n x) k \<longleftrightarrow> bit (word_rotl n x) k"
    using k bit_rotl [of k n x] by (simp add: bit_word_rotl_iff)
qed

text \<open>A loop that fills an array from the entries before is the list it builds.\<close>

lemma fold_update_build:
  assumes "\<And>t W W'. t < n \<Longrightarrow> m \<le> t \<Longrightarrow> take t W = take t W' \<Longrightarrow> g t W = g t W'"
    and "length W = n" "m \<le> k" "k \<le> n"
  shows "fold (\<lambda>t W. W[t := g t W]) [m..<k] W = fold (\<lambda>t U. U @ [g t U]) [m..<k] (take m W) @ drop k W"
  using assms(3,4)
proof (induction k)
  case (Suc k)
  show ?case
  proof (cases "m = Suc k")
    case True
    then show ?thesis by simp
  next
    case False
    then have k: "m \<le> k" "k < n" using Suc.prems by simp_all
    let ?U = "fold (\<lambda>t U. U @ [g t U]) [m..<k] (take m W)"
    have l: "length (fold (\<lambda>t U. U @ [g t U]) [m..<j] V) = length V + (j - m)" for j V
      by (induction j) (auto simp: Suc_diff_le)
    have U: "length ?U = k" using l [of k "take m W"] k assms(2) by simp
    have "g k (?U @ drop k W) = g k ?U" by (rule assms(1)) (use k U in simp_all)
    then show ?thesis using Suc.IH k U assms(2)
      by (simp add: list_update_append Cons_nth_drop_Suc [symmetric])
  qed
qed simp

lemma fold_append_length: "length (fold (\<lambda>t U. U @ [g t U]) [m..<j] V) = length V + (j - m)"
  by (induction j) (auto simp: Suc_diff_le)

lemma schedule_fold:
  "schedule n W = fold (\<lambda>t U. U @ [word_rotl 1 (U ! (t - 3) XOR U ! (t - 8) XOR U ! (t - 14) XOR U ! (t - 16))]) [length W..<length W + n] W"
proof (induction n arbitrary: W)
  case (Suc n)
  show ?case
    by (simp add: Suc.IH Let_def upt_conv_Cons [of "length W"] del: upt_Suc)
qed simp

lemma schedule_W:
  assumes "length W = 80"
  shows "prepare_message_schedule_W message i W = schedule 64 (map (\<lambda>t. read_be message (of_nat (i * 64 + 4 * t))) [0..<16])"
proof -
  let ?r = "\<lambda>t. read_be message (of_nat (i * 64 + 4 * t))"
  let ?g = "\<lambda>t (U :: u32 list). rotl 1 (U ! (t - 3) XOR U ! (t - 8) XOR U ! (t - 14) XOR U ! (t - 16))"
  have build: "fold (\<lambda>t U. U @ [?r t]) [0..<k] [] = map ?r [0..<k]" for k by (induction k) auto
  have 1: "fold (\<lambda>t W. W[t := ?r t]) [0..<16] W = map ?r [0..<16] @ drop 16 W"
    using fold_update_build [of 80 0 "\<lambda>t _. ?r t" W 16] assms build [of 16] by (simp del: upt_rec_numeral)
  define M where "M = map ?r [0..<16]"
  have M: "length M = 16" by (simp add: M_def)
  have "fold (\<lambda>t W. W[t := ?g t W]) [16..<80] (M @ drop 16 W) =
      fold (\<lambda>t U. U @ [?g t U]) [16..<80] (take 16 (M @ drop 16 W)) @ drop 80 (M @ drop 16 W)"
  proof (rule fold_update_build [of 80])
    fix t :: nat and V V' :: "u32 list"
    assume t: "16 \<le> t" "take t V = take t V'"
    have "V ! (t - j) = V' ! (t - j)" if "0 < j" "j \<le> 16" for j
      using t nth_take [of "t - j" t V] nth_take [of "t - j" t V'] that by simp
    then show "?g t V = ?g t V'" by simp
  qed (use assms M in simp_all)
  moreover have "take 16 (M @ drop 16 W) = M" "drop 80 (M @ drop 16 W) = []" using M assms by simp_all
  moreover have "schedule 64 M = fold (\<lambda>t U. U @ [?g t U]) [16..<80] M"
    using schedule_fold [of 64 M] M by (simp add: rotl_word_rotl del: upt_rec_numeral)
  moreover have "prepare_message_schedule_W message i W = fold (\<lambda>t W. W[t := ?g t W]) [16..<80] (M @ drop 16 W)"
    unfolding prepare_message_schedule_W_def 1 M_def by (rule refl)
  ultimately show ?thesis unfolding M_def [symmetric] by (simp only: append_Nil2)
qed

lemma length_schedule: "length (schedule n W) = length W + n"
  by (simp add: schedule_fold fold_append_length)

lemma K_word: "t < 80 \<Longrightarrow> prepare_constants_K ! t = sha1_K t"
  by (auto simp: prepare_constants_K_def sha1_K_def nth_append)

lemma round_ref: "t < 80 \<Longrightarrow> sha1_round prepare_constants_K W t st = ref_round W t st"
  by (cases st) (simp add: sha1_round_def ref_round_def K_word rotl_word_rotl)

lemma rounds_ref: "fold (sha1_round prepare_constants_K W) [0..<80] st = fold (ref_round W) [0..<80] st"
  by (rule fold_cong) (auto simp: round_ref)

section \<open>The padded message\<close>

lemma of_nat_u64_eq: "a < 2 ^ 64 \<Longrightarrow> b < 2 ^ 64 \<Longrightarrow> (of_nat a :: u64) = of_nat b \<longleftrightarrow> a = b"
  by (simp add: word_of_nat_eq_iff take_bit_nat_eq_self)

lemma fold_write_at:
  assumes "k + c \<le> 2 ^ 64" "j < 2 ^ 64" "a \<le> c"
  shows "fold (\<lambda>b nb. nb(d + of_nat (k + b) := g b)) [a..<c] (nb :: mem8) (d + of_nat j) =
    (if k + a \<le> j \<and> j < k + c then g (j - k) else nb (d + of_nat j))"
  using assms(3,1)
proof (induction c)
  case (Suc c)
  show ?case
  proof (cases "a = Suc c")
    case False
    then have a: "a \<le> c" using Suc.prems by simp
    have w: "(of_nat j :: u64) = of_nat (k + c) \<longleftrightarrow> j = k + c"
      by (rule of_nat_u64_eq) (use Suc.prems assms(2) in auto)
    show ?thesis using Suc a by (auto simp: fun_upd_def w simp del: of_nat_add)
  qed auto
qed auto

lemmas fold_write = fold_write_at [where d = 0, unfolded add_0]

lemma write_be64_at:
  assumes "b + 8 \<le> 2 ^ 64" "j < 2 ^ 64"
  shows "write_be64 m (of_nat b) v (of_nat j) = (if b \<le> j \<and> j < b + 8 then be_bytes v ! (j - b) else m (of_nat j))"
proof -
  have byte: "ucast (x AND 0xff) = (ucast x :: u8)" for x :: u64
  proof -
    have "0xff = (mask 8 :: u64)" by (simp add: mask_eq_exp_minus_1)
    then have "x AND 0xff = take_bit 8 x" by (simp only: take_bit_eq_mask)
    moreover have "ucast (take_bit 8 x) = (ucast x :: u8)" by (rule bit_word_eqI) (auto simp: bit_simps)
    ultimately show ?thesis by (simp only:)
  qed
  have "write_be64 m (of_nat b) v = fold (\<lambda>i m. m(of_nat (b + i) := ucast (drop_bit (56 - 8 * i) v))) [0..<8] m"
    unfolding write_be64_def byte of_nat_add by (rule refl)
  moreover have "be_bytes v ! (j - b) = ucast (drop_bit (56 - 8 * (j - b)) v)" if "b \<le> j \<and> j < b + 8"
    using that nth_map [of "j - b" "[0..<8]" "\<lambda>i. ucast (drop_bit (56 - 8 * i) v) :: u8"]
    by (simp add: be_bytes_def less_diff_conv2 del: upt_rec_numeral)
  ultimately show ?thesis using fold_write [OF assms, of 0 "\<lambda>i. ucast (drop_bit (56 - 8 * i) v)" m] by simp
qed

lemma length_be_bytes [simp]: "length (be_bytes v) = 8"
  by (simp add: be_bytes_def)

text \<open>The number of blocks.\<close>

lemma pad_length: "length (sha1_pad bs) = 64 * ((8 * length bs + 576) div 512)"
proof -
  have "(119 - n mod 64) mod 64 + n + 9 = 64 * ((8 * n + 576) div 512)" for n :: nat
  proof -
    define q r where "q = n div 64" and "r = n mod 64"
    have n: "n = 64 * q + r" and r: "r < 64" by (simp_all add: q_def r_def)
    have d: "(8 * n + 576) div 512 = q + (8 * r + 576) div 512" by (simp add: n)
    show ?thesis
    proof (cases "r < 56")
      case True
      then have "119 - r = (55 - r) + 64" by simp
      then have "(119 - r) mod 64 = 55 - r" by (simp only: mod_add_self2) (simp add: mod_less)
      moreover have "(8 * r + 576) div 512 = 1" using True by (simp add: div_nat_eqI)
      ultimately have "(119 - r) mod 64 = 55 - r" "(8 * r + 576) div 512 = 1" .
      then show ?thesis using d n r True unfolding r_def [symmetric] by simp
    next
      case False
      then have "(119 - r) mod 64 = 119 - r" "(8 * r + 576) div 512 = 2" using r by (simp_all add: div_nat_eqI)
      then show ?thesis using d n r False unfolding r_def [symmetric] by simp
    qed
  qed
  from this [of "length bs"] show ?thesis by (simp add: sha1_pad_def be_bytes_def)
qed

lemma preprocess_pad:
  assumes n: "length bs < 2 ^ 32" and m: "\<And>j. j < length bs \<Longrightarrow> m (buf + of_nat j) = bs ! j"
    and p: "preprocess m buf (of_nat (length bs)) nb = (N, msg)"
  shows "length (sha1_pad bs) = 64 * unat N" "\<And>j. j < length (sha1_pad bs) \<Longrightarrow> msg (of_nat j) = sha1_pad bs ! j"
proof -
  let ?n = "length bs" and ?l = "of_nat (length bs) * 8 :: u64"
  define Nn where "Nn = (8 * ?n + 576) div 512"
  have l: "unat ?l = 8 * ?n" using n by (simp add: unat_word_ariths unat_of_nat)
  have "unat (?l + 64 + 1) = 8 * ?n + 65" using n l by (simp add: unat_word_ariths)
  then have up: "unat (ALIGN_UP (?l + 64 + 1) 9) = 512 * Nn"
    using n by (subst unat_ALIGN_UP) (simp_all add: Nn_def)
  have N: "unat N = Nn" using p up by (auto simp: preprocess_def Let_def unat_drop_bit)
  show len: "length (sha1_pad bs) = 64 * unat N" unfolding N Nn_def by (rule pad_length)
  have size: "unat (drop_bit 3 (ALIGN_UP (?l + 64 + 1) 9)) = 64 * Nn" using up by (simp add: unat_drop_bit)
  have lp: "length (sha1_pad bs) = ?n + 9 + (119 - ?n mod 64) mod 64" by (simp add: sha1_pad_def be_bytes_def)
  have big: "?n + 9 \<le> 64 * Nn" using lp pad_length [of bs] unfolding Nn_def by linarith
  have "512 * Nn \<le> 8 * ?n + 576" unfolding Nn_def by simp
  then have big2: "64 * Nn < 2 ^ 64" using n by simp
  have "unat (drop_bit 3 (ALIGN_UP (?l + 64 + 1) 9) - 8) = unat (drop_bit 3 (ALIGN_UP (?l + 64 + 1) 9)) - unat (8 :: u64)"
    by (rule unat_sub_no_wrap) (use size big in \<open>simp add: word_le_nat_alt\<close>)
  then have top: "unat (drop_bit 3 (ALIGN_UP (?l + 64 + 1) 9) - 8) = 64 * Nn - 8" using size by simp
  have un: "unat (of_nat ?n :: u64) = ?n" using n by (simp add: unat_of_nat)
  have mx: "max (?n + 1) (64 * Nn - 8) = 64 * Nn - 8" using big by simp
  define nb1 where "nb1 = fold (\<lambda>b nb. nb(of_nat b := m (buf + of_nat b))) [0..<?n] nb"
  define nb2 where "nb2 = fold (\<lambda>b nb. nb(of_nat b := 0)) [?n + 1..<64 * Nn - 8] (nb1(of_nat ?n := 0x80))"
  have msg: "msg = write_be64 nb2 (of_nat (64 * Nn - 8)) ?l"
    using p unfolding preprocess_def Let_def un top mx nb2_def nb1_def by (simp only: prod.inject)
  fix j assume j: "j < length (sha1_pad bs)"
  then have j64: "j < 64 * Nn" using len N by simp
  have nb1: "nb1 (of_nat j) = (if j < ?n then bs ! j else nb (of_nat j))" if "j < 2 ^ 64" for j
    using fold_write [of 0 ?n j 0 "\<lambda>b. m (buf + of_nat b)" nb] n m that by (simp add: nb1_def)
  have jn: "(of_nat j :: u64) = of_nat ?n \<longleftrightarrow> j = ?n" by (rule of_nat_u64_eq) (use j64 big2 n in simp_all)
  have nb2: "nb2 (of_nat j) = (if ?n + 1 \<le> j \<and> j < 64 * Nn - 8 then 0 else if j = ?n then 0x80 else nb1 (of_nat j))"
    using fold_write [of 0 "64 * Nn - 8" j "?n + 1" "\<lambda>b. 0" "nb1(of_nat ?n := 0x80)"] j64 big big2 jn
    by (simp add: nb2_def)
  have w: "msg (of_nat j) = (if 64 * Nn - 8 \<le> j then be_bytes ?l ! (j - (64 * Nn - 8)) else nb2 (of_nat j))"
    unfolding msg using write_be64_at [of "64 * Nn - 8" j nb2 ?l] j64 big big2 by simp
  have z: "(119 - ?n mod 64) mod 64 = 64 * Nn - 9 - ?n" using lp len N by simp
  have pad: "sha1_pad bs ! j = (if j < ?n then bs ! j else if j = ?n then 0x80
      else if j < 64 * Nn - 8 then 0 else be_bytes ?l ! (j - (64 * Nn - 8)))"
    unfolding sha1_pad_def z using j64 big by (auto simp: nth_append nth_Cons' mult.commute add.commute)
  show "msg (of_nat j) = sha1_pad bs ! j"
    unfolding w pad nb2 using nb1 [of j] j64 big big2 by auto
qed

section \<open>The hash\<close>

lemma words_of_nth:
  assumes "length bs = 4 * k"
  shows "words_of bs = map (\<lambda>t. be_word (bs ! (4 * t)) (bs ! (4 * t + 1)) (bs ! (4 * t + 2)) (bs ! (4 * t + 3))) [0..<k]"
  using assms
proof (induction bs arbitrary: k rule: words_of.induct)
  case (1 a b c d bs)
  then obtain k' where k: "k = Suc k'" "length bs = 4 * k'" by (cases k) auto
  show ?case using "1.IH" [OF k(2)] unfolding k(1)
    by (simp add: upt_conv_Cons map_Suc_upt [symmetric] add.commute del: upt_Suc)
qed auto

lemma read_be_word: "read_be m p = be_word (m p) (m (p + 1)) (m (p + 2)) (m (p + 3))"
  by (simp add: read_be_def be_word_def push_bit_eq_mult mult.commute)

lemma ref_blocks_fold:
  "length p = 64 * n \<Longrightarrow> ref_blocks p h = fold (\<lambda>i. ref_block (take 64 (drop (64 * i) p))) [0..<n] h"
proof (induction n arbitrary: p h)
  case (Suc n)
  then have "p \<noteq> []" "length (drop 64 p) = 64 * n" by auto
  then show ?case using Suc.IH [of "drop 64 p"]
    by (subst ref_blocks.simps) (simp add: upt_conv_Cons map_Suc_upt [symmetric] fold_map o_def add.commute del: upt_Suc)
qed (simp add: ref_blocks.simps)

text \<open>
  C5: \<open>hash_sha1\<close> computes SHA-1: for any bytes whose padded message the 32-bit index \<open>b\<close> reaches, whatever the new message buffer and the
  array \<open>W\<close> held before, its result is the hash of FIPS 180-4, with the padding and the rotations the code
  builds from bytes and shifts.
\<close>

theorem hash_sha1_correct:
  assumes "length bs < 2 ^ 32 - 64" "\<And>j. j < length bs \<Longrightarrow> m (buf + of_nat j) = bs ! j" "length W = 80"
  shows "hash_sha1 m buf (of_nat (length bs)) new_buf W = sha1_ref bs"
proof -
  obtain N msg where p: "preprocess m buf (of_nat (length bs)) new_buf = (N, msg)" by fastforce
  have n: "length bs < 2 ^ 32" using assms(1) by simp
  note pad = preprocess_pad [OF n assms(2) p]
  have words: "map (\<lambda>t. read_be msg (of_nat (i * 64 + 4 * t))) [0..<16] = words_of (take 64 (drop (64 * i) (sha1_pad bs)))"
    if i: "i < unat N" for i
  proof -
    have l: "length (take 64 (drop (64 * i) (sha1_pad bs))) = 4 * 16" using pad(1) i by simp
    show ?thesis unfolding words_of_nth [OF l]
    proof (rule map_cong [OF refl])
      fix t assume "t \<in> set [0..<16]"
      then have t: "t < 16" by simp
      have "msg (of_nat (i * 64 + 4 * t) + of_nat u) = take 64 (drop (64 * i) (sha1_pad bs)) ! (4 * t + u)" if "u < 4" for u
        using pad(2) [of "i * 64 + 4 * t + u"] pad(1) i t that by (simp add: mult.commute add.assoc)
      from this [of 0] this [of 1] this [of 2] this [of 3]
      show "read_be msg (of_nat (i * 64 + 4 * t)) = be_word
          (take 64 (drop (64 * i) (sha1_pad bs)) ! (4 * t)) (take 64 (drop (64 * i) (sha1_pad bs)) ! (4 * t + 1))
          (take 64 (drop (64 * i) (sha1_pad bs)) ! (4 * t + 2)) (take 64 (drop (64 * i) (sha1_pad bs)) ! (4 * t + 3))"
        unfolding read_be_word by simp
    qed
  qed
  let ?b = "\<lambda>i. take 64 (drop (64 * i) (sha1_pad bs))"
  have blk: "sha1_block msg n (W1, h1) = (schedule 64 (words_of (?b n)), ref_block (?b n) h1)"
    if "length W1 = 80" "n < unat N" for n W1 h1
    unfolding sha1_block_def ref_block_def fst_conv snd_conv Let_def schedule_W [OF that(1)] words [OF that(2)] rounds_ref
    by (rule refl)
  have len: "length (schedule 64 (words_of (?b n))) = 80" if "n < unat N" for n
    unfolding words [OF that, symmetric] length_schedule by simp
  have step: "n \<le> unat N \<Longrightarrow> length (fst (fold (sha1_block msg) [0..<n] (W, h))) = 80 \<and>
      snd (fold (sha1_block msg) [0..<n] (W, h)) = fold (\<lambda>i. ref_block (?b i)) [0..<n] h" for n h
  proof (induction n)
    case 0
    then show ?case using assms(3) by simp
  next
    case (Suc n)
    obtain W1 h1 where 1: "fold (sha1_block msg) [0..<n] (W, h) = (W1, h1)" by (metis surj_pair)
    then have l: "length W1 = 80" and h1: "h1 = fold (\<lambda>i. ref_block (?b i)) [0..<n] h" using Suc by simp_all
    have n: "n < unat N" using Suc.prems by simp
    have f: "fold (sha1_block msg) [0..<Suc n] (W, h) = sha1_block msg n (W1, h1)" using 1 by simp
    show ?case unfolding f blk [OF l n] fst_conv snd_conv len [OF n] h1 by simp
  qed
  show ?thesis
    unfolding hash_sha1_def sha1_ref_def p prod.case using step [of "unat N" INITIAL_STATE] by (simp add: ref_blocks_fold [OF pad(1)])
qed

theorem hash_sha1_correct_witness:
  "hash_sha1 (\<lambda>a. if a = 0x1000 then 0x61 else 0x62) 0x1000 2 (\<lambda>_. 7) (replicate 80 5) = sha1_ref [0x61, 0x62]"
proof -
  have m: "(if 0x1000 + of_nat j = (0x1000 :: u64) then 0x61 else 0x62) = [0x61, 0x62 :: u8] ! j" if "j < length [0x61, 0x62 :: u8]" for j
    using that by (cases j) auto
  from hash_sha1_correct [of "[0x61, 0x62]" "\<lambda>a. if a = 0x1000 then 0x61 else 0x62", OF _ m] show ?thesis
    by simp
qed

text \<open>The digest in hexadecimal: the five words, eight digits each.\<close>

definition hex8 :: "u32 \<Rightarrow> string" where
  "hex8 w = map (\<lambda>k. ''0123456789abcdef'' ! unat (drop_bit (28 - 4 * k) w AND 0xf)) [0..<8]"

fun sha1_hex :: "sha1_h \<Rightarrow> string" where
  "sha1_hex (h0, h1, h2, h3, h4) = hex8 h0 @ hex8 h1 @ hex8 h2 @ hex8 h3 @ hex8 h4"

lemma hex8_nth:
  "length (hex8 w) = 8" "k < 8 \<Longrightarrow> hex8 w ! k = ''0123456789abcdef'' ! unat (drop_bit (28 - 4 * k) w AND 0xf)"
  by (simp_all add: hex8_def del: upt_rec_numeral)

lemma sha1_hex_nth:
  assumes "j < 40"
  shows "sha1_hex (h0, h1, h2, h3, h4) ! j =
    ''0123456789abcdef'' ! unat (drop_bit (28 - 4 * (j mod 8)) ([h0, h1, h2, h3, h4] ! (j div 8)) AND 0xf)"
proof -
  have "sha1_hex (h0, h1, h2, h3, h4) ! j = hex8 ([h0, h1, h2, h3, h4] ! (j div 8)) ! (j mod 8)"
  proof -
    define q r where "q = j div 8" and "r = j mod 8"
    have j: "j = 8 * q + r" "r < 8" using assms by (auto simp: q_def r_def)
    have "q = 0 \<or> q = 1 \<or> q = 2 \<or> q = 3 \<or> q = 4" using assms unfolding q_def by linarith
    then show ?thesis unfolding q_def [symmetric] r_def [symmetric] using j
      by (elim disjE) (simp_all add: nth_append hex8_nth(1) del: nth_Cons')
  qed
  then show ?thesis by (simp only: hex8_nth(2) mod_less_divisor zero_less_numeral)
qed

lemma write_be_at:
  assumes "b + 4 \<le> 2 ^ 64" "j < 2 ^ 64"
  shows "write_be m (d + of_nat b) v (d + of_nat j) =
    (if b \<le> j \<and> j < b + 4 then ucast (drop_bit (24 - 8 * (j - b)) v AND 0xff) else m (d + of_nat j))"
proof -
  have "write_be m (d + of_nat b) v = fold (\<lambda>i m. m(d + of_nat (b + i) := ucast (drop_bit (24 - 8 * i) v AND 0xff))) [0..<4] m"
    unfolding write_be_def of_nat_add add.assoc by (rule refl)
  then show ?thesis using fold_write_at [OF assms, of 0 d "\<lambda>i. ucast (drop_bit (24 - 8 * i) v AND 0xff)" m] by simp
qed

lemma write_be_word:
  assumes "k < 5" "q < 5" "r < 4"
  shows "write_be m (d + of_nat (4 * k)) v (d + of_nat (4 * q + r)) =
    (if q = k then ucast (drop_bit (24 - 8 * r) v AND 0xff) else m (d + of_nat (4 * q + r)))"
proof -
  have "4 * k \<le> 4 * q + r \<and> 4 * q + r < 4 * k + 4 \<longleftrightarrow> q = k" using assms by linarith
  then show ?thesis using assms by (subst write_be_at) auto
qed

lemma digest_byte:
  assumes "q < 5" "r < 4"
  shows "write_digest m d (h0, h1, h2, h3, h4) (d + of_nat (4 * q + r)) =
    ucast (drop_bit (24 - 8 * r) ([h0, h1, h2, h3, h4] ! q) AND 0xff)"
proof -
  let ?hs = "[h0, h1, h2, h3, h4]"
  have "fold (\<lambda>i m. write_be m (d + of_nat (4 * i)) (?hs ! i)) [0..<n] m (d + of_nat (4 * q + r)) =
      (if q < n then ucast (drop_bit (24 - 8 * r) (?hs ! q) AND 0xff) else m (d + of_nat (4 * q + r)))" if "n \<le> 5" for n
    using that
  proof (induction n)
    case (Suc n)
    then show ?case using write_be_word [of n q r] assms by (simp del: of_nat_add of_nat_mult)
  qed simp
  from this [of 5] show ?thesis using assms(1) by (simp only: write_digest_def prod.case) simp
qed

lemma nibble:
  assumes "a + 4 \<le> 8"
  shows "unat (drop_bit a (ucast (drop_bit b (w :: u32) AND 0xff) :: u8) AND 0xf) = unat (drop_bit (a + b) w AND 0xf)"
proof -
  have f: "0xf = (mask 4 :: u8)" "0xf = (mask 4 :: u32)" "0xff = (mask 8 :: u32)" by (simp_all add: mask_eq_exp_minus_1)
  have "unat (drop_bit a (ucast (drop_bit b w AND 0xff) :: u8) AND 0xf) =
      unat (ucast (drop_bit (a + b) w AND 0xf) :: u8)"
    unfolding f by (rule arg_cong [of _ _ unat], rule bit_word_eqI) (use assms in \<open>auto simp: bit_simps ac_simps\<close>)
  also have "\<dots> = unat (drop_bit (a + b) w AND 0xf)"
    unfolding f take_bit_eq_mask [symmetric] by (simp add: unsigned_ucast_eq unat_take_bit) (simp add: take_bit_nat_eq_self take_bit_eq_mod)
  finally show ?thesis .
qed

definition hexdigit_at :: "mem8 \<Rightarrow> u64 \<Rightarrow> nat \<Rightarrow> char" where
  "hexdigit_at m d j = ''0123456789abcdef'' ! unat (drop_bit (if even j then 4 else 0) (m (d + of_nat (j div 2))) AND 0xf)"

lemma hexdigest_at:
  assumes "\<And>i j. i < 20 \<Longrightarrow> j < 41 \<Longrightarrow> d + of_nat i \<noteq> out + of_nat j" "j < 40"
  shows "hexdigest m d out (out + of_nat j) = of_char (hexdigit_at m d j)"
proof -
  let ?s = "hexdigest_byte d out"
  have inj: "(of_nat a :: u64) = of_nat b \<longleftrightarrow> a = b" if "a < 41" "b < 41" for a b
    by (rule of_nat_u64_eq) (use that in simp_all)
  have "(\<forall>i<20. fold ?s [0..<n] m (d + of_nat i) = m (d + of_nat i)) \<and>
      (\<forall>j<2 * n. fold ?s [0..<n] m (out + of_nat j) = of_char (hexdigit_at m d j))" if "n \<le> 20" for n
    using that
  proof (induction n)
    case (Suc n)
    define m' where "m' = fold ?s [0..<n] m"
    from Suc.IH Suc.prems have IH: "\<And>i. i < 20 \<Longrightarrow> m' (d + of_nat i) = m (d + of_nat i)"
      "\<And>j. j < 2 * n \<Longrightarrow> m' (out + of_nat j) = of_char (hexdigit_at m d j)" unfolding m'_def by simp_all
    have f: "fold ?s [0..<Suc n] m = ?s n m'" by (simp add: m'_def)
    have d: "d + of_nat i \<noteq> out + of_nat (2 * n)" "d + of_nat i \<noteq> out + of_nat (2 * n + 1)" if "i < 20" for i
      using assms(1) [OF that, of "2 * n"] assms(1) [OF that, of "2 * n + 1"] Suc.prems by simp_all
    have s: "?s n m' = m'(out + of_nat (2 * n) := of_char (hexdigit_at m d (2 * n)),
        out + of_nat (2 * n + 1) := of_char (hexdigit_at m d (2 * n + 1)))"
      using d [of n] IH(1) [of n] Suc.prems by (simp add: hexdigest_byte_def hexdigit_at_def Let_def del: of_nat_add of_nat_mult of_nat_Suc)
    have o: "?s n m' (out + of_nat j) = of_char (hexdigit_at m d j)" if "j < 2 * Suc n" for j
    proof -
      have "j < 2 * n \<or> j = 2 * n \<or> j = 2 * n + 1" using that by auto
      then show ?thesis unfolding s
        using IH(2) [of j] Suc.prems inj [of j "2 * n"] inj [of j "2 * n + 1"] inj [of "2 * n" "2 * n + 1"]
        by (auto simp del: of_nat_add of_nat_mult of_nat_Suc)
    qed
    show ?case unfolding f using o d IH(1) unfolding s by (simp del: of_nat_add of_nat_mult of_nat_Suc)
  qed simp
  from this [of 20] have "fold ?s [0..<20] m (out + of_nat j) = of_char (hexdigit_at m d j)" using assms(2) by simp
  moreover have "out + of_nat j \<noteq> out + 40" using inj [of j 40] assms(2) by simp
  ultimately show ?thesis unfolding hexdigest_def Let_def by simp
qed

lemma hexdigest_terminated: "hexdigest m d out (out + 40) = 0"
  by (simp add: hexdigest_def Let_def)

lemma hexdigest_string:
  assumes "\<And>i j. i < 20 \<Longrightarrow> j < 41 \<Longrightarrow> d + of_nat i \<noteq> out + of_nat j" "j < 40"
  shows "hexdigest (write_digest m d h) d out (out + of_nat j) = of_char (sha1_hex h ! j)"
proof -
  obtain h0 h1 h2 h3 h4 where h: "h = (h0, h1, h2, h3, h4)" by (cases h)
  let ?hs = "[h0, h1, h2, h3, h4]"
  have "hexdigit_at (write_digest m d h) d j =
      ''0123456789abcdef'' ! unat (drop_bit (28 - 4 * (j mod 8)) (?hs ! (j div 8)) AND 0xf)"
  proof -
    define q r where "q = j div 8" and "r = j mod 8"
    have j: "j = 8 * q + r" "r < 8" "q < 5" using assms(2) by (auto simp: q_def r_def)
    have dr: "even j = even r" "j div 2 = 4 * q + r div 2" "r div 2 < 4" using j(2) by (auto simp: j(1))
    have "r = 0 \<or> r = 1 \<or> r = 2 \<or> r = 3 \<or> r = 4 \<or> r = 5 \<or> r = 6 \<or> r = 7" using j(2) by linarith
    then have e: "(if even r then 4 else 0) + (24 - 8 * (r div 2)) = (28 - 4 * r :: nat)" by auto
    have "write_digest m d h (d + of_nat (j div 2)) = ucast (drop_bit (24 - 8 * (r div 2)) (?hs ! q) AND 0xff)"
      unfolding h dr(2) by (rule digest_byte) (use j dr in simp_all)
    moreover have "(if even r then 4 else 0) + 4 \<le> (8 :: nat)" by simp
    ultimately show ?thesis
      unfolding hexdigit_at_def q_def [symmetric] r_def [symmetric] e [symmetric] dr(1) by (simp only: nibble)
  qed
  moreover have "sha1_hex h ! j = ''0123456789abcdef'' ! unat (drop_bit (28 - 4 * (j mod 8)) (?hs ! (j div 8)) AND 0xf)"
    unfolding h by (rule sha1_hex_nth [OF assms(2)])
  ultimately show ?thesis using hexdigest_at [OF assms] by simp
qed

end
