(* ===== verification/LitmusHash.thy ===== *)
theory LitmusHash
  imports Report Sha1
begin

text \<open>
  The hash of a litmus test (\<open>lib/litmus_test/litmus_test_hash.c\<close>): a vector of bytes is written for the
  test's name, initial states, code and final condition, once without writing to learn its size and once into
  a buffer, and hashed. The code of a thread is the words of memory from its function on. The warnings the
  final condition may print go to the UART, the one state beside the buffer.
\<close>

section \<open>The code\<close>

text \<open>The pointer and the memory it points into.\<close>

type_synonym blit_st = "u64 \<times> mem8"

definition blit_int :: "u32 \<Rightarrow> bool \<Rightarrow> blit_st \<Rightarrow> blit_st" where
  "blit_int val dry st = (case st of (tgt, m) \<Rightarrow> (tgt + 4, if dry then m else write_be m tgt val))"

definition blit_long :: "u64 \<Rightarrow> bool \<Rightarrow> blit_st \<Rightarrow> blit_st" where
  "blit_long val dry st = (case st of (tgt, m) \<Rightarrow> (tgt + 8, if dry then m else write_be64 m tgt val))"

text \<open>The source's bytes are given by a function, apart from the memory written.\<close>

definition blit :: "(nat \<Rightarrow> u8) \<Rightarrow> nat \<Rightarrow> bool \<Rightarrow> blit_st \<Rightarrow> blit_st" where
  "blit src len dry st =
     (case st of (tgt, m) \<Rightarrow>
        (tgt + of_nat len, if dry then m else fold (\<lambda>i m. m(tgt + of_nat i := src i)) [0..<len] m))"

definition blit_str :: "string option \<Rightarrow> bool \<Rightarrow> blit_st \<Rightarrow> blit_st" where
  "blit_str s dry st =
     (let s = (case s of None \<Rightarrow> ''<NULL>'' | Some s \<Rightarrow> s);
          len = unat (ucast (strlen s) :: u32)
      in blit (\<lambda>i. char_u8 (s ! i)) len dry (blit_int (of_nat len) dry st))"

definition OPCODE_LITMUS_HINT :: u32 where "OPCODE_LITMUS_HINT = 0xd5032fff"

definition OPCODE_RET :: u32 where "OPCODE_RET = 0xd65f03c0"

text \<open>Looking for an instruction has no bound, and does not end where there is none.\<close>

type_synonym thread_code = "nat \<Rightarrow> u32"

partial_function (option) find_word :: "thread_code \<Rightarrow> u32 \<Rightarrow> nat \<Rightarrow> nat option" where
  "find_word code w i = (if code i = w then Some i else find_word code w (i + 1))"

text \<open>A result is \<open>None\<close> when the code does not end, and otherwise a failure or a value.\<close>

datatype hash_err = MalformedCode nat string | FinalCond reg_err | NullResult | ShortResult | Uninitialised | NoThread

type_synonym 'a hash_result = "(hash_err + 'a) option"

fun hbind :: "'a hash_result \<Rightarrow> ('a \<Rightarrow> 'b hash_result) \<Rightarrow> 'b hash_result" where
  "hbind None f = None"
| "hbind (Some (Inl e)) f = Some (Inl e)"
| "hbind (Some (Inr x)) f = f x"

definition ends :: "'a option \<Rightarrow> 'a hash_result" where
  "ends r = (case r of None \<Rightarrow> None | Some x \<Rightarrow> Some (Inr x))"

text \<open>The bytes of the instructions, which are little-endian.\<close>

definition code_byte :: "thread_code \<Rightarrow> nat \<Rightarrow> nat \<Rightarrow> u8" where
  "code_byte code start k = ucast (drop_bit (8 * (k mod 4)) (code (start + k div 4)))"

definition blit_thread_code_hint :: "thread_code \<Rightarrow> bool \<Rightarrow> blit_st \<Rightarrow> blit_st hash_result" where
  "blit_thread_code_hint code dry st =
     hbind (ends (find_word code OPCODE_LITMUS_HINT 0)) (\<lambda>i.
     let start = i + 1
     in hbind (ends (find_word code OPCODE_LITMUS_HINT start)) (\<lambda>j.
        let len = j - start
        in Some (Inr (blit (code_byte code start) (len * 4) dry (blit_int (of_nat len) dry st)))))"

definition blit_thread_code_nohint :: "thread_code \<Rightarrow> bool \<Rightarrow> blit_st \<Rightarrow> blit_st hash_result" where
  "blit_thread_code_nohint code dry st =
     hbind (ends (find_word code OPCODE_RET 0)) (\<lambda>i.
     Some (Inr (blit (code_byte code 0) ((i + 1) * 4) dry (blit_int (of_nat (i + 1)) dry st))))"

fun has_hint_loop :: "thread_code \<Rightarrow> nat list \<Rightarrow> bool option" where
  "has_hint_loop code [] = None"
| "has_hint_loop code (i # is) =
     (if code i = OPCODE_LITMUS_HINT then Some True
      else if code i = OPCODE_RET then Some False
      else has_hint_loop code is)"

definition thread_code_has_hint :: "thread_code option \<Rightarrow> nat \<Rightarrow> string \<Rightarrow> hash_err + bool" where
  "thread_code_has_hint code n name =
     (case code of
        None \<Rightarrow> Inr True
      | Some c \<Rightarrow> (case has_hint_loop c [0..<1024] of None \<Rightarrow> Inl (MalformedCode n name) | Some b \<Rightarrow> Inr b))"

definition blit_thread_code :: "thread_code option \<Rightarrow> nat \<Rightarrow> string \<Rightarrow> bool \<Rightarrow> blit_st \<Rightarrow> blit_st hash_result" where
  "blit_thread_code code n name dry st =
     (case code of
        None \<Rightarrow> Some (Inr (blit_int 0 dry st))
      | Some c \<Rightarrow> hbind (Some (thread_code_has_hint code n name)) (\<lambda>hint.
          if hint then blit_thread_code_hint c dry st else blit_thread_code_nohint c dry st))"

text \<open>A test with its code: its threads' functions and the handlers of each, at EL0 and at EL1.\<close>

record hashed_test = litmus_test_t +
  threads :: "thread_code option list"
  thread_sync_handlers :: "(thread_code option \<times> thread_code option) list option"

definition nth_res :: "'a list \<Rightarrow> nat \<Rightarrow> 'a hash_result" where
  "nth_res xs i = Some (if i < length xs then Inr (xs ! i) else Inl NoThread)"

definition blit_thread_handlers :: "('a hashed_test_scheme) \<Rightarrow> nat \<Rightarrow> bool \<Rightarrow> blit_st \<Rightarrow> blit_st hash_result" where
  "blit_thread_handlers test t dry st =
     (case thread_sync_handlers test of
        None \<Rightarrow> Some (Inr (blit_int 0 dry st))
      | Some hs \<Rightarrow>
          hbind (nth_res hs t) (\<lambda>(h0, h1).
          hbind (blit_thread_code h0 t ''EL0 handler'' dry (blit_int 2 dry st)) (\<lambda>st.
          blit_thread_code h1 t ''EL1 handler'' dry st)))"

definition blit_thread :: "('a hashed_test_scheme) \<Rightarrow> nat \<Rightarrow> bool \<Rightarrow> blit_st \<Rightarrow> blit_st hash_result" where
  "blit_thread test t dry st =
     hbind (nth_res (threads test) t) (\<lambda>c.
     hbind (blit_thread_code c t ''code'' dry st) (\<lambda>st. blit_thread_handlers test t dry st))"

definition blit_varstate :: "init_varstate_t \<Rightarrow> bool \<Rightarrow> blit_st \<Rightarrow> blit_st" where
  "blit_varstate v dry st =
     (let st = blit_str (Some (varname v)) dry st;
          st = blit_str (Some (init_type_to_str (itype v))) dry st
      in case itype v of
           TYPE_UNMAPPED \<Rightarrow> st
         | TYPE_HEAP x \<Rightarrow> blit_long x dry st
         | TYPE_PTE x \<Rightarrow> blit_long x dry st
         | TYPE_MAIR x \<Rightarrow> blit_long x dry st
         | TYPE_FIX x \<Rightarrow> blit_long x dry st
         | TYPE_ALIAS a \<Rightarrow> blit_str (Some a) dry st
         | TYPE_ATTRS p x \<Rightarrow> blit_long x dry (blit_str (Some (prot_type_to_str p)) dry st)
         | TYPE_REGION_PIN n l \<Rightarrow> blit_str (Some (pin_level_to_str l)) dry (blit_str (Some n) dry st)
         | TYPE_REGION_OFFSET n l \<Rightarrow> blit_str (Some (rel_offset_to_str l)) dry (blit_str (Some n) dry st)
         | TYPE_REGION_OWN l \<Rightarrow> blit_str (Some (own_level_to_str l)) dry st
         | TYPE_IDENTITY_MAP \<Rightarrow> st)"

definition blit_init_state :: "('a litmus_test_t_scheme) \<Rightarrow> bool \<Rightarrow> blit_st \<Rightarrow> blit_st" where
  "blit_init_state test dry st =
     fold (\<lambda>v. blit_varstate v dry) (init_states test) (blit_int (of_nat (length (init_states test))) dry st)"

fun blit_threads_loop :: "('a hashed_test_scheme) \<Rightarrow> nat list \<Rightarrow> bool \<Rightarrow> blit_st \<Rightarrow> blit_st hash_result" where
  "blit_threads_loop test [] dry st = Some (Inr st)"
| "blit_threads_loop test (t # ts) dry st = hbind (blit_thread test t dry st) (blit_threads_loop test ts dry)"

definition blit_threads :: "('a hashed_test_scheme) \<Rightarrow> bool \<Rightarrow> blit_st \<Rightarrow> blit_st hash_result" where
  "blit_threads test dry st =
     blit_threads_loop test [0..<no_threads test] dry (blit_int (of_nat (no_threads test)) dry st)"

text \<open>The final condition, in a buffer of 1024 characters whose contents before are not defined.\<close>

type_synonym streams = "stream_t \<times> stream_t"

definition hsprintf :: "string \<Rightarrow> parg list \<Rightarrow> streams \<Rightarrow> hash_err + streams" where
  "hsprintf fmt args st =
     (case st of (uart, t) \<Rightarrow> (case vsprintf t fmt args of Inl e \<Rightarrow> Inl (FinalCond (RegPrint e)) | Inr t \<Rightarrow> Inr (uart, t)))"

definition hsprint_reg :: "config \<Rightarrow> nat \<Rightarrow> string \<Rightarrow> streams \<Rightarrow> hash_err + streams" where
  "hsprint_reg cfg cpu nm st =
     (case st of (uart, t) \<Rightarrow> (case sprint_reg cfg cpu uart t nm STYLE_HERDTOOLS of Inl e \<Rightarrow> Inl (FinalCond e) | Inr r \<Rightarrow> Inr r))"

definition SPRINTF_RESULT :: "config \<Rightarrow> nat \<Rightarrow> string list \<Rightarrow> u64 list option \<Rightarrow> streams \<Rightarrow> hash_err + streams" where
  "SPRINTF_RESULT cfg cpu regs res =
     rfold (\<lambda>i st.
       rbind (if 0 < i then hsprintf ('' '' @ [CHR 0x2F, CHR 0x5C] @ '' '') [] st else Inr st) (\<lambda>st.
       rbind (hsprint_reg cfg cpu (regs ! i) st) (\<lambda>st.
       case res of
         None \<Rightarrow> Inl NullResult
       | Some r \<Rightarrow> if i < length r then hsprintf ''=%ld'' [Slot (r ! i)] st else Inl ShortResult))) [0..<length regs]"

definition final_cond :: "config \<Rightarrow> nat \<Rightarrow> ('a litmus_test_t_scheme) \<Rightarrow> streams \<Rightarrow> hash_err + streams" where
  "final_cond cfg cpu test st =
     (let regs = reg_names test;
          rs = (case interesting_results test of None \<Rightarrow> [] | Some rs \<Rightarrow> rs)
      in if rs \<noteq> []
         then rfold (\<lambda>r st.
                rbind (if 0 < r then hsprintf ('' '' @ [CHR 0x5C, CHR 0x2F] @ '' '') [] st else Inr st) (\<lambda>st.
                rbind (if 1 < length rs then hsprintf ''('' [] st else Inr st) (\<lambda>st.
                rbind (SPRINTF_RESULT cfg cpu regs (Some (rs ! r)) st) (\<lambda>st.
                if 1 < length rs then hsprintf '')'' [] st else Inr st)))) [0..<length rs] st
         else SPRINTF_RESULT cfg cpu regs (interesting_result test) st)"

definition blit_final_cond :: "config \<Rightarrow> nat \<Rightarrow> ('a litmus_test_t_scheme) \<Rightarrow> bool \<Rightarrow> stream_t \<Rightarrow> blit_st \<Rightarrow> (stream_t \<times> blit_st) hash_result" where
  "blit_final_cond cfg cpu test dry uart st =
     hbind (Some (final_cond cfg cpu test (uart, Buffer [] 1024))) (\<lambda>(uart, t).
     case t of
       Buffer s n \<Rightarrow> if n = 1024 then Some (Inl Uninitialised) else Some (Inr (uart, blit_str (Some s) dry st))
     | Uart s \<Rightarrow> Some (Inl Uninitialised))"

definition blit_test :: "config \<Rightarrow> nat \<Rightarrow> ('a hashed_test_scheme) \<Rightarrow> bool \<Rightarrow> stream_t \<Rightarrow> blit_st \<Rightarrow> (stream_t \<times> blit_st) hash_result" where
  "blit_test cfg cpu test dry uart st =
     (let st = blit_str (Some (tname test)) dry st;
          st = blit_init_state test dry st
      in hbind (blit_threads test dry st) (blit_final_cond cfg cpu test dry uart))"

text \<open>The warnings about code without the hints.\<close>

definition warn_no_hint :: "config \<Rightarrow> nat \<Rightarrow> thread_code option \<Rightarrow> nat \<Rightarrow> string \<Rightarrow> string \<Rightarrow> parg list \<Rightarrow> stream_t \<Rightarrow> hash_err + stream_t" where
  "warn_no_hint cfg cpu code i name fmt args uart =
     rbind (thread_code_has_hint code i name) (\<lambda>hint.
     if hint then Inr uart
     else case warning cfg cpu WARN_LITMUS_START_ASM fmt args uart of
            Inl e \<Rightarrow> Inl (FinalCond (RegPrint e))
          | Inr (uart, go) \<Rightarrow> if go then Inr uart else Inl (FinalCond RegAborted))"

definition warn_handlers :: "config \<Rightarrow> nat \<Rightarrow> thread_code option \<times> thread_code option \<Rightarrow> nat \<Rightarrow> stream_t \<Rightarrow> hash_err + stream_t" where
  "warn_handlers cfg cpu hs i =
     rfold (\<lambda>h. warn_no_hint cfg cpu (if h = 0 then fst hs else snd hs) i ''handler''
       (''warning: no LITMUS_START_ASM/LITMUS_END_ASM in Thread %d sync handler #%d, reverting to unstable hash.'' @ newline)
       [Slot (of_nat i), Slot (of_nat h)]) [0..<2]"

definition warn_thread :: "config \<Rightarrow> nat \<Rightarrow> ('a hashed_test_scheme) \<Rightarrow> nat \<Rightarrow> stream_t \<Rightarrow> hash_err + stream_t" where
  "warn_thread cfg cpu test i uart =
     (if length (threads test) \<le> i then Inl NoThread else
      rbind (warn_no_hint cfg cpu (threads test ! i) i ''code''
        (''no LITMUS_START_ASM/LITMUS_END_ASM in Thread %d, reverting to unstable hash.'' @ newline) [Slot (of_nat i)] uart) (\<lambda>uart.
      case thread_sync_handlers test of
        None \<Rightarrow> Inr uart
      | Some hs \<Rightarrow> if length hs \<le> i then Inl NoThread else warn_handlers cfg cpu (hs ! i) i uart))"

definition warn_on_bad_hash :: "config \<Rightarrow> nat \<Rightarrow> ('a hashed_test_scheme) \<Rightarrow> stream_t \<Rightarrow> hash_err + stream_t" where
  "warn_on_bad_hash cfg cpu test = rfold (warn_thread cfg cpu test) [0..<no_threads test]"

text \<open>\<open>buf\<close> is the buffer allocated between the two runs; the last two arguments are those of \<open>hash_sha1\<close>.\<close>

definition litmus_test_hash :: "config \<Rightarrow> nat \<Rightarrow> ('a hashed_test_scheme) \<Rightarrow> mem8 \<Rightarrow> u64 \<Rightarrow> mem8 \<Rightarrow> u32 list \<Rightarrow> stream_t \<Rightarrow> (stream_t \<times> sha1_h) hash_result" where
  "litmus_test_hash cfg cpu test m buf new_buf W uart =
     hbind (Some (warn_on_bad_hash cfg cpu test uart)) (\<lambda>uart.
     hbind (blit_test cfg cpu test True uart (0, m)) (\<lambda>(uart, size, _).
     hbind (blit_test cfg cpu test False uart (buf, m)) (\<lambda>(uart, _, m).
     Some (Inr (uart, hash_sha1 m buf size new_buf W)))))"

section \<open>What is hashed\<close>

text \<open>The content of a test that the hash depends on, and its encoding as bytes.\<close>

record hash_content =
  hname :: string
  hinit :: "init_varstate_t list"
  hthreads :: "(u32 list \<times> (u32 list \<times> u32 list) option) list"
  hcond :: string

definition be4 :: "u32 \<Rightarrow> u8 list" where "be4 v = map (\<lambda>i. ucast (drop_bit (24 - 8 * i) v)) [0..<4]"

definition le4 :: "u32 \<Rightarrow> u8 list" where "le4 v = map (\<lambda>i. ucast (drop_bit (8 * i) v)) [0..<4]"

definition enc_str :: "string \<Rightarrow> u8 list" where
  "enc_str s = be4 (of_nat (length s)) @ map char_u8 (take (length s mod 2 ^ 32) s)"

definition enc_words :: "u32 list \<Rightarrow> u8 list" where
  "enc_words ws = be4 (of_nat (length ws)) @ concat (map le4 ws)"

fun enc_type :: "init_type \<Rightarrow> u8 list" where
  "enc_type (TYPE_HEAP x) = be_bytes x"
| "enc_type (TYPE_PTE x) = be_bytes x"
| "enc_type (TYPE_MAIR x) = be_bytes x"
| "enc_type (TYPE_FIX x) = be_bytes x"
| "enc_type TYPE_UNMAPPED = []"
| "enc_type TYPE_IDENTITY_MAP = []"
| "enc_type (TYPE_ALIAS a) = enc_str a"
| "enc_type (TYPE_ATTRS p x) = enc_str (prot_type_to_str p) @ be_bytes x"
| "enc_type (TYPE_REGION_OWN l) = enc_str (own_level_to_str l)"
| "enc_type (TYPE_REGION_PIN n l) = enc_str n @ enc_str (pin_level_to_str l)"
| "enc_type (TYPE_REGION_OFFSET n l) = enc_str n @ enc_str (rel_offset_to_str l)"

definition enc_init :: "init_varstate_t \<Rightarrow> u8 list" where
  "enc_init v = enc_str (varname v) @ enc_str (init_type_to_str (itype v)) @ enc_type (itype v)"

definition enc_handlers :: "(u32 list \<times> u32 list) option \<Rightarrow> u8 list" where
  "enc_handlers hs = (case hs of None \<Rightarrow> be4 0 | Some (h0, h1) \<Rightarrow> be4 2 @ enc_words h0 @ enc_words h1)"

definition enc_thread :: "u32 list \<times> (u32 list \<times> u32 list) option \<Rightarrow> u8 list" where
  "enc_thread th = enc_words (fst th) @ enc_handlers (snd th)"

definition encode :: "hash_content \<Rightarrow> u8 list" where
  "encode c =
     enc_str (hname c) @ be4 (of_nat (length (hinit c))) @ concat (map enc_init (hinit c)) @
     be4 (of_nat (length (hthreads c))) @ concat (map enc_thread (hthreads c)) @ enc_str (hcond c)"

text \<open>The words of a thread's code that count: between the first two hints, or up to the first return.\<close>

definition code_words :: "thread_code option \<Rightarrow> nat \<Rightarrow> string \<Rightarrow> u32 list hash_result" where
  "code_words code n name =
     (case code of
        None \<Rightarrow> Some (Inr [])
      | Some c \<Rightarrow> hbind (Some (thread_code_has_hint code n name)) (\<lambda>hint.
          if hint
          then hbind (ends (find_word c OPCODE_LITMUS_HINT 0)) (\<lambda>i.
               hbind (ends (find_word c OPCODE_LITMUS_HINT (i + 1))) (\<lambda>j. Some (Inr (map c [i + 1..<j]))))
          else hbind (ends (find_word c OPCODE_RET 0)) (\<lambda>i. Some (Inr (map c [0..<i + 1])))))"

definition thread_content :: "('a hashed_test_scheme) \<Rightarrow> nat \<Rightarrow> (u32 list \<times> (u32 list \<times> u32 list) option) hash_result" where
  "thread_content test t =
     hbind (nth_res (threads test) t) (\<lambda>c.
     hbind (code_words c t ''code'') (\<lambda>ws.
     case thread_sync_handlers test of
       None \<Rightarrow> Some (Inr (ws, None))
     | Some hs \<Rightarrow>
         hbind (nth_res hs t) (\<lambda>(h0, h1).
         hbind (code_words h0 t ''EL0 handler'') (\<lambda>w0.
         hbind (code_words h1 t ''EL1 handler'') (\<lambda>w1. Some (Inr (ws, Some (w0, w1))))))))"

fun threads_content :: "('a hashed_test_scheme) \<Rightarrow> nat list \<Rightarrow> ((u32 list \<times> (u32 list \<times> u32 list) option) list) hash_result" where
  "threads_content test [] = Some (Inr [])"
| "threads_content test (t # ts) =
     hbind (thread_content test t) (\<lambda>th. hbind (threads_content test ts) (\<lambda>ths. Some (Inr (th # ths))))"

fun with_cond :: "('a hashed_test_scheme) \<Rightarrow> (u32 list \<times> (u32 list \<times> u32 list) option) list \<Rightarrow> streams \<Rightarrow> (stream_t \<times> hash_content) hash_result" where
  "with_cond test ths (uart, Buffer s n) =
     (if n = 1024 then Some (Inl Uninitialised)
      else Some (Inr (uart, \<lparr>hname = tname test, hinit = init_states test, hthreads = ths, hcond = s\<rparr>)))"
| "with_cond test ths (uart, Uart s) = Some (Inl Uninitialised)"

definition test_content :: "config \<Rightarrow> nat \<Rightarrow> ('a hashed_test_scheme) \<Rightarrow> stream_t \<Rightarrow> (stream_t \<times> hash_content) hash_result" where
  "test_content cfg cpu test uart =
     hbind (threads_content test [0..<no_threads test]) (\<lambda>ths.
     hbind (Some (final_cond cfg cpu test (uart, Buffer [] 1024))) (with_cond test ths))"

section \<open>The vector\<close>

text \<open>The bytes \<open>v\<close> blitted: what both runs do to the pointer, and only the second to the memory.\<close>

definition put_bytes :: "u8 list \<Rightarrow> u64 \<Rightarrow> mem8 \<Rightarrow> mem8" where
  "put_bytes v tgt m = fold (\<lambda>i m. m(tgt + of_nat i := v ! i)) [0..<length v] m"

definition advance :: "bool \<Rightarrow> u8 list \<Rightarrow> blit_st \<Rightarrow> blit_st" where
  "advance dry v st = (case st of (tgt, m) \<Rightarrow> (tgt + of_nat (length v), if dry then m else put_bytes v tgt m))"

lemma put_bytes_append: "put_bytes (v @ w) tgt m = put_bytes w (tgt + of_nat (length v)) (put_bytes v tgt m)"
proof -
  have s: "[0..<length v + length w] = [0..<length v] @ map (\<lambda>i. length v + i) [0..<length w]"
    by (simp add: upt_add_eq_append [of 0 "length v" "length w"] map_add_upt add.commute)
  have "fold (\<lambda>i m. m(tgt + of_nat i := (v @ w) ! i)) [0..<length v] m = put_bytes v tgt m"
    unfolding put_bytes_def by (rule fold_cong) (auto simp: nth_append)
  then show ?thesis
    by (simp add: put_bytes_def s fold_map o_def add.assoc)
qed

lemma advance_append [simp]: "advance dry w (advance dry v st) = advance dry (v @ w) st"
  by (cases st) (simp add: advance_def put_bytes_append add.assoc)

lemma advance_Nil [simp]: "advance dry [] st = st"
  by (cases st) (simp add: advance_def put_bytes_def)

lemma length_be4 [simp]: "length (be4 v) = 4" "length (le4 v) = 4"
  by (simp_all add: be4_def le4_def)

lemma ucast_mask: "ucast (x AND 0xff) = (ucast x :: u8)"
proof -
  have "ucast (take_bit 8 x) = (ucast x :: u8)" by (rule bit_word_eqI) (auto simp: bit_simps)
  moreover have "x AND 0xff = take_bit 8 x" by (simp only: take_bit_eq_mask) (simp add: mask_eq_exp_minus_1)
  ultimately show ?thesis by simp
qed

lemma write_be_put: "write_be m tgt v = put_bytes (be4 v) tgt m"
  unfolding write_be_def put_bytes_def length_be4 by (rule fold_cong) (auto simp: be4_def ucast_mask)

lemma write_be64_put: "write_be64 m tgt v = put_bytes (be_bytes v) tgt m"
  unfolding write_be64_def put_bytes_def length_be_bytes by (rule fold_cong) (auto simp: be_bytes_def ucast_mask)

lemma blit_int_advance: "blit_int v dry st = advance dry (be4 v) st"
  by (cases st) (simp add: blit_int_def advance_def write_be_put)

lemma blit_long_advance: "blit_long v dry st = advance dry (be_bytes v) st"
  by (cases st) (simp add: blit_long_def advance_def write_be64_put)

lemma blit_advance: "blit src len dry st = advance dry (map src [0..<len]) st"
proof -
  have "fold (\<lambda>i m. m(tgt + of_nat i := src i)) [0..<len] m = put_bytes (map src [0..<len]) tgt m" for tgt and m :: mem8
    unfolding put_bytes_def by (rule fold_cong) auto
  then show ?thesis by (cases st) (simp add: blit_def advance_def)
qed

lemma blit_str_advance: "blit_str (Some s) dry st = advance dry (enc_str s) st"
proof -
  have len: "unat (ucast (strlen s) :: u32) = length s mod 2 ^ 32"
    unfolding strlen_length by (simp add: unsigned_ucast_eq take_bit_eq_mod unsigned_of_nat mod_mod_cancel)
  have "(of_nat (length s mod 2 ^ 32) :: u32) = of_nat (length s)"
    by (simp add: word_of_nat_eq_iff take_bit_eq_mod)
  moreover have "map (\<lambda>i. char_u8 (s ! i)) [0..<length s mod 2 ^ 32] = map char_u8 (take (length s mod 2 ^ 32) s)"
    by (rule nth_equalityI) auto
  ultimately show ?thesis
    unfolding blit_str_def Let_def option.case len blit_int_advance blit_advance advance_append enc_str_def by (simp only:)
qed

lemma code_bytes: "map (code_byte c start) [0..<len * 4] = concat (map le4 (map c [start..<start + len]))"
proof (induction len)
  case (Suc len)
  have four: "(len * 4 + r) mod 4 = r" "(len * 4 + r) div 4 = len" if "r < 4" for r using that by simp_all
  have "map (code_byte c start) [len * 4..<len * 4 + 4] = le4 (c (start + len))"
    using four [of 0] four [of 1] four [of 2] four [of 3]
    by (simp add: code_byte_def le4_def upt_conv_Cons del: div_mult_self3 div_mult_self4)
  moreover have "[0..<Suc len * 4] = [0..<len * 4] @ [len * 4..<len * 4 + 4]"
    using upt_add_eq_append [of 0 "len * 4" 4] by (simp add: add.commute)
  ultimately show ?case using Suc.IH by simp
qed simp

lemma find_word_ge: "find_word c w i = Some j \<Longrightarrow> i \<le> j"
  by (erule find_word.raw_induct [rotated]) (force split: if_splits)

lemma blit_words: "blit (code_byte c start) (len * 4) dry (blit_int (of_nat len) dry st) =
    advance dry (enc_words (map c [start..<start + len])) st"
  by (simp add: blit_advance blit_int_advance code_bytes enc_words_def)

lemma hbind_Inr_iff: "hbind m f = Some (Inr y) \<longleftrightarrow> (\<exists>x. m = Some (Inr x) \<and> f x = Some (Inr y))"
  by (cases "(m, f)" rule: hbind.cases) auto

lemma hbind_assoc: "hbind (hbind m f) g = hbind m (\<lambda>x. hbind (f x) g)"
  by (cases "(m, f)" rule: hbind.cases) auto

lemma hbind_cong: "m = m' \<Longrightarrow> (\<And>x. m' = Some (Inr x) \<Longrightarrow> f x = f' x) \<Longrightarrow> hbind m f = hbind m' f'"
  by (cases "(m, f)" rule: hbind.cases) auto

lemma blit_thread_code_advance:
  "blit_thread_code code n name dry st = hbind (code_words code n name) (\<lambda>ws. Some (Inr (advance dry (enc_words ws) st)))"
proof (cases code)
  case None
  then show ?thesis by (simp add: blit_thread_code_def code_words_def blit_int_advance enc_words_def)
next
  case (Some c)
  have hint: "blit_thread_code_hint c dry st = hbind (ends (find_word c OPCODE_LITMUS_HINT 0)) (\<lambda>i.
      hbind (hbind (ends (find_word c OPCODE_LITMUS_HINT (i + 1))) (\<lambda>j. Some (Inr (map c [i + 1..<j]))))
        (\<lambda>ws. Some (Inr (advance dry (enc_words ws) st))))"
    unfolding blit_thread_code_hint_def Let_def hbind_assoc
  proof (intro hbind_cong refl)
    fix i j assume "ends (find_word c OPCODE_LITMUS_HINT (i + 1)) = Some (Inr j)"
    then have "i + 1 \<le> j" by (auto simp: ends_def split: option.splits intro: find_word_ge)
    then show "Some (Inr (blit (code_byte c (i + 1)) ((j - (i + 1)) * 4) dry (blit_int (of_nat (j - (i + 1))) dry st))) =
        hbind (Some (Inr (map c [i + 1..<j]))) (\<lambda>ws. Some (Inr (advance dry (enc_words ws) st)))"
      unfolding blit_words by simp
  qed
  have nohint: "blit_thread_code_nohint c dry st = hbind (ends (find_word c OPCODE_RET 0)) (\<lambda>i.
      Some (Inr (advance dry (enc_words (map c [0..<i + 1])) st)))"
    unfolding blit_thread_code_nohint_def blit_words by simp
  show ?thesis
    unfolding blit_thread_code_def code_words_def Some option.case hbind_assoc hint nohint
    by (intro hbind_cong refl) (simp add: hbind_assoc)
qed

lemma blit_thread_advance:
  "blit_thread test t dry st = hbind (thread_content test t) (\<lambda>th. Some (Inr (advance dry (enc_thread th) st)))"
  unfolding blit_thread_def thread_content_def blit_thread_handlers_def blit_thread_code_advance hbind_assoc
proof (intro hbind_cong refl)
  fix c ws
  show "hbind (Some (Inr (advance dry (enc_words ws) st)))
      (\<lambda>st. case thread_sync_handlers test of
         None \<Rightarrow> Some (Inr (blit_int 0 dry st))
       | Some hs \<Rightarrow> hbind (nth_res hs t) (\<lambda>(h0, h1).
           hbind (code_words h0 t ''EL0 handler'') (\<lambda>x. hbind (Some (Inr (advance dry (enc_words x) (blit_int 2 dry st))))
             (\<lambda>st. hbind (code_words h1 t ''EL1 handler'') (\<lambda>ws. Some (Inr (advance dry (enc_words ws) st))))))) =
    hbind (case thread_sync_handlers test of
         None \<Rightarrow> Some (Inr (ws, None))
       | Some hs \<Rightarrow> hbind (nth_res hs t) (\<lambda>(h0, h1).
           hbind (code_words h0 t ''EL0 handler'') (\<lambda>w0. hbind (code_words h1 t ''EL1 handler'') (\<lambda>w1. Some (Inr (ws, Some (w0, w1)))))))
      (\<lambda>th. Some (Inr (advance dry (enc_thread th) st)))"
    by (cases "thread_sync_handlers test")
      (auto simp: blit_int_advance enc_thread_def enc_handlers_def hbind_assoc intro!: hbind_cong split: prod.splits)
qed

lemma blit_varstate_advance: "blit_varstate v dry st = advance dry (enc_init v) st"
  unfolding blit_varstate_def Let_def blit_str_advance blit_long_advance advance_append enc_init_def
  by (cases "itype v") simp_all

lemma blit_threads_loop_advance:
  "blit_threads_loop test ts dry st =
     hbind (threads_content test ts) (\<lambda>ths. Some (Inr (advance dry (concat (map enc_thread ths)) st)))"
proof (induction ts arbitrary: st)
  case (Cons t ts)
  show ?case by (simp add: blit_thread_advance Cons hbind_assoc)
qed simp

lemma threads_content_length: "threads_content test ts = Some (Inr ths) \<Longrightarrow> length ths = length ts"
  by (induction ts arbitrary: ths) (auto simp: hbind_Inr_iff)

lemma blit_init_advance:
  "blit_init_state test dry st =
     advance dry (be4 (of_nat (length (init_states test))) @ concat (map enc_init (init_states test))) st"
proof -
  have "fold (\<lambda>v. blit_varstate v dry) vs st = advance dry (concat (map enc_init vs)) st" for vs and st
    by (induction vs arbitrary: st) (simp_all add: blit_varstate_advance)
  then show ?thesis by (simp add: blit_init_state_def blit_int_advance)
qed

lemma blit_test_advance:
  "blit_test cfg cpu test dry uart st =
     hbind (test_content cfg cpu test uart) (\<lambda>(uart, c). Some (Inr (uart, advance dry (encode c) st)))"
proof -
  let ?n = "advance dry (enc_str (tname test) @ be4 (of_nat (length (init_states test))) @ concat (map enc_init (init_states test)) @
    be4 (of_nat (no_threads test)))"
  have "blit_test cfg cpu test dry uart st =
      hbind (threads_content test [0..<no_threads test]) (\<lambda>ths.
      blit_final_cond cfg cpu test dry uart (advance dry (concat (map enc_thread ths)) (?n st)))"
    by (simp add: blit_test_def blit_threads_def blit_str_advance blit_init_advance blit_int_advance
        blit_threads_loop_advance hbind_assoc)
  also have "\<dots> = hbind (test_content cfg cpu test uart) (\<lambda>(uart, c). Some (Inr (uart, advance dry (encode c) st)))"
    unfolding test_content_def hbind_assoc
  proof (intro hbind_cong refl)
    fix ths assume "threads_content test [0..<no_threads test] = Some (Inr ths)"
    then have "length ths = no_threads test" by (auto dest: threads_content_length)
    then show "blit_final_cond cfg cpu test dry uart (advance dry (concat (map enc_thread ths)) (?n st)) =
      hbind (Some (final_cond cfg cpu test (uart, Buffer [] 1024)))
        (\<lambda>x. hbind (with_cond test ths x) (\<lambda>(uart, c). Some (Inr (uart, advance dry (encode c) st))))"
      unfolding blit_final_cond_def
      by (intro hbind_cong refl) (auto simp: blit_str_advance encode_def split: stream_t.splits)
  qed
  finally show ?thesis .
qed

section \<open>Nothing is lost in the encoding\<close>

text \<open>
  An encoding of values whose end can be told from its beginning: what follows it is not mistaken for it.
\<close>

locale self_delimiting =
  fixes enc :: "'a \<Rightarrow> u8 list" and ok :: "'a \<Rightarrow> bool"
  assumes cancel: "ok x \<Longrightarrow> ok y \<Longrightarrow> enc x @ r = enc y @ s \<Longrightarrow> x = y \<and> r = s"
begin

lemma inj: "ok x \<Longrightarrow> ok y \<Longrightarrow> enc x = enc y \<longleftrightarrow> x = y"
  using cancel [of x y "[]" "[]"] by auto

lemma list_cancel:
  assumes "\<And>x. x \<in> set xs \<Longrightarrow> ok x" "\<And>y. y \<in> set ys \<Longrightarrow> ok y" "length xs = length ys"
    and "concat (map enc xs) @ r = concat (map enc ys) @ s"
  shows "xs = ys \<and> r = s"
  using assms(3,1,2,4)
proof (induction xs ys rule: list_induct2)
  case (Cons x xs y ys)
  then have "enc x @ concat (map enc xs) @ r = enc y @ concat (map enc ys) @ s" by simp
  from cancel [OF _ _ this] Cons show ?case by auto
qed simp

end

lemma be4_inj: "be4 v = be4 w \<longleftrightarrow> v = w"
  using read_write_be [of "\<lambda>_. 0" 0 v] read_write_be [of "\<lambda>_. 0" 0 w] unfolding write_be_put by metis

lemma be_bytes_inj: "be_bytes v = be_bytes w \<longleftrightarrow> v = w"
  using read_write_be64 [of "\<lambda>_. 0" 0 v] read_write_be64 [of "\<lambda>_. 0" 0 w] unfolding write_be64_put by metis

lemma le4_be4: "le4 v = rev (be4 v)"
  by (simp add: le4_def be4_def upt_conv_Cons)

interpretation sd_int: self_delimiting be4 "\<lambda>_. True"
  by unfold_locales (simp add: be4_inj)

interpretation sd_word: self_delimiting le4 "\<lambda>_. True"
  by unfold_locales (simp add: le4_be4 be4_inj)

interpretation sd_long: self_delimiting be_bytes "\<lambda>_. True"
  by unfold_locales (simp add: be_bytes_inj length_be_bytes)

text \<open>A count is told from another below \<open>2^32\<close>.\<close>

definition short :: "'a list \<Rightarrow> bool" where "short xs \<longleftrightarrow> length xs < 2 ^ 32"

lemma count_cancel:
  assumes "short xs" "short ys" "be4 (of_nat (length xs)) @ r = be4 (of_nat (length ys)) @ s"
  shows "length xs = length ys \<and> r = s"
proof -
  from sd_int.cancel [OF TrueI TrueI assms(3)] have "(of_nat (length xs) :: u32) = of_nat (length ys)" "r = s" by simp_all
  then show ?thesis using assms(1,2) by (simp add: short_def word_of_nat_eq_iff take_bit_nat_eq_self)
qed

interpretation sd_str: self_delimiting enc_str short
proof
  fix x y :: string and r s
  assume l: "short x" "short y" and e: "enc_str x @ r = enc_str y @ s"
  then have "be4 (of_nat (length x)) @ map char_u8 x @ r = be4 (of_nat (length y)) @ map char_u8 y @ s"
    by (simp add: enc_str_def short_def)
  from count_cancel [OF l this] have n: "length x = length y" "map char_u8 x @ r = map char_u8 y @ s" by simp_all
  then have "map char_u8 x = map char_u8 y" "r = s" by simp_all
  moreover have "inj char_u8" by (rule injI) (simp add: char_u8_eq)
  ultimately show "x = y \<and> r = s" by (simp add: inj_map_eq_map)
qed

lemma sd_str_iff: "short x \<Longrightarrow> short y \<Longrightarrow> enc_str x @ r = enc_str y @ s \<longleftrightarrow> x = y \<and> r = s"
  "short x \<Longrightarrow> short y \<Longrightarrow> enc_str x = enc_str y \<longleftrightarrow> x = y"
  using sd_str.cancel [of x y r s] sd_str.inj [of x y] by auto

interpretation sd_words: self_delimiting enc_words short
proof
  fix x y :: "u32 list" and r s
  assume l: "short x" "short y" and e: "enc_words x @ r = enc_words y @ s"
  then have "be4 (of_nat (length x)) @ concat (map le4 x) @ r = be4 (of_nat (length y)) @ concat (map le4 y) @ s"
    by (simp add: enc_words_def)
  from count_cancel [OF l this] show "x = y \<and> r = s" using sd_word.list_cancel [of x y r s] by simp
qed

text \<open>The strings of the enumerations tell their members apart.\<close>

lemma short_names:
  "short (init_type_to_str t)" "short (prot_type_to_str p)" "short (own_level_to_str ow)"
  "short (pin_level_to_str pl)" "short (rel_offset_to_str rl)"
  unfolding short_def
  by ((cases t; simp; fail), (cases p; simp; fail), (cases ow; simp; fail), (cases pl; simp; fail), (cases rl; simp; fail))

lemma names_inj:
  "prot_type_to_str p = prot_type_to_str p' \<longleftrightarrow> p = p'"
  "own_level_to_str ow = own_level_to_str ow' \<longleftrightarrow> ow = ow'"
  "pin_level_to_str pl = pin_level_to_str pl' \<longleftrightarrow> pl = pl'"
  "rel_offset_to_str rl = rel_offset_to_str rl' \<longleftrightarrow> rl = rl'"
  by ((cases p; cases p'; simp; fail), (cases ow; cases ow'; simp; fail), (cases pl; cases pl'; simp; fail),
      (cases rl; cases rl'; simp; fail))

fun ok_type :: "init_type \<Rightarrow> bool" where
  "ok_type (TYPE_ALIAS a) = short a"
| "ok_type (TYPE_REGION_PIN n l) = short n"
| "ok_type (TYPE_REGION_OFFSET n l) = short n"
| "ok_type t = True"

definition ok_init :: "init_varstate_t \<Rightarrow> bool" where
  "ok_init v \<longleftrightarrow> short (varname v) \<and> ok_type (itype v)"

lemma enc_type_cancel:
  assumes "ok_type t" "ok_type u" "init_type_to_str t = init_type_to_str u" "enc_type t @ r = enc_type u @ s"
  shows "t = u \<and> r = s"
  using assms
  by (cases t; cases u) (simp_all add: sd_str_iff short_names names_inj be_bytes_inj)

interpretation sd_init: self_delimiting enc_init ok_init
proof
  fix x y :: init_varstate_t and r s
  assume ok: "ok_init x" "ok_init y" and "enc_init x @ r = enc_init y @ s"
  then have e: "enc_str (varname x) @ enc_str (init_type_to_str (itype x)) @ enc_type (itype x) @ r =
      enc_str (varname y) @ enc_str (init_type_to_str (itype y)) @ enc_type (itype y) @ s"
    by (simp add: enc_init_def)
  from ok have sh: "short (varname x)" "short (varname y)" "ok_type (itype x)" "ok_type (itype y)" by (simp_all add: ok_init_def)
  from sd_str.cancel [OF sh(1,2) e] have v: "varname x = varname y"
    and e2: "enc_str (init_type_to_str (itype x)) @ enc_type (itype x) @ r = enc_str (init_type_to_str (itype y)) @ enc_type (itype y) @ s"
    by simp_all
  from sd_str.cancel [OF short_names(1) short_names(1) e2] have "itype x = itype y \<and> r = s"
    using enc_type_cancel [OF sh(3,4)] by blast
  then show "x = y \<and> r = s" using v by simp
qed

definition ok_thread :: "u32 list \<times> (u32 list \<times> u32 list) option \<Rightarrow> bool" where
  "ok_thread th \<longleftrightarrow> short (fst th) \<and> (case snd th of None \<Rightarrow> True | Some (h0, h1) \<Rightarrow> short h0 \<and> short h1)"

interpretation sd_thread: self_delimiting enc_thread ok_thread
proof
  fix x y :: "u32 list \<times> (u32 list \<times> u32 list) option" and r s
  assume ok: "ok_thread x" "ok_thread y" and "enc_thread x @ r = enc_thread y @ s"
  then have e: "enc_words (fst x) @ enc_handlers (snd x) @ r = enc_words (fst y) @ enc_handlers (snd y) @ s"
    by (simp add: enc_thread_def)
  from sd_words.cancel [OF _ _ e] ok have f: "fst x = fst y" "enc_handlers (snd x) @ r = enc_handlers (snd y) @ s"
    by (simp_all add: ok_thread_def)
  have "snd x = snd y \<and> r = s"
    using f(2) ok by (cases "snd x"; cases "snd y")
      (auto simp: enc_handlers_def ok_thread_def be4_inj dest!: sd_words.cancel [rotated 2])
  then show "x = y \<and> r = s" using f(1) by (simp add: prod_eq_iff)
qed

definition ok_content :: "hash_content \<Rightarrow> bool" where
  "ok_content c \<longleftrightarrow> short (hname c) \<and> short (hinit c) \<and> (\<forall>v\<in>set (hinit c). ok_init v) \<and>
     short (hthreads c) \<and> (\<forall>th\<in>set (hthreads c). ok_thread th) \<and> short (hcond c)"

interpretation sd_content: self_delimiting encode ok_content
proof
  fix x y :: hash_content and r s
  assume ok: "ok_content x" "ok_content y" and "encode x @ r = encode y @ s"
  then have e: "enc_str (hname x) @ be4 (of_nat (length (hinit x))) @ concat (map enc_init (hinit x)) @
        be4 (of_nat (length (hthreads x))) @ concat (map enc_thread (hthreads x)) @ enc_str (hcond x) @ r =
      enc_str (hname y) @ be4 (of_nat (length (hinit y))) @ concat (map enc_init (hinit y)) @
        be4 (of_nat (length (hthreads y))) @ concat (map enc_thread (hthreads y)) @ enc_str (hcond y) @ s"
    by (simp add: encode_def)
  note c = ok [unfolded ok_content_def]
  from sd_str.cancel [OF _ _ e] c have n: "hname x = hname y" and
    e1: "be4 (of_nat (length (hinit x))) @ concat (map enc_init (hinit x)) @
        be4 (of_nat (length (hthreads x))) @ concat (map enc_thread (hthreads x)) @ enc_str (hcond x) @ r =
      be4 (of_nat (length (hinit y))) @ concat (map enc_init (hinit y)) @
        be4 (of_nat (length (hthreads y))) @ concat (map enc_thread (hthreads y)) @ enc_str (hcond y) @ s"
    by blast+
  from count_cancel [OF _ _ e1] c have l: "length (hinit x) = length (hinit y)" and
    e2: "concat (map enc_init (hinit x)) @ be4 (of_nat (length (hthreads x))) @ concat (map enc_thread (hthreads x)) @ enc_str (hcond x) @ r =
      concat (map enc_init (hinit y)) @ be4 (of_nat (length (hthreads y))) @ concat (map enc_thread (hthreads y)) @ enc_str (hcond y) @ s"
    by blast+
  from sd_init.list_cancel [OF _ _ l e2] c have i: "hinit x = hinit y" and
    e3: "be4 (of_nat (length (hthreads x))) @ concat (map enc_thread (hthreads x)) @ enc_str (hcond x) @ r =
      be4 (of_nat (length (hthreads y))) @ concat (map enc_thread (hthreads y)) @ enc_str (hcond y) @ s"
    by blast+
  from count_cancel [OF _ _ e3] c have lt: "length (hthreads x) = length (hthreads y)" and
    e4: "concat (map enc_thread (hthreads x)) @ enc_str (hcond x) @ r = concat (map enc_thread (hthreads y)) @ enc_str (hcond y) @ s"
    by blast+
  from sd_thread.list_cancel [OF _ _ lt e4] c have t: "hthreads x = hthreads y" and
    e5: "enc_str (hcond x) @ r = enc_str (hcond y) @ s" by blast+
  from sd_str.cancel [OF _ _ e5] c show "x = y \<and> r = s" using n i t by simp
qed

section \<open>The hash\<close>

text \<open>What an operation prints does not depend on what was printed before: earlier text can be put in front.\<close>

fun shift :: "string \<Rightarrow> stream_t \<Rightarrow> stream_t" where
  "shift s (Uart t) = Uart (s @ t)"
| "shift s (Buffer t n) = Buffer t n"

definition framed :: "(stream_t \<Rightarrow> 'e + stream_t) \<Rightarrow> bool" where
  "framed f \<longleftrightarrow> (\<forall>s out. f (shift s out) = rbind (f out) (\<lambda>v. Inr (shift s v)))"

lemma framed_return: "framed Inr"
  by (simp add: framed_def)

lemma framed_rbind: "framed f \<Longrightarrow> framed g \<Longrightarrow> framed (\<lambda>out. rbind (f out) g)"
  by (simp add: framed_def rbind_assoc)

lemma framed_if: "framed f \<Longrightarrow> framed g \<Longrightarrow> framed (\<lambda>out. if b then f out else g out)"
  by (cases b) simp_all

lemma framed_put: "framed (\<lambda>out. put out t)"
  unfolding framed_def
proof (intro allI)
  fix s out show "put (shift s out) t = rbind (put out t) (\<lambda>v. Inr (shift s v))" by (cases out) auto
qed

lemma framed_sputs_loop: "framed (\<lambda>out. sputs_loop out t)"
  unfolding sputs_loop_put by (rule framed_put)

lemma framed_end_string: "framed end_string"
  unfolding framed_def
proof (intro allI)
  fix s out show "end_string (shift s out) = rbind (end_string out) (\<lambda>v. Inr (shift s v))" by (cases out) auto
qed

lemma framed_vsprintf_loop: "framed (\<lambda>out. vsprintf_loop fmt out args)"
proof -
  have "vsprintf_loop fmt (shift s out) args = rbind (vsprintf_loop fmt out args) (\<lambda>v. Inr (shift s v))" for s out
  proof (induction fmt out args rule: vsprintf_loop.induct)
    case (2 c p out args)
    obtain cv q where n: "next_conv c p = (cv, q)" by fastforce
    have c: "print_conv cv (shift s out) args = rbind (print_conv cv out args) (\<lambda>(v, a). Inr (shift s v, a))"
      using framed_put unfolding print_conv_put framed_def
      by (auto simp: rbind_assoc split: prod.splits intro!: rbind_cong)
    show ?case using "2.IH" [OF n [symmetric]]
      by (auto simp: n c rbind_assoc split: prod.splits intro!: rbind_cong)
  qed simp
  then show ?thesis by (simp add: framed_def)
qed

lemma framed_vsprintf: "framed (\<lambda>out. vsprintf out fmt args)"
  unfolding vsprintf_def by (intro framed_rbind framed_vsprintf_loop framed_end_string)

lemma framed_vprintf: "framed (vprintf cfg cpu m fmt args)"
  unfolding vprintf_def sputs_def
  by (intro framed_rbind framed_if framed_vsprintf framed_sputs_loop framed_return)

lemma warning_shift:
  "warning cfg cpu w fmt args (shift s out) = rbind (warning cfg cpu w fmt args out) (\<lambda>(v, go). Inr (shift s v, go))"
proof -
  have vp: "vprintf cfg cpu m f a (shift s out) = rbind (vprintf cfg cpu m f a out) (\<lambda>v. Inr (shift s v))" for m f a out
    using framed_vprintf by (simp add: framed_def)
  show ?thesis by (cases "WARNINGS_AS_ERRORS cfg") (simp_all add: warning_def vp rbind_assoc Let_def)
qed

lemma sprint_reg_shift:
  "sprint_reg cfg cpu (shift s uart) out nm style =
     rbind (sprint_reg cfg cpu uart out nm style) (\<lambda>(u, v). Inr (shift s u, v))"
proof -
  have r: "as_reg (rbind m f) = rbind (as_reg m) (\<lambda>x. as_reg (f x))" for m :: "print_err + 'a" and f :: "'a \<Rightarrow> print_err + 'b"
    by (cases m) auto
  show ?thesis
    by (cases style; cases "extract_gpr nm")
      (auto simp: sprint_reg_def Let_def warning_shift r rbind_assoc split: sum.splits prod.splits intro!: rbind_cong)
qed

definition sframed :: "(streams \<Rightarrow> 'e + streams) \<Rightarrow> bool" where
  "sframed f \<longleftrightarrow> (\<forall>s u b. f (shift s u, b) = rbind (f (u, b)) (\<lambda>(u, b). Inr (shift s u, b))) \<and>
     (\<forall>t b u b'. f (Uart t, b) = Inr (u, b') \<longrightarrow> (\<exists>t'. u = Uart t'))"

lemma sframed_return: "sframed Inr"
  by (simp add: sframed_def)

lemma sframed_fail: "sframed (\<lambda>st. Inl e)"
  by (simp add: sframed_def)

lemma sframed_rbind:
  assumes "sframed f" "sframed g"
  shows "sframed (\<lambda>st. rbind (f st) g)"
  unfolding sframed_def
proof (intro conjI allI impI)
  fix s u b
  show "rbind (f (shift s u, b)) g = rbind (rbind (f (u, b)) g) (\<lambda>(u, b). Inr (shift s u, b))"
    using assms by (auto simp: sframed_def rbind_assoc split_def intro!: rbind_cong)
next
  fix t b u b' assume "rbind (f (Uart t, b)) g = Inr (u, b')"
  then show "\<exists>t'. u = Uart t'" using assms unfolding sframed_def rbind_Inr_iff by (metis surj_pair)
qed

lemma sframed_if: "sframed f \<Longrightarrow> sframed g \<Longrightarrow> sframed (\<lambda>st. if b then f st else g st)"
  by (cases b) simp_all

lemma sframed_rfold: "(\<And>x. sframed (f x)) \<Longrightarrow> sframed (rfold f xs)"
proof (induction xs)
  case (Cons x xs)
  have "sframed (\<lambda>st. rbind (f x st) (rfold f xs))" by (intro sframed_rbind Cons)
  then show ?case by (simp add: sframed_def del: rbind_Inr_iff)
qed (simp add: sframed_def)

lemma sframed_hsprintf: "sframed (hsprintf fmt args)"
  by (auto simp: sframed_def hsprintf_def split: sum.splits)

lemma sprint_reg_uart: "sprint_reg cfg cpu (Uart t) out nm style = Inr (u, v) \<Longrightarrow> \<exists>t'. u = Uart t'"
  by (cases style; cases "extract_gpr nm")
    (auto simp: sprint_reg_def Let_def split: sum.splits if_splits dest!: warning_extends extends_Uart)

lemma sframed_hsprint_reg: "sframed (hsprint_reg cfg cpu nm)"
  by (auto simp: sframed_def hsprint_reg_def sprint_reg_shift rbind_Inr_iff rbind_Inl_iff split: sum.splits dest: sprint_reg_uart)

lemma sframed_result: "sframed (SPRINTF_RESULT cfg cpu regs res)"
  unfolding SPRINTF_RESULT_def
  by (cases res) (auto intro!: sframed_rfold sframed_rbind sframed_if sframed_return sframed_fail sframed_hsprintf sframed_hsprint_reg)

lemma sframed_final_cond: "sframed (final_cond cfg cpu test)"
  unfolding final_cond_def Let_def
  by (intro sframed_rfold sframed_rbind sframed_if sframed_return sframed_hsprintf sframed_result)

text \<open>So what is hashed does not depend on it either.\<close>

lemma test_content_shift:
  "test_content cfg cpu test (shift s uart) =
     hbind (test_content cfg cpu test uart) (\<lambda>(u, c). Some (Inr (shift s u, c)))"
proof -
  have f: "final_cond cfg cpu test (shift s uart, b) = rbind (final_cond cfg cpu test (uart, b)) (\<lambda>(u, b). Inr (shift s u, b))" for b
    using sframed_final_cond [of cfg cpu test] by (simp add: sframed_def)
  have w: "with_cond test ths (shift s u, b) = hbind (with_cond test ths (u, b)) (\<lambda>(u, c). Some (Inr (shift s u, c)))" for ths u b
    by (cases b) simp_all
  show ?thesis
    unfolding test_content_def hbind_assoc f
    by (rule hbind_cong [OF refl], cases "final_cond cfg cpu test (uart, Buffer [] 1024)") (auto simp: w)
qed

lemma with_cond_uart: "with_cond test ths (u, b) = Some (Inr (v, c)) \<Longrightarrow> v = u"
  by (cases b) (auto split: if_splits)

lemma test_content_uart:
  assumes "test_content cfg cpu test (Uart t) = Some (Inr (u, c))"
  shows "\<exists>t'. u = Uart t'"
proof -
  obtain ths v b where "final_cond cfg cpu test (Uart t, Buffer [] 1024) = Inr (v, b)" "with_cond test ths (v, b) = Some (Inr (u, c))"
    using assms by (auto simp: test_content_def hbind_Inr_iff)
  then show ?thesis using sframed_final_cond [of cfg cpu test] with_cond_uart unfolding sframed_def by blast
qed

lemma warn_no_hint_uart: "warn_no_hint cfg cpu c i nm fmt args (Uart t) = Inr u \<Longrightarrow> \<exists>t'. u = Uart t'"
  unfolding warn_no_hint_def
  by (auto simp: rbind_Inr_iff split: if_splits sum.splits dest!: warning_extends extends_Uart)

lemma warn_handlers_uart:
  assumes "warn_handlers cfg cpu hs i (Uart t) = Inr u"
  shows "\<exists>t'. u = Uart t'"
  by (rule rfold_invariant [OF assms [unfolded warn_handlers_def], where P = "\<lambda>u. \<exists>t'. u = Uart t'"])
    (auto dest: warn_no_hint_uart)

lemma warn_thread_uart: "warn_thread cfg cpu test i (Uart t) = Inr u \<Longrightarrow> \<exists>t'. u = Uart t'"
  unfolding warn_thread_def rbind_Inr_iff
  by (auto split: if_splits option.splits dest: warn_no_hint_uart warn_handlers_uart)

lemma warn_on_bad_hash_uart:
  assumes "warn_on_bad_hash cfg cpu test (Uart t) = Inr u"
  shows "\<exists>t'. u = Uart t'"
  by (rule rfold_invariant [OF assms [unfolded warn_on_bad_hash_def], where P = "\<lambda>u. \<exists>t'. u = Uart t'"])
    (auto dest: warn_thread_uart)

lemma put_bytes_at:
  assumes "length v < 2 ^ 64" "j < length v"
  shows "put_bytes v tgt m (tgt + of_nat j) = v ! j"
  using fold_write_at [of 0 "length v" j 0 tgt "\<lambda>i. v ! i" m] assms by (simp add: put_bytes_def)

text \<open>
  C3: The hash of a test is the SHA-1 of its content's encoding: the run without writes finds the size the
  second run fills, the second run writes exactly the vector, and neither what was printed before nor the
  memory allocated for the buffers matters.
\<close>

theorem litmus_test_hash_correct:
  assumes "test_content cfg cpu test (Uart []) = Some (Inr (msgs, c))"
    and "warn_on_bad_hash cfg cpu test (Uart t) = Inr u"
    and "length (encode c) < 2 ^ 32 - 64" "length W = 80"
  shows "\<exists>out. litmus_test_hash cfg cpu test m buf new_buf W (Uart t) = Some (Inr (out, sha1_ref (encode c)))"
proof -
  obtain t1 where u: "u = Uart t1" using warn_on_bad_hash_uart [OF assms(2)] by blast
  have c: "test_content cfg cpu test (Uart s) = Some (Inr (shift s msgs, c))" for s
    using test_content_shift [of cfg cpu test s "Uart []"] assms(1) by simp
  have s: "\<exists>t. shift s msgs = Uart t" for s
    using test_content_uart [OF c] .
  obtain t2 where t2: "shift t1 msgs = Uart t2" using s by blast
  have h: "hash_sha1 (put_bytes (encode c) buf m) buf (of_nat (length (encode c))) new_buf W = sha1_ref (encode c)"
    by (rule hash_sha1_correct [OF assms(3) _ assms(4)], rule put_bytes_at) (use assms(3) in simp_all)
  show ?thesis
    by (simp add: litmus_test_hash_def assms(2) u blit_test_advance c t2 advance_def h)
qed

section \<open>An example\<close>

text \<open>Two threads: one between hints, with a handler, and one that ends at its return.\<close>

definition ex_code :: "u32 list \<Rightarrow> thread_code" where
  "ex_code ws i = (if i < length ws then ws ! i else 0)"

definition ex_hashed :: hashed_test where
  "ex_hashed = \<lparr>tname = ''MP'', requires = {}, no_threads = 2, heap_var_names = [''x''], reg_names = [''p1:x0''],
     interesting_result = Some [1], interesting_results = None, no_sc_results = 3,
     init_states = [\<lparr>varname = ''x'', itype = TYPE_HEAP 1\<rparr>, \<lparr>varname = ''y'', itype = TYPE_ALIAS ''x''\<rparr>],
     start_els = None, sync_handlers = None,
     threads = [Some (ex_code [0xd503201f, OPCODE_LITMUS_HINT, 0xf9000041, OPCODE_LITMUS_HINT, OPCODE_RET]),
                Some (ex_code [0xf9400022, OPCODE_RET])],
     thread_sync_handlers = Some [(None, Some (ex_code [OPCODE_LITMUS_HINT, OPCODE_LITMUS_HINT])), (None, None)]\<rparr>"

definition ex_content :: hash_content where
  "ex_content = \<lparr>hname = ''MP'', hinit = [\<lparr>varname = ''x'', itype = TYPE_HEAP 1\<rparr>, \<lparr>varname = ''y'', itype = TYPE_ALIAS ''x''\<rparr>],
     hthreads = [([0xf9000041], Some ([], [])), ([0xf9400022, OPCODE_RET], Some ([], []))], hcond = ''1:X0=1''\<rparr>"

lemma has_hint_from: "has_hint_loop c [i..<n] = (if n \<le> i then None else if c i = OPCODE_LITMUS_HINT then Some True
    else if c i = OPCODE_RET then Some False else has_hint_loop c [i + 1..<n])"
  by (cases "n \<le> i") (simp_all add: upt_conv_Cons del: upt_Suc)

lemma find_word_here: "c i = w \<Longrightarrow> find_word c w i = Some i"
  by (subst find_word.simps) simp

lemma find_word_next: "c i \<noteq> w \<Longrightarrow> find_word c w i = find_word c w (Suc i)"
  by (subst find_word.simps) simp

lemmas ex_scan = has_hint_from find_word_here find_word_next ex_code_def OPCODE_LITMUS_HINT_def OPCODE_RET_def
  thread_code_has_hint_def ends_def nth_res_def

lemma ex_code_words:
  "code_words None n nm = Some (Inr [])"
  "code_words (Some (ex_code [0xd503201f, OPCODE_LITMUS_HINT, 0xf9000041, OPCODE_LITMUS_HINT, OPCODE_RET])) n nm = Some (Inr [0xf9000041])"
  "code_words (Some (ex_code [0xf9400022, OPCODE_RET])) n nm = Some (Inr [0xf9400022, OPCODE_RET])"
  "code_words (Some (ex_code [OPCODE_LITMUS_HINT, OPCODE_LITMUS_HINT])) n nm = Some (Inr [])"
  by (simp_all add: code_words_def ex_scan)

lemma ex_threads: "threads_content ex_hashed [0..<2] = Some (Inr (hthreads ex_content))"
  by (simp add: upt_conv_Cons thread_content_def ex_hashed_def ex_content_def ex_code_words nth_res_def)

lemma ex_decimals: "decimal 0 = ''0''" "decimal 1 = ''1''"
  by (subst decimal.simps, simp add: digit_def char_of_def bit_Suc_0_iff)+

lemma ex_cond: "final_cond cfg cpu ex_hashed (Uart t, Buffer [] 1024) = Inr (Uart t, Buffer ''1:X0=1'' 1018)"
proof -
  have g: "extract_gpr ''p1:x0'' = Some (Inr (1, 0))"
    using atoi_decimal_text [of 0] by (simp add: extract_gpr_def ex_decimals ctoi_def)
  have "render ''%d:X%d'' [Slot 1, Slot 0] = Inr ''1:X0''"
    by (simp add: next_conv_def conv_text_def int_arg_def ex_decimals ex_decimals(2) [simplified] char_of_def bit_Suc_0_iff)
  then have r: "sprint_reg cfg cpu (Uart t) (Buffer [] 1024) ''p1:x0'' STYLE_HERDTOOLS = Inr (Uart t, Buffer ''1:X0'' 1020)"
    by (simp add: sprint_reg_def g vsprintf_put)
  have "render ''=%ld'' [Slot 1] = Inr ''=1''"
    by (simp add: next_conv_def conv_text_def ex_decimals ex_decimals(2) [simplified])
  then have "hsprintf ''=%ld'' [Slot 1] (Uart t, Buffer ''1:X0'' 1020) = Inr (Uart t, Buffer ''1:X0=1'' 1018)"
    by (simp add: hsprintf_def vsprintf_put)
  then show ?thesis
    by (simp add: final_cond_def SPRINTF_RESULT_def ex_hashed_def hsprint_reg_def r)
qed

lemma ex_test_content: "test_content cfg cpu ex_hashed (Uart t) = Some (Inr (Uart t, ex_content))"
  using ex_threads ex_cond [of cfg cpu t] by (simp add: test_content_def ex_hashed_def ex_content_def)

lemma ex_warnings:
  "warn_on_bad_hash (default_config\<lparr>enabled_warnings := \<lambda>_. False\<rparr>) cpu ex_hashed (Uart t) = Inr (Uart t)"
proof -
  have w: "warn_no_hint (default_config\<lparr>enabled_warnings := \<lambda>_. False\<rparr>) cpu c i nm fmt args (Uart t) = Inr (Uart t)"
    if "thread_code_has_hint c i nm = Inr b" for c i nm fmt args b
    using that by (simp add: warn_no_hint_def warning_def)
  have h: "\<exists>b. thread_code_has_hint None i nm = Inr b"
    "\<exists>b. thread_code_has_hint (Some (ex_code [0xd503201f, OPCODE_LITMUS_HINT, 0xf9000041, OPCODE_LITMUS_HINT, OPCODE_RET])) i nm = Inr b"
    "\<exists>b. thread_code_has_hint (Some (ex_code [0xf9400022, OPCODE_RET])) i nm = Inr b"
    "\<exists>b. thread_code_has_hint (Some (ex_code [OPCODE_LITMUS_HINT, OPCODE_LITMUS_HINT])) i nm = Inr b" for i nm
    by (auto simp: ex_scan)
  note w' = h(1) [THEN exE, OF w] h(2) [THEN exE, OF w] h(3) [THEN exE, OF w] h(4) [THEN exE, OF w]
  have n: "no_threads ex_hashed = 2" by (simp add: ex_hashed_def)
  have "warn_thread (default_config\<lparr>enabled_warnings := \<lambda>_. False\<rparr>) cpu ex_hashed i (Uart t) = Inr (Uart t)" if "i < 2" for i
  proof -
    have "i = 0 \<or> i = 1" using that by auto
    then show ?thesis
      by (auto simp: warn_thread_def warn_handlers_def ex_hashed_def upt_conv_Cons w')
  qed
  then show ?thesis by (simp add: warn_on_bad_hash_def n upt_conv_Cons)
qed

lemma ex_length: "length (encode ex_content) = 118" "ok_content ex_content"
  by (simp_all add: encode_def ex_content_def enc_str_def enc_init_def enc_thread_def enc_words_def enc_handlers_def
      ok_content_def ok_init_def ok_thread_def short_def)

theorem litmus_test_hash_correct_witness:
  "\<exists>out. litmus_test_hash (default_config\<lparr>enabled_warnings := \<lambda>_. False\<rparr>) 0 ex_hashed (\<lambda>_. 0) 0x1000 (\<lambda>_. 9) (replicate 80 0) (Uart []) =
     Some (Inr (out, sha1_ref (encode ex_content)))"
  by (rule litmus_test_hash_correct [OF ex_test_content ex_warnings]) (simp_all add: ex_length)

text \<open>
  C4: Tests that differ in anything the hash is meant to depend on have different vectors: when both fill
  their buffers and end at the same address with the same bytes, their names, initial states, codes, handlers
  and final conditions are the same.
\<close>

theorem blit_test_injective:
  assumes "test_content cfg cpu a (Uart []) = Some (Inr (ua, c))" "test_content cfg cpu b (Uart []) = Some (Inr (ub, d))"
    and "ok_content c" "ok_content d" "length (encode c) < 2 ^ 32" "length (encode d) < 2 ^ 32"
    and "blit_test cfg cpu a False (Uart []) (buf, m) = Some (Inr (ua, st))"
    and "blit_test cfg cpu b False (Uart []) (buf, m) = Some (Inr (ub, st))"
  shows "c = d"
proof -
  have "advance False (encode c) (buf, m) = st" "advance False (encode d) (buf, m) = st"
    using assms(7,8) by (simp_all add: blit_test_advance assms(1,2))
  then have p: "(of_nat (length (encode c)) :: u64) = of_nat (length (encode d))"
    "put_bytes (encode c) buf m = put_bytes (encode d) buf m"
    by (auto simp: advance_def)
  have l: "length (encode c) = length (encode d)" using p(1) assms(5,6) by (simp add: of_nat_u64_eq)
  have "encode c = encode d"
  proof (rule nth_equalityI [OF l])
    fix j assume "j < length (encode c)"
    then show "encode c ! j = encode d ! j"
      using put_bytes_at [of "encode c" j buf m] put_bytes_at [of "encode d" j buf m] p(2) l assms(5,6) by simp
  qed
  then show ?thesis using sd_content.inj [OF assms(3,4)] by blast
qed

theorem blit_test_injective_witness:
  "(\<exists>st. blit_test default_config 0 ex_hashed False (Uart []) (0x1000, \<lambda>_. 0) = Some (Inr (Uart [], st))) \<and> ex_content = ex_content"
proof -
  let ?st = "advance False (encode ex_content) (0x1000, \<lambda>_. 0)"
  have b: "blit_test default_config 0 ex_hashed False (Uart []) (0x1000, \<lambda>_. 0) = Some (Inr (Uart [], ?st))"
    by (simp add: blit_test_advance ex_test_content)
  have "ex_content = ex_content"
    by (rule blit_test_injective [OF ex_test_content ex_test_content _ _ _ _ b b]) (simp_all add: ex_length)
  then show ?thesis using b by blast
qed

end
