(* ===== verification/Barrier.thy ===== *)
theory Barrier
  imports Prelude "HOL-Library.Word"
begin

text \<open>
  The barrier \<open>bwait\<close> of \<open>lib/arch/sync.c\<close>, used again and again by the same \<open>n\<close> CPUs, as a step relation.
  Every access of the shared fields is a step; the lock is the mutex, whose compare-and-swap is one step, as
  is the atomic decrement. \<open>pg\<close> is \<open>ENABLE_PGTABLE\<close>: without it the decrement is made under the lock, which
  is the bakery lock then; of either lock only the mutual exclusion matters here. \<open>wfe\<close> sleeps until the CPU's event register is set, \<open>sev\<close> sets everyone's. The
  numbers \<open>arrived\<close>, \<open>gone\<close> and \<open>returned\<close> are of the model only: how often each CPU has counted itself in,
  counted itself out, and returned.
\<close>

section \<open>The mutex\<close>

definition atomic_cas :: "64 word \<Rightarrow> 64 word \<Rightarrow> 64 word \<Rightarrow> 64 word option" where
  "atomic_cas va old new = (if va \<noteq> old then None else Some new)"

definition atomic_dec :: "64 word \<Rightarrow> 64 word" where "atomic_dec va = va - 1"

definition mutex_lock :: "64 word \<Rightarrow> 64 word option" where "mutex_lock mut = atomic_cas mut 0 1"

definition mutex_unlock :: "64 word \<Rightarrow> 64 word option" where "mutex_unlock mut = atomic_cas mut 1 0"

section \<open>The program of a CPU\<close>

text \<open>
  Outside; failed, having called with locking disabled; taking the lock; at the test of \<open>current_state\<close>; at
  the test of the loop that waits for earlier calls, with the lock released and taken again in it; at
  \<open>iteration++\<close>; at \<open>current_state = 0\<close>; at the read and the write of \<open>waiting++\<close>; at the comparison with
  \<open>sz\<close>; at \<open>current_state = 1\<close>; at \<open>sev\<close> and at \<open>sevl\<close>; releasing the lock; at the read of \<open>iteration\<close>; at
  the wait for \<open>current_state\<close>, and asleep in it; at the decrement, which is four steps under the lock; and at
  the two reads of the last loop.
\<close>

datatype wpc = Ready | Failed | Acquire | Check | Drain | Leave | Retake | Advance | Reopen | Load | Store "64 word" |
  Full | Opening | Wake | WakeSelf | Release | GetIter | Spin "64 word" | Sleep "64 word" |
  Dec "64 word" | DecLoad "64 word" | DecStore "64 word" "64 word" | DecRelease "64 word" | Fin1 "64 word" | Fin2 "64 word"

record bar_t =
  iteration :: "64 word"
  waiting :: "64 word"
  current_state :: bool

record bw_state = bar_t +
  bwait_lock :: "64 word"
  locking_enabled :: "nat \<Rightarrow> bool"
  event :: "nat \<Rightarrow> bool"
  at :: "nat \<Rightarrow> wpc"
  arrived :: "nat \<Rightarrow> nat"
  gone :: "nat \<Rightarrow> nat"
  returned :: "nat \<Rightarrow> nat"

definition EMPTY_BAR :: "(nat \<Rightarrow> bool) \<Rightarrow> (nat \<Rightarrow> bool) \<Rightarrow> bw_state" where
  "EMPTY_BAR enabled ev =
     \<lparr>iteration = 0, waiting = 0, current_state = False, bwait_lock = 0, locking_enabled = enabled, event = ev,
      at = \<lambda>_. Ready, arrived = \<lambda>_. 0, gone = \<lambda>_. 0, returned = \<lambda>_. 0\<rparr>"

definition jump :: "nat \<Rightarrow> wpc \<Rightarrow> bw_state \<Rightarrow> bw_state" where
  "jump t p s = s\<lparr>at := (at s)(t := p)\<rparr>"

definition ret :: "nat \<Rightarrow> bw_state \<Rightarrow> bw_state" where
  "ret t s = jump t Ready (s\<lparr>returned := (returned s)(t := Suc (returned s t))\<rparr>)"

definition count_out :: "nat \<Rightarrow> 64 word \<Rightarrow> bw_state \<Rightarrow> bw_state" where
  "count_out t w s = s\<lparr>waiting := w, gone := (gone s)(t := Suc (gone s t))\<rparr>"

text \<open>The mutex's operations end in a \<open>sev\<close>.\<close>

definition sev_if :: "bool \<Rightarrow> bw_state \<Rightarrow> bw_state" where
  "sev_if pg s = (if pg then s\<lparr>event := \<lambda>_. True\<rparr> else s)"

definition take_lock :: "bool \<Rightarrow> nat \<Rightarrow> wpc \<Rightarrow> bw_state \<Rightarrow> bw_state option" where
  "take_lock pg t p s =
     (case mutex_lock (bwait_lock s) of None \<Rightarrow> None | Some l \<Rightarrow> Some (jump t p (sev_if pg (s\<lparr>bwait_lock := l\<rparr>))))"

definition drop_lock :: "bool \<Rightarrow> nat \<Rightarrow> wpc \<Rightarrow> bw_state \<Rightarrow> bw_state option" where
  "drop_lock pg t p s =
     (case mutex_unlock (bwait_lock s) of None \<Rightarrow> None | Some l \<Rightarrow> Some (jump t p (sev_if pg (s\<lparr>bwait_lock := l\<rparr>))))"

fun bw_access :: "bool \<Rightarrow> nat \<Rightarrow> nat \<Rightarrow> wpc \<Rightarrow> bw_state \<Rightarrow> bw_state option" where
  "bw_access pg sz t Ready s = Some (jump t (if locking_enabled s t then Acquire else Failed) s)"
| "bw_access pg sz t Failed s = None"
| "bw_access pg sz t Acquire s = take_lock pg t Check s"
| "bw_access pg sz t Check s = Some (jump t (if current_state s then Drain else Load) s)"
| "bw_access pg sz t Drain s = Some (jump t (if waiting s \<noteq> 0 then Leave else Advance) s)"
| "bw_access pg sz t Leave s = drop_lock pg t Retake s"
| "bw_access pg sz t Retake s = take_lock pg t Drain s"
| "bw_access pg sz t Advance s = Some (jump t Reopen (s\<lparr>iteration := iteration s + 1\<rparr>))"
| "bw_access pg sz t Reopen s = Some (jump t Load (s\<lparr>current_state := False\<rparr>))"
| "bw_access pg sz t Load s = Some (jump t (Store (waiting s)) s)"
| "bw_access pg sz t (Store w) s =
     Some (jump t Full (s\<lparr>waiting := w + 1, arrived := (arrived s)(t := Suc (arrived s t))\<rparr>))"
| "bw_access pg sz t Full s = Some (jump t (if waiting s = of_nat sz then Opening else WakeSelf) s)"
| "bw_access pg sz t Opening s = Some (jump t Wake (s\<lparr>current_state := True\<rparr>))"
| "bw_access pg sz t Wake s = Some (jump t Release (s\<lparr>event := \<lambda>_. True\<rparr>))"
| "bw_access pg sz t WakeSelf s = Some (jump t Release (s\<lparr>event := (event s)(t := True)\<rparr>))"
| "bw_access pg sz t Release s = drop_lock pg t GetIter s"
| "bw_access pg sz t GetIter s = Some (jump t (Spin (iteration s)) s)"
| "bw_access pg sz t (Spin it) s = Some (jump t (if current_state s then Dec it else Sleep it) s)"
| "bw_access pg sz t (Sleep it) s =
     (if event s t then Some (jump t (Spin it) (s\<lparr>event := (event s)(t := False)\<rparr>)) else None)"
| "bw_access pg sz t (Dec it) s =
     (if pg then Some (jump t (Fin1 it) (sev_if pg (count_out t (atomic_dec (waiting s)) s))) else take_lock pg t (DecLoad it) s)"
| "bw_access pg sz t (DecLoad it) s = Some (jump t (DecStore it (waiting s)) s)"
| "bw_access pg sz t (DecStore it w) s = Some (jump t (DecRelease it) (count_out t (w - 1) s))"
| "bw_access pg sz t (DecRelease it) s = drop_lock pg t (Fin1 it) s"
| "bw_access pg sz t (Fin1 it) s = Some (if iteration s = it then jump t (Fin2 it) s else ret t s)"
| "bw_access pg sz t (Fin2 it) s = Some (if waiting s \<noteq> 0 then jump t (Fin1 it) s else ret t s)"

inductive bw_step :: "bool \<Rightarrow> nat \<Rightarrow> bw_state \<Rightarrow> bw_state \<Rightarrow> bool" where
  access: "t < n \<Longrightarrow> bw_access pg n t (at s t) s = Some s' \<Longrightarrow> bw_step pg n s s'"

inductive bw_reach :: "bool \<Rightarrow> nat \<Rightarrow> bw_state \<Rightarrow> bool" for pg n where
  init: "bw_reach pg n (EMPTY_BAR enabled ev)"
| step: "bw_reach pg n s \<Longrightarrow> bw_step pg n s s' \<Longrightarrow> bw_reach pg n s'"

inductive_simps bw_step_iff: "bw_step pg n s s'"

section \<open>The invariant\<close>

text \<open>The CPUs that are counted in \<open>waiting\<close>, those that hold the lock, and those that are counted out but not back.\<close>

fun counted :: "wpc \<Rightarrow> bool" where
  "counted Full = True" | "counted Opening = True" | "counted Wake = True" | "counted WakeSelf = True"
| "counted Release = True" | "counted GetIter = True" | "counted (Spin it) = True" | "counted (Sleep it) = True"
| "counted (Dec it) = True" | "counted (DecLoad it) = True" | "counted (DecStore it w) = True" | "counted _ = False"

fun holds :: "wpc \<Rightarrow> bool" where
  "holds Check = True" | "holds Drain = True" | "holds Leave = True" | "holds Advance = True" | "holds Reopen = True"
| "holds Load = True" | "holds (Store w) = True" | "holds Full = True" | "holds Opening = True" | "holds Wake = True"
| "holds WakeSelf = True" | "holds Release = True" | "holds (DecLoad it) = True" | "holds (DecStore it w) = True"
| "holds (DecRelease it) = True" | "holds _ = False"

fun finishing :: "wpc \<Rightarrow> bool" where
  "finishing (DecRelease it) = True" | "finishing (Fin1 it) = True" | "finishing (Fin2 it) = True" | "finishing _ = False"

definition inside :: "nat \<Rightarrow> bw_state \<Rightarrow> nat set" where
  "inside n s = {t. t < n \<and> counted (at s t)}"

definition waking :: "nat \<Rightarrow> bw_state \<Rightarrow> bool" where
  "waking n s \<longleftrightarrow> (\<exists>u<n. at s u = Wake)"

text \<open>What a CPU knows where it is.\<close>

definition knows :: "nat \<Rightarrow> bw_state \<Rightarrow> nat \<Rightarrow> bool" where
  "knows n s t \<longleftrightarrow>
     (case at s t of
        Drain \<Rightarrow> current_state s \<and> inside n s = {}
      | Advance \<Rightarrow> current_state s \<and> inside n s = {}
      | Reopen \<Rightarrow> current_state s \<and> inside n s = {}
      | Leave \<Rightarrow> False
      | Retake \<Rightarrow> False
      | Load \<Rightarrow> \<not> current_state s
      | Store w \<Rightarrow> \<not> current_state s \<and> w = waiting s
      | Full \<Rightarrow> \<not> current_state s
      | Opening \<Rightarrow> \<not> current_state s \<and> inside n s = {..<n}
      | Wake \<Rightarrow> current_state s
      | Spin it \<Rightarrow> it = of_nat (gone s t)
      | Sleep it \<Rightarrow> it = of_nat (gone s t) \<and> (current_state s \<longrightarrow> event s t \<or> waking n s)
      | Dec it \<Rightarrow> it = of_nat (gone s t) \<and> current_state s
      | DecLoad it \<Rightarrow> it = of_nat (gone s t) \<and> current_state s
      | DecStore it w \<Rightarrow> it = of_nat (gone s t) \<and> current_state s \<and> w = waiting s
      | DecRelease it \<Rightarrow> it = of_nat (returned s t)
      | Fin1 it \<Rightarrow> it = of_nat (returned s t)
      | Fin2 it \<Rightarrow> it = of_nat (returned s t)
      | _ \<Rightarrow> True)"

text \<open>The round \<open>k\<close>: gathering, everyone has left \<open>k\<close> times; draining, everyone has arrived \<open>k + 1\<close> times.\<close>

definition round_ok :: "nat \<Rightarrow> nat \<Rightarrow> bw_state \<Rightarrow> bool" where
  "round_ok n k s \<longleftrightarrow>
     (if current_state s
      then (\<forall>t<n. arrived s t = Suc k) \<and> iteration s = (if \<exists>t<n. at s t = Reopen then of_nat (Suc k) else of_nat k)
      else (\<forall>t<n. gone s t = k) \<and> iteration s = of_nat k \<and> (inside n s = {..<n} \<longrightarrow> (\<exists>t<n. at s t = Full \<or> at s t = Opening) \<or> n = 0))"

definition numbers_ok :: "bw_state \<Rightarrow> nat \<Rightarrow> bool" where
  "numbers_ok s t \<longleftrightarrow>
     arrived s t = (if counted (at s t) then Suc (gone s t) else gone s t) \<and>
     gone s t = (if finishing (at s t) then Suc (returned s t) else returned s t)"

definition lock_ok :: "nat \<Rightarrow> bw_state \<Rightarrow> bool" where
  "lock_ok n s \<longleftrightarrow>
     bwait_lock s = (if \<exists>t<n. holds (at s t) then 1 else 0) \<and>
     (\<forall>t<n. \<forall>u<n. holds (at s t) \<longrightarrow> holds (at s u) \<longrightarrow> t = u)"

definition bw_inv :: "bool \<Rightarrow> nat \<Rightarrow> bw_state \<Rightarrow> bool" where
  "bw_inv pg n s \<longleftrightarrow>
     lock_ok n s \<and> waiting s = of_nat (card (inside n s)) \<and> (\<forall>t<n. numbers_ok s t \<and> knows n s t) \<and>
     (\<forall>t<n. \<forall>u<n. returned s t \<le> gone s u) \<and> (\<exists>k. round_ok n k s) \<and>
     (pg \<longrightarrow> (\<forall>t<n. \<forall>it w. at s t \<noteq> DecLoad it \<and> at s t \<noteq> DecStore it w))"

lemma init_inv: "bw_inv pg n (EMPTY_BAR enabled ev)"
proof -
  have "round_ok n 0 (EMPTY_BAR enabled ev)" by (auto simp: round_ok_def EMPTY_BAR_def inside_def)
  then show ?thesis by (auto simp: bw_inv_def EMPTY_BAR_def lock_ok_def inside_def numbers_ok_def knows_def)
qed

lemma bw_inv_D:
  assumes "bw_inv pg n s"
  shows "lock_ok n s" "waiting s = of_nat (card (inside n s))" "t < n \<Longrightarrow> numbers_ok s t" "t < n \<Longrightarrow> knows n s t"
    "t < n \<Longrightarrow> u < n \<Longrightarrow> returned s t \<le> gone s u"
    "\<lbrakk>t < n; u < n; holds (at s t); holds (at s u)\<rbrakk> \<Longrightarrow> t = u"
    "bwait_lock s = (if \<exists>t<n. holds (at s t) then 1 else 0)"
  using assms by (auto simp: bw_inv_def lock_ok_def)

lemma finite_inside [simp]: "finite (inside n s)"
  by (simp add: inside_def)

lemma inside_jump:
  assumes "t < n" "\<And>u. u \<noteq> t \<Longrightarrow> at s' u = at s u"
  shows "inside n s' = (if counted (at s' t) then insert t (inside n s) else inside n s - {t})"
  using assms by (auto simp: inside_def) metis+

text \<open>What a step of CPU \<open>t\<close> has to show.\<close>

lemma frame:
  assumes I: "bw_inv pg n s" and t: "t < n"
    and same: "\<And>u. u \<noteq> t \<Longrightarrow> at s' u = at s u \<and> arrived s' u = arrived s u \<and> gone s' u = gone s u \<and> returned s' u = returned s u"
    and lock: "bwait_lock s' = (if holds (at s' t) then 1 else if holds (at s t) then 0 else bwait_lock s)"
      "holds (at s' t) \<Longrightarrow> holds (at s t) \<or> bwait_lock s = 0"
    and wait: "waiting s' = (if counted (at s' t) then if counted (at s t) then waiting s else waiting s + 1
      else if counted (at s t) then waiting s - 1 else waiting s)"
    and own: "numbers_ok s' t" "knows n s' t"
    and others: "\<And>u. u < n \<Longrightarrow> u \<noteq> t \<Longrightarrow> knows n s u \<Longrightarrow> knows n s' u"
    and ret: "gone s t \<le> gone s' t" "\<And>u. u < n \<Longrightarrow> returned s' t \<le> gone s' u"
    and round: "\<exists>k. round_ok n k s'"
    and pg: "\<And>it w. pg \<Longrightarrow> at s' t \<noteq> DecLoad it \<and> at s' t \<noteq> DecStore it w"
  shows "bw_inv pg n s'"
  unfolding bw_inv_def
proof (intro conjI allI impI)
  note D = bw_inv_D [OF I]
  show "lock_ok n s'"
    unfolding lock_ok_def
  proof (intro conjI allI impI)
    have other: "(\<exists>u<n. holds (at s' u)) \<longleftrightarrow> holds (at s' t) \<or> (\<exists>u<n. u \<noteq> t \<and> holds (at s u))" using same t by metis
    show "bwait_lock s' = (if \<exists>u<n. holds (at s' u) then 1 else 0)"
      unfolding other lock(1) using D(7) D(6) [OF t] t by (auto split: if_splits)
    fix u v assume uv: "u < n" "v < n" "holds (at s' u)" "holds (at s' v)"
    have no: False if "w < n" "w \<noteq> t" "holds (at s w)" "holds (at s' t)" for w
      using lock(2) [OF that(4)] D(6) [OF that(1) t that(3)] D(7) that(1-3) by (auto split: if_splits)
    show "u = v"
    proof (cases "u = t \<or> v = t")
      case True
      then show ?thesis using no [of u] no [of v] same [of u] same [of v] uv by metis
    next
      case False
      then show ?thesis using D(6) [OF uv(1,2)] same [of u] same [of v] uv by simp
    qed
  qed
  have at: "\<And>u. u \<noteq> t \<Longrightarrow> at s' u = at s u" using same by blast
  have c: "counted (at s t) \<longleftrightarrow> t \<in> inside n s" using t by (simp add: inside_def)
  have ins: "inside n s' = (if counted (at s' t) then insert t (inside n s) else inside n s - {t})"
    by (rule inside_jump [OF t]) (rule at)
  show "waiting s' = of_nat (card (inside n s'))"
  proof (cases "t \<in> inside n s")
    case True
    then obtain A where A: "inside n s = insert t A" "t \<notin> A" "finite A" by (metis finite_inside finite_insert mk_disjoint_insert)
    then show ?thesis
      unfolding ins wait D(2) c A(1) by (auto simp: A(1))
  next
    case False
    then show ?thesis unfolding ins wait D(2) c by auto
  qed
  show "numbers_ok s' u" if "u < n" for u
    using own(1) D(3) [OF that] same [of u] by (cases "u = t") (simp_all add: numbers_ok_def)
  show "knows n s' u" if "u < n" for u
    using own(2) others [OF that _ D(4) [OF that]] by (cases "u = t") auto
  show "returned s' u \<le> gone s' v" if "u < n" "v < n" for u v
    using ret(2) [OF that(2)] ret(1) D(5) [OF that] same [of u] same [of v] by (cases "u = t"; cases "v = t") auto
  show "\<exists>k. round_ok n k s'" by (rule round)
  show "at s' u \<noteq> DecLoad it'" "at s' u \<noteq> DecStore it' w'" if "pg" "u < n" for u it' w'
    using that pg [of it' w'] I same [of u] by (cases "u = t"; auto simp: bw_inv_def)+
qed

text \<open>What the others know is not changed by most steps.\<close>

lemma waking_same:
  assumes "waking n s" "at s t \<noteq> Wake" "\<And>u. u \<noteq> t \<Longrightarrow> at s' u = at s u"
  shows "waking n s'"
  using assms unfolding waking_def by metis

lemma knows_same:
  assumes "knows n s u" "at s' u = at s u" "gone s' u = gone s u" "returned s' u = returned s u"
    and "inside n s' = inside n s" "current_state s' = current_state s" "waiting s' = waiting s"
    and "event s u \<Longrightarrow> event s' u" "waking n s \<Longrightarrow> event s' u \<or> waking n s'"
  shows "knows n s' u"
  using assms by (cases "at s u") (auto simp: knows_def)

text \<open>The round goes on.\<close>

lemma round_same:
  assumes "round_ok n k s" "\<And>u. u < n \<Longrightarrow> arrived s' u = arrived s u" "\<And>u. u < n \<Longrightarrow> gone s' u = gone s u"
    and "current_state s' = current_state s" "iteration s' = iteration s" "inside n s' = inside n s"
    and "current_state s \<Longrightarrow> (\<exists>u<n. at s' u = Reopen) = (\<exists>u<n. at s u = Reopen)"
    and "\<And>u. u < n \<Longrightarrow> at s u = Full \<or> at s u = Opening \<Longrightarrow> inside n s = {..<n} \<Longrightarrow> \<exists>v<n. at s' v = Full \<or> at s' v = Opening"
  shows "round_ok n k s'"
  using assms unfolding round_ok_def by (auto split: if_splits)

text \<open>
  A step that only moves CPU \<open>t\<close>, on the same side of the counts, and may set events.
\<close>

lemma move:
  assumes I: "bw_inv pg n s" and t: "t < n" and s': "s' = jump t p (s\<lparr>bwait_lock := l, event := ev\<rparr>)"
    and cls: "counted p = counted (at s t)" "finishing p = finishing (at s t)"
    and lock: "l = (if holds p then 1 else if holds (at s t) then 0 else bwait_lock s)"
      "holds p \<Longrightarrow> holds (at s t) \<or> bwait_lock s = 0"
    and own: "knows n s' t"
    and ev: "\<And>u. u \<noteq> t \<Longrightarrow> event s u \<Longrightarrow> ev u" "at s t = Wake \<Longrightarrow> ev = (\<lambda>_. True)"
    and special: "at s t \<noteq> Reopen" "p \<noteq> Reopen"
      "at s t = Full \<or> at s t = Opening \<Longrightarrow> inside n s = {..<n} \<Longrightarrow> p = Opening"
      "\<And>it w. pg \<Longrightarrow> p \<noteq> DecLoad it \<and> p \<noteq> DecStore it w"
  shows "bw_inv pg n s'"
proof (rule frame [OF I t])
  note D = bw_inv_D [OF I]
  have at: "at s' t = p" "\<And>u. u \<noteq> t \<Longrightarrow> at s' u = at s u" by (simp_all add: s' jump_def)
  have ins: "inside n s' = inside n s"
    using cls(1) t by (subst inside_jump [of t n s' s]) (auto simp: at inside_def)
  show "numbers_ok s' t" using D(3) [OF t] cls by (simp add: numbers_ok_def s' jump_def)
  show "knows n s' u" if "u < n" "u \<noteq> t" "knows n s u" for u
  proof (rule knows_same [OF that(3) _ _ _ ins])
    show "event s' u \<or> waking n s'" if "waking n s"
      using waking_same [OF that, of t s'] ev(2) at by (cases "at s t = Wake") (auto simp: s' jump_def)
  qed (use that ev(1) in \<open>auto simp: s' jump_def\<close>)
  obtain k where k: "round_ok n k s" using I by (auto simp: bw_inv_def)
  have "round_ok n k s'"
  proof (rule round_same [OF k])
    show "(\<exists>u<n. at s' u = Reopen) = (\<exists>u<n. at s u = Reopen)" using at special(1,2) by metis
    show "\<exists>v<n. at s' v = Full \<or> at s' v = Opening" if "u < n" "at s u = Full \<or> at s u = Opening" "inside n s = {..<n}" for u
      using that special(3) at t by (cases "u = t") metis+
  qed (use ins in \<open>simp_all add: s' jump_def\<close>)
  then show "\<exists>k. round_ok n k s'" ..
  show "returned s' t \<le> gone s' u" if "u < n" for u using D(5) [OF t that] by (simp add: s' jump_def)
qed (use lock own special(4) cls(1) in \<open>simp_all add: s' jump_def\<close>)

lemma move_event:
  assumes I: "bw_inv pg n s" and t: "t < n" and s': "s' = jump t p (s\<lparr>event := ev\<rparr>)"
    and cls: "counted p = counted (at s t)" "finishing p = finishing (at s t)" "holds p = holds (at s t)"
    and own: "knows n s' t"
    and ev: "\<And>u. u \<noteq> t \<Longrightarrow> event s u \<Longrightarrow> ev u" "at s t = Wake \<Longrightarrow> ev = (\<lambda>_. True)"
    and special: "at s t \<noteq> Reopen" "p \<noteq> Reopen"
      "at s t = Full \<or> at s t = Opening \<Longrightarrow> inside n s = {..<n} \<Longrightarrow> p = Opening"
      "\<And>it w. pg \<Longrightarrow> p \<noteq> DecLoad it \<and> p \<noteq> DecStore it w"
  shows "bw_inv pg n s'"
proof (rule move [OF I t _ cls(1,2) _ _ own ev special])
  show "s' = jump t p (s\<lparr>bwait_lock := bwait_lock s, event := ev\<rparr>)" using s' by simp
  show "bwait_lock s = (if holds p then 1 else if holds (at s t) then 0 else bwait_lock s)"
    using bw_inv_D(7) [OF I] cls(3) t by auto
qed (use cls(3) in simp_all)

lemma move_only:
  assumes I: "bw_inv pg n s" and t: "t < n" and s': "s' = jump t p s"
    and cls: "counted p = counted (at s t)" "finishing p = finishing (at s t)" "holds p = holds (at s t)"
    and own: "knows n s' t"
    and special: "at s t \<noteq> Reopen" "p \<noteq> Reopen" "at s t \<noteq> Wake"
      "at s t = Full \<or> at s t = Opening \<Longrightarrow> inside n s = {..<n} \<Longrightarrow> p = Opening"
      "\<And>it w. pg \<Longrightarrow> p \<noteq> DecLoad it \<and> p \<noteq> DecStore it w"
  shows "bw_inv pg n s'"
  by (rule move_event [OF I t _ cls own _ _ special(1,2), where ev = "event s"]) (use s' special(3-) in simp_all)

lemma take_lock_inv:
  assumes I: "bw_inv pg n s" and t: "t < n" and st: "take_lock pg t p s = Some s'"
    and cls: "counted p = counted (at s t)" "finishing p = finishing (at s t)" "holds p" "\<not> holds (at s t)"
    and own: "knows n s' t" and special: "p \<noteq> Reopen" "\<And>it w. pg \<Longrightarrow> p \<noteq> DecLoad it \<and> p \<noteq> DecStore it w"
  shows "bw_inv pg n s'"
proof (rule move [OF I t, where p = p and l = 1 and ev = "if pg then \<lambda>_. True else event s"])
  show "s' = jump t p (s\<lparr>bwait_lock := 1, event := if pg then \<lambda>_. True else event s\<rparr>)"
    using st by (auto simp: take_lock_def mutex_lock_def atomic_cas_def sev_if_def split: if_splits)
  show "holds (at s t) \<or> bwait_lock s = 0"
    using st by (auto simp: take_lock_def mutex_lock_def atomic_cas_def split: if_splits)
qed (use cls own special in auto)

lemma drop_lock_inv:
  assumes I: "bw_inv pg n s" and t: "t < n" and st: "drop_lock pg t p s = Some s'"
    and cls: "counted p = counted (at s t)" "finishing p = finishing (at s t)" "\<not> holds p" "holds (at s t)"
    and own: "knows n s' t"
    and special: "at s t \<noteq> Reopen" "p \<noteq> Reopen" "at s t \<noteq> Wake" "at s t \<noteq> Full" "at s t \<noteq> Opening"
      "\<And>it w. pg \<Longrightarrow> p \<noteq> DecLoad it \<and> p \<noteq> DecStore it w"
  shows "bw_inv pg n s'"
proof (rule move [OF I t, where p = p and l = 0 and ev = "if pg then \<lambda>_. True else event s"])
  show "s' = jump t p (s\<lparr>bwait_lock := 0, event := if pg then \<lambda>_. True else event s\<rparr>)"
    using st by (auto simp: drop_lock_def mutex_unlock_def atomic_cas_def sev_if_def split: if_splits)
qed (use cls own special in auto)

text \<open>Everyone is counted when \<open>waiting\<close> says so.\<close>

lemma waiting_all:
  assumes "bw_inv pg n s" "n < 2 ^ 64"
  shows "waiting s = of_nat n \<longleftrightarrow> inside n s = {..<n}" "waiting s = 0 \<longleftrightarrow> inside n s = {}"
proof -
  have sub: "inside n s \<subseteq> {..<n}" by (auto simp: inside_def)
  then have le: "card (inside n s) \<le> n" using card_mono [OF _ sub] by simp
  have "(of_nat (card (inside n s)) :: 64 word) = of_nat n \<longleftrightarrow> card (inside n s) = n"
    using le assms(2) by (simp add: word_of_nat_eq_iff take_bit_nat_eq_self)
  moreover have "card (inside n s) = n \<longleftrightarrow> inside n s = {..<n}"
    using card_subset_eq [OF finite_lessThan sub] by (metis card_lessThan)
  ultimately show "waiting s = of_nat n \<longleftrightarrow> inside n s = {..<n}" by (simp add: bw_inv_D(2) [OF assms(1)])
  have "(of_nat (card (inside n s)) :: 64 word) = of_nat 0 \<longleftrightarrow> card (inside n s) = 0"
    using le assms(2) by (simp only: word_of_nat_eq_iff) (simp add: take_bit_nat_eq_self)
  then show "waiting s = 0 \<longleftrightarrow> inside n s = {}" by (simp add: bw_inv_D(2) [OF assms(1)])
qed

text \<open>While draining, a CPU that has not counted itself out knows the round.\<close>

lemma drained:
  assumes I: "bw_inv pg n s" and "current_state s" "t < n" "\<not> counted (at s t)" "\<not> finishing (at s t)"
  shows "inside n s = {}"
proof -
  note D = bw_inv_D [OF I]
  obtain k where "round_ok n k s" using I by (auto simp: bw_inv_def)
  then have k: "arrived s u = Suc k" if "u < n" for u using assms(2) that by (auto simp: round_ok_def split: if_splits)
  have "returned s t = Suc k" using D(3) [OF assms(3)] k [OF assms(3)] assms(4,5) by (simp add: numbers_ok_def)
  then have g: "Suc k \<le> gone s u" if "u < n" for u using D(5) [OF assms(3) that] by simp
  have "\<not> counted (at s u)" if "u < n" for u
    using D(3) [OF that] k [OF that] g [OF that] by (auto simp: numbers_ok_def split: if_splits)
  then show ?thesis by (auto simp: inside_def)
qed

lemma inside_jump_same: "t < n \<Longrightarrow> counted p = counted (at s t) \<Longrightarrow> inside n (jump t p s) = inside n s"
  by (auto simp: inside_def jump_def)

lemmas shape = jump_def knows_def sev_if_def

lemma inside_empty: "inside n s = {} \<longleftrightarrow> (\<forall>u<n. \<not> counted (at s u))" "inside n s = {..<n} \<longleftrightarrow> (\<forall>u<n. counted (at s u))"
  by (auto simp: inside_def)

lemma holders:
  assumes "bw_inv pg n s" "t < n" "holds (at s t)" "u < n" "u \<noteq> t"
  shows "\<not> holds (at s u)"
  using bw_inv_D(6) [OF assms(1,2,4)] assms(3,5) by blast

lemma counted_iteration:
  assumes I: "bw_inv pg n s" and t: "t < n" "counted (at s t)"
  shows "iteration s = of_nat (gone s t)"
proof -
  note D = bw_inv_D [OF I]
  obtain k where k: "round_ok n k s" using I by (auto simp: bw_inv_def)
  show ?thesis
  proof (cases "current_state s")
    case True
    have "at s u \<noteq> Reopen" if "u < n" for u using D(4) [OF that] t by (auto simp: knows_def inside_empty)
    then have "iteration s = of_nat k" using k True by (auto simp: round_ok_def)
    then show ?thesis using k True t D(3) [OF t(1)] by (simp add: round_ok_def numbers_ok_def)
  qed (use k t in \<open>simp add: round_ok_def\<close>)
qed

lemma moves_inv:
  assumes I: "bw_inv pg n s" and t: "t < n" and n: "n < 2 ^ 64" and st: "bw_access pg n t (at s t) s = Some s'"
    and p: "at s t \<in> {Ready, Failed, Acquire, Check, Drain, Leave, Retake, Load, Full, Wake, WakeSelf, Release, GetIter} \<or>
      (\<exists>it. at s t = Spin it)"
  shows "bw_inv pg n s'"
proof -
  note D = bw_inv_D [OF I]
  note W = waiting_all [OF I n]
  note K = D(4) [OF t]
  from p show ?thesis
  proof (elim insertE disjE exE emptyE)
    assume a: "at s t = Ready"
    then show ?thesis using st by (intro move_only [OF I t, where p = "if locking_enabled s t then Acquire else Failed"]) (auto simp: shape)
  next
    assume a: "at s t = Acquire"
    then show ?thesis using st by (intro take_lock_inv [OF I t, where p = Check]) (auto simp: shape take_lock_def split: option.splits)
  next
    assume a: "at s t = Check"
    then show ?thesis using st drained [OF I _ t] inside_jump_same [OF t, of Drain s]
      by (intro move_only [OF I t, where p = "if current_state s then Drain else Load"]) (auto simp: shape)
  next
    assume a: "at s t = Drain"
    then have k: "current_state s" "inside n s = {}" using K by (simp_all add: knows_def)
    then show ?thesis using st a W(2) inside_jump_same [OF t, of Advance s]
      by (intro move_only [OF I t, where p = Advance]) (auto simp: shape)
  next
    assume a: "at s t = Load"
    then show ?thesis using st K by (intro move_only [OF I t, where p = "Store (waiting s)"]) (auto simp: shape)
  next
    assume a: "at s t = Full"
    then have c: "\<not> current_state s" using K by (simp add: knows_def)
    show ?thesis
    proof (cases "waiting s = of_nat n")
      case True
      then have i: "inside n s = {..<n}" using W(1) by blast
      have s': "s' = jump t Opening s" using st True a by simp
      have "inside n s' = {..<n}" using i inside_jump_same [OF t, of Opening s] a s' by simp
      then have "knows n s' t" using c by (simp add: knows_def s' jump_def)
      then show ?thesis using a by (intro move_only [OF I t s']) simp_all
    next
      case False
      then have "inside n s \<noteq> {..<n}" using W(1) by blast
      then show ?thesis using st False a
        by (intro move_only [OF I t, where p = WakeSelf]) (auto simp: shape)
    qed
  next
    assume a: "at s t = Wake"
    then show ?thesis using st by (intro move_event [OF I t, where p = Release and ev = "\<lambda>_. True"]) (auto simp: shape)
  next
    assume a: "at s t = WakeSelf"
    then show ?thesis using st by (intro move_event [OF I t, where p = Release and ev = "(event s)(t := True)"]) (auto simp: shape)
  next
    assume a: "at s t = Release"
    then show ?thesis using st by (intro drop_lock_inv [OF I t, where p = GetIter]) (auto simp: shape drop_lock_def split: option.splits)
  next
    assume a: "at s t = GetIter"
    have "iteration s = of_nat (gone s t)"
      using counted_iteration [OF I t] a by simp
    then show ?thesis using st a by (intro move_only [OF I t, where p = "Spin (iteration s)"]) (auto simp: shape)
  next
    fix it assume a: "at s t = Spin it"
    then show ?thesis using st K
      by (intro move_only [OF I t, where p = "if current_state s then Dec it else Sleep it"]) (auto simp: shape)
  qed (use st K in \<open>auto simp: knows_def\<close>)
qed

lemma lock_held: "bw_inv pg n s \<Longrightarrow> t < n \<Longrightarrow> holds (at s t) \<Longrightarrow> bwait_lock s = 1"
  using bw_inv_D(7) by metis

lemma store_inv:
  assumes I: "bw_inv pg n s" and t: "t < n" and a: "at s t = Store w" and st: "bw_access pg n t (at s t) s = Some s'"
  shows "bw_inv pg n s'"
proof (rule frame [OF I t])
  note D = bw_inv_D [OF I]
  have s': "s' = jump t Full (s\<lparr>waiting := w + 1, arrived := (arrived s)(t := Suc (arrived s t))\<rparr>)" using st a by simp
  have w: "\<not> current_state s" "w = waiting s" using D(4) [OF t] a by (simp_all add: knows_def)
  have n: "\<not> holds (at s u)" if "u < n" "u \<noteq> t" for u using holders [OF I t _ that] a by simp
  show "knows n s' u" if "u < n" "u \<noteq> t" "knows n s u" for u
    using n [OF that(1,2)] that w by (cases "at s u") (auto simp: shape s')
  obtain k where "round_ok n k s" using I by (auto simp: bw_inv_def)
  then have "round_ok n k s'" using w t by (auto simp: round_ok_def s' jump_def)
  then show "\<exists>k. round_ok n k s'" ..
  show "returned s' t \<le> gone s' u" if "u < n" for u using D(5) [OF t that] by (simp add: s' jump_def)
qed (use st a bw_inv_D(3,4) [OF I t] lock_held [OF I t] in \<open>auto simp: shape numbers_ok_def\<close>)

lemma opening_inv:
  assumes I: "bw_inv pg n s" and t: "t < n" and a: "at s t = Opening" and st: "bw_access pg n t (at s t) s = Some s'"
  shows "bw_inv pg n s'"
proof (rule frame [OF I t])
  note D = bw_inv_D [OF I]
  have s': "s' = jump t Wake (s\<lparr>current_state := True\<rparr>)" using st a by simp
  have w: "\<not> current_state s" "inside n s = {..<n}" using D(4) [OF t] a by (simp_all add: knows_def)
  have n: "\<not> holds (at s u)" if "u < n" "u \<noteq> t" for u using holders [OF I t _ that] a by simp
  have wk: "waking n s'" using t by (auto simp: waking_def s' jump_def)
  show "knows n s' u" if "u < n" "u \<noteq> t" "knows n s u" for u
    using n [OF that(1,2)] that w t wk [unfolded s'] by (cases "at s u") (auto simp: shape s')
  obtain k where k: "round_ok n k s" using I by (auto simp: bw_inv_def)
  have "arrived s u = Suc k" if "u < n" for u
    using k D(3) [OF that] w that by (auto simp: round_ok_def numbers_ok_def inside_empty)
  moreover have "at s' u \<noteq> Reopen" if "u < n" for u using n [OF that] a by (cases "u = t") (auto simp: s' jump_def)
  ultimately have "round_ok n k s'" using k w by (auto simp: round_ok_def s' jump_def)
  then show "\<exists>k. round_ok n k s'" ..
  show "returned s' t \<le> gone s' u" if "u < n" for u using D(5) [OF t that] by (simp add: s' jump_def)
qed (use st a bw_inv_D(3) [OF I t] lock_held [OF I t] in \<open>auto simp: shape numbers_ok_def\<close>)

lemma reopen_inv:
  assumes I: "bw_inv pg n s" and t: "t < n" and a: "at s t = Reopen" and st: "bw_access pg n t (at s t) s = Some s'"
  shows "bw_inv pg n s'"
proof (rule frame [OF I t])
  note D = bw_inv_D [OF I]
  have s': "s' = jump t Load (s\<lparr>current_state := False\<rparr>)" using st a by simp
  have w: "current_state s" "\<And>u. u < n \<Longrightarrow> \<not> counted (at s u)" using D(4) [OF t] a by (simp_all add: knows_def inside_empty)
  have n: "\<not> holds (at s u)" if "u < n" "u \<noteq> t" for u using holders [OF I t _ that] a by simp
  show "knows n s' u" if "u < n" "u \<noteq> t" "knows n s u" for u
    using n [OF that(1,2)] w(2) [OF that(1)] that by (cases "at s u") (auto simp: shape s')
  obtain k where k: "round_ok n k s" using I by (auto simp: bw_inv_def)
  have "gone s u = Suc k" if "u < n" for u
    using k D(3) [OF that] w that by (auto simp: round_ok_def numbers_ok_def)
  moreover have "iteration s = of_nat (Suc k)" using k w a t by (auto simp: round_ok_def)
  moreover have "inside n s' \<noteq> {..<n}" using t by (auto simp: inside_empty s' jump_def)
  ultimately have "round_ok n (Suc k) s'" by (auto simp: round_ok_def s' jump_def)
  then show "\<exists>k. round_ok n k s'" ..
  show "returned s' t \<le> gone s' u" if "u < n" for u using D(5) [OF t that] by (simp add: s' jump_def)
qed (use st a bw_inv_D(3,4) [OF I t] lock_held [OF I t] in \<open>auto simp: shape numbers_ok_def\<close>)

lemma advance_inv:
  assumes I: "bw_inv pg n s" and t: "t < n" and a: "at s t = Advance" and st: "bw_access pg n t (at s t) s = Some s'"
  shows "bw_inv pg n s'"
proof (rule frame [OF I t])
  note D = bw_inv_D [OF I]
  have s': "s' = jump t Reopen (s\<lparr>iteration := iteration s + 1\<rparr>)" using st a by simp
  have w: "current_state s" "inside n s = {}" using D(4) [OF t] a by (simp_all add: knows_def)
  have ins: "inside n s' = inside n s" using inside_jump_same [OF t, of Reopen] a by (auto simp: s' inside_def jump_def)
  have n: "\<not> holds (at s u)" if "u < n" "u \<noteq> t" for u using holders [OF I t _ that] a by simp
  show "knows n s' u" if "u < n" "u \<noteq> t" "knows n s u" for u
    by (rule knows_same [OF that(3) _ _ _ ins]) (use that a waking_same [of n s t s'] in \<open>auto simp: s' jump_def\<close>)
  show "knows n s' t" using w ins by (simp add: knows_def s' jump_def)
  obtain k where k: "round_ok n k s" using I by (auto simp: bw_inv_def)
  have "at s u \<noteq> Reopen" if "u < n" for u using n [OF that] a by (cases "u = t") auto
  then have "round_ok n k s'" using k w t by (auto simp: round_ok_def s' jump_def)
  then show "\<exists>k. round_ok n k s'" ..
  show "returned s' t \<le> gone s' u" if "u < n" for u using D(5) [OF t that] by (simp add: s' jump_def)
qed (use st a bw_inv_D(3) [OF I t] lock_held [OF I t] in \<open>auto simp: shape numbers_ok_def\<close>)

text \<open>Counting out, at once or as the store under the lock.\<close>

lemma count_out_inv:
  assumes I: "bw_inv pg n s" and t: "t < n" and a: "at s t = Dec it \<and> pg \<and> p = Fin1 it \<or> at s t = DecStore it w \<and> p = DecRelease it"
    and s': "s' = jump t p (sev_if e (count_out t (waiting s - 1) s))"
  shows "bw_inv pg n s'"
proof (rule frame [OF I t])
  note D = bw_inv_D [OF I]
  have w: "current_state s" "it = of_nat (gone s t)" using D(4) [OF t] a by (auto simp: knows_def)
  have g: "gone s t = returned s t" "arrived s t = Suc (gone s t)" using D(3) [OF t] a by (auto simp: numbers_ok_def)
  have c: "counted (at s t)" using a by auto
  have n: "at s u \<noteq> DecStore it' w'" if "u < n" "u \<noteq> t" for u it' w'
    using a holders [OF I t _ that] I that(1) by (auto simp: bw_inv_def)
  have wk: "waking n s \<Longrightarrow> waking n s'" using a waking_same [of n s t s'] by (auto simp: s' jump_def count_out_def sev_if_def)
  show "knows n s' u" if "u < n" "u \<noteq> t" "knows n s u" for u
    using n [OF that(1,2)] that w c t a wk [unfolded s'] by (cases "at s u") (auto simp: shape s' count_out_def inside_empty)
  show "knows n s' t" using w g a by (auto simp: shape s' count_out_def)
  show "numbers_ok s' t" using g a by (auto simp: numbers_ok_def s' jump_def count_out_def sev_if_def)
  obtain k where k: "round_ok n k s" using I by (auto simp: bw_inv_def)
  have "(\<exists>u<n. at s' u = Reopen) = (\<exists>u<n. at s u = Reopen)" using a by (auto simp: s' jump_def count_out_def sev_if_def)
  then have "round_ok n k s'" using k w by (auto simp: round_ok_def s' jump_def count_out_def sev_if_def)
  then show "\<exists>k. round_ok n k s'" ..
  show "returned s' t \<le> gone s' u" if "u < n" for u
    using D(5) [OF t that] by (auto simp: s' jump_def count_out_def sev_if_def)
qed (use a s' lock_held [OF I t] in \<open>auto simp: jump_def count_out_def sev_if_def\<close>)

lemma ret_inv:
  assumes I: "bw_inv pg n s" and t: "t < n" and a: "at s t = Fin1 it \<and> iteration s \<noteq> it \<or> at s t = Fin2 it \<and> inside n s = {}"
  shows "bw_inv pg n (ret t s)"
proof (rule frame [OF I t])
  note D = bw_inv_D [OF I]
  have w: "it = of_nat (returned s t)" using D(4) [OF t] a by (auto simp: knows_def)
  have g: "gone s t = Suc (returned s t)" "arrived s t = gone s t" using D(3) [OF t] a by (auto simp: numbers_ok_def)
  obtain k where k: "round_ok n k s" using I by (auto simp: bw_inv_def)
  have all: "gone s t \<le> gone s u" if u: "u < n" for u
  proof (cases "current_state s")
    case True
    then have ar: "arrived s v = Suc k" if "v < n" for v using k that by (auto simp: round_ok_def)
    have "\<not> counted (at s u)"
    proof (cases "inside n s = {}")
      case False
      then have it: "iteration s \<noteq> of_nat k" using a w g(2) ar [OF t] g(1) by auto
      then obtain v where "v < n" "at s v = Reopen" using k True by (auto simp: round_ok_def split: if_splits)
      then show ?thesis using D(4) [of v] u by (auto simp: knows_def inside_empty)
    qed (use u in \<open>simp add: inside_empty\<close>)
    then show ?thesis using D(3) [OF u] ar [OF u] ar [OF t] g(2) by (simp add: numbers_ok_def)
  qed (use k t u in \<open>simp add: round_ok_def\<close>)
  have "\<not> counted (at s t)" using a by auto
  then have i: "inside n (ret t s) = inside n s" by (auto simp: ret_def inside_def jump_def)
  show "knows n (ret t s) u" if "u < n" "u \<noteq> t" "knows n s u" for u
  proof -
    have w: "waking n s \<Longrightarrow> waking n (ret t s)"
      by (rule waking_same [of n s t]) (use a in \<open>auto simp: ret_def jump_def\<close>)
    show ?thesis by (rule knows_same [OF that(3) _ _ _ i _ _ _ disjI2 [OF w]]) (use that(2) in \<open>simp_all add: ret_def jump_def\<close>)
  qed
  have same: "at (ret t s) u = Reopen \<longleftrightarrow> at s u = Reopen" "at (ret t s) u = Full \<longleftrightarrow> at s u = Full"
    "at (ret t s) u = Opening \<longleftrightarrow> at s u = Opening" for u using a by (auto simp: ret_def jump_def)
  have "round_ok n k (ret t s)" using k unfolding round_ok_def i same by (simp add: ret_def jump_def)
  then show "\<exists>k. round_ok n k (ret t s)" ..
  show "returned (ret t s) t \<le> gone (ret t s) u" if "u < n" for u
    using all [OF that] g(1) by (simp add: ret_def jump_def)
qed (use a bw_inv_D(3) [OF I t] in \<open>auto simp: ret_def shape numbers_ok_def\<close>)

lemma bw_access_inv:
  assumes I: "bw_inv pg n s" and t: "t < n" and n: "n < 2 ^ 64" and st: "bw_access pg n t (at s t) s = Some s'"
  shows "bw_inv pg n s'"
proof (cases "at s t")
  case Advance
  then show ?thesis using advance_inv [OF I t _ st] by simp
next
  case Reopen
  then show ?thesis using reopen_inv [OF I t _ st] by simp
next
  case (Store w)
  then show ?thesis using store_inv [OF I t _ st] by simp
next
  case Opening
  then show ?thesis using opening_inv [OF I t _ st] by simp
next
  case (Sleep it)
  then have "event s t" "s' = jump t (Spin it) (s\<lparr>event := (event s)(t := False)\<rparr>)" using st by (simp_all split: if_splits)
  then show ?thesis using Sleep bw_inv_D(4) [OF I t]
    by (intro move_event [OF I t, where p = "Spin it" and ev = "(event s)(t := False)"]) (auto simp: shape)
next
  case (Dec it)
  show ?thesis
  proof (cases pg)
    case True
    then show ?thesis using st Dec
      by (intro count_out_inv [OF I t, where p = "Fin1 it" and e = pg]) (simp_all add: atomic_dec_def)
  next
    case False
    then have st': "take_lock pg t (DecLoad it) s = Some s'" using st Dec by simp
    have "knows n s' t" using st' bw_inv_D(4) [OF I t] Dec False by (auto simp: shape take_lock_def split: option.splits)
    then show ?thesis by (intro take_lock_inv [OF I t st']) (use Dec False in simp_all)
  qed
next
  case (DecLoad it)
  then have "\<not> pg" using I t by (auto simp: bw_inv_def)
  then show ?thesis using st DecLoad bw_inv_D(4) [OF I t]
    by (intro move_only [OF I t, where p = "DecStore it (waiting s)"]) (auto simp: shape)
next
  case (DecStore it w)
  then have "w = waiting s" using bw_inv_D(4) [OF I t] by (simp add: knows_def)
  then show ?thesis using st DecStore
    by (intro count_out_inv [OF I t, where p = "DecRelease it" and e = False]) (simp_all add: sev_if_def)
next
  case (DecRelease it)
  then have st': "drop_lock pg t (Fin1 it) s = Some s'" using st by simp
  have "knows n s' t" using st' bw_inv_D(4) [OF I t] DecRelease by (auto simp: shape drop_lock_def split: option.splits)
  then show ?thesis by (intro drop_lock_inv [OF I t st']) (use DecRelease in simp_all)
next
  case (Fin1 it)
  show ?thesis
  proof (cases "iteration s = it")
    case True
    then show ?thesis using st Fin1 bw_inv_D(4) [OF I t] by (intro move_only [OF I t, where p = "Fin2 it"]) (auto simp: shape)
  next
    case False
    then show ?thesis using st Fin1 ret_inv [OF I t, of it] by simp
  qed
next
  case (Fin2 it)
  show ?thesis
  proof (cases "waiting s = 0")
    case False
    then show ?thesis using st Fin2 bw_inv_D(4) [OF I t] by (intro move_only [OF I t, where p = "Fin1 it"]) (auto simp: shape)
  next
    case True
    then show ?thesis using st Fin2 ret_inv [OF I t, of it] waiting_all(2) [OF I n] by simp
  qed
qed (use moves_inv [OF I t n st] in simp_all)

lemma reach_inv:
  assumes "bw_reach pg n s" "n < 2 ^ 64"
  shows "bw_inv pg n s"
  using assms(1)
proof (induction rule: bw_reach.induct)
  case (step s s')
  from step.hyps(2) show ?case
  proof (cases rule: bw_step.cases)
    case (access t)
    then show ?thesis by (rule bw_access_inv [OF step.IH _ assms(2)])
  qed
qed (rule init_inv)

section \<open>What the barrier promises\<close>

text \<open>
  C1: No CPU comes back from its \<open>k\<close>-th call of the barrier before every CPU has come to its own \<open>k\<close>-th call,
  and has even left its wait there: calls of one round never overlap those of the next, however the accesses
  of the CPUs interleave and however often the barrier is used.
\<close>

theorem barrier_separates_rounds:
  assumes "bw_reach pg n s" "n < 2 ^ 64" "t < n" "u < n"
  shows "returned s t \<le> gone s u"
  using bw_inv_D(5) [OF reach_inv [OF assms(1,2)]] assms(3,4) by blast

text \<open>
  A CPU waits when it is outside, or its next access would leave it where it is, going around a loop or asleep.
\<close>

definition waits :: "bool \<Rightarrow> bw_state \<Rightarrow> nat \<Rightarrow> bool" where
  "waits pg s t \<longleftrightarrow>
     (case at s t of
        Ready \<Rightarrow> True
      | Failed \<Rightarrow> True
      | Acquire \<Rightarrow> bwait_lock s \<noteq> 0
      | Retake \<Rightarrow> bwait_lock s \<noteq> 0
      | Spin it \<Rightarrow> \<not> current_state s
      | Sleep it \<Rightarrow> \<not> (event s t \<and> current_state s)
      | Dec it \<Rightarrow> \<not> pg \<and> bwait_lock s \<noteq> 0
      | Fin1 it \<Rightarrow> iteration s = it \<and> waiting s \<noteq> 0
      | Fin2 it \<Rightarrow> iteration s = it \<and> waiting s \<noteq> 0
      | _ \<Rightarrow> False)"

lemma succ_differs: "(of_nat (Suc k) :: 64 word) \<noteq> of_nat k"
  by simp

lemma not_waiting_moves:
  assumes I: "bw_inv pg n s" and t: "t < n" and "\<not> waits pg s t"
  shows "\<exists>s'. bw_access pg n t (at s t) s = Some s'"
  using assms(3) bw_inv_D(4) [OF I t] lock_held [OF I t]
  by (cases "at s t")
    (auto simp: waits_def knows_def take_lock_def drop_lock_def mutex_lock_def mutex_unlock_def atomic_cas_def)

lemma some_moves:
  assumes I: "bw_inv pg n s" and n: "n < 2 ^ 64" "0 < n"
    and called: "\<And>t. t < n \<Longrightarrow> at s t \<noteq> Ready \<and> at s t \<noteq> Failed"
  shows "\<exists>t<n. \<not> waits pg s t"
proof (rule ccontr)
  assume "\<not> ?thesis"
  then have w: "waits pg s t" if "t < n" for t using that by blast
  note D = bw_inv_D [OF I]
  have nh: "\<not> holds (at s t)" if "t < n" for t
    using w [OF that] called [OF that] D(4) [OF that] by (cases "at s t") (auto simp: waits_def knows_def)
  then have l: "bwait_lock s = 0" using D(7) by auto
  have nw: "\<not> waking n s"
  proof
    assume "waking n s"
    then obtain u where "u < n" "at s u = Wake" by (auto simp: waking_def)
    then show False using nh [of u] by simp
  qed
  obtain k where k: "round_ok n k s" using I by (auto simp: bw_inv_def)
  show False
  proof (cases "current_state s")
    case True
    have nc: "\<not> counted (at s t)" if "t < n" for t
      using w [OF that] called [OF that] D(4) [OF that] l True nw by (cases "at s t") (auto simp: waits_def knows_def)
    then have "waiting s = 0" using waiting_all(2) [OF I n(1)] by (simp add: inside_empty)
    then show False using w [OF n(2)] called [OF n(2)] nc [OF n(2)] D(4) [OF n(2)] l
      by (cases "at s 0") (auto simp: waits_def knows_def)
  next
    case False
    then have it: "iteration s = of_nat k" and g: "\<And>t. t < n \<Longrightarrow> gone s t = k" using k by (auto simp: round_ok_def)
    have "counted (at s t)" if "t < n" for t
      using w [OF that] called [OF that] D(4) [OF that] D(3) [OF that] l False it g [OF that] succ_differs [of "returned s t"]
      by (cases "at s t") (auto simp: waits_def knows_def numbers_ok_def)
    then obtain t where "t < n" "at s t = Full \<or> at s t = Opening"
      using k False n(2) by (auto simp: round_ok_def inside_empty)
    then show False using nh [of t] by auto
  qed
qed

text \<open>
  C2: The barrier does not deadlock and loses no wake-up: while every CPU is in a call, some CPU can take a
  step that is not another turn of a waiting loop.
\<close>

theorem barrier_makes_progress:
  assumes "bw_reach pg n s" "n < 2 ^ 64" "0 < n" "\<forall>t<n. at s t \<noteq> Ready \<and> at s t \<noteq> Failed"
  shows "\<exists>t<n. \<not> waits pg s t \<and> (\<exists>s'. bw_step pg n s s' \<and> bw_access pg n t (at s t) s = Some s')"
proof -
  note I = reach_inv [OF assms(1,2)]
  obtain t where t: "t < n" "\<not> waits pg s t" using some_moves [OF I assms(2,3)] assms(4) by blast
  then show ?thesis using not_waiting_moves [OF I] bw_step.access by blast
qed

section \<open>An example\<close>

text \<open>A run of two CPUs, given by which of them takes each step.\<close>

fun bw_run :: "bool \<Rightarrow> nat \<Rightarrow> nat list \<Rightarrow> bw_state \<Rightarrow> bw_state option" where
  "bw_run pg n [] s = Some s"
| "bw_run pg n (t # ts) s =
     (if t < n then case bw_access pg n t (at s t) s of None \<Rightarrow> None | Some s' \<Rightarrow> bw_run pg n ts s' else None)"

lemma bw_run_reach: "bw_reach pg n s \<Longrightarrow> bw_run pg n ts s = Some s' \<Longrightarrow> bw_reach pg n s'"
proof (induction ts arbitrary: s)
  case (Cons t ts)
  then obtain s1 where "t < n" "bw_access pg n t (at s t) s = Some s1" and r: "bw_run pg n ts s1 = Some s'"
    by (auto split: if_splits option.splits)
  then have "bw_step pg n s s1" by (simp add: bw_step.access)
  then show ?case using Cons.IH [OF bw_reach.step [OF Cons.prems(1)] r] by blast
qed simp

definition one_round :: "nat list" where
  "one_round = replicate 9 0 @ replicate 11 1 @ replicate 4 0 @ replicate 3 1"

lemmas run_eval = bw_run.simps EMPTY_BAR_def jump_def take_lock_def drop_lock_def mutex_lock_def mutex_unlock_def
  atomic_cas_def atomic_dec_def sev_if_def count_out_def ret_def

lemma ex_run: "\<exists>s. bw_run True 2 one_round (EMPTY_BAR (\<lambda>_. True) (\<lambda>_. False)) = Some s \<and>
    at s 0 = Fin1 0 \<and> at s 1 = Ready \<and> returned s 1 = 1 \<and> gone s 0 = 1 \<and> returned s 0 = 0"
  by (simp add: run_eval one_round_def numeral_eq_Suc)

theorem barrier_separates_rounds_witness:
  "\<exists>s. bw_reach True 2 s \<and> returned s 1 = 1 \<and> returned s 0 = 0 \<and> returned s 1 \<le> gone s 0"
proof -
  obtain s where s: "bw_run True 2 one_round (EMPTY_BAR (\<lambda>_. True) (\<lambda>_. False)) = Some s" "returned s 1 = 1" "returned s 0 = 0"
    using ex_run by blast
  have r: "bw_reach True 2 s" by (rule bw_run_reach [OF bw_reach.init s(1)])
  then show ?thesis using barrier_separates_rounds [OF r, of 1 0] s by auto
qed

lemma ex_run_mid: "\<exists>s. bw_run True 2 (replicate 10 0 @ [1]) (EMPTY_BAR (\<lambda>_. True) (\<lambda>_. False)) = Some s \<and>
    at s 0 = Sleep 0 \<and> at s 1 = Acquire"
  by (simp add: run_eval numeral_eq_Suc)

theorem barrier_makes_progress_witness:
  "\<exists>s. bw_reach True 2 s \<and> at s 0 = Sleep 0 \<and>
    (\<exists>t<2. \<not> waits True s t \<and> (\<exists>s'. bw_step True 2 s s' \<and> bw_access True 2 t (at s t) s = Some s'))"
proof -
  obtain s where s: "bw_run True 2 (replicate 10 0 @ [1]) (EMPTY_BAR (\<lambda>_. True) (\<lambda>_. False)) = Some s"
    "at s 0 = Sleep 0" "at s 1 = Acquire" using ex_run_mid by blast
  have r: "bw_reach True 2 s" by (rule bw_run_reach [OF bw_reach.init s(1)])
  have "\<forall>t<2. at s t \<noteq> Ready \<and> at s t \<noteq> Failed" using s(2,3) by (auto simp: less_2_cases_iff)
  from barrier_makes_progress [OF r _ _ this] r s(2) show ?thesis by auto
qed

end
