(* ===== verification/Spec2Isabelle.thy ===== *)
theory Spec2Isabelle
  imports Cpu CpuBoot Bakery VmmTables Rand Base64 FdtTree Frontend InitState HeapProps Arena LitmusHash Barrier
begin

text \<open>
  A model of the system-litmus-harness: a bare-metal AArch64 program that runs litmus tests for the relaxed
  behaviour of virtual memory and exceptions at EL1 and EL0, with its own page tables, allocators, locks,
  printing and result tables. The paths below are those of the repository.

  \<^bold>\<open>The program.\<close> At boot (\<open>cpu_entry.S\<close>, \<open>lib/setup.c\<close>) CPU 0 reads the device tree and the linker's symbols
  and fixes the layout of memory (\<open>lib/arch/device.c\<close>), starts the heap and the allocator of page tables
  (\<open>lib/valloc\<close>), reads the arguments (\<open>lib/config.c\<close>, \<open>lib/argparse.c\<close>) and boots the other CPUs
  (\<open>lib/arch/cpu_boot.c\<close>), each of which builds its own translation table (\<open>lib/arch/vmm\<close>). \<open>litmus/main.c\<close>
  matches the arguments with the names of the tests (\<open>lib/re/re.c\<close>) and runs each match. A test is data with
  functions (\<open>inc/litmus/litmus_test_def.h\<close>); running it reads its initial state into a description of each
  variable (\<open>litmus_test_var_info.c\<close>), chooses an address for each variable of each run
  (\<open>litmus_test_concretization.c\<close> and \<open>concretization/\<close>), writes the initial values and descriptors, runs the
  threads on the CPUs between barriers (\<open>lib/arch/sync.c\<close>), adds what their registers hold to a histogram
  and prints it with a hash of the test (\<open>litmus_test_results.c\<close>, \<open>litmus_test_hash.c\<close>, \<open>lib/hashlib.c\<close>).

  \<^bold>\<open>How the code is modelled.\<close> A struct is a record with the source's fields, an enumeration or tagged union a
  datatype, an integer of 8, 32 or 64 bits a word (\<open>Prelude\<close>: \<open>u8\<close>, \<open>u32\<close>, \<open>u64\<close>), so that arithmetic wraps as
  it does in C; loop counters that cannot wrap are natural numbers. Memory is a function from addresses
  to bytes (\<open>mem8\<close>) where its bytes matter, and to 64-bit entries for the translation tables. A function that
  changes state takes it and returns it. Every \<open>fail\<close>, failed assertion and access out of range is the left side
  of a sum (\<open>rbind\<close>, \<open>rfold\<close>, \<open>rwhile\<close> of \<open>Prelude\<close>), so that each is a branch of the model. A loop is
  recursion over what it runs through; a loop with no such bound is a \<open>while\<close> with fuel for which the
  theorems show a bound, or, where it may run for ever, a \<open>partial_function (option)\<close>. What runs on several
  CPUs at once is a step relation in which each access of shared memory is a step, so that the steps of the
  CPUs interleave in every order; this is sequential consistency, which the barriers of the code are there to
  give. The allocators' clients and the page table allocator of other components are reached through
  interfaces: \<open>codec\<close> (\<open>Prelude\<close>), the allocator contract (\<open>AllocSpec\<close>) and \<open>self_delimiting\<close>
  (\<open>LitmusHash\<close>) are locales, each interpreted on the model's own operations.

  \<^bold>\<open>Parameters.\<close> Values that the program reads from the hardware, the linker or the boot loader are arguments:
  the ID registers, the clock, the seed, the symbols of the image, the bytes of the device tree, and the
  contents of memory that was not written before. The code of the tests' threads is only read, as words, for
  the hash.

  \<^bold>\<open>Translation tables.\<close> \<open>VmmEntries\<close> has the descriptors of \<open>vmm_entries.c\<close> and which of them survive a write
  and a read. \<open>Vmm\<close> has the walks, the updates with break-before-make and TLB maintenance as a trace, and the
  allocator of tables; \<open>VmmEnsure\<close> the splitting of blocks and the leaves of a tree as the abstraction the
  rest is stated in; \<open>VmmMap\<close> the mapping of ranges. \<open>VmmProps\<close> proves that mapping a fresh region gives
  exactly the translation asked for, that valid entries change only through an invalid one with TLB
  maintenance in between, when \<open>vmm_pa\<close> is right, and what splitting a block really writes. \<open>VmmTables\<close> has the
  harness's and the tests' tables and shows that such a table translates exactly the regions of its map.
  \<open>Cpu\<close> has one CPU's registers: features, errata, MMU, stacks, ASIDs and the cleaning of the cache.

  \<^bold>\<open>Boot and layout.\<close> \<open>Bits\<close> has the macros of \<open>bitwise.h\<close> and \<open>bits.c\<close>; \<open>Layout\<close> the layout of memory, shown
  ordered, disjoint and aligned, and the bijection between the physical and virtual addresses of test data.
  \<open>Fdt\<close> has the reader of the device tree over bytes, and \<open>FdtTree\<close> an abstract tree, its flattening and the
  proofs that a search of the bytes finds the first match of the tree. \<open>CpuBoot\<close> has the steps in which CPU 0
  starts the others and hands them functions to run: every schedule ends with each function called once on
  each CPU, in order. \<open>Bakery\<close> is the lock used before the MMU is on, with mutual exclusion for any number
  of CPUs while the tickets do not wrap; \<open>Barrier\<close> is the mutex and the barrier, with the separation of its
  rounds and the absence of deadlock and of lost wake-ups.

  \<^bold>\<open>Allocators.\<close> \<open>Dll\<close> has the doubly linked lists of the heap over a memory of nodes, \<open>Valloc\<close> the heap as the
  code has it, \<open>HeapSpec\<close> the invariant of chunks and blocks as intervals, \<open>VallocProps\<close> the simulation between
  the two and \<open>HeapProps\<close> what clients rely on: fresh, aligned, zeroed blocks, errors exactly when they
  are meant, and soundness of every reachable state. \<open>Arena\<close> is the arena allocator under the same contract.

  \<^bold>\<open>Front end.\<close> \<open>Cstring\<close> has the string functions and numbers, \<open>Base64\<close> the decoder, \<open>Rand\<close> the generator and
  the shuffle, \<open>Regex\<close> the matcher with its explicit stack, shown to end and to decide the meaning of a pattern;
  \<open>Config\<close> the options, their tables and actions, \<open>Frontend\<close> which tests an argument runs and that nothing runs
  when one argument matches nothing. \<open>Printer\<close> has streams and formats: \<open>sprintf\<close> writes exactly the text of its
  format or fails at the end of its buffer.

  \<^bold>\<open>Tests.\<close> \<open>TestDef\<close> is a test as data; \<open>VarInfo\<close> the reading of its initial state, shown well formed, with
  the out-of-range access for an unknown variable; \<open>TestCtx\<close> the context of a test and the order of its
  runs; \<open>Regions\<close> the regions of test data and what pins and offsets ask of them. \<open>Concretize\<close> is the random
  choice of addresses, with the checks after it; \<open>ConcretizeProps\<close> shows that for variables that own
  their regions an attempt never fails and a success passes the checks.
  \<open>ConcBatch\<close> has batches and the other kinds of concretization. \<open>InitState\<close> writes the initial state of a run:
  each page gets the translation of the last variable on it, and the virtual address of each backed
  variable leads to its initial value. \<open>Results\<close> and \<open>Report\<close> collect the histogram and print it;
  \<open>LitmusHash\<close> and \<open>Sha1\<close> compute the test's hash: the SHA-1 of FIPS 180-4 of an encoding of the test that
  loses nothing.

  \<^bold>\<open>Bounds.\<close> The random choice of addresses retries for as long as it is rejected and the matcher of patterns
  backtracks over an explicit stack; both are \<open>partial_function (option)\<close>. The matcher is shown to end on every
  pattern and string. The choice ends or is rejected for ever, depending on the seed; it is shown never to fail
  and to be right when it ends. Loops with fuel: a walk of the device tree has the length of the blob; the
  mapping of a range (\<open>range_fuel\<close>) one more than the pages it has; the lists of the heap the number of their nodes;
  cleaning the cache one more than the lines of the range. Lamport's lock is right as long as no ticket
  reaches \<open>2^32 - 1\<close>; the barrier for fewer than \<open>2^64\<close> CPUs and any number of rounds, the counter of rounds
  wrapping or not; SHA-1 for messages whose padded length the code's 32-bit index reaches.

  \<^bold>\<open>Not modelled.\<close> The drivers, the PSCI and timer calls and the single-instruction wrappers only touch devices
  and registers. The assembly (\<open>cpu_entry.S\<close>, \<open>vector_table.S\<close>, the macros of \<open>litmus_asm_*.h\<close>) and the
  litmus tests themselves are programs for the CPU, whose relaxed semantics is the very thing the harness
  measures and not part of its source. Debug printing, help pages and the unit tests only print. What stays
  outside of a component that is modelled is said in its theory.
\<close>

end
